(* ===== verification/Tdb_Prelude.thy ===== *)
theory Tdb_Prelude
  imports Main "HOL-Library.Word"
begin

text \<open>
  The shared vocabulary of the development: machine arithmetic on sizes, regions of memory as
  byte lists, the little-endian layout of fixed-width integers, and the results of fallible
  calls.

  \<^item> Sizes, counts and offsets of the code are \<open>uint64_t\<close>. They are natural numbers here, with the
    wrap-around modulo \<open>2 ^ 64\<close> written out by \<open>add64\<close>, \<open>sub64\<close> and \<open>mul64\<close>.
  \<^item> Cell values of a template parameter \<open>T\<close> are words \<open>'a word\<close>, so one definition serves
    every instantiation of the template.
  \<^item> A call either returns or ends in an \<open>error\<close>: a \<open>Status\<close> other than Ok, an assertion that
    does not hold, undefined behaviour (a read or write outside a region, a dereferenced stale
    iterator), an exception that is not caught, or a loop that never ends.
\<close>

section \<open>Collections of rewrite rules\<close>

named_theorems u64_simps \<open>machine arithmetic, under bounds that exclude wrap-around\<close>
named_theorems mem_simps \<open>regions of memory: slices and overwrites\<close>
named_theorems res_simps \<open>inversion of successful calls\<close>

section \<open>Unsigned 64-bit sizes\<close>

type_synonym byte = "8 word"

definition u64_max :: nat where
  "u64_max = 2 ^ 64 - 1"

definition add64 :: "nat \<Rightarrow> nat \<Rightarrow> nat" where
  "add64 a b = (a + b) mod 2 ^ 64"

definition sub64 :: "nat \<Rightarrow> nat \<Rightarrow> nat" where
  "sub64 a b = (a + (2 ^ 64 - b mod 2 ^ 64)) mod 2 ^ 64"

definition mul64 :: "nat \<Rightarrow> nat \<Rightarrow> nat" where
  "mul64 a b = (a * b) mod 2 ^ 64"

lemma add64_exact [u64_simps]: "a + b < 2 ^ 64 \<Longrightarrow> add64 a b = a + b"
  by (simp add: add64_def)

lemma sub64_exact [u64_simps]:
  assumes "b \<le> a" and "a < 2 ^ 64"
  shows "sub64 a b = a - b"
proof -
  have "b mod 2 ^ 64 = b" using assms by simp
  moreover have "a + (2 ^ 64 - b) = (a - b) + 2 ^ 64" using assms by simp
  ultimately have "sub64 a b = ((a - b) + 2 ^ 64) mod 2 ^ 64" by (simp only: sub64_def)
  also have "\<dots> = a - b" using assms by (simp only: mod_add_self2) simp
  finally show ?thesis .
qed

lemma mul64_exact [u64_simps]: "a * b < 2 ^ 64 \<Longrightarrow> mul64 a b = a * b"
  by (simp add: mul64_def)

lemma add64_bound [simp]: "add64 a b < 2 ^ 64"
  by (simp add: add64_def)

lemma sub64_bound [simp]: "sub64 a b < 2 ^ 64"
  by (simp add: sub64_def)

lemma mul64_bound [simp]: "mul64 a b < 2 ^ 64"
  by (simp add: mul64_def)

lemma add64_0 [simp]: "a < 2 ^ 64 \<Longrightarrow> add64 a 0 = a" "a < 2 ^ 64 \<Longrightarrow> add64 0 a = a"
  by (simp_all add: add64_def)

text \<open>The same for the 32-bit sizes of chunks, parts and windows.\<close>

definition u32 :: "nat \<Rightarrow> nat" where
  "u32 n = n mod 2 ^ 32"

definition sub32 :: "nat \<Rightarrow> nat \<Rightarrow> nat" where
  "sub32 a b = (a + (2 ^ 32 - b mod 2 ^ 32)) mod 2 ^ 32"

lemma u32_exact [u64_simps]: "n < 2 ^ 32 \<Longrightarrow> u32 n = n"
  by (simp add: u32_def)

lemma sub32_exact [u64_simps]:
  assumes "b \<le> a" and "a < 2 ^ 32"
  shows "sub32 a b = a - b"
proof -
  have "b mod 2 ^ 32 = b" using assms by simp
  moreover have "a + (2 ^ 32 - b) = (a - b) + 2 ^ 32" using assms by simp
  ultimately have "sub32 a b = ((a - b) + 2 ^ 32) mod 2 ^ 32" by (simp only: sub32_def)
  also have "\<dots> = a - b" using assms by (simp only: mod_add_self2) simp
  finally show ?thesis .
qed

section \<open>Results of fallible calls\<close>

definition bindR :: "'e + 'a \<Rightarrow> ('a \<Rightarrow> 'e + 'b) \<Rightarrow> 'e + 'b" where
  "bindR m f = (case m of Inl e \<Rightarrow> Inl e | Inr x \<Rightarrow> f x)"

lemma bindR_simps [simp]: "bindR (Inl e) f = Inl e" "bindR (Inr x) f = f x"
  by (simp_all add: bindR_def)

lemma bindR_Inr [res_simps]: "bindR m f = Inr y \<longleftrightarrow> (\<exists>x. m = Inr x \<and> f x = Inr y)"
  by (cases m) auto

lemma Inr_bindR [res_simps]: "Inr y = bindR m f \<longleftrightarrow> (\<exists>x. m = Inr x \<and> f x = Inr y)"
  by (cases m) auto

lemma bindR_Inl: "bindR m f = Inl e \<longleftrightarrow> m = Inl e \<or> (\<exists>x. m = Inr x \<and> f x = Inl e)"
  by (cases m) auto

lemma bindR_assoc: "bindR (bindR m f) g = bindR m (\<lambda>x. bindR (f x) g)"
  by (cases m) auto

lemma bindR_cong [fundef_cong]:
  "m = m' \<Longrightarrow> (\<And>x. m' = Inr x \<Longrightarrow> f x = f' x) \<Longrightarrow> bindR m f = bindR m' f'"
  by (cases m') auto

text \<open>The loop \<open>for (x : xs) RETURN_NOT_OK(f(x))\<close> over a state.\<close>

fun foldR :: "('s \<Rightarrow> 'a \<Rightarrow> 'e + 's) \<Rightarrow> 's \<Rightarrow> 'a list \<Rightarrow> 'e + 's" where
  "foldR f s [] = Inr s"
| "foldR f s (x # xs) = bindR (f s x) (\<lambda>s'. foldR f s' xs)"

lemma foldR_append: "foldR f s (xs @ ys) = bindR (foldR f s xs) (\<lambda>s'. foldR f s' ys)"
  by (induction xs arbitrary: s) (simp_all add: bindR_assoc)

lemma foldR_invariant:
  assumes "foldR f s xs = Inr t" and "P s"
    and "\<And>s x s'. P s \<Longrightarrow> x \<in> set xs \<Longrightarrow> f s x = Inr s' \<Longrightarrow> P s'"
  shows "P t"
  using assms
proof (induction xs arbitrary: s)
  case (Cons x xs)
  from Cons.prems(1) obtain s' where s': "f s x = Inr s'" "foldR f s' xs = Inr t"
    by (auto simp: bindR_Inr)
  have "P s'" using Cons.prems(3) [OF Cons.prems(2) _ s'(1)] by simp
  then show ?case
    by (rule Cons.IH [OF s'(2)]) (use Cons.prems(3) in auto)
qed simp

section \<open>Regions of memory\<close>

definition slice :: "'a list \<Rightarrow> nat \<Rightarrow> nat \<Rightarrow> 'a list" where
  "slice d off n = take n (drop off d)"

definition overwrite :: "'a list \<Rightarrow> nat \<Rightarrow> 'a list \<Rightarrow> 'a list" where
  "overwrite d off src = take off d @ src @ drop (off + length src) d"

lemma length_slice [mem_simps]: "off + n \<le> length d \<Longrightarrow> length (slice d off n) = n"
  by (simp add: slice_def)

lemma length_overwrite [mem_simps]:
  "off + length src \<le> length d \<Longrightarrow> length (overwrite d off src) = length d"
  by (simp add: overwrite_def)

lemma slice_0 [simp]: "slice d off 0 = []"
  by (simp add: slice_def)

lemma overwrite_Nil [simp]: "overwrite d off [] = d"
  by (simp add: overwrite_def)

lemma slice_overwrite [mem_simps]:
  "off + length src \<le> length d \<Longrightarrow> slice (overwrite d off src) off (length src) = src"
  by (simp add: slice_def overwrite_def)

lemma take_overwrite [mem_simps]:
  "off + length src \<le> length d \<Longrightarrow> take off (overwrite d off src) = take off d"
  by (simp add: overwrite_def)

lemma take_overwrite_end [mem_simps]:
  "off + length src \<le> length d \<Longrightarrow>
   take (off + length src) (overwrite d off src) = take off d @ src"
  by (simp add: overwrite_def)

lemma drop_overwrite_end [mem_simps]:
  "off + length src \<le> length d \<Longrightarrow>
   drop (off + length src) (overwrite d off src) = drop (off + length src) d"
  by (simp add: overwrite_def)

lemma slice_append_slice: "slice d off m @ slice d (off + m) n = slice d off (m + n)"
  by (simp add: slice_def take_add add.commute)

lemma slice_take [mem_simps]: "off + n \<le> k \<Longrightarrow> slice (take k d) off n = slice d off n"
  by (simp add: slice_def drop_take min_def)

section \<open>Little-endian integers\<close>

text \<open>
  The code writes integers by copying their object representation; the layout is the
  little-endian one of the supported platforms. \<open>le_bytes k w\<close> are the \<open>k\<close> bytes of \<open>w\<close>, lowest first;
  \<open>of_le\<close> reads them back at the width of the result.
\<close>

definition le_bytes :: "nat \<Rightarrow> 'a::len word \<Rightarrow> byte list" where
  "le_bytes k w = map (\<lambda>i. ucast (drop_bit (8 * i) w)) [0..<k]"

fun of_le :: "byte list \<Rightarrow> 'a::len word" where
  "of_le [] = 0"
| "of_le (b # bs) = or (ucast b) (push_bit 8 (of_le bs))"

lemma length_le_bytes [simp]: "length (le_bytes k w) = k"
  by (simp add: le_bytes_def)

lemma bit_of_le:
  "bit (of_le bs :: 'a::len word) i \<longleftrightarrow>
     i < LENGTH('a) \<and> i div 8 < length bs \<and> bit (bs ! (i div 8)) (i mod 8)"
proof (induction bs arbitrary: i)
  case (Cons b bs)
  show ?case
  proof (cases "i < 8")
    case True
    then show ?thesis by (auto simp: bit_simps dest: bit_imp_le_length)
  next
    case False
    then obtain j where j: "i = j + 8" by (metis add.commute le_Suc_ex not_less)
    have "\<not> bit b i" using False bit_imp_le_length [of b i] by auto
    moreover have "i div 8 = Suc (j div 8)" "i mod 8 = j mod 8" using j by simp_all
    ultimately show ?thesis
      using Cons.IH [of j] j by (simp add: bit_simps) linarith
  qed
qed simp

lemma of_le_le_bytes:
  assumes "LENGTH('a) \<le> 8 * k"
  shows "of_le (le_bytes k (w :: 'a::len word)) = w"
proof (rule bit_word_eqI)
  fix n assume n: "n < LENGTH('a)"
  have le: "bit (le_bytes k w ! q) r \<longleftrightarrow> r < 8 \<and> bit w (8 * q + r)" if "q < k" for q r
    using that by (auto simp: le_bytes_def bit_simps)
  from n have "n div 8 < k" using assms by (simp add: less_mult_imp_div_less mult.commute)
  then show "bit (of_le (le_bytes k w) :: 'a word) n = bit w n"
    using n by (simp add: bit_of_le le)
qed

lemma le_bytes_of_le:
  assumes "length bs = k" and "8 * k \<le> LENGTH('a)"
  shows "le_bytes k (of_le bs :: 'a::len word) = bs"
proof (rule nth_equalityI)
  fix i assume "i < length (le_bytes k (of_le bs :: 'a word))"
  then have i: "i < k" by simp
  show "le_bytes k (of_le bs :: 'a word) ! i = bs ! i"
  proof (rule bit_word_eqI)
    fix n :: nat assume "n < LENGTH(8)"
    then have n: "n < 8" by simp
    then have "8 * i + n < LENGTH('a)" using i assms(2) by linarith
    moreover have "(8 * i + n) div 8 = i" "(8 * i + n) mod 8 = n" using n by simp_all
    ultimately show "bit (le_bytes k (of_le bs :: 'a word) ! i) n = bit (bs ! i) n"
      using i n assms(1) by (simp add: le_bytes_def bit_simps bit_of_le)
  qed
qed (simp add: assms)

text \<open>The number of bytes of a template parameter.\<close>

definition sizeof :: "'a::len itself \<Rightarrow> nat" where
  "sizeof _ = LENGTH('a) div 8"

end
