(* ===== verification/Tdb_Status.thy ===== *)
theory Tdb_Status
  imports Tdb_Prelude
begin

text \<open>
  Class \<open>Status\<close> (\<open>misc/status.h\<close>, \<open>misc/status.cc\<close>): the codes, the packed byte array
  \<open>state_\<close> that holds length, code, POSIX code and message, and its accessors. The last section
  has the errors of the model: a call that returns a \<open>Status\<close> other than Ok ends in
  \<open>Err code message\<close>.
\<close>

section \<open>Status codes\<close>

datatype StatusCode =
    SC_Ok | SC_Error | SC_StorageManager | SC_FragmentMetadata | SC_ArraySchema |
    SC_Metadata | SC_IO | SC_Mem | SC_GZip | SC_Compression | SC_Tile | SC_TileIO |
    SC_ChunkedBuffer | SC_Buffer | SC_Query | SC_VFS | SC_ConstBuffer | SC_Dimension |
    SC_Domain | SC_Consolidator | SC_LRUCache | SC_KV | SC_KVItem | SC_KVIter | SC_Config |
    SC_Utils | SC_FS_S3 | SC_FS_AZURE | SC_FS_GCS | SC_FS_HDFS | SC_Attribute |
    SC_WriteCellSlabIter | SC_Reader | SC_Writer | SC_PreallocatedBuffer | SC_Filter |
    SC_Encryption | SC_Array | SC_VFSFileHandleError | SC_ContextError | SC_SubarrayError |
    SC_SubarrayPartitionerError | SC_RTreeError | SC_CellSlabIterError | SC_RestError |
    SC_SerializationError | SC_ChecksumError

text \<open>The enumerators in declaration order; the code of an enumerator is its position.\<close>

definition status_codes :: "StatusCode list" where
  "status_codes = [
    SC_Ok, SC_Error, SC_StorageManager, SC_FragmentMetadata, SC_ArraySchema, SC_Metadata,
    SC_IO, SC_Mem, SC_GZip, SC_Compression, SC_Tile, SC_TileIO, SC_ChunkedBuffer,
    SC_Buffer, SC_Query, SC_VFS, SC_ConstBuffer, SC_Dimension, SC_Domain, SC_Consolidator,
    SC_LRUCache, SC_KV, SC_KVItem, SC_KVIter, SC_Config, SC_Utils, SC_FS_S3, SC_FS_AZURE,
    SC_FS_GCS, SC_FS_HDFS, SC_Attribute, SC_WriteCellSlabIter, SC_Reader, SC_Writer,
    SC_PreallocatedBuffer, SC_Filter, SC_Encryption, SC_Array, SC_VFSFileHandleError,
    SC_ContextError, SC_SubarrayError, SC_SubarrayPartitionerError, SC_RTreeError,
    SC_CellSlabIterError, SC_RestError, SC_SerializationError, SC_ChecksumError]"

definition code_num :: "StatusCode \<Rightarrow> nat" where
  "code_num c = length (takeWhile (\<lambda>x. x \<noteq> c) status_codes)"

definition num_code :: "nat \<Rightarrow> StatusCode option" where
  "num_code n = (if n < length status_codes then Some (status_codes ! n) else None)"

section \<open>Errors of the model\<close>

datatype error =
    Err StatusCode string
  | AssertFail
  | UB
  | Diverges
  | Throws string
  | SharedWrite

type_synonym 'a result = "error + 'a"

section \<open>The packed state\<close>

type_synonym status = "byte list option"

definition string_bytes :: "string \<Rightarrow> byte list" where
  "string_bytes s = map (\<lambda>c. of_nat (of_char c)) s"

definition bytes_string :: "byte list \<Rightarrow> string" where
  "bytes_string bs = map (\<lambda>b. char_of (unat b)) bs"

definition status_ok :: status where
  "status_ok = None"

text \<open>
  The size of the message is a \<open>uint32_t\<close>, and so is the size of the array, \<open>size + 7\<close>; the message is copied
  with its own size. An array that is too small is written past its end.
\<close>

definition status_new :: "StatusCode \<Rightarrow> string \<Rightarrow> 16 word \<Rightarrow> status result" where
  "status_new code msg posix_code =
     (if code = SC_Ok then Inl AssertFail
      else let msg_size = length msg; size = u32 msg_size; room = u32 (size + 7) in
        if room < 7 + msg_size then Inl UB
        else Inr (Some (le_bytes 4 (of_nat size :: 32 word) @ [of_nat (code_num code)]
                        @ le_bytes 2 posix_code @ string_bytes msg)))"

definition is_ok :: "status \<Rightarrow> bool" where
  "is_ok s = (s = None)"

definition status_code :: "status \<Rightarrow> StatusCode option" where
  "status_code s = (case s of None \<Rightarrow> Some SC_Ok | Some st \<Rightarrow> num_code (unat (st ! 4)))"

definition status_message :: "byte list \<Rightarrow> string" where
  "status_message st =
     bytes_string (slice st 7 (unat (of_le (slice st 0 4) :: 32 word)))"

definition posix_code :: "status \<Rightarrow> 16 word" where
  "posix_code s = (case s of None \<Rightarrow> - 1 | Some st \<Rightarrow> of_le (slice st 5 2))"

definition copy_state :: "byte list \<Rightarrow> byte list result" where
  "copy_state st =
     (if length st < 4 then Inl UB
      else let room = u32 (unat (of_le (slice st 0 4) :: 32 word) + 7) in
        if length st < room then Inl UB else Inr (slice st 0 room))"

primrec code_str :: "StatusCode \<Rightarrow> string" where
  "code_str SC_Ok = ''Ok''"
| "code_str SC_Error = ''Error''"
| "code_str SC_StorageManager = ''[TileDB::StorageManager] Error''"
| "code_str SC_FragmentMetadata = ''[TileDB::FragmentMetadata] Error''"
| "code_str SC_ArraySchema = ''[TileDB::ArraySchema] Error''"
| "code_str SC_Metadata = ''[TileDB::Metadata] Error''"
| "code_str SC_IO = ''[TileDB::IO] Error''"
| "code_str SC_Mem = ''[TileDB::Mem] Error''"
| "code_str SC_GZip = ''[TileDB::GZip] Error''"
| "code_str SC_Compression = ''[TileDB::Compression] Error''"
| "code_str SC_ChunkedBuffer = ''[TileDB::ChunkedBuffer] Error''"
| "code_str SC_Tile = ''[TileDB::Tile] Error''"
| "code_str SC_TileIO = ''[TileDB::TileIO] Error''"
| "code_str SC_Buffer = ''[TileDB::Buffer] Error''"
| "code_str SC_Query = ''[TileDB::Query] Error''"
| "code_str SC_VFS = ''[TileDB::VFS] Error''"
| "code_str SC_ConstBuffer = ''[TileDB::ConstBuffer] Error''"
| "code_str SC_Dimension = ''[TileDB::Dimension] Error''"
| "code_str SC_Domain = ''[TileDB::Domain] Error''"
| "code_str SC_Consolidator = ''[TileDB::Consolidator] Error''"
| "code_str SC_LRUCache = ''[TileDB::LRUCache] Error''"
| "code_str SC_KV = ''[TileDB::KV] Error''"
| "code_str SC_KVItem = ''[TileDB::KVItem] Error''"
| "code_str SC_KVIter = ''[TileDB::KVIter] Error''"
| "code_str SC_Config = ''[TileDB::Config] Error''"
| "code_str SC_Utils = ''[TileDB::Utils] Error''"
| "code_str SC_FS_S3 = ''[TileDB::S3] Error''"
| "code_str SC_FS_HDFS = ''[TileDB::HDFS] Error''"
| "code_str SC_Attribute = ''[TileDB::Attribute] Error''"
| "code_str SC_WriteCellSlabIter = ''[TileDB::WriteCellSlabIter] Error''"
| "code_str SC_Reader = ''[TileDB::Reader] Error''"
| "code_str SC_Writer = ''[TileDB::Writer] Error''"
| "code_str SC_PreallocatedBuffer = ''[TileDB::PreallocatedBuffer] Error''"
| "code_str SC_Filter = ''[TileDB::Filter] Error''"
| "code_str SC_Encryption = ''[TileDB::Encryption] Error''"
| "code_str SC_Array = ''[TileDB::Array] Error''"
| "code_str SC_VFSFileHandleError = ''[TileDB::VFSFileHandle] Error''"
| "code_str SC_ContextError = ''[TileDB::Context] Error''"
| "code_str SC_SubarrayError = ''[TileDB::Subarray] Error''"
| "code_str SC_SubarrayPartitionerError = ''[TileDB::SubarrayPartitioner] Error''"
| "code_str SC_RTreeError = ''[TileDB::RTree] Error''"
| "code_str SC_CellSlabIterError = ''[TileDB::CellSlabIter] Error''"
| "code_str SC_RestError = ''[TileDB::REST] Error''"
| "code_str SC_SerializationError = ''[TileDB::Serialization] Error''"
| "code_str SC_FS_AZURE = ''[TileDB::?] Error:''"
| "code_str SC_FS_GCS = ''[TileDB::?] Error:''"
| "code_str SC_ChecksumError = ''[TileDB::?] Error:''"

definition code_to_string :: "status \<Rightarrow> string" where
  "code_to_string s = (case s of None \<Rightarrow> ''Ok''
     | Some _ \<Rightarrow> (case status_code s of None \<Rightarrow> ''[TileDB::?] Error:'' | Some c \<Rightarrow> code_str c))"

definition status_to_string :: "status \<Rightarrow> string" where
  "status_to_string s = (case s of None \<Rightarrow> code_to_string s
     | Some st \<Rightarrow> code_to_string s @ '': '' @ status_message st)"

section \<open>The status of a result\<close>

definition status_of :: "'a result \<Rightarrow> status option" where
  "status_of r = (case r of Inr _ \<Rightarrow> Some status_ok
     | Inl (Err c m) \<Rightarrow> (case status_new c m (- 1) of Inr s \<Rightarrow> Some s | Inl _ \<Rightarrow> None)
     | Inl _ \<Rightarrow> None)"

text \<open>
  A call that is safe: it returns a value with the given property or a status, and runs into no
  assertion, undefined behaviour, exception or endless loop.
\<close>

definition returns :: "('a \<Rightarrow> bool) \<Rightarrow> 'a result \<Rightarrow> bool" where
  "returns P r \<longleftrightarrow> (case r of Inr x \<Rightarrow> P x | Inl (Err _ _) \<Rightarrow> True | Inl _ \<Rightarrow> False)"

lemma returns_simps [simp]:
  "returns P (Inr x) = P x" "returns P (Inl (Err c m))" "\<not> returns P (Inl AssertFail)"
  "\<not> returns P (Inl UB)" "\<not> returns P (Inl Diverges)" "\<not> returns P (Inl (Throws s))"
  "\<not> returns P (Inl SharedWrite)"
  by (simp_all add: returns_def)

lemma returns_iff: "returns P r \<longleftrightarrow> (\<exists>x. r = Inr x \<and> P x) \<or> (\<exists>c m. r = Inl (Err c m))"
  by (auto simp: returns_def split: sum.splits error.splits)

lemma returns_bindR:
  "returns P m \<Longrightarrow> (\<And>x. m = Inr x \<Longrightarrow> P x \<Longrightarrow> returns Q (f x)) \<Longrightarrow> returns Q (bindR m f)"
  by (auto simp: returns_iff)

lemma returns_mono: "returns P r \<Longrightarrow> (\<And>x. P x \<Longrightarrow> Q x) \<Longrightarrow> returns Q r"
  by (auto simp: returns_iff)

lemma returns_foldR:
  assumes "P s" and "\<And>s x. P s \<Longrightarrow> x \<in> set xs \<Longrightarrow> returns P (f s x)"
  shows "returns P (foldR f s xs)"
  using assms
proof (induction xs arbitrary: s)
  case (Cons x xs)
  have "returns P (f s x)" by (rule Cons.prems(2) [OF Cons.prems(1)]) simp
  then show ?case unfolding foldR.simps
  proof (rule returns_bindR)
    fix s' assume "P s'"
    then show "returns P (foldR f s' xs)" by (rule Cons.IH) (rule Cons.prems(2), simp_all)
  qed
qed simp

section \<open>Properties\<close>

lemma length_string_bytes [simp]: "length (string_bytes s) = length s"
  by (simp add: string_bytes_def)

lemma bytes_string_string_bytes [simp]: "bytes_string (string_bytes s) = s"
proof -
  have "char_of (unat (of_nat (of_char c) :: byte)) = c" for c :: char
  proof -
    have "(of_char c :: nat) < 256" by (rule nat_of_char_less_256)
    then have "unat (of_nat (of_char c) :: byte) = of_char c"
      by (simp add: unat_of_nat)
    then show ?thesis by simp
  qed
  then show ?thesis by (simp add: string_bytes_def bytes_string_def comp_def)
qed

lemma status_codes_all: "c \<in> set status_codes"
  by (cases c) (simp_all add: status_codes_def)

lemma code_num_less: "code_num c < 47"
proof -
  have "takeWhile (\<lambda>x. x \<noteq> c) status_codes \<noteq> status_codes"
    using status_codes_all [of c] by (auto simp: takeWhile_eq_all_conv)
  then have "code_num c < length status_codes"
    unfolding code_num_def
    by (metis le_neq_implies_less length_takeWhile_le takeWhile_eq_take take_all_iff)
  then show ?thesis by (simp add: status_codes_def)
qed

lemma num_code_code_num [simp]: "num_code (code_num c) = Some c"
proof -
  have len: "length status_codes = 47" by (simp add: status_codes_def)
  then have "code_num c < length status_codes" using code_num_less by simp
  then show ?thesis
    using nth_length_takeWhile [of "\<lambda>x. x \<noteq> c" status_codes]
    by (simp add: num_code_def code_num_def)
qed

lemma unat_code_byte [simp]: "unat (of_nat (code_num c) :: byte) = code_num c"
  using code_num_less [of c] by (simp add: unat_of_nat)

text \<open>The array of a status whose message fits.\<close>

definition state_array :: "StatusCode \<Rightarrow> string \<Rightarrow> 16 word \<Rightarrow> byte list" where
  "state_array code msg p = le_bytes 4 (of_nat (length msg) :: 32 word) @ [of_nat (code_num code)] @ le_bytes 2 p @ string_bytes msg"

lemma state_array_fields:
  "length (state_array code msg p) = 7 + length msg"
  "slice (state_array code msg p) 0 4 = le_bytes 4 (of_nat (length msg) :: 32 word)"
  "slice (state_array code msg p) 5 2 = le_bytes 2 p"
  "state_array code msg p ! 4 = of_nat (code_num code)"
  "slice (state_array code msg p) 7 (length msg) = string_bytes msg"
  by (simp_all add: state_array_def slice_def nth_append)

lemma status_new_cases:
  "status_new code msg p =
     (if code = SC_Ok then Inl AssertFail else if 2 ^ 32 - 7 \<le> length msg then Inl UB else Inr (Some (state_array code msg p)))"
proof -
  have "u32 (u32 (length msg) + 7) < 7 + length msg" if "2 ^ 32 - 7 \<le> length msg"
  proof -
    have "u32 (u32 (length msg) + 7) < 2 ^ 32" by (simp add: u32_def)
    then show ?thesis using that by simp
  qed
  moreover have "u32 (length msg) = length msg" "u32 (length msg + 7) = length msg + 7" if "\<not> 2 ^ 32 - 7 \<le> length msg"
    using that by (simp_all add: u32_def)
  ultimately show ?thesis by (auto simp: status_new_def state_array_def Let_def)
qed

text \<open>
  C26: An error status is packed into an array of bytes and read back without loss: for every code
  other than Ok and every message of less than \<open>2\<^sup>3\<^sup>2 - 7\<close> characters, the code, the message and the POSIX code are the ones
  given, and a copy of the array is the same array. The code Ok fails the assertion of the constructor, and with a longer
  message the size of the array wraps to a small number and the constructor writes past its end.
\<close>

theorem status_round_trip:
  "if code = SC_Ok then status_new code msg p = Inl AssertFail
   else if 2 ^ 32 - 7 \<le> length msg then status_new code msg p = Inl UB
   else \<exists>st. status_new code msg p = Inr (Some st) \<and> status_code (Some st) = Some code \<and> status_message st = msg
          \<and> posix_code (Some st) = p \<and> copy_state st = Inr st"
proof (cases "code = SC_Ok \<or> 2 ^ 32 - 7 \<le> length msg")
  case False
  let ?st = "state_array code msg p"
  have size: "unat (of_le (slice ?st 0 4) :: 32 word) = length msg"
    using False by (simp add: state_array_fields of_le_le_bytes unat_of_nat)
  have "u32 (length msg + 7) = length ?st" using False by (simp add: u32_def state_array_fields)
  then have "copy_state ?st = Inr ?st" using size by (simp add: copy_state_def slice_def state_array_fields(1))
  moreover have "status_code (Some ?st) = Some code" "posix_code (Some ?st) = p" "status_message ?st = msg"
    using size by (simp_all add: status_code_def posix_code_def status_message_def state_array_fields of_le_le_bytes)
  ultimately show ?thesis using False by (simp add: status_new_cases)
qed (auto simp: status_new_cases)

theorem status_round_trip_witness:
  "\<exists>st. status_new SC_Buffer ''Read failed'' (- 1) = Inr (Some st) \<and> status_message st = ''Read failed''"
  using status_round_trip [of SC_Buffer "''Read failed''" "- 1"] by auto

end
