(* ===== verification/Tdb_Enums.thy ===== *)
theory Tdb_Enums
  imports Tdb_Status
begin

text \<open>
  The enumerations of \<open>enums/*.h\<close> with their string representations (the constants of
  \<open>misc/constants.cc\<close>), and the functions on \<open>Datatype\<close> that the filters and the array
  schema dispatch on. \<open>x_str\<close> prints an enumerator, \<open>x_enum\<close> parses one and fails with an
  \<open>Error\<close> status on any other string.
\<close>

section \<open>The contract of a printed enumeration\<close>

locale str_enum =
  fixes to_str :: "'a \<Rightarrow> string"
    and of_str :: "string \<Rightarrow> 'a result"
    and printable :: "'a \<Rightarrow> bool"
  assumes of_to: "printable x \<Longrightarrow> of_str (to_str x) = Inr x"
    and to_of: "of_str s = Inr x \<Longrightarrow> to_str x = s \<and> printable x"
begin

lemma parse_iff: "printable x \<Longrightarrow> of_str s = Inr x \<longleftrightarrow> to_str x = s"
  using of_to to_of by blast

lemma print_inj: "printable x \<Longrightarrow> printable y \<Longrightarrow> to_str x = to_str y \<longleftrightarrow> x = y"
  by (metis of_to sum.inject(2))

lemma parse_fails: "(\<exists>e. of_str s = Inl e) \<longleftrightarrow> (\<forall>x. printable x \<longrightarrow> to_str x \<noteq> s)"
  by (metis Inl_Inr_False of_to sumE to_of)

end

section \<open>Layout\<close>

datatype Layout =
    ROW_MAJOR | COL_MAJOR | GLOBAL_ORDER | UNORDERED

primrec layout_str :: "Layout \<Rightarrow> string" where
  "layout_str ROW_MAJOR = ''row-major''"
| "layout_str COL_MAJOR = ''col-major''"
| "layout_str GLOBAL_ORDER = ''global-order''"
| "layout_str UNORDERED = ''unordered''"

definition layout_enum :: "string \<Rightarrow> Layout result" where
  "layout_enum s =
    (if s = ''col-major'' then Inr COL_MAJOR
     else if s = ''row-major'' then Inr ROW_MAJOR
     else if s = ''global-order'' then Inr GLOBAL_ORDER
     else if s = ''unordered'' then Inr UNORDERED
     else Inl (Err SC_Error (''Invalid Layout '' @ s)))"

interpretation en_layout: str_enum layout_str layout_enum "\<lambda>_. True"
proof unfold_locales
  fix x :: Layout
  assume "True"
  then show "layout_enum (layout_str x) = Inr x" by (cases x) (simp_all add: layout_enum_def)
next
  fix s x
  assume "layout_enum s = Inr x"
  then show "layout_str x = s \<and> True"
    by (auto simp: layout_enum_def split: if_splits)
qed

section \<open>ArrayType\<close>

datatype ArrayType =
    DENSE | SPARSE

primrec array_type_str :: "ArrayType \<Rightarrow> string" where
  "array_type_str DENSE = ''dense''"
| "array_type_str SPARSE = ''sparse''"

definition array_type_enum :: "string \<Rightarrow> ArrayType result" where
  "array_type_enum s =
    (if s = ''dense'' then Inr DENSE
     else if s = ''sparse'' then Inr SPARSE
     else Inl (Err SC_Error (''Invalid ArrayType '' @ s)))"

interpretation en_array_type: str_enum array_type_str array_type_enum "\<lambda>_. True"
proof unfold_locales
  fix x :: ArrayType
  assume "True"
  then show "array_type_enum (array_type_str x) = Inr x" by (cases x) (simp_all add: array_type_enum_def)
next
  fix s x
  assume "array_type_enum s = Inr x"
  then show "array_type_str x = s \<and> True"
    by (auto simp: array_type_enum_def split: if_splits)
qed

section \<open>Datatype\<close>

datatype Datatype =
    INT32 | INT64 | FLOAT32 | FLOAT64 | CHAR_T | INT8 | UINT8 | INT16 | UINT16 | UINT32 |
    UINT64 | STRING_ASCII | STRING_UTF8 | STRING_UTF16 | STRING_UTF32 | STRING_UCS2 |
    STRING_UCS4 | ANY | DATETIME_YEAR | DATETIME_MONTH | DATETIME_WEEK | DATETIME_DAY |
    DATETIME_HR | DATETIME_MIN | DATETIME_SEC | DATETIME_MS | DATETIME_US | DATETIME_NS |
    DATETIME_PS | DATETIME_FS | DATETIME_AS

primrec datatype_str :: "Datatype \<Rightarrow> string" where
  "datatype_str INT32 = ''INT32''"
| "datatype_str INT64 = ''INT64''"
| "datatype_str FLOAT32 = ''FLOAT32''"
| "datatype_str FLOAT64 = ''FLOAT64''"
| "datatype_str CHAR_T = ''CHAR''"
| "datatype_str INT8 = ''INT8''"
| "datatype_str UINT8 = ''UINT8''"
| "datatype_str INT16 = ''INT16''"
| "datatype_str UINT16 = ''UINT16''"
| "datatype_str UINT32 = ''UINT32''"
| "datatype_str UINT64 = ''UINT64''"
| "datatype_str STRING_ASCII = ''STRING_ASCII''"
| "datatype_str STRING_UTF8 = ''STRING_UTF8''"
| "datatype_str STRING_UTF16 = ''STRING_UTF16''"
| "datatype_str STRING_UTF32 = ''STRING_UTF32''"
| "datatype_str STRING_UCS2 = ''STRING_UCS2''"
| "datatype_str STRING_UCS4 = ''STRING_UCS4''"
| "datatype_str ANY = ''ANY''"
| "datatype_str DATETIME_YEAR = ''DATETIME_YEAR''"
| "datatype_str DATETIME_MONTH = ''DATETIME_MONTH''"
| "datatype_str DATETIME_WEEK = ''DATETIME_WEEK''"
| "datatype_str DATETIME_DAY = ''DATETIME_DAY''"
| "datatype_str DATETIME_HR = ''DATETIME_HR''"
| "datatype_str DATETIME_MIN = ''DATETIME_MIN''"
| "datatype_str DATETIME_SEC = ''DATETIME_SEC''"
| "datatype_str DATETIME_MS = ''DATETIME_MS''"
| "datatype_str DATETIME_US = ''DATETIME_US''"
| "datatype_str DATETIME_NS = ''DATETIME_NS''"
| "datatype_str DATETIME_PS = ''DATETIME_PS''"
| "datatype_str DATETIME_FS = ''DATETIME_FS''"
| "datatype_str DATETIME_AS = ''DATETIME_AS''"

definition datatype_enum :: "string \<Rightarrow> Datatype result" where
  "datatype_enum s =
    (if s = ''INT32'' then Inr INT32
     else if s = ''INT64'' then Inr INT64
     else if s = ''FLOAT32'' then Inr FLOAT32
     else if s = ''FLOAT64'' then Inr FLOAT64
     else if s = ''CHAR'' then Inr CHAR_T
     else if s = ''INT8'' then Inr INT8
     else if s = ''UINT8'' then Inr UINT8
     else if s = ''INT16'' then Inr INT16
     else if s = ''UINT16'' then Inr UINT16
     else if s = ''UINT32'' then Inr UINT32
     else if s = ''UINT64'' then Inr UINT64
     else if s = ''STRING_ASCII'' then Inr STRING_ASCII
     else if s = ''STRING_UTF8'' then Inr STRING_UTF8
     else if s = ''STRING_UTF16'' then Inr STRING_UTF16
     else if s = ''STRING_UTF32'' then Inr STRING_UTF32
     else if s = ''STRING_UCS2'' then Inr STRING_UCS2
     else if s = ''STRING_UCS4'' then Inr STRING_UCS4
     else if s = ''ANY'' then Inr ANY
     else if s = ''DATETIME_YEAR'' then Inr DATETIME_YEAR
     else if s = ''DATETIME_MONTH'' then Inr DATETIME_MONTH
     else if s = ''DATETIME_WEEK'' then Inr DATETIME_WEEK
     else if s = ''DATETIME_DAY'' then Inr DATETIME_DAY
     else if s = ''DATETIME_HR'' then Inr DATETIME_HR
     else if s = ''DATETIME_MIN'' then Inr DATETIME_MIN
     else if s = ''DATETIME_SEC'' then Inr DATETIME_SEC
     else if s = ''DATETIME_MS'' then Inr DATETIME_MS
     else if s = ''DATETIME_US'' then Inr DATETIME_US
     else if s = ''DATETIME_NS'' then Inr DATETIME_NS
     else if s = ''DATETIME_PS'' then Inr DATETIME_PS
     else if s = ''DATETIME_FS'' then Inr DATETIME_FS
     else if s = ''DATETIME_AS'' then Inr DATETIME_AS
     else Inl (Err SC_Error (''Invalid Datatype '' @ s)))"

interpretation en_datatype: str_enum datatype_str datatype_enum "\<lambda>_. True"
proof unfold_locales
  fix x :: Datatype
  assume "True"
  then show "datatype_enum (datatype_str x) = Inr x" by (cases x) (simp_all add: datatype_enum_def)
next
  fix s x
  assume "datatype_enum s = Inr x"
  then show "datatype_str x = s \<and> True"
    by (auto simp: datatype_enum_def split: if_splits)
qed

section \<open>Compressor\<close>

datatype Compressor =
    NO_COMPRESSION | GZIP | ZSTD | LZ4 | RLE | BZIP2 | DOUBLE_DELTA

primrec compressor_str :: "Compressor \<Rightarrow> string" where
  "compressor_str NO_COMPRESSION = ''NO_COMPRESSION''"
| "compressor_str GZIP = ''GZIP''"
| "compressor_str ZSTD = ''ZSTD''"
| "compressor_str LZ4 = ''LZ4''"
| "compressor_str RLE = ''RLE''"
| "compressor_str BZIP2 = ''BZIP2''"
| "compressor_str DOUBLE_DELTA = ''DOUBLE_DELTA''"

definition compressor_enum :: "string \<Rightarrow> Compressor result" where
  "compressor_enum s =
    (if s = ''NO_COMPRESSION'' then Inr NO_COMPRESSION
     else if s = ''GZIP'' then Inr GZIP
     else if s = ''ZSTD'' then Inr ZSTD
     else if s = ''LZ4'' then Inr LZ4
     else if s = ''RLE'' then Inr RLE
     else if s = ''BZIP2'' then Inr BZIP2
     else if s = ''DOUBLE_DELTA'' then Inr DOUBLE_DELTA
     else Inl (Err SC_Error (''Invalid Compressor '' @ s)))"

interpretation en_compressor: str_enum compressor_str compressor_enum "\<lambda>_. True"
proof unfold_locales
  fix x :: Compressor
  assume "True"
  then show "compressor_enum (compressor_str x) = Inr x" by (cases x) (simp_all add: compressor_enum_def)
next
  fix s x
  assume "compressor_enum s = Inr x"
  then show "compressor_str x = s \<and> True"
    by (auto simp: compressor_enum_def split: if_splits)
qed

section \<open>FilterType\<close>

datatype FilterType =
    FILTER_NONE | FILTER_GZIP | FILTER_ZSTD | FILTER_LZ4 | FILTER_RLE | FILTER_BZIP2 |
    FILTER_DOUBLE_DELTA | FILTER_BIT_WIDTH_REDUCTION | FILTER_BITSHUFFLE |
    FILTER_BYTESHUFFLE | FILTER_POSITIVE_DELTA | FILTER_CHECKSUM_MD5 |
    FILTER_CHECKSUM_SHA256 | INTERNAL_FILTER_AES_256_GCM

primrec filter_type_str :: "FilterType \<Rightarrow> string" where
  "filter_type_str FILTER_NONE = ''NONE''"
| "filter_type_str FILTER_GZIP = ''GZIP''"
| "filter_type_str FILTER_ZSTD = ''ZSTD''"
| "filter_type_str FILTER_LZ4 = ''LZ4''"
| "filter_type_str FILTER_RLE = ''RLE''"
| "filter_type_str FILTER_BZIP2 = ''BZIP2''"
| "filter_type_str FILTER_DOUBLE_DELTA = ''DOUBLE_DELTA''"
| "filter_type_str FILTER_BIT_WIDTH_REDUCTION = ''BIT_WIDTH_REDUCTION''"
| "filter_type_str FILTER_BITSHUFFLE = ''BITSHUFFLE''"
| "filter_type_str FILTER_BYTESHUFFLE = ''BYTESHUFFLE''"
| "filter_type_str FILTER_POSITIVE_DELTA = ''POSITIVE_DELTA''"
| "filter_type_str FILTER_CHECKSUM_MD5 = ''CHECKSUM_MD5''"
| "filter_type_str FILTER_CHECKSUM_SHA256 = ''CHECKSUM_SHA256''"
| "filter_type_str INTERNAL_FILTER_AES_256_GCM = ''''"

definition filter_type_enum :: "string \<Rightarrow> FilterType result" where
  "filter_type_enum s =
    (if s = ''NONE'' then Inr FILTER_NONE
     else if s = ''GZIP'' then Inr FILTER_GZIP
     else if s = ''ZSTD'' then Inr FILTER_ZSTD
     else if s = ''LZ4'' then Inr FILTER_LZ4
     else if s = ''RLE'' then Inr FILTER_RLE
     else if s = ''BZIP2'' then Inr FILTER_BZIP2
     else if s = ''DOUBLE_DELTA'' then Inr FILTER_DOUBLE_DELTA
     else if s = ''BIT_WIDTH_REDUCTION'' then Inr FILTER_BIT_WIDTH_REDUCTION
     else if s = ''BITSHUFFLE'' then Inr FILTER_BITSHUFFLE
     else if s = ''BYTESHUFFLE'' then Inr FILTER_BYTESHUFFLE
     else if s = ''POSITIVE_DELTA'' then Inr FILTER_POSITIVE_DELTA
     else if s = ''CHECKSUM_MD5'' then Inr FILTER_CHECKSUM_MD5
     else if s = ''CHECKSUM_SHA256'' then Inr FILTER_CHECKSUM_SHA256
     else Inl (Err SC_Error (''Invalid FilterType '' @ s)))"

interpretation en_filter_type: str_enum filter_type_str filter_type_enum "\<lambda>x. x \<noteq> INTERNAL_FILTER_AES_256_GCM"
proof unfold_locales
  fix x :: FilterType
  assume "x \<noteq> INTERNAL_FILTER_AES_256_GCM"
  then show "filter_type_enum (filter_type_str x) = Inr x" by (cases x) (simp_all add: filter_type_enum_def)
next
  fix s x
  assume "filter_type_enum s = Inr x"
  then show "filter_type_str x = s \<and> x \<noteq> INTERNAL_FILTER_AES_256_GCM"
    by (auto simp: filter_type_enum_def split: if_splits)
qed

section \<open>FilterOption\<close>

datatype FilterOption =
    COMPRESSION_LEVEL | BIT_WIDTH_MAX_WINDOW | POSITIVE_DELTA_MAX_WINDOW

primrec filter_option_str :: "FilterOption \<Rightarrow> string" where
  "filter_option_str COMPRESSION_LEVEL = ''COMPRESSION_LEVEL''"
| "filter_option_str BIT_WIDTH_MAX_WINDOW = ''BIT_WIDTH_MAX_WINDOW''"
| "filter_option_str POSITIVE_DELTA_MAX_WINDOW = ''POSITIVE_DELTA_MAX_WINDOW''"

definition filter_option_enum :: "string \<Rightarrow> FilterOption result" where
  "filter_option_enum s =
    (if s = ''COMPRESSION_LEVEL'' then Inr COMPRESSION_LEVEL
     else if s = ''BIT_WIDTH_MAX_WINDOW'' then Inr BIT_WIDTH_MAX_WINDOW
     else if s = ''POSITIVE_DELTA_MAX_WINDOW'' then Inr POSITIVE_DELTA_MAX_WINDOW
     else Inl (Err SC_Error (''Invalid FilterOption '' @ s)))"

interpretation en_filter_option: str_enum filter_option_str filter_option_enum "\<lambda>_. True"
proof unfold_locales
  fix x :: FilterOption
  assume "True"
  then show "filter_option_enum (filter_option_str x) = Inr x" by (cases x) (simp_all add: filter_option_enum_def)
next
  fix s x
  assume "filter_option_enum s = Inr x"
  then show "filter_option_str x = s \<and> True"
    by (auto simp: filter_option_enum_def split: if_splits)
qed

section \<open>EncryptionType\<close>

datatype EncryptionType =
    NO_ENCRYPTION | AES_256_GCM

primrec encryption_type_str :: "EncryptionType \<Rightarrow> string" where
  "encryption_type_str NO_ENCRYPTION = ''NO_ENCRYPTION''"
| "encryption_type_str AES_256_GCM = ''AES_256_GCM''"

definition encryption_type_enum :: "string \<Rightarrow> EncryptionType result" where
  "encryption_type_enum s =
    (if s = ''NO_ENCRYPTION'' then Inr NO_ENCRYPTION
     else if s = ''AES_256_GCM'' then Inr AES_256_GCM
     else Inl (Err SC_Error (''Invalid EncryptionType '' @ s)))"

interpretation en_encryption_type: str_enum encryption_type_str encryption_type_enum "\<lambda>_. True"
proof unfold_locales
  fix x :: EncryptionType
  assume "True"
  then show "encryption_type_enum (encryption_type_str x) = Inr x" by (cases x) (simp_all add: encryption_type_enum_def)
next
  fix s x
  assume "encryption_type_enum s = Inr x"
  then show "encryption_type_str x = s \<and> True"
    by (auto simp: encryption_type_enum_def split: if_splits)
qed

section \<open>QueryType\<close>

datatype QueryType =
    READ | WRITE

primrec query_type_str :: "QueryType \<Rightarrow> string" where
  "query_type_str READ = ''READ''"
| "query_type_str WRITE = ''WRITE''"

definition query_type_enum :: "string \<Rightarrow> QueryType result" where
  "query_type_enum s =
    (if s = ''READ'' then Inr READ
     else if s = ''WRITE'' then Inr WRITE
     else Inl (Err SC_Error (''Invalid QueryType '' @ s)))"

interpretation en_query_type: str_enum query_type_str query_type_enum "\<lambda>_. True"
proof unfold_locales
  fix x :: QueryType
  assume "True"
  then show "query_type_enum (query_type_str x) = Inr x" by (cases x) (simp_all add: query_type_enum_def)
next
  fix s x
  assume "query_type_enum s = Inr x"
  then show "query_type_str x = s \<and> True"
    by (auto simp: query_type_enum_def split: if_splits)
qed

section \<open>QueryStatus\<close>

datatype QueryStatus =
    FAILED | COMPLETED | INPROGRESS | INCOMPLETE | UNINITIALIZED

primrec query_status_str :: "QueryStatus \<Rightarrow> string" where
  "query_status_str FAILED = ''FAILED''"
| "query_status_str COMPLETED = ''COMPLETED''"
| "query_status_str INPROGRESS = ''INPROGRESS''"
| "query_status_str INCOMPLETE = ''INCOMPLETE''"
| "query_status_str UNINITIALIZED = ''UNINITIALIZED''"

definition query_status_enum :: "string \<Rightarrow> QueryStatus result" where
  "query_status_enum s =
    (if s = ''FAILED'' then Inr FAILED
     else if s = ''COMPLETED'' then Inr COMPLETED
     else if s = ''INPROGRESS'' then Inr INPROGRESS
     else if s = ''INCOMPLETE'' then Inr INCOMPLETE
     else if s = ''UNINITIALIZED'' then Inr UNINITIALIZED
     else Inl (Err SC_Error (''Invalid QueryStatus '' @ s)))"

interpretation en_query_status: str_enum query_status_str query_status_enum "\<lambda>_. True"
proof unfold_locales
  fix x :: QueryStatus
  assume "True"
  then show "query_status_enum (query_status_str x) = Inr x" by (cases x) (simp_all add: query_status_enum_def)
next
  fix s x
  assume "query_status_enum s = Inr x"
  then show "query_status_str x = s \<and> True"
    by (auto simp: query_status_enum_def split: if_splits)
qed

section \<open>ObjectType\<close>

datatype ObjectType =
    INVALID | GROUP | ARRAY

primrec object_type_str :: "ObjectType \<Rightarrow> string" where
  "object_type_str INVALID = ''INVALID''"
| "object_type_str GROUP = ''GROUP''"
| "object_type_str ARRAY = ''ARRAY''"

definition object_type_enum :: "string \<Rightarrow> ObjectType result" where
  "object_type_enum s =
    (if s = ''INVALID'' then Inr INVALID
     else if s = ''GROUP'' then Inr GROUP
     else if s = ''ARRAY'' then Inr ARRAY
     else Inl (Err SC_Error (''Invalid ObjectType '' @ s)))"

interpretation en_object_type: str_enum object_type_str object_type_enum "\<lambda>_. True"
proof unfold_locales
  fix x :: ObjectType
  assume "True"
  then show "object_type_enum (object_type_str x) = Inr x" by (cases x) (simp_all add: object_type_enum_def)
next
  fix s x
  assume "object_type_enum s = Inr x"
  then show "object_type_str x = s \<and> True"
    by (auto simp: object_type_enum_def split: if_splits)
qed

section \<open>Filesystem\<close>

datatype Filesystem =
    HDFS | S3 | AZURE | GCS

primrec filesystem_str :: "Filesystem \<Rightarrow> string" where
  "filesystem_str HDFS = ''HDFS''"
| "filesystem_str S3 = ''S3''"
| "filesystem_str AZURE = ''AZURE''"
| "filesystem_str GCS = ''GCS''"

definition filesystem_enum :: "string \<Rightarrow> Filesystem result" where
  "filesystem_enum s =
    (if s = ''HDFS'' then Inr HDFS
     else if s = ''S3'' then Inr S3
     else if s = ''AZURE'' then Inr AZURE
     else if s = ''GCS'' then Inr GCS
     else Inl (Err SC_Error (''Invalid Filesystem '' @ s)))"

interpretation en_filesystem: str_enum filesystem_str filesystem_enum "\<lambda>_. True"
proof unfold_locales
  fix x :: Filesystem
  assume "True"
  then show "filesystem_enum (filesystem_str x) = Inr x" by (cases x) (simp_all add: filesystem_enum_def)
next
  fix s x
  assume "filesystem_enum s = Inr x"
  then show "filesystem_str x = s \<and> True"
    by (auto simp: filesystem_enum_def split: if_splits)
qed

section \<open>WalkOrder\<close>

datatype WalkOrder =
    PREORDER | POSTORDER

primrec walkorder_str :: "WalkOrder \<Rightarrow> string" where
  "walkorder_str PREORDER = ''PREORDER''"
| "walkorder_str POSTORDER = ''POSTORDER''"

definition walkorder_enum :: "string \<Rightarrow> WalkOrder result" where
  "walkorder_enum s =
    (if s = ''PREORDER'' then Inr PREORDER
     else if s = ''POSTORDER'' then Inr POSTORDER
     else Inl (Err SC_Error (''Invalid WalkOrder '' @ s)))"

interpretation en_walk_order: str_enum walkorder_str walkorder_enum "\<lambda>_. True"
proof unfold_locales
  fix x :: WalkOrder
  assume "True"
  then show "walkorder_enum (walkorder_str x) = Inr x" by (cases x) (simp_all add: walkorder_enum_def)
next
  fix s x
  assume "walkorder_enum s = Inr x"
  then show "walkorder_str x = s \<and> True"
    by (auto simp: walkorder_enum_def split: if_splits)
qed

section \<open>VFSMode\<close>

datatype VFSMode =
    VFS_READ | VFS_WRITE | VFS_APPEND

primrec vfsmode_str :: "VFSMode \<Rightarrow> string" where
  "vfsmode_str VFS_READ = ''VFS_READ''"
| "vfsmode_str VFS_WRITE = ''VFS_WRITE''"
| "vfsmode_str VFS_APPEND = ''VFS_APPEND''"

definition vfsmode_enum :: "string \<Rightarrow> VFSMode result" where
  "vfsmode_enum s =
    (if s = ''VFS_READ'' then Inr VFS_READ
     else if s = ''VFS_WRITE'' then Inr VFS_WRITE
     else if s = ''VFS_APPEND'' then Inr VFS_APPEND
     else Inl (Err SC_Error (''Invalid VFSMode '' @ s)))"

interpretation en_vfs_mode: str_enum vfsmode_str vfsmode_enum "\<lambda>_. True"
proof unfold_locales
  fix x :: VFSMode
  assume "True"
  then show "vfsmode_enum (vfsmode_str x) = Inr x" by (cases x) (simp_all add: vfsmode_enum_def)
next
  fix s x
  assume "vfsmode_enum s = Inr x"
  then show "vfsmode_str x = s \<and> True"
    by (auto simp: vfsmode_enum_def split: if_splits)
qed

section \<open>SerializationType\<close>

datatype SerializationType =
    JSON | CAPNP

primrec serialization_type_str :: "SerializationType \<Rightarrow> string" where
  "serialization_type_str JSON = ''JSON''"
| "serialization_type_str CAPNP = ''CAPNP''"

definition serialization_type_enum :: "string \<Rightarrow> SerializationType result" where
  "serialization_type_enum s =
    (if s = ''JSON'' then Inr JSON
     else if s = ''CAPNP'' then Inr CAPNP
     else Inl (Err SC_Error (''Invalid SerializationType '' @ s)))"

interpretation en_serialization_type: str_enum serialization_type_str serialization_type_enum "\<lambda>_. True"
proof unfold_locales
  fix x :: SerializationType
  assume "True"
  then show "serialization_type_enum (serialization_type_str x) = Inr x" by (cases x) (simp_all add: serialization_type_enum_def)
next
  fix s x
  assume "serialization_type_enum s = Inr x"
  then show "serialization_type_str x = s \<and> True"
    by (auto simp: serialization_type_enum_def split: if_splits)
qed

section \<open>Functions on Datatype\<close>

primrec datatype_size :: "Datatype \<Rightarrow> nat" where
  "datatype_size INT32 = 4"
| "datatype_size INT64 = 8"
| "datatype_size FLOAT32 = 4"
| "datatype_size FLOAT64 = 8"
| "datatype_size CHAR_T = 1"
| "datatype_size INT8 = 1"
| "datatype_size UINT8 = 1"
| "datatype_size INT16 = 2"
| "datatype_size UINT16 = 2"
| "datatype_size UINT32 = 4"
| "datatype_size UINT64 = 8"
| "datatype_size STRING_ASCII = 1"
| "datatype_size STRING_UTF8 = 1"
| "datatype_size STRING_UTF16 = 2"
| "datatype_size STRING_UTF32 = 4"
| "datatype_size STRING_UCS2 = 2"
| "datatype_size STRING_UCS4 = 4"
| "datatype_size ANY = 1"
| "datatype_size DATETIME_YEAR = 8"
| "datatype_size DATETIME_MONTH = 8"
| "datatype_size DATETIME_WEEK = 8"
| "datatype_size DATETIME_DAY = 8"
| "datatype_size DATETIME_HR = 8"
| "datatype_size DATETIME_MIN = 8"
| "datatype_size DATETIME_SEC = 8"
| "datatype_size DATETIME_MS = 8"
| "datatype_size DATETIME_US = 8"
| "datatype_size DATETIME_NS = 8"
| "datatype_size DATETIME_PS = 8"
| "datatype_size DATETIME_FS = 8"
| "datatype_size DATETIME_AS = 8"

definition datatype_is_string :: "Datatype \<Rightarrow> bool" where
  "datatype_is_string type \<longleftrightarrow>
     type = STRING_ASCII
     \<or> type = STRING_UTF8
     \<or> type = STRING_UTF16
     \<or> type = STRING_UTF32
     \<or> type = STRING_UCS2
     \<or> type = STRING_UCS4"

definition datatype_is_integer :: "Datatype \<Rightarrow> bool" where
  "datatype_is_integer type \<longleftrightarrow>
     type = INT8
     \<or> type = UINT8
     \<or> type = INT16
     \<or> type = UINT16
     \<or> type = INT32
     \<or> type = UINT32
     \<or> type = INT64
     \<or> type = UINT64"

definition datatype_is_real :: "Datatype \<Rightarrow> bool" where
  "datatype_is_real type \<longleftrightarrow>
     type = FLOAT32
     \<or> type = FLOAT64"

definition datatype_is_datetime :: "Datatype \<Rightarrow> bool" where
  "datatype_is_datetime type \<longleftrightarrow>
     type = DATETIME_YEAR
     \<or> type = DATETIME_MONTH
     \<or> type = DATETIME_WEEK
     \<or> type = DATETIME_DAY
     \<or> type = DATETIME_HR
     \<or> type = DATETIME_MIN
     \<or> type = DATETIME_SEC
     \<or> type = DATETIME_MS
     \<or> type = DATETIME_US
     \<or> type = DATETIME_NS
     \<or> type = DATETIME_PS
     \<or> type = DATETIME_FS
     \<or> type = DATETIME_AS"

lemmas datatype_class_defs =
  datatype_is_string_def datatype_is_integer_def datatype_is_real_def datatype_is_datetime_def

section \<open>Properties\<close>

text \<open>
  C25: for every enumeration, parsing is the exact inverse of printing: a string parses to an
  enumerator precisely when it is the string the enumerator prints to, and no two enumerators
  print alike. The one exception is the internal encryption filter type, which prints as the
  empty string and which no string parses to.
\<close>

theorem enum_strings_round_trip:
  "(\<forall>s x. layout_enum s = Inr x \<longleftrightarrow> layout_str x = s)
   \<and> (\<forall>s x. array_type_enum s = Inr x \<longleftrightarrow> array_type_str x = s)
   \<and> (\<forall>s x. datatype_enum s = Inr x \<longleftrightarrow> datatype_str x = s)
   \<and> (\<forall>s x. compressor_enum s = Inr x \<longleftrightarrow> compressor_str x = s)
   \<and> (\<forall>s x. filter_type_enum s = Inr x \<longleftrightarrow> filter_type_str x = s \<and> x \<noteq> INTERNAL_FILTER_AES_256_GCM)
   \<and> (\<forall>s x. filter_option_enum s = Inr x \<longleftrightarrow> filter_option_str x = s)
   \<and> (\<forall>s x. encryption_type_enum s = Inr x \<longleftrightarrow> encryption_type_str x = s)
   \<and> (\<forall>s x. query_type_enum s = Inr x \<longleftrightarrow> query_type_str x = s)
   \<and> (\<forall>s x. query_status_enum s = Inr x \<longleftrightarrow> query_status_str x = s)
   \<and> (\<forall>s x. object_type_enum s = Inr x \<longleftrightarrow> object_type_str x = s)
   \<and> (\<forall>s x. filesystem_enum s = Inr x \<longleftrightarrow> filesystem_str x = s)
   \<and> (\<forall>s x. walkorder_enum s = Inr x \<longleftrightarrow> walkorder_str x = s)
   \<and> (\<forall>s x. vfsmode_enum s = Inr x \<longleftrightarrow> vfsmode_str x = s)
   \<and> (\<forall>s x. serialization_type_enum s = Inr x \<longleftrightarrow> serialization_type_str x = s)"
proof -
  have "\<forall>s x. filter_type_enum s = Inr x \<longleftrightarrow> filter_type_str x = s \<and> x \<noteq> INTERNAL_FILTER_AES_256_GCM"
    using en_filter_type.of_to en_filter_type.to_of by blast
  then show ?thesis
    by (simp add: en_layout.parse_iff
      en_array_type.parse_iff
      en_datatype.parse_iff
      en_compressor.parse_iff
      en_filter_option.parse_iff
      en_encryption_type.parse_iff
      en_query_type.parse_iff
      en_query_status.parse_iff
      en_object_type.parse_iff
      en_filesystem.parse_iff
      en_walk_order.parse_iff
      en_vfs_mode.parse_iff
      en_serialization_type.parse_iff)
qed

text \<open>
  The type classes that the filters dispatch on are disjoint, every datetime is stored in
  8 bytes, and every datatype has size 1, 2, 4 or 8, so a division by it is always defined.
\<close>

lemma datatype_classes:
  "(datatype_is_integer t \<longrightarrow> \<not> datatype_is_real t \<and> \<not> datatype_is_string t \<and> \<not> datatype_is_datetime t)
   \<and> (datatype_is_real t \<longrightarrow> \<not> datatype_is_string t \<and> \<not> datatype_is_datetime t)
   \<and> (datatype_is_string t \<longrightarrow> \<not> datatype_is_datetime t)
   \<and> (datatype_is_datetime t \<longrightarrow> datatype_size t = 8)
   \<and> datatype_size t \<in> {1, 2, 4, 8}"
  by (cases t) (simp_all add: datatype_class_defs)

end
