(* ===== verification/Tdb_Range.thy ===== *)
theory Tdb_Range
  imports Tdb_Status Tdb_Enums
begin

text \<open>
  The values of a dimension and the class \<open>Range\<close> of \<open>misc/types.h\<close>. The templates of the dimension have one
  definition for all integral types: \<open>ity\<close> is the type, its values are integers, and the results of
  C++ arithmetic are written out. A result of a signed type that does not fit is undefined behaviour; one of an
  unsigned type wraps.
\<close>

section \<open>Integral types\<close>

record ity =
  isigned :: bool
  ibits :: nat

definition ity_ok :: "ity \<Rightarrow> bool" where
  "ity_ok ty \<longleftrightarrow> ibits ty \<in> {8, 16, 32, 64}"

definition ty_min :: "ity \<Rightarrow> int" where
  "ty_min ty = (if isigned ty then - (2 ^ (ibits ty - 1)) else 0)"

definition ty_max :: "ity \<Rightarrow> int" where
  "ty_max ty = (if isigned ty then 2 ^ (ibits ty - 1) - 1 else 2 ^ ibits ty - 1)"

definition in_ty :: "ity \<Rightarrow> int \<Rightarrow> bool" where
  "in_ty ty x \<longleftrightarrow> ty_min ty \<le> x \<and> x \<le> ty_max ty"

text \<open>The conversion of a value to a type.\<close>

definition conv :: "ity \<Rightarrow> int \<Rightarrow> int" where
  "conv ty x = (x - ty_min ty) mod 2 ^ ibits ty + ty_min ty"

abbreviation int32_ty :: ity where "int32_ty \<equiv> \<lparr>isigned = True, ibits = 32\<rparr>"
abbreviation int64_ty :: ity where "int64_ty \<equiv> \<lparr>isigned = True, ibits = 64\<rparr>"
abbreviation uint64_ty :: ity where "uint64_ty \<equiv> \<lparr>isigned = False, ibits = 64\<rparr>"

text \<open>Operands narrower than \<open>int\<close> are promoted to \<open>int\<close>.\<close>

definition promote :: "ity \<Rightarrow> ity" where
  "promote ty = (if ibits ty < 32 then int32_ty else ty)"

definition arith :: "ity \<Rightarrow> int \<Rightarrow> int result" where
  "arith ty x = (if isigned ty then if in_ty ty x then Inr x else Inl UB else Inr (x mod 2 ^ ibits ty))"

text \<open>Division truncates towards zero.\<close>

definition c_div :: "int \<Rightarrow> int \<Rightarrow> int" where
  "c_div a b = sgn a * sgn b * (\<bar>a\<bar> div \<bar>b\<bar>)"

definition arith_div :: "ity \<Rightarrow> int \<Rightarrow> int \<Rightarrow> int result" where
  "arith_div ty a b = (if b = 0 then Inl UB else arith ty (c_div a b))"

lemma conv_id: "ity_ok ty \<Longrightarrow> in_ty ty x \<Longrightarrow> conv ty x = x"
  by (auto simp: ity_ok_def in_ty_def ty_min_def ty_max_def conv_def)

lemma arith_id: "ity_ok ty \<Longrightarrow> in_ty ty x \<Longrightarrow> arith ty x = Inr x"
  by (auto simp: arith_def in_ty_def ty_min_def ty_max_def ity_ok_def)

lemma promote_ok: "ity_ok ty \<Longrightarrow> ity_ok (promote ty)"
  by (auto simp: ity_ok_def promote_def)

lemma in_ty_promote: "ity_ok ty \<Longrightarrow> in_ty ty x \<Longrightarrow> in_ty (promote ty) x"
  by (auto simp: ity_ok_def in_ty_def ty_min_def ty_max_def promote_def split: if_splits)

lemma c_div_nonneg: "0 \<le> a \<Longrightarrow> 0 < b \<Longrightarrow> c_div a b = a div b"
  by (cases "a = 0") (simp_all add: c_div_def)

section \<open>Values as bytes\<close>

definition isize :: "ity \<Rightarrow> nat" where
  "isize ty = ibits ty div 8"

definition val_bytes :: "ity \<Rightarrow> int \<Rightarrow> byte list" where
  "val_bytes ty x = le_bytes (isize ty) (word_of_int x :: 64 word)"

definition val_of :: "ity \<Rightarrow> byte list \<Rightarrow> int" where
  "val_of ty bs = conv ty (uint (of_le bs :: 64 word))"

lemma length_val_bytes [simp]: "length (val_bytes ty x) = isize ty"
  by (simp add: val_bytes_def)

lemma uint_of_le_low:
  assumes "k \<le> 8"
  shows "uint (of_le (le_bytes k (w :: 64 word)) :: 64 word) = take_bit (8 * k) (uint w)"
proof (rule bit_eqI)
  fix n
  have "bit (le_bytes k w ! q) r \<longleftrightarrow> r < 8 \<and> bit w (8 * q + r)" if "q < k" for q r
    using that by (auto simp: le_bytes_def bit_simps)
  moreover have "n div 8 < k \<longleftrightarrow> n < 8 * k" by (simp add: div_less_iff_less_mult mult.commute)
  ultimately show "bit (uint (of_le (le_bytes k w) :: 64 word)) n = bit (take_bit (8 * k) (uint w)) n"
    using assms by (auto simp: bit_simps bit_of_le)
qed

lemma val_of_val_bytes:
  assumes "ity_ok ty" and "in_ty ty x"
  shows "val_of ty (val_bytes ty x) = x"
proof -
  have b: "ibits ty \<le> 64" "8 * isize ty = ibits ty" "isize ty \<le> 8" using assms(1) by (auto simp: ity_ok_def isize_def)
  have "x mod 2 ^ 64 mod 2 ^ ibits ty = x mod 2 ^ ibits ty"
    by (rule mod_mod_cancel) (simp only: le_imp_power_dvd b(1))
  then have "uint (of_le (val_bytes ty x) :: 64 word) = x mod 2 ^ ibits ty"
    using uint_of_le_low [OF b(3), of "word_of_int x"] b(2) by (simp add: val_bytes_def uint_word_of_int take_bit_eq_mod)
  then have "val_of ty (val_bytes ty x) = ((x mod 2 ^ ibits ty) - ty_min ty) mod 2 ^ ibits ty + ty_min ty"
    by (simp add: val_of_def conv_def)
  also have "\<dots> = conv ty x" by (simp add: conv_def mod_diff_left_eq)
  finally show ?thesis using conv_id [OF assms] by simp
qed

section \<open>Ranges\<close>

record range =
  rbytes :: "byte list"
  range_start_size :: nat

abbreviation range_new :: range where
  "range_new \<equiv> \<lparr>rbytes = [], range_start_size = 0\<rparr>"

definition range_empty :: "range \<Rightarrow> bool" where
  "range_empty r = (rbytes r = [])"

definition set_range :: "byte list \<Rightarrow> range \<Rightarrow> range" where
  "set_range bs r = r\<lparr>rbytes := bs\<rparr>"

definition set_range_sized :: "byte list \<Rightarrow> nat \<Rightarrow> range \<Rightarrow> range" where
  "set_range_sized bs n r = r\<lparr>rbytes := bs, range_start_size := n\<rparr>"

definition set_range_var :: "byte list \<Rightarrow> byte list \<Rightarrow> range \<Rightarrow> range" where
  "set_range_var r1 r2 r = r\<lparr>rbytes := r1 @ r2, range_start_size := length r1\<rparr>"

definition set_str_range :: "byte list \<Rightarrow> byte list \<Rightarrow> range \<Rightarrow> range" where
  "set_str_range s1 s2 r =
     (if length s1 + length s2 = 0 then r\<lparr>rbytes := [], range_start_size := 0\<rparr> else set_range_var s1 s2 r)"

definition end_size :: "range \<Rightarrow> nat" where
  "end_size r = sub64 (length (rbytes r)) (range_start_size r)"

text \<open>The strings are read from the pointers to the start and the end of the range.\<close>

definition start_str :: "range \<Rightarrow> byte list result" where
  "start_str r =
     (if range_start_size r = 0 then Inr []
      else if range_start_size r \<le> length (rbytes r) then Inr (take (range_start_size r) (rbytes r)) else Inl UB)"

definition end_str :: "range \<Rightarrow> byte list result" where
  "end_str r =
     (if end_size r = 0 then Inr []
      else let end_pos = (if range_start_size r = 0 then length (rbytes r) div 2 else range_start_size r) in
        if end_pos + end_size r \<le> length (rbytes r) then Inr (slice (rbytes r) end_pos (end_size r)) else Inl UB)"

definition range_unary :: "range \<Rightarrow> bool result" where
  "range_unary r =
     (if rbytes r = [] then Inl AssertFail
      else let n = length (rbytes r) in
        Inr ((range_start_size r = 0 \<or> 2 * range_start_size r = n) \<and> take (n div 2) (rbytes r) = slice (rbytes r) (n div 2) (n div 2)))"

text \<open>A range read as a pair of values, \<open>(const T*)r.data()\<close>.\<close>

definition range_vals :: "ity \<Rightarrow> range \<Rightarrow> (int \<times> int) result" where
  "range_vals ty r =
     (if length (rbytes r) < 2 * isize ty then Inl UB
      else Inr (val_of ty (take (isize ty) (rbytes r)), val_of ty (slice (rbytes r) (isize ty) (isize ty))))"

definition pair_bytes :: "ity \<Rightarrow> int \<Rightarrow> int \<Rightarrow> byte list" where
  "pair_bytes ty a b = val_bytes ty a @ val_bytes ty b"

lemma isize_pos: "ity_ok ty \<Longrightarrow> 0 < isize ty"
  by (auto simp: ity_ok_def isize_def)

text \<open>The range of two values, and of two strings.\<close>

definition int_range :: "ity \<Rightarrow> int \<times> int \<Rightarrow> range" where
  "int_range ty p = \<lparr>rbytes = pair_bytes ty (fst p) (snd p), range_start_size = 0\<rparr>"

definition str_range :: "byte list \<times> byte list \<Rightarrow> range" where
  "str_range p = \<lparr>rbytes = fst p @ snd p, range_start_size = length (fst p)\<rparr>"

lemma int_range_vals [simp]:
  "ity_ok ty \<Longrightarrow> in_ty ty (fst p) \<Longrightarrow> in_ty ty (snd p) \<Longrightarrow> range_vals ty (int_range ty p) = Inr p"
  by (simp add: range_vals_def int_range_def pair_bytes_def slice_def val_of_val_bytes)

lemma int_range_empty [simp]: "ity_ok ty \<Longrightarrow> \<not> range_empty (int_range ty p)"
  using isize_pos [of ty] by (auto simp: range_empty_def int_range_def pair_bytes_def simp flip: length_0_conv)

lemma set_int_range [simp]: "set_range (pair_bytes ty a b) (int_range ty p) = int_range ty (a, b)"
  "set_range (pair_bytes ty a b) range_new = int_range ty (a, b)"
  by (simp_all add: set_range_def int_range_def)

lemma str_range_strs:
  assumes "fst p \<noteq> []" and "length (fst p @ snd p) < 2 ^ 64"
  shows "start_str (str_range p) = Inr (fst p)" and "end_str (str_range p) = Inr (snd p)" and "\<not> range_empty (str_range p)"
  using assms by (auto simp: start_str_def end_str_def end_size_def str_range_def sub64_exact slice_def range_empty_def)

end
