(* ===== verification/Tdb_Double.thy ===== *)
theory Tdb_Double
  imports Complex_Main Tdb_Prelude
begin

text \<open>
  The \<open>double\<close> values that the overlap ratios are computed with: rationals that are rounded to 53 significant
  bits after every operation, to the nearest and to even, with the smallest exponent of the format. Ratios are
  not negative and stay far below the largest number.
\<close>

section \<open>Rounding\<close>

fun bitlen :: "nat \<Rightarrow> nat" where
  "bitlen n = (if n = 0 then 0 else Suc (bitlen (n div 2)))"

declare bitlen.simps [simp del]

lemma bitlen_upper: "n < 2 ^ bitlen n"
proof (induction n rule: bitlen.induct)
  case (1 n)
  show ?case
  proof (cases "n = 0")
    case False
    then have "n div 2 < 2 ^ bitlen (n div 2)" using 1 by simp
    then have "n < 2 * 2 ^ bitlen (n div 2)" by linarith
    then show ?thesis using False by (subst bitlen.simps) simp
  qed simp
qed

lemma bitlen_lower: "0 < n \<Longrightarrow> 2 ^ (bitlen n - 1) \<le> n"
proof (induction n rule: bitlen.induct)
  case (1 n)
  have b: "bitlen n - 1 = bitlen (n div 2)" using 1(2) by (subst bitlen.simps) simp
  show ?case
  proof (cases "n div 2 = 0")
    case True
    then show ?thesis using 1(2) b by (simp add: bitlen.simps)
  next
    case False
    then have "2 ^ (bitlen (n div 2) - 1) \<le> n div 2" using 1 by simp
    moreover have "bitlen (n div 2) = Suc (bitlen (n div 2) - 1)" using False by (simp add: bitlen.simps)
    ultimately have "2 ^ bitlen (n div 2) \<le> 2 * (n div 2)" by (metis mult_le_mono2 power_Suc)
    then show ?thesis unfolding b by linarith
  qed
qed

lemma bitlen_pos: "0 < n \<Longrightarrow> 0 < bitlen n"
  by (simp add: bitlen.simps)

lemma bitlen_le: "n < 2 ^ k \<Longrightarrow> bitlen n \<le> k"
proof (rule ccontr)
  assume n: "n < 2 ^ k" and "\<not> bitlen n \<le> k"
  then have "k \<le> bitlen n - 1" "0 < n" by (auto simp: bitlen.simps split: if_splits)
  then have "2 ^ k \<le> n" using bitlen_lower [of n] power_increasing [of k "bitlen n - 1" "2 :: nat"] by linarith
  then show False using n by simp
qed

text \<open>The exponent of the highest bit.\<close>

definition floor_log2 :: "rat \<Rightarrow> int" where
  "floor_log2 x = (if 1 \<le> x then int (bitlen (nat \<lfloor>x\<rfloor>)) - 1 else - int (bitlen (nat (\<lceil>1 / x\<rceil> - 1))))"

definition pow2 :: "int \<Rightarrow> rat" where
  "pow2 e = (if 0 \<le> e then 2 ^ nat e else 1 / 2 ^ nat (- e))"

definition round_even :: "rat \<Rightarrow> int" where
  "round_even m = (let f = \<lfloor>m\<rfloor>; d = m - of_int f in if d < 1 / 2 \<or> (d = 1 / 2 \<and> even f) then f else f + 1)"

definition rnd53 :: "rat \<Rightarrow> rat" where
  "rnd53 x = (if x = 0 then 0 else let e = max (floor_log2 x) (- 1022) - 52 in of_int (round_even (x / pow2 e)) * pow2 e)"

lemma pow2_pos [simp]: "0 < pow2 e" "0 \<le> pow2 e"
  by (simp_all add: pow2_def)

lemma pow2_add: "pow2 (a + int n) = pow2 a * 2 ^ n"
proof -
  consider "0 \<le> a" | "a < 0" "0 \<le> a + int n" | "a + int n < 0" by linarith
  then show ?thesis
  proof cases
    case 1
    then show ?thesis by (simp add: pow2_def nat_add_distrib power_add)
  next
    case 2
    then have "n = nat (a + int n) + nat (- a)" by simp
    then have "(2 :: rat) ^ n = 2 ^ nat (a + int n) * 2 ^ nat (- a)" by (metis power_add)
    then show ?thesis using 2 by (simp add: pow2_def)
  next
    case 3
    then have "nat (- a) = nat (- (a + int n)) + n" by simp
    then have "(2 :: rat) ^ nat (- a) = 2 ^ nat (- (a + int n)) * 2 ^ n" by (metis power_add)
    then show ?thesis using 3 by (simp add: pow2_def)
  qed
qed

lemma round_even_int [simp]: "round_even (of_int k) = k"
  by (simp add: round_even_def)

lemma round_even_mono_int: "m \<le> of_int k \<Longrightarrow> round_even m \<le> k"
proof -
  assume m: "m \<le> of_int k"
  show ?thesis
  proof (cases "\<lfloor>m\<rfloor> = k")
    case True
    then have "m = of_int k" using m of_int_floor_le [of m] by simp
    then show ?thesis by simp
  next
    case False
    then have "\<lfloor>m\<rfloor> + 1 \<le> k" using m floor_mono [of m "of_int k"] by simp
    then show ?thesis by (auto simp: round_even_def Let_def)
  qed
qed

lemma round_even_nonneg: "0 \<le> m \<Longrightarrow> 0 \<le> round_even m"
proof -
  assume "0 \<le> m"
  then have "0 \<le> \<lfloor>m\<rfloor>" by simp
  then show ?thesis by (simp add: round_even_def Let_def)
qed

lemma floor_log2_upper:
  assumes "0 < x" and "x < 1"
  shows "x < pow2 (floor_log2 x + 1)" and "floor_log2 x \<le> - 1"
proof -
  let ?c = "\<lceil>1 / x\<rceil>" let ?k = "bitlen (nat (?c - 1))"
  have "1 < 1 / x" using assms by simp
  then have c: "1 < ?c" by (simp add: less_ceiling_iff)
  then have k: "0 < ?k" by (intro bitlen_pos) simp
  have "int (2 ^ (?k - 1)) \<le> ?c - 1" using bitlen_lower [of "nat (?c - 1)"] c by simp
  then have "(of_int (int (2 ^ (?k - 1))) :: rat) \<le> of_int (?c - 1)" by (rule of_int_le_iff [THEN iffD2])
  moreover have "(of_int (?c - 1) :: rat) < 1 / x" by linarith
  ultimately have "(2 :: rat) ^ (?k - 1) < 1 / x" by simp
  then have "x * 2 ^ (?k - 1) < 1" using assms by (simp add: field_simps)
  then have "x < 1 / 2 ^ (?k - 1)" by (simp add: field_simps)
  moreover have e: "floor_log2 x = - int ?k" using assms by (simp add: floor_log2_def)
  moreover have "pow2 (floor_log2 x + 1) = 1 / 2 ^ (?k - 1)"
  proof (cases "?k = 1")
    case True
    then show ?thesis using e by (simp add: pow2_def)
  next
    case False
    have "nat (- (- int ?k + 1)) = ?k - 1" using k by linarith
    then show ?thesis using e k False by (simp add: pow2_def)
  qed
  ultimately show "x < pow2 (floor_log2 x + 1)" by simp
  show "floor_log2 x \<le> - 1" using e k by simp
qed

text \<open>Numbers below \<open>2\<^sup>5\<^sup>3\<close> are exact.\<close>

lemma rnd53_nat:
  assumes "n < 2 ^ 53"
  shows "rnd53 (of_nat n) = of_nat n"
proof (cases "n = 0")
  case False
  have b: "0 < bitlen n" "bitlen n \<le> 53" using bitlen_le [OF assms] bitlen_pos False by simp_all
  let ?j = "53 - bitlen n"
  have fl: "floor_log2 (of_nat n) = int (bitlen n) - 1" using False by (simp add: floor_log2_def)
  have e: "max (floor_log2 (of_nat n)) (- 1022) - 52 = - int ?j" using b by (simp add: fl)
  have p: "pow2 (- int j) = 1 / 2 ^ j" for j by (simp add: pow2_def)
  have "of_nat n / pow2 (- int ?j) = (of_int (int n * 2 ^ ?j) :: rat)" unfolding p [of ?j] by simp
  then have "round_even (of_nat n / pow2 (- int ?j)) = int n * 2 ^ ?j" using round_even_int by metis
  then show ?thesis using False by (simp only: rnd53_def e Let_def p [of ?j]) simp
qed (simp add: rnd53_def)

text \<open>A ratio below one stays below one, by at least the distance of the numbers next to one.\<close>

definition below_one :: "rat \<Rightarrow> bool" where
  "below_one x \<longleftrightarrow> 0 < x \<and> x \<le> 1 - 1 / 2 ^ 53"

lemma rnd53_below_one:
  assumes "below_one x"
  shows "0 \<le> rnd53 x \<and> rnd53 x \<le> 1 - 1 / 2 ^ 53"
proof -
  have x: "0 < x" "x \<le> 1 - 1 / 2 ^ 53" "x < 1" using assms by (auto simp: below_one_def intro: le_less_trans)
  let ?f = "floor_log2 x" let ?e = "max ?f (- 1022) - 52"
  have r: "rnd53 x = of_int (round_even (x / pow2 ?e)) * pow2 ?e" using x(1) by (simp add: rnd53_def Let_def)
  have nn: "0 \<le> x / pow2 ?e" using x(1) by simp
  have "0 \<le> rnd53 x" unfolding r using round_even_nonneg [OF nn] by simp
  moreover have "rnd53 x \<le> 1 - 1 / 2 ^ 53"
  proof (cases "?f = - 1")
    case True
    then have p: "pow2 ?e = 1 / 2 ^ 53" by (simp add: pow2_def)
    have "x / pow2 ?e \<le> of_int (2 ^ 53 - 1)" unfolding p using x(2) by simp
    then have "round_even (x / pow2 ?e) \<le> 2 ^ 53 - 1" by (rule round_even_mono_int)
    then have "(of_int (round_even (x / pow2 ?e)) :: rat) \<le> of_int (2 ^ 53 - 1)" by (rule of_int_le_iff [THEN iffD2])
    then have "of_int (round_even (x / pow2 ?e)) * (1 / 2 ^ 53 :: rat) \<le> of_int (2 ^ 53 - 1) * (1 / 2 ^ 53)" by (intro mult_right_mono) simp_all
    then show ?thesis unfolding r p by simp
  next
    case False
    then have f: "?f \<le> - 2" using floor_log2_upper(2) [OF x(1,3)] by simp
    have mono: "pow2 a \<le> pow2 b" if "a \<le> b" for a b
      using pow2_add [of a "nat (b - a)"] that pow2_pos(1) [of a] by simp
    have e53: "pow2 (?e + 53) = pow2 ?e * 2 ^ 53" using pow2_add [of ?e 53] by simp
    have "x < pow2 (?f + 1)" by (rule floor_log2_upper(1) [OF x(1,3)])
    also have "\<dots> \<le> pow2 (?e + 53)" by (rule mono) simp
    finally have "x / pow2 ?e \<le> of_int (2 ^ 53)" unfolding e53 using pow2_pos(1) [of ?e] by (simp add: field_simps)
    then have "round_even (x / pow2 ?e) \<le> 2 ^ 53" by (rule round_even_mono_int)
    then have "(of_int (round_even (x / pow2 ?e)) :: rat) \<le> of_int (2 ^ 53)" by (rule of_int_le_iff [THEN iffD2])
    then have "rnd53 x \<le> of_int (2 ^ 53) * pow2 ?e" unfolding r by (intro mult_right_mono) (simp_all add: less_imp_le)
    also have "\<dots> = pow2 (?e + 53)" using e53 by simp
    also have "\<dots> \<le> pow2 (- 1)" by (rule mono) (use f in simp)
    finally show ?thesis by (simp add: pow2_def)
  qed
  ultimately show ?thesis ..
qed

section \<open>Operations\<close>

datatype dbl = Fin rat | Inf | NaN

definition dbl_of_nat :: "nat \<Rightarrow> dbl" where
  "dbl_of_nat n = Fin (rnd53 (of_nat n))"

fun dbl_div :: "dbl \<Rightarrow> dbl \<Rightarrow> dbl" where
  "dbl_div (Fin a) (Fin b) = (if b = 0 then if a = 0 then NaN else Inf else Fin (rnd53 (a / b)))"
| "dbl_div (Fin a) Inf = Fin 0"
| "dbl_div Inf (Fin b) = Inf"
| "dbl_div _ _ = NaN"

fun dbl_mul :: "dbl \<Rightarrow> dbl \<Rightarrow> dbl" where
  "dbl_mul (Fin a) (Fin b) = Fin (rnd53 (a * b))"
| "dbl_mul (Fin a) Inf = (if a = 0 then NaN else Inf)"
| "dbl_mul Inf (Fin b) = (if b = 0 then NaN else Inf)"
| "dbl_mul Inf Inf = Inf"
| "dbl_mul _ _ = NaN"

text \<open>The numbers next to zero and next to one.\<close>

definition dbl_after_0 :: dbl where
  "dbl_after_0 = Fin (1 / 2 ^ 1074)"

definition dbl_before_1 :: dbl where
  "dbl_before_1 = Fin (1 - 1 / 2 ^ 53)"

text \<open>A ratio of numbers below \<open>2\<^sup>5\<^sup>3\<close> is one only if the numbers are equal.\<close>

lemma dbl_ratio:
  assumes "0 < a" and "a \<le> b" and "b < 2 ^ 53"
  shows "\<exists>x. dbl_div (dbl_of_nat a) (dbl_of_nat b) = Fin x \<and> 0 \<le> x \<and> (if a = b then x = 1 else x \<le> 1 - 1 / 2 ^ 53)"
proof (cases "a = b")
  case True
  then show ?thesis using assms rnd53_nat [of b] rnd53_nat [of 1] by (simp add: dbl_of_nat_def)
next
  case False
  then have "a \<le> b - 1" "0 < b" using assms by auto
  then have "(of_nat a :: rat) \<le> of_nat b - 1" by (metis of_nat_1 of_nat_diff of_nat_mono One_nat_def Suc_leI)
  moreover have "(of_nat b :: rat) \<le> 2 ^ 53" using assms(3) by (metis less_imp_le of_nat_le_iff of_nat_numeral of_nat_power)
  ultimately have "(of_nat a / of_nat b :: rat) \<le> 1 - 1 / of_nat b" "1 / 2 ^ 53 \<le> (1 / of_nat b :: rat)"
    using \<open>0 < b\<close> by (simp_all add: field_simps)
  then have "(of_nat a / of_nat b :: rat) \<le> 1 - 1 / 2 ^ 53" by linarith
  moreover have "0 < (of_nat a / of_nat b :: rat)" using assms(1) \<open>0 < b\<close> by simp
  ultimately have "below_one (of_nat a / of_nat b)" unfolding below_one_def by blast
  then show ?thesis using False assms rnd53_below_one rnd53_nat [of a] rnd53_nat [of b] by (simp add: dbl_of_nat_def)
qed

end
