(* ===== verification/Tdb_Buffer.thy ===== *)
theory Tdb_Buffer
  imports Tdb_Status
begin

text \<open>
  The byte containers of \<open>buffer/\<close>: \<open>Buffer\<close>, which owns and grows its allocation or
  wraps memory of others, the read-only \<open>ConstBuffer\<close>, the fixed-size \<open>PreallocatedBuffer\<close>
  and \<open>BufferList\<close>. A pointer \<open>data_\<close> is the list of the bytes that may be accessed
  through it, \<open>None\<close> the null pointer.

  The allocator is an argument: \<open>al n = None\<close> when \<open>malloc(n)\<close> fails, and otherwise the
  \<open>n\<close> bytes that a fresh block happens to hold.
\<close>

section \<open>Raw memory\<close>

type_synonym allocator = "nat \<Rightarrow> byte list option"

definition malloc :: "allocator \<Rightarrow> nat \<Rightarrow> byte list option" where
  "malloc al n = map_option (\<lambda>bs. take n (bs @ replicate n 0)) (al n)"

definition mem_realloc :: "allocator \<Rightarrow> byte list \<Rightarrow> nat \<Rightarrow> byte list option" where
  "mem_realloc al d n = map_option (\<lambda>bs. take n (d @ drop (length d) bs)) (malloc al n)"

definition mem_read :: "byte list option \<Rightarrow> nat \<Rightarrow> nat \<Rightarrow> byte list result" where
  "mem_read d off n =
     (if n = 0 then Inr []
      else case d of None \<Rightarrow> Inl UB
        | Some xs \<Rightarrow> if off + n \<le> length xs then Inr (slice xs off n) else Inl UB)"

definition mem_write ::
  "byte list option \<Rightarrow> nat \<Rightarrow> byte list \<Rightarrow> byte list option result" where
  "mem_write d off src =
     (if src = [] then Inr d
      else case d of None \<Rightarrow> Inl UB
        | Some xs \<Rightarrow> if off + length src \<le> length xs then Inr (Some (overwrite xs off src))
                    else Inl UB)"

definition cap :: "byte list option \<Rightarrow> nat" where
  "cap d = (case d of None \<Rightarrow> 0 | Some xs \<Rightarrow> length xs)"

lemma cap_simps [simp]: "cap None = 0" "cap (Some xs) = length xs"
  by (simp_all add: cap_def)

lemma length_malloc: "malloc al n = Some d \<Longrightarrow> length d = n"
  by (auto simp: malloc_def)

lemma length_mem_realloc: "mem_realloc al d n = Some d' \<Longrightarrow> length d \<le> n \<Longrightarrow> length d' = n"
  by (auto simp: mem_realloc_def dest: length_malloc)

lemma take_mem_realloc:
  "mem_realloc al d n = Some d' \<Longrightarrow> length d \<le> n \<Longrightarrow> take (length d) d' = d"
  by (auto simp: mem_realloc_def dest: length_malloc)

lemma mem_read_exact:
  "off + n \<le> cap d \<Longrightarrow> mem_read d off n = Inr (slice (the d) off n)"
  by (cases d) (auto simp: mem_read_def)

lemma mem_write_exact:
  "off + length src \<le> cap d \<Longrightarrow>
   mem_write d off src = Inr (if src = [] then d else Some (overwrite (the d) off src))"
  by (cases d) (auto simp: mem_write_def)

lemma cap_mem_write: "mem_write d off src = Inr d' \<Longrightarrow> cap d' = cap d"
  by (auto simp: mem_write_def length_overwrite split: option.splits if_splits)

section \<open>ConstBuffer\<close>

record const_buffer =
  cdata :: "byte list option"
  coffset :: nat
  csize :: nat

definition cb_new :: "byte list option \<Rightarrow> nat \<Rightarrow> const_buffer" where
  "cb_new data sz = \<lparr>cdata = data, coffset = 0, csize = sz\<rparr>"

definition cb_advance_offset :: "nat \<Rightarrow> const_buffer \<Rightarrow> const_buffer" where
  "cb_advance_offset nbytes cb = cb\<lparr>coffset := add64 (coffset cb) nbytes\<rparr>"

definition cb_cur_data :: "const_buffer \<Rightarrow> byte list option" where
  "cb_cur_data cb = map_option (drop (coffset cb)) (cdata cb)"

definition cb_end :: "const_buffer \<Rightarrow> bool" where
  "cb_end cb = (coffset cb = csize cb)"

definition cb_nbytes_left_to_read :: "const_buffer \<Rightarrow> nat" where
  "cb_nbytes_left_to_read cb = sub64 (csize cb) (coffset cb)"

definition cb_set_offset :: "nat \<Rightarrow> const_buffer \<Rightarrow> const_buffer" where
  "cb_set_offset off cb = cb\<lparr>coffset := off\<rparr>"

definition cb_read :: "nat \<Rightarrow> const_buffer \<Rightarrow> (byte list \<times> const_buffer) result" where
  "cb_read nbytes cb =
     (if csize cb < add64 (coffset cb) nbytes
      then Inl (Err SC_ConstBuffer ''Read buffer overflow'')
      else bindR (mem_read (cdata cb) (coffset cb) nbytes) (\<lambda>bs.
           Inr (bs, cb_advance_offset nbytes cb)))"

definition shift_cell :: "nat \<Rightarrow> byte list \<Rightarrow> byte list" where
  "shift_cell off c = le_bytes 8 ((of_nat off :: 64 word) + of_le c)"

definition cb_read_with_shift ::
  "nat \<Rightarrow> nat \<Rightarrow> const_buffer \<Rightarrow> (byte list \<times> const_buffer) result" where
  "cb_read_with_shift nbytes off cb =
     (let n = nbytes div 8 in
      bindR (mem_read (cdata cb) (coffset cb) (8 * n)) (\<lambda>bs.
        Inr (concat (map (\<lambda>i. shift_cell off (slice bs (8 * i) 8)) [0..<n]),
             cb_advance_offset nbytes cb)))"

definition cb_value :: "nat \<Rightarrow> const_buffer \<Rightarrow> 'a::len word result" where
  "cb_value off cb =
     bindR (mem_read (cdata cb) off (sizeof TYPE('a))) (\<lambda>bs. Inr (of_le bs))"

section \<open>Buffer\<close>

record buffer =
  alloced_size :: nat
  bdata :: "byte list option"
  boffset :: nat
  owns_data :: bool
  bsize :: nat

definition buffer_wrap :: "byte list option \<Rightarrow> nat \<Rightarrow> buffer" where
  "buffer_wrap data sz =
     \<lparr>alloced_size = 0, bdata = data, boffset = 0, owns_data = False, bsize = sz\<rparr>"

definition buffer_new :: buffer where
  "buffer_new = (buffer_wrap None 0)\<lparr>owns_data := True\<rparr>"

definition buffer_copy :: "allocator \<Rightarrow> buffer \<Rightarrow> buffer result" where
  "buffer_copy al b =
     (if owns_data b then
        case bdata b of None \<Rightarrow> Inr b
        | Some d \<Rightarrow>
            (case malloc al (alloced_size b) of None \<Rightarrow> Inl AssertFail
             | Some d' \<Rightarrow>
                 bindR (mem_read (bdata b) 0 (alloced_size b)) (\<lambda>bs.
                 bindR (mem_write (Some d') 0 bs) (\<lambda>d''. Inr (b\<lparr>bdata := d''\<rparr>))))
      else Inr b)"

definition buffer_advance_offset :: "nat \<Rightarrow> buffer \<Rightarrow> buffer" where
  "buffer_advance_offset nbytes b = b\<lparr>boffset := add64 (boffset b) nbytes\<rparr>"

definition buffer_advance_size :: "nat \<Rightarrow> buffer \<Rightarrow> buffer result" where
  "buffer_advance_size nbytes b =
     (if owns_data b then Inr (b\<lparr>bsize := add64 (bsize b) nbytes\<rparr>) else Inl AssertFail)"

definition buffer_clear :: "buffer \<Rightarrow> buffer" where
  "buffer_clear b = b\<lparr>bdata := None, boffset := 0, bsize := 0, alloced_size := 0\<rparr>"

definition buffer_data_at :: "nat \<Rightarrow> buffer \<Rightarrow> byte list option" where
  "buffer_data_at off b = map_option (drop off) (bdata b)"

definition buffer_cur_data :: "buffer \<Rightarrow> byte list option" where
  "buffer_cur_data b = buffer_data_at (boffset b) b"

definition buffer_disown_data :: "buffer \<Rightarrow> buffer" where
  "buffer_disown_data b = b\<lparr>owns_data := False\<rparr>"

definition buffer_free_space :: "buffer \<Rightarrow> nat result" where
  "buffer_free_space b =
     (if bsize b \<le> alloced_size b then Inr (sub64 (alloced_size b) (bsize b))
      else Inl AssertFail)"

definition buffer_read :: "nat \<Rightarrow> buffer \<Rightarrow> (byte list \<times> buffer) result" where
  "buffer_read nbytes b =
     (if bsize b < add64 nbytes (boffset b)
      then Inl (Err SC_Buffer ''Read failed; Trying to read beyond buffer size'')
      else bindR (mem_read (bdata b) (boffset b) nbytes) (\<lambda>bs.
           Inr (bs, buffer_advance_offset nbytes b)))"

definition buffer_realloc :: "allocator \<Rightarrow> nat \<Rightarrow> buffer \<Rightarrow> buffer result" where
  "buffer_realloc al nbytes b =
     (if \<not> owns_data b
      then Inl (Err SC_Buffer ''Cannot reallocate buffer; Buffer does not own data'')
      else case bdata b of
        None \<Rightarrow>
          (case malloc al nbytes of
             None \<Rightarrow> Inl (Err SC_Buffer ''Cannot allocate buffer; Memory allocation failed'')
           | Some d \<Rightarrow> Inr (b\<lparr>bdata := Some d, alloced_size := nbytes\<rparr>))
      | Some d0 \<Rightarrow>
          (if alloced_size b < nbytes
           then case mem_realloc al d0 nbytes of
                  None \<Rightarrow> Inl (Err SC_Buffer ''Cannot reallocate buffer; Memory allocation failed'')
                | Some d \<Rightarrow> Inr (b\<lparr>bdata := Some d, alloced_size := nbytes\<rparr>)
           else Inr b))"

definition buffer_reset_offset :: "buffer \<Rightarrow> buffer" where
  "buffer_reset_offset b = b\<lparr>boffset := 0\<rparr>"

definition buffer_reset_size :: "buffer \<Rightarrow> buffer" where
  "buffer_reset_size b = b\<lparr>boffset := 0, bsize := 0\<rparr>"

definition buffer_set_offset :: "nat \<Rightarrow> buffer \<Rightarrow> buffer" where
  "buffer_set_offset off b = b\<lparr>boffset := off\<rparr>"

definition buffer_set_size :: "nat \<Rightarrow> buffer \<Rightarrow> buffer" where
  "buffer_set_size sz b = b\<lparr>bsize := sz\<rparr>"

definition buffer_swap :: "buffer \<Rightarrow> buffer \<Rightarrow> buffer \<times> buffer" where
  "buffer_swap b other = (other, b)"

text \<open>The loop that doubles the allocation; it never returns once the size has wrapped to 0.\<close>

partial_function (option) grow_alloc :: "nat \<Rightarrow> nat \<Rightarrow> nat option" where
  "grow_alloc new_alloc_size nbytes =
     (if new_alloc_size < nbytes then grow_alloc (mul64 new_alloc_size 2) nbytes
      else Some new_alloc_size)"

definition ensure_alloced_size :: "allocator \<Rightarrow> nat \<Rightarrow> buffer \<Rightarrow> buffer result" where
  "ensure_alloced_size al nbytes b =
     (if nbytes \<le> alloced_size b then Inr b
      else case grow_alloc (if alloced_size b = 0 then nbytes else alloced_size b) nbytes of
             None \<Rightarrow> Inl Diverges
           | Some n \<Rightarrow> buffer_realloc al n b)"

definition not_owned :: error where
  "not_owned = Err SC_Buffer
     ''Cannot write to buffer; Buffer does not own the already stored data''"

definition buffer_write :: "allocator \<Rightarrow> byte list \<Rightarrow> buffer \<Rightarrow> buffer result" where
  "buffer_write al bs b =
     (if \<not> owns_data b then Inl not_owned
      else bindR (ensure_alloced_size al (add64 (boffset b) (length bs)) b) (\<lambda>b1.
           bindR (mem_write (bdata b1) (boffset b1) bs) (\<lambda>d.
             let off = add64 (boffset b1) (length bs)
             in Inr (b1\<lparr>bdata := d, boffset := off, bsize := off\<rparr>))))"

text \<open>
  The copies from a \<open>ConstBuffer\<close> drop the status of its \<open>read\<close>: when that fails nothing is
  copied, but the offset and the size of the destination move all the same.
\<close>

definition copy_from ::
  "nat \<Rightarrow> const_buffer \<Rightarrow> buffer \<Rightarrow> (buffer \<times> const_buffer) result" where
  "copy_from nbytes cb b =
     (let off = add64 (boffset b) nbytes in
      case cb_read nbytes cb of
        Inr (bs, cb') \<Rightarrow>
          bindR (mem_write (bdata b) (boffset b) bs) (\<lambda>d.
            Inr (b\<lparr>bdata := d, boffset := off, bsize := off\<rparr>, cb'))
      | Inl (Err c m) \<Rightarrow> Inr (b\<lparr>boffset := off, bsize := off\<rparr>, cb)
      | Inl e \<Rightarrow> Inl e)"

definition buffer_write_cb ::
  "const_buffer \<Rightarrow> buffer \<Rightarrow> (buffer \<times> const_buffer) result" where
  "buffer_write_cb cb b =
     (if \<not> owns_data b then Inl not_owned
      else let bytes_left_to_write = sub64 (alloced_size b) (boffset b);
               bytes_left_to_read = cb_nbytes_left_to_read cb
           in copy_from (min bytes_left_to_write bytes_left_to_read) cb b)"

definition buffer_write_cb_n ::
  "allocator \<Rightarrow> nat \<Rightarrow> const_buffer \<Rightarrow> buffer \<Rightarrow> (buffer \<times> const_buffer) result" where
  "buffer_write_cb_n al nbytes cb b =
     (if \<not> owns_data b then Inl not_owned
      else bindR (ensure_alloced_size al (add64 (boffset b) nbytes) b) (copy_from nbytes cb))"

definition buffer_write_with_shift ::
  "nat \<Rightarrow> const_buffer \<Rightarrow> buffer \<Rightarrow> (buffer \<times> const_buffer) result" where
  "buffer_write_with_shift shift cb b =
     (if \<not> owns_data b then Inl not_owned
      else let bytes_left_to_write = sub64 (alloced_size b) (boffset b);
               bytes_left_to_read = cb_nbytes_left_to_read cb;
               bytes_to_copy = min bytes_left_to_write bytes_left_to_read;
               off = add64 (boffset b) bytes_to_copy
           in bindR (cb_read_with_shift bytes_to_copy shift cb) (\<lambda>(bs, cb').
              bindR (mem_write (bdata b) (boffset b) bs) (\<lambda>d.
                Inr (b\<lparr>bdata := d, boffset := off, bsize := off\<rparr>, cb'))))"

definition cb_of_buffer :: "buffer \<Rightarrow> const_buffer" where
  "cb_of_buffer b = cb_new (bdata b) (bsize b)"

definition buffer_assign :: "allocator \<Rightarrow> buffer \<Rightarrow> buffer result" where
  "buffer_assign al src = buffer_copy al src"

section \<open>PreallocatedBuffer\<close>

record prealloc_buffer =
  pdata :: "byte list option"
  poffset :: nat
  psize :: nat

definition pb_new :: "byte list option \<Rightarrow> nat \<Rightarrow> prealloc_buffer" where
  "pb_new data sz = \<lparr>pdata = data, poffset = 0, psize = sz\<rparr>"

definition pb_advance_offset :: "nat \<Rightarrow> prealloc_buffer \<Rightarrow> prealloc_buffer result" where
  "pb_advance_offset nbytes p =
     (if add64 (poffset p) nbytes \<le> psize p
      then Inr (p\<lparr>poffset := add64 (poffset p) nbytes\<rparr>) else Inl AssertFail)"

definition pb_cur_data :: "prealloc_buffer \<Rightarrow> byte list option" where
  "pb_cur_data p = map_option (drop (poffset p)) (pdata p)"

definition pb_free_space :: "prealloc_buffer \<Rightarrow> nat" where
  "pb_free_space p = sub64 (psize p) (poffset p)"

definition pb_read :: "nat \<Rightarrow> prealloc_buffer \<Rightarrow> (byte list \<times> prealloc_buffer) result" where
  "pb_read nbytes p =
     (if psize p < add64 (poffset p) nbytes
      then Inl (Err SC_PreallocatedBuffer ''Read buffer overflow'')
      else bindR (mem_read (pdata p) (poffset p) nbytes) (\<lambda>bs.
           Inr (bs, p\<lparr>poffset := add64 (poffset p) nbytes\<rparr>)))"

definition pb_write :: "byte list \<Rightarrow> prealloc_buffer \<Rightarrow> prealloc_buffer result" where
  "pb_write bs p =
     (if psize p < add64 (poffset p) (length bs)
      then Inl (Err SC_PreallocatedBuffer ''Write would overflow buffer.'')
      else bindR (mem_write (pdata p) (poffset p) bs) (\<lambda>d.
           Inr (p\<lparr>pdata := d, poffset := add64 (poffset p) (length bs)\<rparr>)))"

section \<open>BufferList\<close>

record buffer_list =
  bl_buffers :: "buffer list"
  current_buffer_index :: nat
  current_relative_offset :: nat
  bl_offset :: nat

definition bl_new :: buffer_list where
  "bl_new = \<lparr>bl_buffers = [], current_buffer_index = 0, current_relative_offset = 0,
             bl_offset = 0\<rparr>"

definition bl_add_buffer :: "buffer \<Rightarrow> buffer_list \<Rightarrow> buffer_list" where
  "bl_add_buffer b bl = bl\<lparr>bl_buffers := bl_buffers bl @ [b]\<rparr>"

definition bl_get_buffer :: "nat \<Rightarrow> buffer_list \<Rightarrow> buffer result" where
  "bl_get_buffer index bl =
     (if length (bl_buffers bl) \<le> index
      then Inl (Err SC_Buffer ''Cannot get buffer from buffer list; index out of bounds.'')
      else Inr (bl_buffers bl ! index))"

text \<open>
  The loop of \<open>read\<close>: from buffer \<open>idx\<close> on, with \<open>left\<close> bytes still wanted and the
  bytes already read in \<open>acc\<close>.
\<close>

function bl_read_loop ::
  "nat \<Rightarrow> nat \<Rightarrow> byte list \<Rightarrow> buffer_list \<Rightarrow> (nat \<times> byte list \<times> buffer_list) result" where
  "bl_read_loop idx bytes_left acc bl =
     (if idx < length (bl_buffers bl) \<and> 0 < bytes_left then
        let src = buffer_set_offset (current_relative_offset bl) (bl_buffers bl ! idx);
            bytes_in_src = sub64 (bsize src) (current_relative_offset bl);
            bytes_from_src = min bytes_in_src bytes_left
        in case buffer_read bytes_from_src src of
             Inl e \<Rightarrow> Inl e
           | Inr (bs, src') \<Rightarrow>
               (let left' = bytes_left - bytes_from_src;
                    rel = (if 0 < left' then 0
                           else add64 (current_relative_offset bl) bytes_from_src)
                in bl_read_loop (Suc idx) left' (acc @ bs)
                     (bl\<lparr>bl_buffers := (bl_buffers bl)[idx := src'],
                         current_buffer_index := idx, current_relative_offset := rel\<rparr>))
      else Inr (bytes_left, acc, bl))"
  by pat_completeness auto
termination
  by (relation "measure (\<lambda>(idx, _, _, bl). length (bl_buffers bl) - idx)") auto

declare bl_read_loop.simps [simp del]

definition bl_read_at_most ::
  "nat \<Rightarrow> buffer_list \<Rightarrow> (nat \<times> byte list \<times> buffer_list) result" where
  "bl_read_at_most nbytes bl =
     bindR (bl_read_loop (current_buffer_index bl) nbytes [] bl) (\<lambda>(bytes_left, bs, bl').
       Inr (nbytes - bytes_left, bs, bl'))"

definition bl_read :: "nat \<Rightarrow> buffer_list \<Rightarrow> (byte list \<times> buffer_list) result" where
  "bl_read nbytes bl =
     bindR (bl_read_at_most nbytes bl) (\<lambda>(bytes_read, bs, bl').
       if bytes_read \<noteq> nbytes
       then Inl (Err SC_Buffer ''BufferList error; could not read requested byte count.'')
       else Inr (bs, bl'))"

definition bl_reset_offset :: "buffer_list \<Rightarrow> buffer_list" where
  "bl_reset_offset bl = bl\<lparr>bl_offset := 0, current_buffer_index := 0,
                            current_relative_offset := 0\<rparr>"

definition bl_total_size :: "buffer_list \<Rightarrow> nat" where
  "bl_total_size bl = fold (\<lambda>b n. add64 n (bsize b)) (bl_buffers bl) 0"

section \<open>Invariants and contents\<close>

definition buffer_inv :: "buffer \<Rightarrow> bool" where
  "buffer_inv b \<longleftrightarrow>
     cap (bdata b) < 2 ^ 64 \<and> boffset b < 2 ^ 64 \<and> alloced_size b < 2 ^ 64
     \<and> bsize b \<le> cap (bdata b) \<and> (owns_data b \<longrightarrow> alloced_size b = cap (bdata b))"

definition region :: "byte list option \<Rightarrow> byte list" where
  "region d = (case d of None \<Rightarrow> [] | Some xs \<Rightarrow> xs)"

definition buffer_bytes :: "buffer \<Rightarrow> byte list" where
  "buffer_bytes b = take (bsize b) (region (bdata b))"

definition alloc_total :: "allocator \<Rightarrow> bool" where
  "alloc_total al \<longleftrightarrow> (\<forall>n. al n \<noteq> None)"

lemma region_simps [simp]: "region None = []" "region (Some xs) = xs"
  by (simp_all add: region_def)

lemma length_region [simp]: "length (region d) = cap d"
  by (cases d) simp_all

lemma length_buffer_bytes: "buffer_inv b \<Longrightarrow> length (buffer_bytes b) = bsize b"
  by (simp add: buffer_bytes_def buffer_inv_def)

lemma mem_read_region: "off + n \<le> cap d \<Longrightarrow> mem_read d off n = Inr (slice (region d) off n)"
  by (cases d) (auto simp: mem_read_def)

lemma mem_write_region:
  assumes "off + length src \<le> cap d"
  shows "\<exists>d'. mem_write d off src = Inr d' \<and> cap d' = cap d
               \<and> region d' = overwrite (region d) off src"
  using assms by (cases d; cases "src = []") (auto simp: mem_write_def length_overwrite)

lemma alloc_total_malloc: "alloc_total al \<Longrightarrow> \<exists>d. malloc al n = Some d \<and> length d = n"
  by (force simp: alloc_total_def malloc_def)

lemma alloc_total_realloc:
  assumes "alloc_total al" and "length d \<le> n"
  obtains d' where "mem_realloc al d n = Some d'" and "length d' = n" and "take (length d) d' = d"
proof -
  obtain x where "malloc al n = Some x" using alloc_total_malloc [OF assms(1)] by blast
  then obtain d' where "mem_realloc al d n = Some d'" by (simp add: mem_realloc_def)
  with that length_mem_realloc [OF this assms(2)] take_mem_realloc [OF this assms(2)]
  show thesis by blast
qed

section \<open>Growing the allocation\<close>

lemma grow_alloc_ge: "grow_alloc a n = Some m \<Longrightarrow> n \<le> m"
proof (rule grow_alloc.raw_induct [where P = "\<lambda>a n m. n \<le> m"])
  fix f a n m
  assume "\<And>a n m. f a n = Some m \<Longrightarrow> n \<le> m"
    and "(if a < n then f (mul64 a 2) n else Some a) = Some m"
  then show "n \<le> m" by (auto split: if_splits)
qed

lemma grow_alloc_returns:
  assumes "0 < a" and "a < 2 ^ 64" and "n \<le> 2 ^ 63"
  shows "\<exists>m. grow_alloc a n = Some m \<and> n \<le> m \<and> a \<le> m \<and> m < 2 ^ 64"
  using assms
proof (induction "n - a" arbitrary: a rule: less_induct)
  case less
  show ?case
  proof (cases "a < n")
    case False
    then show ?thesis using less.prems by (subst grow_alloc.simps) simp
  next
    case True
    have two: "mul64 a 2 = 2 * a" using True less.prems by (simp add: mul64_def)
    have "n - 2 * a < n - a" "0 < 2 * a" "2 * a < 2 ^ 64" using True less.prems by simp_all
    then obtain m where "grow_alloc (2 * a) n = Some m" "n \<le> m" "2 * a \<le> m" "m < 2 ^ 64"
      using less.hyps less.prems(3) by blast
    then show ?thesis using True two by (subst grow_alloc.simps) simp
  qed
qed

lemma grow_alloc_zero: "0 < n \<Longrightarrow> grow_alloc 0 n = None"
proof (rule ccontr)
  assume n: "0 < n" and "grow_alloc 0 n \<noteq> None"
  then obtain m where "grow_alloc 0 n = Some m" by blast
  then have "(0::nat) = 0 \<longrightarrow> 0 < n \<longrightarrow> False"
  proof (rule grow_alloc.raw_induct [where P = "\<lambda>a n m. a = 0 \<longrightarrow> 0 < n \<longrightarrow> False", rotated])
    fix f a n m
    assume "\<And>a n m. f a n = Some m \<Longrightarrow> a = 0 \<longrightarrow> 0 < n \<longrightarrow> False"
      and "(if a < n then f (mul64 a 2) n else Some a) = Some m"
    then show "a = 0 \<longrightarrow> 0 < n \<longrightarrow> False" by (auto simp: mul64_def split: if_splits)
  qed
  with n show False by simp
qed

lemma grow_alloc_power_diverges:
  assumes "k \<le> 63" and "2 ^ 63 < n"
  shows "grow_alloc (2 ^ k) n = None"
  using assms(1)
proof (induction "63 - k" arbitrary: k)
  case 0
  then have k: "k = 63" by simp
  have "mul64 (2 ^ 63) 2 = 0" by (simp add: mul64_def)
  then show ?case using assms(2) grow_alloc_zero [of n] k by (subst grow_alloc.simps) simp
next
  case (Suc x)
  then have k: "k < 63" by simp
  have "(2::nat) ^ k < 2 ^ 63" using k by (simp del: power_numeral)
  moreover have "mul64 (2 ^ k) 2 = 2 ^ Suc k"
  proof -
    have "(2::nat) ^ Suc k < 2 ^ 64" using k by (intro power_strict_increasing) simp_all
    then show ?thesis by (simp add: mul64_def mult.commute)
  qed
  moreover have "grow_alloc (2 ^ Suc k) n = None"
    by (rule Suc.hyps(1)) (use Suc.hyps(2) k in simp_all)
  ultimately show ?case using assms(2) by (subst grow_alloc.simps) simp
qed

lemma ensure_alloced_size_spec:
  assumes "alloc_total al" and "buffer_inv b" and "owns_data b" and "n \<le> 2 ^ 63"
  shows "\<exists>b'. ensure_alloced_size al n b = Inr b' \<and> buffer_inv b' \<and> owns_data b'
             \<and> n \<le> alloced_size b' \<and> boffset b' = boffset b \<and> bsize b' = bsize b
             \<and> cap (bdata b) \<le> cap (bdata b')
             \<and> take (cap (bdata b)) (region (bdata b')) = region (bdata b)"
proof (cases "n \<le> alloced_size b")
  case True
  then show ?thesis using assms by (simp add: ensure_alloced_size_def)
next
  case False
  let ?a = "if alloced_size b = 0 then n else alloced_size b"
  have "0 < ?a" "?a < 2 ^ 64" using False assms(2,4) by (simp_all add: buffer_inv_def)
  then obtain m where m: "grow_alloc ?a n = Some m" "n \<le> m" "?a \<le> m" "m < 2 ^ 64"
    using grow_alloc_returns assms(4) by blast
  have al: "alloced_size b = cap (bdata b)" using assms(2,3) by (simp add: buffer_inv_def)
  have le: "cap (bdata b) \<le> m" using m(3) al by (simp split: if_splits)
  show ?thesis
  proof (cases "bdata b")
    case None
    obtain d where "malloc al m = Some d" "length d = m"
      using alloc_total_malloc [OF assms(1)] by blast
    then show ?thesis using False m None assms al
      by (simp add: ensure_alloced_size_def buffer_realloc_def buffer_inv_def)
  next
    case (Some d0)
    obtain d where "mem_realloc al d0 m = Some d" "length d = m" "take (length d0) d = d0"
      using alloc_total_realloc [OF assms(1)] le Some by auto
    then show ?thesis using False m Some assms al le
      by (auto simp: ensure_alloced_size_def buffer_realloc_def buffer_inv_def)
  qed
qed

lemma buffer_realloc_cases:
  assumes "buffer_inv b" and "owns_data b" and "cap (bdata b) \<le> m" and "m < 2 ^ 64"
  shows "(\<exists>b1. buffer_realloc al m b = Inr b1 \<and> buffer_inv b1 \<and> owns_data b1
             \<and> m \<le> alloced_size b1 \<and> boffset b1 = boffset b)
       \<or> (\<exists>msg. buffer_realloc al m b = Inl (Err SC_Buffer msg))"
proof (cases "bdata b")
  case None
  then show ?thesis using assms length_malloc [of al m]
    by (cases "malloc al m") (simp_all add: buffer_realloc_def buffer_inv_def)
next
  case (Some d)
  then show ?thesis using assms length_mem_realloc [of al d m]
    by (cases "mem_realloc al d m") (auto simp: buffer_realloc_def buffer_inv_def)
qed

lemma ensure_alloced_size_cases:
  assumes "buffer_inv b" and "owns_data b" and "n \<le> 2 ^ 63"
  shows "(\<exists>b1. ensure_alloced_size al n b = Inr b1 \<and> buffer_inv b1 \<and> owns_data b1
             \<and> n \<le> alloced_size b1 \<and> boffset b1 = boffset b)
       \<or> (\<exists>msg. ensure_alloced_size al n b = Inl (Err SC_Buffer msg))"
proof (cases "n \<le> alloced_size b")
  case True
  then show ?thesis using assms by (simp add: ensure_alloced_size_def)
next
  case False
  let ?a = "if alloced_size b = 0 then n else alloced_size b"
  have "0 < ?a" "?a < 2 ^ 64" using False assms by (simp_all add: buffer_inv_def)
  then obtain m where m: "grow_alloc ?a n = Some m" "n \<le> m" "?a \<le> m" "m < 2 ^ 64"
    using grow_alloc_returns assms(3) by blast
  have "cap (bdata b) \<le> m" using m(3) assms(1,2) by (simp add: buffer_inv_def split: if_splits)
  from buffer_realloc_cases [OF assms(1,2) this m(4), of al] show ?thesis
    using m False by (auto simp: ensure_alloced_size_def)
qed

lemma buffer_write_spec:
  assumes "alloc_total al" and "buffer_inv b" and "owns_data b"
    and "boffset b \<le> bsize b" and "boffset b + length bs \<le> 2 ^ 63"
  shows "\<exists>b'. buffer_write al bs b = Inr b' \<and> buffer_inv b' \<and> owns_data b'
             \<and> boffset b' = boffset b + length bs \<and> bsize b' = boffset b'
             \<and> buffer_bytes b' = take (boffset b) (buffer_bytes b) @ bs"
proof -
  have off: "add64 (boffset b) (length bs) = boffset b + length bs"
    using assms(5) by (simp add: u64_simps)
  obtain b1 where b1: "ensure_alloced_size al (boffset b + length bs) b = Inr b1"
    "buffer_inv b1" "owns_data b1" "boffset b + length bs \<le> alloced_size b1"
    "boffset b1 = boffset b" "cap (bdata b) \<le> cap (bdata b1)"
    "take (cap (bdata b)) (region (bdata b1)) = region (bdata b)"
    using ensure_alloced_size_spec [OF assms(1,2,3,5)] by blast
  have fits: "boffset b + length bs \<le> cap (bdata b1)"
    using b1(2,3,4) by (simp add: buffer_inv_def)
  obtain d where d: "mem_write (bdata b1) (boffset b) bs = Inr d" "cap d = cap (bdata b1)"
    "region d = overwrite (region (bdata b1)) (boffset b) bs"
    using mem_write_region [OF fits] by blast
  let ?b = "b1\<lparr>bdata := d, boffset := boffset b + length bs, bsize := boffset b + length bs\<rparr>"
  have "buffer_write al bs b = Inr ?b"
    using assms(3) off b1(1,5) d(1) by (simp add: buffer_write_def Let_def)
  moreover have "buffer_inv ?b"
    using b1(2,3) d(2) fits by (simp add: buffer_inv_def)
  moreover have "buffer_bytes ?b = take (boffset b) (buffer_bytes b) @ bs"
  proof -
    have "boffset b \<le> cap (bdata b)" using assms(2,4) by (simp add: buffer_inv_def)
    then have "take (boffset b) (region (bdata b1)) = take (boffset b) (region (bdata b))"
      using b1(7) by (metis min.absorb1 take_take)
    moreover have "take (boffset b) (buffer_bytes b) = take (boffset b) (region (bdata b))"
      using assms(4) by (simp add: buffer_bytes_def min.absorb1)
    ultimately show ?thesis
      using d(3) fits by (simp add: buffer_bytes_def take_overwrite_end)
  qed
  ultimately show ?thesis using b1(3) by auto
qed

lemma buffer_write_cases:
  assumes "buffer_inv b" and "boffset b + length bs \<le> 2 ^ 63"
  shows "(\<exists>b'. buffer_write al bs b = Inr b' \<and> buffer_inv b' \<and> bsize b' = boffset b + length bs)
       \<or> (\<exists>m. buffer_write al bs b = Inl (Err SC_Buffer m))"
proof (cases "owns_data b")
  case False
  then show ?thesis by (simp add: buffer_write_def not_owned_def)
next
  case True
  let ?n = "boffset b + length bs"
  have off: "add64 (boffset b) (length bs) = ?n" using assms(2) by (simp add: add64_exact)
  from ensure_alloced_size_cases [OF assms(1) True assms(2), of al]
  consider (err) m where "ensure_alloced_size al ?n b = Inl (Err SC_Buffer m)"
    | (ok) b1 where "ensure_alloced_size al ?n b = Inr b1" "buffer_inv b1" "owns_data b1"
        "?n \<le> alloced_size b1" "boffset b1 = boffset b"
    by blast
  then show ?thesis
  proof cases
    case ok
    then have fits: "boffset b + length bs \<le> cap (bdata b1)" by (simp add: buffer_inv_def)
    from mem_write_region [OF fits] obtain d where
      "mem_write (bdata b1) (boffset b) bs = Inr d" "cap d = cap (bdata b1)" by blast
    with ok off True fits show ?thesis
      by (simp add: buffer_write_def buffer_inv_def Let_def)
  qed (simp add: buffer_write_def off True)
qed

lemma buffer_read_spec:
  assumes "buffer_inv b" and "boffset b + n < 2 ^ 64"
  shows "buffer_read n b =
    (if boffset b + n \<le> bsize b
     then Inr (slice (buffer_bytes b) (boffset b) n, b\<lparr>boffset := boffset b + n\<rparr>)
     else Inl (Err SC_Buffer ''Read failed; Trying to read beyond buffer size''))"
proof (cases "boffset b + n \<le> bsize b")
  case True
  then have "boffset b + n \<le> cap (bdata b)" using assms(1) by (simp add: buffer_inv_def)
  then have "mem_read (bdata b) (boffset b) n = Inr (slice (buffer_bytes b) (boffset b) n)"
    using True by (simp add: mem_read_region buffer_bytes_def slice_take)
  then show ?thesis
    using True assms(2)
    by (simp add: buffer_read_def buffer_advance_offset_def add64_exact add.commute)
next
  case False
  then show ?thesis using assms(2)
    by (simp add: buffer_read_def add64_exact add.commute)
qed

section \<open>The interface of byte sinks and byte sources\<close>

text \<open>
  What a codec relies on: a sink appends the bytes it is given as long as it has room for them,
  and a source hands out its remaining bytes in order and refuses to read past its end.
\<close>

locale byte_sink =
  fixes put :: "byte list \<Rightarrow> 's \<Rightarrow> 's result"
    and contents :: "'s \<Rightarrow> byte list"
    and inv :: "'s \<Rightarrow> bool"
    and room :: "'s \<Rightarrow> nat \<Rightarrow> bool"
  assumes put_ok:
      "inv s \<Longrightarrow> room s (length bs + n) \<Longrightarrow>
       \<exists>s'. put bs s = Inr s' \<and> inv s' \<and> contents s' = contents s @ bs \<and> room s' n"
    and room_less: "room s (m + n) \<Longrightarrow> room s m"
begin

lemma put_last:
  "inv s \<Longrightarrow> room s (length bs) \<Longrightarrow>
   \<exists>s'. put bs s = Inr s' \<and> inv s' \<and> contents s' = contents s @ bs"
  using put_ok [of s bs 0] by auto

lemma put_all:
  "inv s \<Longrightarrow> room s (length (concat bss) + n) \<Longrightarrow>
   \<exists>s'. foldR (\<lambda>s bs. put bs s) s bss = Inr s' \<and> inv s'
        \<and> contents s' = contents s @ concat bss \<and> room s' n"
proof (induction bss arbitrary: s)
  case (Cons bs bss)
  have "room s (length bs + (length (concat bss) + n))" using Cons.prems(2) by (simp add: add.assoc)
  from put_ok [OF Cons.prems(1) this] obtain s1 where s1:
    "put bs s = Inr s1" "inv s1" "contents s1 = contents s @ bs" "room s1 (length (concat bss) + n)"
    by blast
  from Cons.IH [OF s1(2,4)] s1 show ?case by auto
qed simp

end

locale byte_source =
  fixes get :: "nat \<Rightarrow> 's \<Rightarrow> (byte list \<times> 's) result"
    and rest :: "'s \<Rightarrow> byte list"
    and inv :: "'s \<Rightarrow> bool"
  assumes get_ok:
      "inv s \<Longrightarrow> n \<le> length (rest s) \<Longrightarrow>
       \<exists>s'. get n s = Inr (take n (rest s), s') \<and> inv s' \<and> rest s' = drop n (rest s)"
    and get_fail:
      "inv s \<Longrightarrow> length (rest s) < n \<Longrightarrow> n \<le> 2 ^ 63 \<Longrightarrow> \<exists>c m. get n s = Inl (Err c m)"
begin

lemma get_front:
  "inv s \<Longrightarrow> rest s = bs @ ys \<Longrightarrow> n = length bs \<Longrightarrow>
   \<exists>s'. get n s = Inr (bs, s') \<and> inv s' \<and> rest s' = ys"
  using get_ok [of s n] by auto

lemma get_safe: "inv s \<Longrightarrow> n \<le> 2 ^ 63 \<Longrightarrow> get n s \<noteq> Inl UB"
  using get_ok [of s n] get_fail [of s n] by (cases "n \<le> length (rest s)") auto

end

definition buffer_sink :: "buffer \<Rightarrow> bool" where
  "buffer_sink b \<longleftrightarrow> buffer_inv b \<and> owns_data b \<and> boffset b = bsize b"

definition buffer_room :: "allocator \<Rightarrow> buffer \<Rightarrow> nat \<Rightarrow> bool" where
  "buffer_room al b n \<longleftrightarrow> alloc_total al \<and> boffset b + n \<le> 2 ^ 63"

lemma buffer_write_append:
  assumes "buffer_sink b" and "buffer_room al b (length bs + n)"
  shows "\<exists>b'. buffer_write al bs b = Inr b' \<and> buffer_sink b'
              \<and> buffer_bytes b' = buffer_bytes b @ bs \<and> buffer_room al b' n"
proof -
  have "boffset b \<le> bsize b" "boffset b + length bs \<le> 2 ^ 63" "alloc_total al"
    using assms by (simp_all add: buffer_sink_def buffer_room_def)
  then obtain b' where b': "buffer_write al bs b = Inr b'" "buffer_inv b'" "owns_data b'"
    "boffset b' = boffset b + length bs" "bsize b' = boffset b'"
    "buffer_bytes b' = take (boffset b) (buffer_bytes b) @ bs"
    using buffer_write_spec assms(1) unfolding buffer_sink_def by blast
  moreover have "take (boffset b) (buffer_bytes b) = buffer_bytes b"
    using assms(1) length_buffer_bytes [of b] by (simp add: buffer_sink_def)
  ultimately show ?thesis using assms(2) by (simp add: buffer_sink_def buffer_room_def)
qed

interpretation bsink: byte_sink "buffer_write al" buffer_bytes buffer_sink "buffer_room al" for al
  by unfold_locales (use buffer_write_append in blast, simp add: buffer_room_def)

definition pb_inv :: "prealloc_buffer \<Rightarrow> bool" where
  "pb_inv p \<longleftrightarrow> poffset p \<le> psize p \<and> psize p \<le> cap (pdata p) \<and> psize p \<le> 2 ^ 63"

definition pb_written :: "prealloc_buffer \<Rightarrow> byte list" where
  "pb_written p = take (poffset p) (region (pdata p))"

definition pb_room :: "prealloc_buffer \<Rightarrow> nat \<Rightarrow> bool" where
  "pb_room p n \<longleftrightarrow> poffset p + n \<le> psize p"

lemma pb_write_spec:
  assumes "pb_inv p" and "poffset p + length bs \<le> psize p"
  shows "\<exists>p'. pb_write bs p = Inr p' \<and> pb_inv p' \<and> pb_written p' = pb_written p @ bs
             \<and> poffset p' = poffset p + length bs \<and> psize p' = psize p
             \<and> cap (pdata p') = cap (pdata p)"
proof -
  have fits: "poffset p + length bs \<le> cap (pdata p)" and a: "poffset p + length bs < 2 ^ 64"
    using assms by (simp_all add: pb_inv_def)
  obtain d where "mem_write (pdata p) (poffset p) bs = Inr d" "cap d = cap (pdata p)"
    "region d = overwrite (region (pdata p)) (poffset p) bs"
    using mem_write_region [OF fits] by blast
  with assms a fits show ?thesis
    by (simp add: pb_write_def add64_exact pb_inv_def pb_written_def take_overwrite_end)
qed

interpretation psink: byte_sink pb_write pb_written pb_inv pb_room
proof unfold_locales
  fix p n and bs :: "byte list"
  assume "pb_inv p" and r: "pb_room p (length bs + n)"
  moreover have "poffset p + length bs \<le> psize p" using r by (simp add: pb_room_def)
  ultimately show "\<exists>s'. pb_write bs p = Inr s' \<and> pb_inv s' \<and> pb_written s' = pb_written p @ bs
                        \<and> pb_room s' n"
    using pb_write_spec [of p bs] r by (auto simp: pb_room_def)
qed (simp add: pb_room_def)

definition buffer_source :: "buffer \<Rightarrow> bool" where
  "buffer_source b \<longleftrightarrow> buffer_inv b \<and> boffset b \<le> bsize b \<and> bsize b < 2 ^ 63"

definition buffer_rest :: "buffer \<Rightarrow> byte list" where
  "buffer_rest b = drop (boffset b) (buffer_bytes b)"

interpretation bsource: byte_source buffer_read buffer_rest buffer_source
proof unfold_locales
  fix b n
  assume b: "buffer_source b" and n: "n \<le> length (buffer_rest b)"
  have len: "length (buffer_bytes b) = bsize b"
    using b by (simp add: buffer_source_def length_buffer_bytes)
  have "boffset b + n \<le> bsize b" using n len b by (auto simp: buffer_rest_def buffer_source_def)
  moreover have "buffer_inv b" "boffset b + n < 2 ^ 64"
    using b \<open>boffset b + n \<le> bsize b\<close> by (simp_all add: buffer_source_def)
  ultimately show "\<exists>s'. buffer_read n b = Inr (take n (buffer_rest b), s') \<and> buffer_source s'
                        \<and> buffer_rest s' = drop n (buffer_rest b)"
    using buffer_read_spec [of b n] b
    by (simp add: buffer_rest_def slice_def buffer_source_def buffer_inv_def buffer_bytes_def
        add.commute)
next
  fix b n
  assume b: "buffer_source b" and n: "length (buffer_rest b) < n" "n \<le> 2 ^ 63"
  have "\<not> boffset b + n \<le> bsize b" "buffer_inv b" "boffset b + n < 2 ^ 64"
    using b n by (simp_all add: buffer_rest_def buffer_source_def length_buffer_bytes)
  then show "\<exists>c m. buffer_read n b = Inl (Err c m)"
    using buffer_read_spec [of b n] by simp
qed

definition cb_inv :: "const_buffer \<Rightarrow> bool" where
  "cb_inv cb \<longleftrightarrow> coffset cb \<le> csize cb \<and> csize cb \<le> cap (cdata cb) \<and> csize cb < 2 ^ 63"

definition cb_bytes :: "const_buffer \<Rightarrow> byte list" where
  "cb_bytes cb = take (csize cb) (region (cdata cb))"

definition cb_rest :: "const_buffer \<Rightarrow> byte list" where
  "cb_rest cb = drop (coffset cb) (cb_bytes cb)"

lemma length_cb_bytes: "cb_inv cb \<Longrightarrow> length (cb_bytes cb) = csize cb"
  by (simp add: cb_inv_def cb_bytes_def)

lemma cb_read_spec:
  assumes "cb_inv cb" and "n \<le> 2 ^ 63"
  shows "cb_read n cb =
    (if n \<le> length (cb_rest cb) then Inr (take n (cb_rest cb), cb\<lparr>coffset := coffset cb + n\<rparr>)
     else Inl (Err SC_ConstBuffer ''Read buffer overflow''))"
proof -
  have len: "length (cb_rest cb) = csize cb - coffset cb"
    using length_cb_bytes [OF assms(1)] by (simp add: cb_rest_def)
  have add: "add64 (coffset cb) n = coffset cb + n"
    using assms by (simp add: add64_exact cb_inv_def)
  show ?thesis
  proof (cases "n \<le> length (cb_rest cb)")
    case True
    then have "coffset cb + n \<le> csize cb" using len assms(1) by (auto simp: cb_inv_def)
    moreover from this have "coffset cb + n \<le> cap (cdata cb)" using assms(1) by (simp add: cb_inv_def)
    ultimately show ?thesis using True add
      by (simp add: cb_read_def mem_read_region cb_advance_offset_def cb_rest_def cb_bytes_def
          slice_def drop_take)
  next
    case False
    then have "csize cb < coffset cb + n" using len by linarith
    then show ?thesis using False add by (simp add: cb_read_def)
  qed
qed

interpretation csource: byte_source cb_read cb_rest cb_inv
proof unfold_locales
  fix cb n
  assume cb: "cb_inv cb" and n: "n \<le> length (cb_rest cb)"
  have "length (cb_rest cb) = csize cb - coffset cb"
    using length_cb_bytes [OF cb] by (simp add: cb_rest_def)
  then show "\<exists>s'. cb_read n cb = Inr (take n (cb_rest cb), s') \<and> cb_inv s'
                  \<and> cb_rest s' = drop n (cb_rest cb)"
    using cb_read_spec [OF cb, of n] n cb
    by (auto simp: cb_inv_def cb_rest_def cb_bytes_def add.commute)
next
  fix cb n
  assume "cb_inv cb" and "length (cb_rest cb) < n" and "n \<le> 2 ^ 63"
  then show "\<exists>c m. cb_read n cb = Inl (Err c m)" by (simp add: cb_read_spec)
qed

section \<open>Reading across a list of buffers\<close>

definition bl_inv :: "buffer_list \<Rightarrow> bool" where
  "bl_inv bl \<longleftrightarrow> (\<forall>b \<in> set (bl_buffers bl). buffer_inv b \<and> bsize b < 2 ^ 63)"

definition rest_from :: "nat \<Rightarrow> nat \<Rightarrow> buffer_list \<Rightarrow> byte list" where
  "rest_from idx rel bl = drop rel (concat (map buffer_bytes (drop idx (bl_buffers bl))))"

definition bl_rest :: "buffer_list \<Rightarrow> byte list" where
  "bl_rest bl = rest_from (current_buffer_index bl) (current_relative_offset bl) bl"

definition bl_pos_ok :: "nat \<Rightarrow> buffer_list \<Rightarrow> bool" where
  "bl_pos_ok idx bl \<longleftrightarrow>
     (idx < length (bl_buffers bl) \<longrightarrow> current_relative_offset bl \<le> bsize (bl_buffers bl ! idx))"

lemma buffer_bytes_offset [simp]: "buffer_bytes (b\<lparr>boffset := x\<rparr>) = buffer_bytes b"
  by (simp add: buffer_bytes_def)

lemma rest_from_split:
  assumes "idx < length (bl_buffers bl)" and "rel \<le> length (buffer_bytes (bl_buffers bl ! idx))"
  shows "rest_from idx rel bl = drop rel (buffer_bytes (bl_buffers bl ! idx)) @ rest_from (Suc idx) 0 bl"
  using assms by (simp add: rest_from_def Cons_nth_drop_Suc [symmetric])

lemma rest_from_update:
  "buffer_bytes b = buffer_bytes (bl_buffers bl ! idx) \<Longrightarrow>
   rest_from i rel (bl\<lparr>bl_buffers := (bl_buffers bl)[idx := b], current_buffer_index := x,
                       current_relative_offset := y\<rparr>) = rest_from i rel bl"
proof -
  assume "buffer_bytes b = buffer_bytes (bl_buffers bl ! idx)"
  then have "map buffer_bytes ((bl_buffers bl)[idx := b]) = map buffer_bytes (bl_buffers bl)"
    by (metis list_update_id map_update)
  then show ?thesis by (simp add: rest_from_def flip: drop_map)
qed

text \<open>One round of the loop: what is taken from buffer \<open>idx\<close>, and the state it leaves.\<close>

lemma bl_read_loop_step:
  assumes "bl_inv bl" and "bl_pos_ok idx bl" and "idx < length (bl_buffers bl)" and "0 < left"
  defines "b \<equiv> bl_buffers bl ! idx" and "rel \<equiv> current_relative_offset bl"
  defines "k \<equiv> min (bsize b - rel) left"
  shows "\<exists>bl1. bl_read_loop idx left acc bl =
              bl_read_loop (Suc idx) (left - k) (acc @ take k (drop rel (buffer_bytes b))) bl1
            \<and> bl_inv bl1 \<and> map bsize (bl_buffers bl1) = map bsize (bl_buffers bl)
            \<and> (\<forall>i r. rest_from i r bl1 = rest_from i r bl)
            \<and> current_buffer_index bl1 = idx
            \<and> current_relative_offset bl1 = (if k < left then 0 else rel + k)"
proof -
  have b: "buffer_inv b" "bsize b < 2 ^ 63" "rel \<le> bsize b"
    using assms(1-3) by (simp_all add: bl_inv_def bl_pos_ok_def b_def rel_def)
  let ?src = "buffer_set_offset rel b"
  have src: "buffer_inv ?src" using b by (simp add: buffer_set_offset_def buffer_inv_def)
  have k: "rel + k \<le> bsize b" "k \<le> left" using b(3) by (auto simp: k_def)
  have rd: "buffer_read k ?src =
      Inr (take k (drop rel (buffer_bytes b)), ?src\<lparr>boffset := rel + k\<rparr>)"
    using buffer_read_spec [OF src, of k] k b by (simp add: buffer_set_offset_def slice_def)
  have sub: "sub64 (bsize b) rel = bsize b - rel" using b by (simp add: sub64_exact)
  have add: "add64 rel k = rel + k" using k b by (simp add: add64_exact)
  define bl1 where "bl1 = bl\<lparr>bl_buffers := (bl_buffers bl)[idx := ?src\<lparr>boffset := rel + k\<rparr>],
    current_buffer_index := idx, current_relative_offset := if k < left then 0 else rel + k\<rparr>"
  have "bl_read_loop idx left acc bl =
        bl_read_loop (Suc idx) (left - k) (acc @ take k (drop rel (buffer_bytes b))) bl1"
    using assms(3,4) rd sub add k
    by (subst bl_read_loop.simps) (simp add: Let_def k_def b_def rel_def bl1_def buffer_set_offset_def)
  moreover have "bl_inv bl1"
    using assms(1) b k by (auto simp: bl_inv_def bl1_def buffer_set_offset_def buffer_inv_def
        dest!: set_update_subset_insert [THEN subsetD])
  moreover have "rest_from i r bl1 = rest_from i r bl" for i r
    unfolding bl1_def by (rule rest_from_update) (simp add: buffer_set_offset_def b_def)
  moreover have "map bsize (bl_buffers bl1) = map bsize (bl_buffers bl)"
    using assms(3) by (simp add: bl1_def buffer_set_offset_def map_update b_def list_update_same_conv)
  ultimately show ?thesis by (auto simp: bl1_def)
qed

lemma bl_read_loop_all:
  assumes "bl_inv bl" and "bl_pos_ok idx bl" and "0 < left"
    and "left \<le> length (rest_from idx (current_relative_offset bl) bl)"
  shows "\<exists>bl'. bl_read_loop idx left acc bl =
              Inr (0, acc @ take left (rest_from idx (current_relative_offset bl) bl), bl')
            \<and> bl_inv bl' \<and> bl_pos_ok (current_buffer_index bl') bl'
            \<and> bl_rest bl' = drop left (rest_from idx (current_relative_offset bl) bl)"
  using assms
proof (induction "length (bl_buffers bl) - idx" arbitrary: idx left acc bl rule: less_induct)
  case less
  let ?rel = "current_relative_offset bl" and ?b = "bl_buffers bl ! idx"
  have idx: "idx < length (bl_buffers bl)"
    using less.prems(3,4) by (rule_tac ccontr) (simp add: rest_from_def)
  have len: "length (buffer_bytes ?b) = bsize ?b" and rel: "?rel \<le> bsize ?b"
    using less.prems(1,2) idx by (simp_all add: bl_inv_def bl_pos_ok_def length_buffer_bytes)
  have split: "rest_from idx ?rel bl = drop ?rel (buffer_bytes ?b) @ rest_from (Suc idx) 0 bl"
    using rest_from_split idx rel len by simp
  define k where "k = min (bsize ?b - ?rel) left"
  obtain bl1 where bl1: "bl_read_loop idx left acc bl =
        bl_read_loop (Suc idx) (left - k) (acc @ take k (drop ?rel (buffer_bytes ?b))) bl1"
    "bl_inv bl1" "map bsize (bl_buffers bl1) = map bsize (bl_buffers bl)"
    "\<And>i r. rest_from i r bl1 = rest_from i r bl" "current_buffer_index bl1 = idx"
    "current_relative_offset bl1 = (if k < left then 0 else ?rel + k)"
    using bl_read_loop_step [OF less.prems(1,2) idx less.prems(3), of acc] unfolding k_def by blast
  have lens: "length (bl_buffers bl1) = length (bl_buffers bl)"
    using arg_cong [OF bl1(3), of length] by simp
  have szs: "bsize (bl_buffers bl1 ! idx) = bsize ?b"
    using arg_cong [OF bl1(3), of "\<lambda>xs. xs ! idx"] idx lens by simp
  show ?case
  proof (cases "k < left")
    case False
    then have k: "k = left" "left \<le> bsize ?b - ?rel" by (auto simp: k_def)
    have "bl_read_loop (Suc idx) 0 xs bl1 = Inr (0, xs, bl1)" for xs
      by (subst bl_read_loop.simps) simp
    moreover have "bl_rest bl1 = drop left (rest_from idx ?rel bl)"
      using bl1(4-6) k False by (simp add: bl_rest_def rest_from_def add.commute)
    moreover have "bl_pos_ok (current_buffer_index bl1) bl1"
      using bl1(5,6) szs False k rel by (auto simp: bl_pos_ok_def)
    ultimately show ?thesis
      using bl1 k split len by (simp add: min.absorb2)
  next
    case True
    then have k: "k = bsize ?b - ?rel" by (auto simp: k_def)
    have "left - k \<le> length (rest_from (Suc idx) 0 bl)"
      using less.prems(4) split len rel k by simp
    then have "\<exists>bl'. bl_read_loop (Suc idx) (left - k) xs bl1 =
              Inr (0, xs @ take (left - k) (rest_from (Suc idx) 0 bl1), bl')
            \<and> bl_inv bl' \<and> bl_pos_ok (current_buffer_index bl') bl'
            \<and> bl_rest bl' = drop (left - k) (rest_from (Suc idx) 0 bl1)" for xs
      using less.hyps [of bl1 "Suc idx" "left - k" xs] bl1 True idx lens
      by (simp add: bl_pos_ok_def)
    from this [of "acc @ take k (drop ?rel (buffer_bytes ?b))"] show ?thesis
      using bl1 split len k True by simp
  qed
qed

section \<open>Properties\<close>

text \<open>
  C13: appending to an owned buffer. With an allocator that does not fail and less than
  \<open>2 ^ 63\<close> bytes in total, a write at the end of the data succeeds, keeps the invariant, extends
  the contents by exactly the given bytes, and reading them back from the old offset returns
  them.
\<close>

theorem buffer_write_then_read:
  assumes "alloc_total al" and "buffer_inv b" and "owns_data b" and "boffset b = bsize b"
    and "bsize b + length bs \<le> 2 ^ 63"
  shows "\<exists>b' b''. buffer_write al bs b = Inr b' \<and> buffer_inv b'
           \<and> buffer_bytes b' = buffer_bytes b @ bs
           \<and> buffer_read (length bs) (buffer_set_offset (boffset b) b') = Inr (bs, b'')
           \<and> buffer_bytes b'' = buffer_bytes b'"
proof -
  have "buffer_sink b" "buffer_room al b (length bs + 0)"
    using assms by (simp_all add: buffer_sink_def buffer_room_def)
  then obtain b' where b': "buffer_write al bs b = Inr b'" "buffer_sink b'"
    "buffer_bytes b' = buffer_bytes b @ bs"
    using buffer_write_append by blast
  let ?r = "buffer_set_offset (boffset b) b'"
  have len: "length (buffer_bytes b) = bsize b" "bsize b' = bsize b + length bs"
    using assms(2) b' length_buffer_bytes [of b] length_buffer_bytes [of b']
    by (simp_all add: buffer_sink_def)
  have "buffer_inv ?r" using b'(2) assms(2) by (simp add: buffer_sink_def buffer_inv_def buffer_set_offset_def)
  then have "buffer_read (length bs) ?r = Inr (bs, ?r\<lparr>boffset := boffset b + length bs\<rparr>)"
    using buffer_read_spec [of ?r "length bs"] assms(4,5) len b'(3)
    by (simp add: buffer_set_offset_def slice_def)
  then show ?thesis using b' by (auto simp: buffer_sink_def buffer_set_offset_def)
qed

theorem buffer_write_then_read_witness:
  "\<exists>b' b''. buffer_write (\<lambda>n. Some []) [1, 2, 3] buffer_new = Inr b' \<and> buffer_inv b'
           \<and> buffer_bytes b' = buffer_bytes buffer_new @ [1, 2, 3]
           \<and> buffer_read (length [1, 2, 3 :: byte]) (buffer_set_offset (boffset buffer_new) b')
             = Inr ([1, 2, 3], b'')
           \<and> buffer_bytes b'' = buffer_bytes b'"
  by (rule buffer_write_then_read)
    (simp_all add: alloc_total_def buffer_inv_def buffer_new_def buffer_wrap_def)

text \<open>
  C19: whatever the allocator answers, a write of fewer than \<open>2 ^ 63\<close> bytes in total to a
  buffer that satisfies the invariant never touches memory outside the allocation, trips no
  assertion and does not loop: it succeeds or returns a \<open>Buffer\<close> status, and on success the
  invariant still holds.
\<close>

theorem buffer_write_safe:
  assumes "buffer_inv b" and "boffset b + length bs \<le> 2 ^ 63"
  shows "(\<exists>b'. buffer_write al bs b = Inr b' \<and> buffer_inv b' \<and> bsize b' = boffset b + length bs)
       \<or> (\<exists>m. buffer_write al bs b = Inl (Err SC_Buffer m))"
  using assms by (rule buffer_write_cases)

theorem buffer_write_safe_witness:
  "\<exists>m. buffer_write (\<lambda>n. None) [7] buffer_new = Inl (Err SC_Buffer m)"
proof -
  have "buffer_inv buffer_new" "boffset buffer_new + length [7 :: byte] \<le> 2 ^ 63"
    by (simp_all add: buffer_inv_def buffer_new_def buffer_wrap_def)
  from buffer_write_safe [OF this, of "\<lambda>n. None"] show ?thesis
    by (simp add: buffer_write_def buffer_new_def buffer_wrap_def ensure_alloced_size_def
        add64_def grow_alloc.simps buffer_realloc_def malloc_def)
qed

text \<open>
  C27: the doubling loop of \<open>ensure_alloced_size\<close> returns a size that is large enough for every
  request of at most \<open>2 ^ 63\<close> bytes, and never returns for a larger request on an allocation
  whose size is a power of two.
\<close>

theorem grow_alloc_termination:
  assumes "0 < a" and "a < 2 ^ 64"
  shows "(n \<le> 2 ^ 63 \<longrightarrow> (\<exists>m. grow_alloc a n = Some m \<and> n \<le> m \<and> a \<le> m \<and> m < 2 ^ 64))
       \<and> (2 ^ 63 < n \<and> k \<le> 63 \<and> a = 2 ^ k \<longrightarrow> grow_alloc a n = None)"
proof (intro conjI impI)
  assume "n \<le> 2 ^ 63"
  with assms show "\<exists>m. grow_alloc a n = Some m \<and> n \<le> m \<and> a \<le> m \<and> m < 2 ^ 64"
    by (rule grow_alloc_returns)
next
  assume "2 ^ 63 < n \<and> k \<le> 63 \<and> a = 2 ^ k"
  then show "grow_alloc a n = None" using grow_alloc_power_diverges by simp
qed

theorem grow_alloc_termination_witness:
  "(\<exists>m. grow_alloc 1024 5000 = Some m \<and> 5000 \<le> m \<and> 1024 \<le> m \<and> m < 2 ^ 64)
   \<and> grow_alloc (2 ^ 10) (2 ^ 63 + 1) = None"
  using grow_alloc_termination [of 1024 5000 0] grow_alloc_termination [of "2 ^ 10" "2 ^ 63 + 1" 10]
  by simp

text \<open>
  \<open>Buffer::write(ConstBuffer*, nbytes)\<close> ignores the status of the read. When the source
  holds fewer than \<open>nbytes\<close> bytes the call still reports success, and the new contents are the old
  memory: none of the bytes left in the source is copied.
\<close>

lemma buffer_write_cb_n_drops_status:
  assumes "alloc_total al" and "buffer_inv b" and "owns_data b" and "cb_inv cb"
    and "boffset b + n \<le> cap (bdata b)" and "length (cb_rest cb) < n" and "n \<le> 2 ^ 63"
  shows "buffer_write_cb_n al n cb b
       = Inr (b\<lparr>boffset := boffset b + n, bsize := boffset b + n\<rparr>, cb)"
proof -
  have "alloced_size b = cap (bdata b)" "cap (bdata b) < 2 ^ 64"
    using assms(2,3) by (simp_all add: buffer_inv_def)
  then have "ensure_alloced_size al (add64 (boffset b) n) b = Inr b"
    and "add64 (boffset b) n = boffset b + n"
    using assms(5) by (simp_all add: ensure_alloced_size_def add64_exact)
  moreover have "cb_read n cb = Inl (Err SC_ConstBuffer ''Read buffer overflow'')"
    using cb_read_spec [OF assms(4,7)] assms(6) by simp
  ultimately show ?thesis
    using assms(3) by (simp add: buffer_write_cb_n_def copy_from_def Let_def)
qed

text \<open>
  C22: reading from a buffer list is reading from the concatenation of its buffers: a request
  that the remaining bytes can serve returns them in order and leaves exactly the rest, wherever
  the request starts and however many buffers it spans.
\<close>

theorem bl_read_concat:
  assumes "bl_inv bl" and "bl_pos_ok (current_buffer_index bl) bl" and "n \<le> length (bl_rest bl)"
  shows "\<exists>bl'. bl_read n bl = Inr (take n (bl_rest bl), bl') \<and> bl_inv bl'
            \<and> bl_pos_ok (current_buffer_index bl') bl' \<and> bl_rest bl' = drop n (bl_rest bl)"
proof (cases "n = 0")
  case True
  then have "bl_read_loop (current_buffer_index bl) n [] bl = Inr (0, [], bl)"
    by (subst bl_read_loop.simps) simp
  then show ?thesis using assms True by (simp add: bl_read_def bl_read_at_most_def)
next
  case False
  from bl_read_loop_all [OF assms(1,2), of n "[]"] False assms(3)
  show ?thesis by (auto simp: bl_rest_def bl_read_def bl_read_at_most_def)
qed

theorem bl_read_concat_witness:
  defines "bl \<equiv> bl_add_buffer (buffer_wrap (Some [3, 4]) 2)
                (bl_add_buffer (buffer_wrap (Some [1, 2]) 2) bl_new)"
  shows "\<exists>bl'. bl_read 3 bl = Inr (take 3 (bl_rest bl), bl') \<and> bl_inv bl'
            \<and> bl_pos_ok (current_buffer_index bl') bl' \<and> bl_rest bl' = drop 3 (bl_rest bl)"
  by (rule bl_read_concat)
    (simp_all add: bl_def bl_add_buffer_def bl_new_def bl_inv_def bl_pos_ok_def bl_rest_def
      rest_from_def buffer_wrap_def buffer_inv_def buffer_bytes_def)

text \<open>
  \<open>BufferList::read_at_most\<close> at the end of the list. A request that reaches past the end of
  the last buffer rewinds the position to the start of that buffer, so the next call returns
  its bytes a second time.
\<close>

lemma bl_read_at_most_rewinds:
  assumes "buffer_inv b" and "bsize b < 2 ^ 63" and "bsize b < n" and "n < 2 ^ 63"
  shows "\<exists>bl'. bl_read_at_most n (bl_add_buffer b bl_new) = Inr (bsize b, buffer_bytes b, bl')
            \<and> current_buffer_index bl' = 0 \<and> current_relative_offset bl' = 0
            \<and> bl_rest bl' = buffer_bytes b"
proof -
  let ?bl = "bl_add_buffer b bl_new"
  have inv: "bl_inv ?bl" "bl_pos_ok 0 ?bl" "0 < length (bl_buffers ?bl)" "0 < n"
    using assms by (simp_all add: bl_inv_def bl_pos_ok_def bl_add_buffer_def bl_new_def)
  have fields: "bl_buffers ?bl ! 0 = b" "current_relative_offset ?bl = 0"
    "current_buffer_index ?bl = 0" "length (bl_buffers ?bl) = 1"
    by (simp_all add: bl_add_buffer_def bl_new_def)
  have len: "length (buffer_bytes b) = bsize b" using assms(1) by (rule length_buffer_bytes)
  obtain bl1 where bl1: "bl_read_loop 0 n [] ?bl = bl_read_loop (Suc 0) (n - bsize b) (buffer_bytes b) bl1"
    "map bsize (bl_buffers bl1) = map bsize (bl_buffers ?bl)"
    "\<forall>i r. rest_from i r bl1 = rest_from i r ?bl"
    "current_buffer_index bl1 = 0" "current_relative_offset bl1 = 0"
    using bl_read_loop_step [OF inv, of "[]"] fields len assms(3) by auto
  have "length (bl_buffers bl1) = 1" using arg_cong [OF bl1(2), of length] fields by simp
  then have "bl_read_loop (Suc 0) (n - bsize b) (buffer_bytes b) bl1 =
             Inr (n - bsize b, buffer_bytes b, bl1)"
    by (subst bl_read_loop.simps) simp
  moreover have "rest_from 0 0 ?bl = buffer_bytes b"
    by (simp add: rest_from_def bl_add_buffer_def bl_new_def)
  ultimately show ?thesis using bl1 fields assms(3)
    by (simp add: bl_read_at_most_def bl_rest_def)
qed

end
