(* ===== verification/Chunked_Buffer.thy ===== *)
theory Chunked_Buffer
  imports Tdb_Buffer
begin

text \<open>
  The memory of a tile (\<open>tile/chunked_buffer.{h,cc}\<close>): a growing array of bytes in chunks of fixed or
  varying size. The chunks are blocks of their own (\<open>DISCRETE\<close>) or lie one after the other in one
  block (\<open>CONTIGUOUS\<close>). \<open>cchunks\<close> has an entry for each element of \<open>buffers_\<close>; in the contiguous case
  the memory is \<open>cbase\<close>, the block that \<open>buffers_[0]\<close> points to, and the pointer to chunk \<open>i\<close> is the
  rest of this block after the chunks before it.
\<close>

section \<open>The class\<close>

datatype BufferAddressing = CONTIGUOUS | DISCRETE

record chunked_buffer =
  addressing :: BufferAddressing
  cchunks :: "byte list option list"
  cbase :: "byte list option"
  chunk_size :: nat
  last_chunk_size :: nat
  var_chunk_sizes :: "nat list"
  ccapacity :: nat
  cbsize :: nat

definition chunked_error :: "string \<Rightarrow> error" where
  "chunked_error msg = Err SC_ChunkedBuffer msg"

definition chk_clear :: "chunked_buffer \<Rightarrow> chunked_buffer" where
  "chk_clear cb = \<lparr>addressing = DISCRETE, cchunks = [], cbase = None, chunk_size = 0, last_chunk_size = 0,
                  var_chunk_sizes = [], ccapacity = 0, cbsize = 0\<rparr>"

definition chk_new :: chunked_buffer where
  "chk_new = \<lparr>addressing = DISCRETE, cchunks = [], cbase = None, chunk_size = 0, last_chunk_size = 0,
              var_chunk_sizes = [], ccapacity = 0, cbsize = 0\<rparr>"

definition chk_swap :: "chunked_buffer \<Rightarrow> chunked_buffer \<Rightarrow> chunked_buffer \<times> chunked_buffer" where
  "chk_swap cb rhs = (rhs, cb)"

definition chk_nchunks :: "chunked_buffer \<Rightarrow> nat" where
  "chk_nchunks cb = length (cchunks cb)"

definition chk_set_size :: "nat \<Rightarrow> chunked_buffer \<Rightarrow> chunked_buffer result" where
  "chk_set_size sz cb =
     (if sz > ccapacity cb then Inl (chunked_error ''Cannot set size; size exceeds capacity'')
      else Inr (cb\<lparr>cbsize := sz\<rparr>))"

definition fixed_chunk_sizes :: "chunked_buffer \<Rightarrow> bool" where
  "fixed_chunk_sizes cb \<longleftrightarrow> var_chunk_sizes cb = []"

definition get_chunk_capacity :: "chunked_buffer \<Rightarrow> nat \<Rightarrow> nat result" where
  "get_chunk_capacity cb i =
     (if i \<ge> length (cchunks cb) then Inl AssertFail
      else if fixed_chunk_sizes cb
      then Inr (if i = length (cchunks cb) - 1 then last_chunk_size cb else chunk_size cb)
      else if i < length (var_chunk_sizes cb) then Inr (var_chunk_sizes cb ! i) else Inl UB)"

text \<open>The size of the last chunk and the number of chunks for a total size.\<close>

definition last_of :: "nat \<Rightarrow> nat \<Rightarrow> nat" where
  "last_of r s = (if r mod s = 0 then s else r mod s)"

definition chunks_of :: "nat \<Rightarrow> nat \<Rightarrow> nat" where
  "chunks_of r s = (if last_of r s = s then r div s else r div s + 1)"

definition chk_init_fixed_size ::
  "BufferAddressing \<Rightarrow> nat \<Rightarrow> nat \<Rightarrow> chunked_buffer \<Rightarrow> chunked_buffer result" where
  "chk_init_fixed_size adr total_size csz cb =
     (if cchunks cb \<noteq> [] then Inl (chunked_error ''Cannot init chunk buffers; Chunk buffers non-empty.'')
      else if total_size = 0
      then Inl (chunked_error ''Cannot init chunk buffers; Total size must be non-zero.'')
      else if csz = 0
      then Inl (chunked_error ''Cannot init chunk buffers; Chunk size must be non-zero.'')
      else let lst = last_of total_size csz; nchunks = chunks_of total_size csz in
        Inr (cb\<lparr>addressing := adr, chunk_size := csz, last_chunk_size := lst,
                cchunks := replicate nchunks None, cbase := None,
                ccapacity := add64 (mul64 csz (nchunks - 1)) lst\<rparr>))"

definition chk_init_var_size :: "BufferAddressing \<Rightarrow> nat list \<Rightarrow> chunked_buffer \<Rightarrow> chunked_buffer result" where
  "chk_init_var_size adr sizes cb =
     (if cchunks cb \<noteq> [] then Inl (chunked_error ''Cannot init chunk buffers; Chunk buffers non-empty.'')
      else if sizes = []
      then Inl (chunked_error ''Cannot init chunk buffers; Var chunk sizes must be non-empty.'')
      else if 0 \<in> set sizes
      then Inl (chunked_error ''Cannot init chunk buffers; Var chunk size must be non-empty.'')
      else Inr (cb\<lparr>addressing := adr, var_chunk_sizes := sizes, cchunks := replicate (length sizes) None,
                   cbase := None, ccapacity := fold add64 sizes 0\<rparr>))"

definition chk_alloc_discrete :: "allocator \<Rightarrow> nat \<Rightarrow> chunked_buffer \<Rightarrow> chunked_buffer result" where
  "chk_alloc_discrete al i cb =
     (if addressing cb \<noteq> DISCRETE
      then Inl (chunked_error (''Cannot alloc discrete internal chunk buffer; Chunk buffers are not ''
             @ ''discretely allocated''))
      else if i \<ge> length (cchunks cb)
      then Inl (chunked_error ''Cannot alloc internal chunk buffer; Chunk index out of bounds'')
      else bindR (get_chunk_capacity cb i) (\<lambda>c.
        case malloc al c of
          None \<Rightarrow> Inl (chunked_error ''Cannot alloc internal chunk buffer; malloc failed'')
        | Some d \<Rightarrow> Inr (cb\<lparr>cchunks := (cchunks cb)[i := Some d]\<rparr>)))"

text \<open>Freeing a chunk releases its block and leaves the pointer in the list as it is.\<close>

definition chk_free_discrete :: "nat \<Rightarrow> chunked_buffer \<Rightarrow> unit result" where
  "chk_free_discrete i cb =
     (if addressing cb \<noteq> DISCRETE
      then Inl (chunked_error (''Cannot free discrete internal chunk buffer; Chunk buffers are not ''
             @ ''discretely allocated''))
      else if i \<ge> length (cchunks cb)
      then Inl (chunked_error ''Cannot free internal chunk buffer; Chunk index out of bounds'')
      else Inr ())"

definition chk_set_contiguous :: "byte list option \<Rightarrow> chunked_buffer \<Rightarrow> chunked_buffer result" where
  "chk_set_contiguous data cb =
     (if data = None
      then Inl (chunked_error ''Cannot set contiguous chunk buffers; Input buffer is null.'')
      else if addressing cb \<noteq> CONTIGUOUS
      then Inl (chunked_error (''Cannot alloc discrete internal chunk buffer; Chunk buffers are not ''
             @ ''contiguously allocated.''))
      else if cchunks cb = []
      then Inl (chunked_error ''Cannot set contiguous chunk buffers; Chunk buffers uninitialized.'')
      else Inr (cb\<lparr>cbase := data\<rparr>))"

text \<open>The capacity of the chunks before a chunk, which is where it starts.\<close>

definition leading_capacity :: "chunked_buffer \<Rightarrow> nat \<Rightarrow> nat result" where
  "leading_capacity cb i = foldR (\<lambda>n j. bindR (get_chunk_capacity cb j) (\<lambda>c. Inr (add64 n c))) 0 [0..<i]"

definition chk_internal_buffer :: "nat \<Rightarrow> chunked_buffer \<Rightarrow> byte list option result" where
  "chk_internal_buffer i cb =
     (if i \<ge> length (cchunks cb)
      then Inl (chunked_error ''Cannot get internal chunk buffer; Chunk index out of bounds'')
      else if addressing cb = DISCRETE then Inr (cchunks cb ! i)
      else bindR (leading_capacity cb i) (\<lambda>off. Inr (map_option (drop off) (cbase cb))))"

definition chk_get_contiguous :: "chunked_buffer \<Rightarrow> byte list option result" where
  "chk_get_contiguous cb =
     (if addressing cb \<noteq> CONTIGUOUS
      then Inl (chunked_error (''Cannot get contiguous internal chunk buffer; Chunk buffers are not ''
             @ ''contigiouly allocated''))
      else chk_internal_buffer 0 cb)"

definition chk_free :: "chunked_buffer \<Rightarrow> chunked_buffer" where
  "chk_free cb = chk_clear cb"

definition get_chunk_size :: "chunked_buffer \<Rightarrow> nat \<Rightarrow> nat result" where
  "get_chunk_size cb i =
     (if i \<ge> length (cchunks cb) then Inl AssertFail
      else bindR (leading_capacity cb i) (\<lambda>leading.
           bindR (get_chunk_capacity cb i) (\<lambda>c.
             if cbsize cb \<le> leading then Inr 0
             else if cbsize cb \<ge> add64 leading c then Inr c
             else Inr (u32 (sub64 (cbsize cb) leading)))))"

definition chk_internal_buffer_capacity :: "nat \<Rightarrow> chunked_buffer \<Rightarrow> nat result" where
  "chk_internal_buffer_capacity i cb =
     (if i \<ge> length (cchunks cb)
      then Inl (chunked_error (''Cannot get internal chunk buffer capacity; '' @ ''Chunk index out of bounds''))
      else get_chunk_capacity cb i)"

definition chk_internal_buffer_size :: "nat \<Rightarrow> chunked_buffer \<Rightarrow> nat result" where
  "chk_internal_buffer_size i cb =
     (if i \<ge> length (cchunks cb)
      then Inl (chunked_error ''Cannot get internal chunk buffer size; Chunk index out of bounds'')
      else get_chunk_size cb i)"

text \<open>The search for the chunk of an offset among chunks of varying size.\<close>

fun find_chunk :: "nat \<Rightarrow> nat \<Rightarrow> nat \<Rightarrow> nat list \<Rightarrow> (nat \<times> nat) result" where
  "find_chunk logical_offset i chunk_idx [] = Inl (chunked_error ''Out of bounds logical offset'')"
| "find_chunk logical_offset i chunk_idx (c # cs) =
     (if add64 i c \<le> logical_offset then find_chunk logical_offset (add64 i c) (Suc chunk_idx) cs
      else Inr (chunk_idx, logical_offset - i))"

definition translate_logical_offset :: "nat \<Rightarrow> chunked_buffer \<Rightarrow> (nat \<times> nat) result" where
  "translate_logical_offset logical_offset cb =
     (if logical_offset = 0 then Inr (0, 0)
      else if fixed_chunk_sizes cb
      then if chunk_size cb = 0 then Inl UB
           else Inr (logical_offset div chunk_size cb, logical_offset mod chunk_size cb)
      else find_chunk logical_offset 0 0 (take (length (cchunks cb)) (var_chunk_sizes cb)))"

definition chk_internal_buffer_from_offset :: "nat \<Rightarrow> chunked_buffer \<Rightarrow> byte list option result" where
  "chk_internal_buffer_from_offset off cb =
     (if off \<ge> cbsize cb
      then Inl (chunked_error ''Cannot get internal chunk buffer; Offset out of bounds'')
      else if addressing cb = CONTIGUOUS
      then bindR (chk_get_contiguous cb) (\<lambda>b. Inr (map_option (drop off) b))
      else bindR (translate_logical_offset off cb) (\<lambda>(i, o').
           bindR (chk_internal_buffer i cb) (\<lambda>b. Inr (map_option (drop o') b))))"

text \<open>The loops of \<open>read\<close> and \<open>write\<close> over the chunks from the first one on.\<close>

fun chk_read_loop :: "chunked_buffer \<Rightarrow> nat \<Rightarrow> nat \<Rightarrow> nat \<Rightarrow> byte list option list \<Rightarrow> byte list result" where
  "chk_read_loop cb i o' remaining [] = (if remaining = 0 then Inr [] else Inl UB)"
| "chk_read_loop cb i o' remaining (ch # chs) =
     (if remaining = 0 then Inr []
      else if ch = None then Inl (chunked_error ''Chunk read error; chunk unallocated'')
      else bindR (get_chunk_capacity cb i) (\<lambda>c.
        let n = min remaining (sub64 c o') in
        bindR (mem_read ch o' n) (\<lambda>bs.
        bindR (chk_read_loop cb (Suc i) 0 (remaining - n) chs) (\<lambda>bs'. Inr (bs @ bs')))))"

definition chk_read :: "nat \<Rightarrow> nat \<Rightarrow> chunked_buffer \<Rightarrow> byte list result" where
  "chk_read nbytes off cb =
     (if add64 off nbytes > cbsize cb
      then Inl (chunked_error ''Chunk read error; read out of bounds'')
      else if addressing cb = CONTIGUOUS
      then bindR (chk_get_contiguous cb) (\<lambda>b. mem_read b off nbytes)
      else bindR (translate_logical_offset off cb) (\<lambda>(i, o').
             chk_read_loop cb i o' nbytes (drop i (cchunks cb))))"

text \<open>The contiguous block is doubled by the same loop as the allocation of a \<^verbatim>\<open>Buffer\<close>.\<close>

definition ensure_capacity :: "allocator \<Rightarrow> nat \<Rightarrow> chunked_buffer \<Rightarrow> chunked_buffer result" where
  "ensure_capacity al requested cb =
     (if ccapacity cb = 0
      then Inl (chunked_error ''Ensure capacity failed; Chunk buffers uninitialized'')
      else if \<not> fixed_chunk_sizes cb then Inl AssertFail
      else if chunk_size cb = 0 then Inl UB
      else
        let orig = last_chunk_size cb;
            lst = last_of requested (chunk_size cb);
            nchunks = chunks_of requested (chunk_size cb);
            cap' = add64 (mul64 (chunk_size cb) (nchunks - 1)) lst;
            chs = cchunks cb @ replicate (nchunks - length (cchunks cb)) None in
        if \<not> length (cchunks cb) \<le> nchunks then Inl AssertFail
        else if addressing cb = CONTIGUOUS
        then bindR (chk_get_contiguous cb) (\<lambda>b.
          case grow_alloc (ccapacity cb) requested of
            None \<Rightarrow> Inl Diverges
          | Some sz \<Rightarrow>
             (case (case b of None \<Rightarrow> malloc al sz | Some d \<Rightarrow> mem_realloc al d sz) of
                None \<Rightarrow> Inl (chunked_error ''Ensure capacity failed; re/alloc() failed.'')
              | Some d' \<Rightarrow> Inr (cb\<lparr>last_chunk_size := lst, cchunks := chs, ccapacity := cap', cbase := Some d'\<rparr>)))
        else
          let realloc_size = (if length (cchunks cb) = nchunks then lst else chunk_size cb);
              li = length (cchunks cb) - 1 in
          if realloc_size \<noteq> orig \<and> \<not> realloc_size > orig then Inl AssertFail
          else (case (if realloc_size = orig then Inr (cchunks cb ! li)
                      else case cchunks cb ! li of None \<Rightarrow> Inr None
                        | Some d \<Rightarrow>
                            (case mem_realloc al d realloc_size of
                               None \<Rightarrow> Inl (chunked_error ''Ensure capacity failed; realloc() failed.'')
                             | Some d' \<Rightarrow> Inr (Some d'))) of
                  Inl e \<Rightarrow> Inl e
                | Inr ch \<Rightarrow> Inr (cb\<lparr>last_chunk_size := lst, cchunks := chs[li := ch], ccapacity := cap'\<rparr>)))"

fun chk_write_loop :: "allocator \<Rightarrow> chunked_buffer \<Rightarrow> nat \<Rightarrow> nat \<Rightarrow> byte list \<Rightarrow> byte list option list
    \<Rightarrow> byte list option list result" where
  "chk_write_loop al cb i o' src [] = (if src = [] then Inr [] else Inl UB)"
| "chk_write_loop al cb i o' src (ch # chs) =
     (if src = [] then Inr (ch # chs)
      else bindR (get_chunk_capacity cb i) (\<lambda>c.
        case (if ch = None then malloc al c else ch) of
          None \<Rightarrow> Inl (chunked_error ''Cannot alloc internal chunk buffer; malloc failed'')
        | Some d \<Rightarrow>
            let n = min (length src) (sub64 c o') in
            bindR (mem_write (Some d) o' (take n src)) (\<lambda>ch'.
            bindR (chk_write_loop al cb (Suc i) 0 (drop n src) chs) (\<lambda>chs'. Inr (ch' # chs')))))"

definition chk_write :: "allocator \<Rightarrow> byte list \<Rightarrow> nat \<Rightarrow> chunked_buffer \<Rightarrow> chunked_buffer result" where
  "chk_write al src off cb =
     (let requested = add64 off (length src) in
      bindR (if requested > ccapacity cb then ensure_capacity al requested cb else Inr cb) (\<lambda>cb1.
      if \<not> requested \<le> ccapacity cb1 then Inl AssertFail
      else if addressing cb1 = CONTIGUOUS
      then if cchunks cb1 = [] then Inl UB
           else case (case cbase cb1 of None \<Rightarrow> malloc al (ccapacity cb1) | Some d \<Rightarrow> Some d) of
             None \<Rightarrow> Inl (chunked_error ''Chunk write error; malloc() failed'')
           | Some d \<Rightarrow> bindR (mem_write (Some d) off src) (\<lambda>d'.
               Inr (cb1\<lparr>cbase := d', cbsize := max requested (cbsize cb1)\<rparr>))
      else bindR (translate_logical_offset off cb1) (\<lambda>(i, o').
           bindR (chk_write_loop al cb1 i o' src (drop i (cchunks cb1))) (\<lambda>chs.
             Inr (cb1\<lparr>cchunks := take i (cchunks cb1) @ chs,
                      cbsize := if src = [] then cbsize cb1 else max requested (cbsize cb1)\<rparr>)))))"

text \<open>
  The copy constructor. It sizes \<open>buffers_\<close> first and then appends one more entry for each chunk
  that has no memory yet.
\<close>

definition chk_deep_copy :: "allocator \<Rightarrow> chunked_buffer \<Rightarrow> chunked_buffer result" where
  "chk_deep_copy al rhs =
     (let n = length (cchunks rhs); cb = rhs\<lparr>cchunks := replicate n None, cbase := None\<rparr> in
      if addressing rhs = DISCRETE
      then bindR (foldR (\<lambda>bufs i.
             case cchunks rhs ! i of
               None \<Rightarrow> Inr (bufs @ [None])
             | Some d \<Rightarrow>
                 bindR (get_chunk_capacity rhs i) (\<lambda>c.
                 bindR (mem_read (Some d) 0 c) (\<lambda>bs.
                 bindR (mem_write (malloc al c) 0 bs) (\<lambda>d'. Inr (bufs[i := d']))))) (cchunks cb) [0..<n])
             (\<lambda>bufs. Inr (cb\<lparr>cchunks := bufs\<rparr>))
      else if n > 0 \<and> cbase rhs \<noteq> None
      then bindR (mem_read (cbase rhs) 0 (ccapacity rhs)) (\<lambda>bs.
           bindR (mem_write (malloc al (ccapacity rhs)) 0 bs) (\<lambda>d'. Inr (cb\<lparr>cbase := d'\<rparr>)))
      else Inr cb)"

section \<open>Invariant and contents\<close>

definition chunk_caps :: "chunked_buffer \<Rightarrow> nat list" where
  "chunk_caps cb =
     (if fixed_chunk_sizes cb then replicate (length (cchunks cb) - 1) (chunk_size cb) @ [last_chunk_size cb]
      else var_chunk_sizes cb)"

text \<open>The memory of the chunks, with zeros for chunks that have none.\<close>

definition chunk_fits :: "byte list option \<Rightarrow> nat \<Rightarrow> bool" where
  "chunk_fits ch c \<longleftrightarrow> (\<forall>d. ch = Some d \<longrightarrow> length d = c)"

fun padded :: "byte list option list \<Rightarrow> nat list \<Rightarrow> byte list" where
  "padded (ch # chs) (c # cs) = (case ch of None \<Rightarrow> replicate c 0 | Some d \<Rightarrow> d) @ padded chs cs"
| "padded _ _ = []"

text \<open>Every chunk that starts below \<open>m\<close> has memory.\<close>

fun filled :: "nat \<Rightarrow> byte list option list \<Rightarrow> nat list \<Rightarrow> bool" where
  "filled m (ch # chs) (c # cs) \<longleftrightarrow> (0 < m \<longrightarrow> ch \<noteq> None) \<and> filled (m - c) chs cs"
| "filled m _ _ \<longleftrightarrow> True"

definition chk_memory :: "chunked_buffer \<Rightarrow> byte list" where
  "chk_memory cb = (if addressing cb = CONTIGUOUS then region (cbase cb) else padded (cchunks cb) (chunk_caps cb))"

definition chk_bytes :: "chunked_buffer \<Rightarrow> byte list" where
  "chk_bytes cb = take (cbsize cb) (chk_memory cb)"

definition chk_inv :: "chunked_buffer \<Rightarrow> bool" where
  "chk_inv cb \<longleftrightarrow> cchunks cb \<noteq> [] \<and> length (chunk_caps cb) = length (cchunks cb) \<and> 0 \<notin> set (chunk_caps cb)
     \<and> list_all (\<lambda>c. c < 2 ^ 32) (chunk_caps cb)
     \<and> (fixed_chunk_sizes cb \<longrightarrow> 0 < chunk_size cb \<and> chunk_size cb < 2 ^ 32 \<and> last_chunk_size cb \<le> chunk_size cb)
     \<and> ccapacity cb = sum_list (chunk_caps cb) \<and> ccapacity cb < 2 ^ 63 \<and> cbsize cb \<le> ccapacity cb
     \<and> (if addressing cb = CONTIGUOUS then (\<forall>d. cbase cb = Some d \<longrightarrow> ccapacity cb \<le> length d)
        else list_all2 chunk_fits (cchunks cb) (chunk_caps cb))"

text \<open>All bytes below the size are in memory.\<close>

definition chk_filled :: "chunked_buffer \<Rightarrow> bool" where
  "chk_filled cb \<longleftrightarrow>
     (if addressing cb = CONTIGUOUS then 0 < cbsize cb \<longrightarrow> cbase cb \<noteq> None
      else filled (cbsize cb) (cchunks cb) (chunk_caps cb))"

lemma get_chunk_capacity_caps:
  assumes "chk_inv cb" and "i < length (cchunks cb)"
  shows "get_chunk_capacity cb i = Inr (chunk_caps cb ! i)"
proof (cases "fixed_chunk_sizes cb")
  case True
  then show ?thesis using assms(2) by (auto simp: get_chunk_capacity_def chunk_caps_def nth_append)
next
  case False
  then show ?thesis using assms by (simp add: get_chunk_capacity_def chk_inv_def chunk_caps_def)
qed

lemma sum_take_le: "sum_list (take i xs) \<le> sum_list (xs :: nat list)"
  by (metis append_take_drop_id le_add1 sum_list_append)

lemma leading_capacity_caps:
  assumes "chk_inv cb" and "i \<le> length (cchunks cb)"
  shows "leading_capacity cb i = Inr (sum_list (take i (chunk_caps cb)))"
  using assms(2)
proof (induction i)
  case 0
  then show ?case by (simp add: leading_capacity_def)
next
  case (Suc i)
  have len: "i < length (chunk_caps cb)" using Suc.prems assms(1) by (simp add: chk_inv_def)
  have "sum_list (take i (chunk_caps cb)) + chunk_caps cb ! i = sum_list (take (Suc i) (chunk_caps cb))"
    using len by (simp add: take_Suc_conv_app_nth)
  moreover have "\<dots> < 2 ^ 64" using sum_take_le [of "Suc i" "chunk_caps cb"] assms(1) by (simp add: chk_inv_def)
  ultimately have "add64 (sum_list (take i (chunk_caps cb))) (chunk_caps cb ! i) = sum_list (take (Suc i) (chunk_caps cb))"
    by (simp add: add64_exact)
  then show ?case
    using Suc get_chunk_capacity_caps [OF assms(1), of i] by (simp add: leading_capacity_def foldR_append)
qed

lemma find_chunk_spec:
  assumes "off < i + sum_list cs" and "i \<le> off" and "i + sum_list cs < 2 ^ 64" and "0 \<notin> set cs"
  shows "\<exists>k r. find_chunk off i j cs = Inr (j + k, r) \<and> k < length cs \<and> i + sum_list (take k cs) + r = off \<and> r < cs ! k"
  using assms
proof (induction cs arbitrary: i j)
  case (Cons c cs)
  have add: "add64 i c = i + c" using Cons.prems(3) by (simp add: add64_exact)
  show ?case
  proof (cases "i + c \<le> off")
    case True
    with Cons.IH [of "i + c" "Suc j"] Cons.prems obtain k r where
      "find_chunk off (i + c) (Suc j) cs = Inr (Suc j + k, r)" "k < length cs" "i + c + sum_list (take k cs) + r = off"
      "r < cs ! k" by (auto simp: add.assoc)
    then show ?thesis using True add by (intro exI [of _ "Suc k"] exI [of _ r]) simp
  next
    case False
    then show ?thesis using add Cons.prems(2) by (intro exI [of _ 0] exI [of _ "off - i"]) auto
  qed
qed simp

lemma sum_list_replicate_nat: "sum_list (replicate n c) = n * (c :: nat)"
  by (induction n) simp_all

lemma translate_spec:
  assumes "chk_inv cb" and "off < ccapacity cb"
  shows "\<exists>i r. translate_logical_offset off cb = Inr (i, r) \<and> i < length (cchunks cb)
           \<and> sum_list (take i (chunk_caps cb)) + r = off \<and> r < chunk_caps cb ! i"
proof (cases "off = 0")
  case True
  have n: "0 < length (cchunks cb)" and l: "length (chunk_caps cb) = length (cchunks cb)" and z: "0 \<notin> set (chunk_caps cb)"
    using assms(1) by (simp_all add: chk_inv_def)
  have "chunk_caps cb ! 0 \<in> set (chunk_caps cb)" using n l by (metis nth_mem)
  with z have "0 < chunk_caps cb ! 0" by (metis neq0_conv)
  then show ?thesis using True n by (simp add: translate_logical_offset_def)
next
  case False
  show ?thesis
  proof (cases "fixed_chunk_sizes cb")
    case True
    let ?n = "length (cchunks cb)" and ?s = "chunk_size cb" and ?l = "last_chunk_size cb"
    have inv: "0 < ?s" "?l \<le> ?s" "cchunks cb \<noteq> []" "ccapacity cb = sum_list (chunk_caps cb)"
      using assms(1) True by (simp_all add: chk_inv_def)
    obtain n where n: "?n = Suc n" using inv(3) by (cases "cchunks cb") auto
    have caps: "chunk_caps cb = replicate n ?s @ [?l]" using True n by (simp add: chunk_caps_def)
    have cap: "ccapacity cb = n * ?s + ?l" using inv(4) caps by (simp add: sum_list_replicate_nat)
    define i where "i = off div ?s"
    have eq: "i * ?s + off mod ?s = off" by (simp add: i_def)
    have "off < Suc n * ?s" using assms(2) cap inv(2) by simp
    then have i: "i < Suc n" unfolding i_def by (simp add: less_mult_imp_div_less)
    have "off mod ?s < chunk_caps cb ! i"
    proof (cases "i = n")
      case True
      then have "off mod ?s < ?l" using eq assms(2) cap by simp
      then show ?thesis using True caps by (simp add: nth_append)
    next
      case False
      then show ?thesis using i caps inv(1) by (simp add: nth_append)
    qed
    moreover have "sum_list (take i (chunk_caps cb)) = i * ?s"
      using i caps by (simp add: sum_list_replicate_nat min_def)
    ultimately show ?thesis
      using True False inv(1) eq i n by (simp add: translate_logical_offset_def i_def [symmetric])
  next
    case nf: False
    have "take (length (cchunks cb)) (var_chunk_sizes cb) = chunk_caps cb" and inv: "length (chunk_caps cb) = length (cchunks cb)"
      "0 \<notin> set (chunk_caps cb)" "ccapacity cb = sum_list (chunk_caps cb)" "ccapacity cb < 2 ^ 63"
      using assms(1) nf by (simp_all add: chk_inv_def chunk_caps_def)
    then show ?thesis using find_chunk_spec [of off 0 "chunk_caps cb" 0] assms(2) False nf
      by (auto simp: translate_logical_offset_def)
  qed
qed

section \<open>Reading\<close>

lemma length_padded: "list_all2 chunk_fits chs cs \<Longrightarrow> length (padded chs cs) = sum_list cs"
  by (induction rule: list_all2_induct) (auto simp: chunk_fits_def split: option.splits)

lemma padded_append:
  "length chs1 = length cs1 \<Longrightarrow> padded (chs1 @ chs2) (cs1 @ cs2) = padded chs1 cs1 @ padded chs2 cs2"
  by (induction chs1 cs1 rule: list_induct2) simp_all

lemma filled_append:
  "length chs1 = length cs1 \<Longrightarrow>
   filled m (chs1 @ chs2) (cs1 @ cs2) \<longleftrightarrow> filled m chs1 cs1 \<and> filled (m - sum_list cs1) chs2 cs2"
  by (induction chs1 cs1 arbitrary: m rule: list_induct2) simp_all

lemma filled_mono: "filled m chs cs \<Longrightarrow> m' \<le> m \<Longrightarrow> filled m' chs cs"
proof (induction m chs cs arbitrary: m' rule: filled.induct)
  case (1 m ch chs c cs)
  then show ?case using diff_le_mono [of m' m c] by auto
qed simp_all

lemma slice_append: "slice (xs @ ys) o' n = slice xs o' n @ slice ys (o' - length xs) (n - (length xs - o'))"
  by (simp add: slice_def)

lemma chk_read_loop_spec:
  assumes "list_all2 chunk_fits chs cs" and "\<And>j. j < length cs \<Longrightarrow> get_chunk_capacity cb (i + j) = Inr (cs ! j)"
    and "filled (o' + n) chs cs" and "o' + n \<le> sum_list cs" and "sum_list cs < 2 ^ 64"
    and "n = 0 \<or> o' < hd cs" and "0 \<notin> set cs"
  shows "chk_read_loop cb i o' n chs = Inr (slice (padded chs cs) o' n)"
  using assms
proof (induction chs cs arbitrary: i o' n rule: list_all2_induct)
  case (Cons ch chs c cs)
  show ?case
  proof (cases "n = 0")
    case False
    then obtain d where d: "ch = Some d" "length d = c" using Cons.prems(2) Cons.hyps(1) by (auto simp: chunk_fits_def)
    have o': "o' < c" using False Cons.prems(5) by simp
    have c: "get_chunk_capacity cb i = Inr c" using Cons.prems(1) [of 0] by simp
    have sub: "sub64 c o' = c - o'" using o' Cons.prems(4) by (simp add: sub64_exact)
    let ?k = "min n (c - o')"
    have rd: "mem_read ch o' ?k = Inr (slice d o' ?k)" using d o' by (simp add: mem_read_exact)
    have IH: "chk_read_loop cb (Suc i) 0 (n - ?k) chs = Inr (slice (padded chs cs) 0 (n - ?k))"
    proof (rule Cons.IH)
      show "\<And>j. j < length cs \<Longrightarrow> get_chunk_capacity cb (Suc i + j) = Inr (cs ! j)"
        using Cons.prems(1) [of "Suc j" for j] by simp
      have le: "0 + (n - ?k) \<le> o' + n - c" using o' by (auto simp: min_def)
      show "filled (0 + (n - ?k)) chs cs" using Cons.prems(2) by (intro filled_mono [OF _ le]) simp
      show "0 + (n - ?k) \<le> sum_list cs" using Cons.prems(3) le by simp
      show "n - ?k = 0 \<or> 0 < hd cs"
        using Cons.prems(3,6) le by (cases cs) auto
    qed (use Cons.prems in simp_all)
    have "slice d o' ?k = slice d o' n" "n - ?k = n - (length d - o')" using d(2) o' by (auto simp: slice_def min_def)
    then show ?thesis using False d c sub rd IH o' by (simp add: slice_append Let_def)
  qed simp
qed (auto simp: slice_def)

lemma chk_get_contiguous_base:
  "addressing cb = CONTIGUOUS \<Longrightarrow> cchunks cb \<noteq> [] \<Longrightarrow> chk_get_contiguous cb = Inr (cbase cb)"
  by (simp add: chk_get_contiguous_def chk_internal_buffer_def leading_capacity_def option.map_ident)

lemma chk_read_spec:
  assumes "chk_inv cb" and "chk_filled cb" and "off + n \<le> cbsize cb" and "off < cbsize cb"
  shows "chk_read n off cb = Inr (slice (chk_bytes cb) off n)"
proof -
  have cap: "cbsize cb \<le> ccapacity cb" "ccapacity cb < 2 ^ 63" "ccapacity cb = sum_list (chunk_caps cb)"
    using assms(1) by (simp_all add: chk_inv_def)
  have add: "add64 off n = off + n" using assms(3) cap by (simp add: add64_exact)
  have sl: "slice (chk_bytes cb) off n = slice (chk_memory cb) off n"
    using assms(3) by (simp add: chk_bytes_def slice_take)
  show ?thesis
  proof (cases "addressing cb = CONTIGUOUS")
    case True
    have "cchunks cb \<noteq> []" using assms(1) by (simp add: chk_inv_def)
    moreover have "mem_read (cbase cb) off n = Inr (slice (region (cbase cb)) off n)"
      using assms True cap by (cases "cbase cb") (auto simp: chk_inv_def chk_filled_def mem_read_def)
    ultimately show ?thesis using True add assms(3) sl
      by (simp add: chk_read_def chk_get_contiguous_base chk_memory_def)
  next
    case False
    have len: "length (chunk_caps cb) = length (cchunks cb)" and fits: "list_all2 chunk_fits (cchunks cb) (chunk_caps cb)"
      and z: "0 \<notin> set (chunk_caps cb)" and fl: "filled (cbsize cb) (cchunks cb) (chunk_caps cb)"
      using assms(1,2) False by (simp_all add: chk_inv_def chk_filled_def)
    have "off < ccapacity cb" using assms(4) cap(1) by simp
    then obtain i r where t: "translate_logical_offset off cb = Inr (i, r)" "i < length (cchunks cb)"
      "sum_list (take i (chunk_caps cb)) + r = off" "r < chunk_caps cb ! i"
      using translate_spec [OF assms(1)] by blast
    let ?chs = "drop i (cchunks cb)" and ?cs = "drop i (chunk_caps cb)"
    have split: "padded (cchunks cb) (chunk_caps cb) = padded (take i (cchunks cb)) (take i (chunk_caps cb)) @ padded ?chs ?cs"
      "filled (cbsize cb - sum_list (take i (chunk_caps cb))) ?chs ?cs"
      using padded_append [of "take i (cchunks cb)" "take i (chunk_caps cb)" ?chs ?cs] len fl
        filled_append [of "take i (cchunks cb)" "take i (chunk_caps cb)" "cbsize cb" ?chs ?cs] by simp_all
    have sm: "sum_list (take i (chunk_caps cb)) + sum_list ?cs = ccapacity cb"
      using cap(3) by (metis append_take_drop_id sum_list_append)
    have "chk_read_loop cb i r n ?chs = Inr (slice (padded ?chs ?cs) r n)"
    proof (rule chk_read_loop_spec)
      show "list_all2 chunk_fits ?chs ?cs" using fits by (rule list_all2_dropI)
      show "\<And>j. j < length ?cs \<Longrightarrow> get_chunk_capacity cb (i + j) = Inr (?cs ! j)"
        using get_chunk_capacity_caps [OF assms(1)] len by simp
      show "filled (r + n) ?chs ?cs" by (rule filled_mono [OF split(2)]) (use t(3) assms(3) in linarith)
      show "r + n \<le> sum_list ?cs" "sum_list ?cs < 2 ^ 64" using sm t(3) assms(3) cap by simp_all
      show "n = 0 \<or> r < hd ?cs" using t(2,4) len by (simp add: hd_drop_conv_nth)
      show "0 \<notin> set ?cs" using z by (meson in_set_dropD)
    qed
    moreover have "length (padded (take i (cchunks cb)) (take i (chunk_caps cb))) = sum_list (take i (chunk_caps cb))"
      by (rule length_padded [OF list_all2_takeI [OF fits]])
    ultimately show ?thesis using t(1,3) False add assms(3) sl split(1)
      by (auto simp: chk_read_def chk_memory_def slice_def)
  qed
qed

section \<open>Writing\<close>

lemma overwrite_append:
  assumes "o' \<le> length xs"
  shows "overwrite (xs @ ys) o' src = overwrite xs o' (take (length xs - o') src) @ overwrite ys 0 (drop (length xs - o') src)"
proof (cases "length src \<le> length xs - o'")
  case False
  let ?a = "take (length xs - o') src" and ?b = "drop (length xs - o') src"
  have "src = ?a @ ?b" "length ?b = o' + length src - length xs" using False assms by simp_all
  moreover have "overwrite (xs @ ys) o' src = take o' xs @ src @ drop (o' + length src - length xs) ys"
    using False assms by (simp add: overwrite_def)
  moreover have "overwrite xs o' ?a = take o' xs @ ?a" using False assms by (simp add: overwrite_def)
  moreover have "overwrite ys 0 ?b = ?b @ drop (length ?b) ys" by (simp add: overwrite_def)
  ultimately show ?thesis by (metis append.assoc)
qed (use assms in \<open>simp add: overwrite_def\<close>)

lemma take_take_eq: "take m xs = take m ys \<Longrightarrow> k \<le> m \<Longrightarrow> take k xs = take k ys"
  by (metis min.absorb1 take_take)

lemma chk_write_loop_spec:
  assumes "list_all2 chunk_fits chs cs" and "\<And>j. j < length cs \<Longrightarrow> get_chunk_capacity cb (i + j) = Inr (cs ! j)"
    and "alloc_total al" and "filled m chs cs" and "o' \<le> m" and "o' + length src \<le> sum_list cs"
    and "sum_list cs < 2 ^ 64" and "src = [] \<or> o' < hd cs" and "0 \<notin> set cs"
  shows "\<exists>chs'. chk_write_loop al cb i o' src chs = Inr chs' \<and> list_all2 chunk_fits chs' cs
           \<and> filled (max m (o' + length src)) chs' cs
           \<and> take (max m (o' + length src)) (padded chs' cs)
             = take (max m (o' + length src)) (overwrite (padded chs cs) o' src)"
  using assms
proof (induction chs cs arbitrary: i o' src m rule: list_all2_induct)
  case (Cons ch chs c cs)
  show ?case
  proof (cases "src = []")
    case True
    then show ?thesis using Cons.hyps Cons.prems by (simp add: max_def)
  next
    case False
    let ?n = "min (length src) (c - o')" and ?M = "max m (o' + length src)"
    have o': "o' < c" using False Cons.prems(7) by simp
    have c: "get_chunk_capacity cb i = Inr c" using Cons.prems(1) [of 0] by simp
    have sub: "sub64 c o' = c - o'" using o' Cons.prems(6) by (simp add: sub64_exact)
    obtain d where d: "(if ch = None then malloc al c else ch) = Some d" "length d = c"
      using Cons.hyps(1) alloc_total_malloc [OF Cons.prems(2), of c] by (cases ch) (auto simp: chunk_fits_def)
    have w: "mem_write (Some d) o' (take ?n src) = Inr (Some (overwrite d o' (take ?n src)))"
      using d(2) o' False by (simp add: mem_write_def)
    have take_n: "take ?n src = take (c - o') src" "drop ?n src = drop (c - o') src" by (simp_all add: min_def)
    have fm: "filled (m - c) chs cs" using Cons.prems(3) by simp
    have "\<exists>chs'. chk_write_loop al cb (Suc i) 0 (drop ?n src) chs = Inr chs' \<and> list_all2 chunk_fits chs' cs
           \<and> filled (max (m - c) (0 + length (drop ?n src))) chs' cs
           \<and> take (max (m - c) (0 + length (drop ?n src))) (padded chs' cs)
             = take (max (m - c) (0 + length (drop ?n src))) (overwrite (padded chs cs) 0 (drop ?n src))"
    proof (rule Cons.IH)
      show "\<And>j. j < length cs \<Longrightarrow> get_chunk_capacity cb (Suc i + j) = Inr (cs ! j)"
        using Cons.prems(1) [of "Suc j" for j] by simp
      show "0 + length (drop ?n src) \<le> sum_list cs" using Cons.prems(5) o' by (auto simp: min_def)
      show "drop ?n src = [] \<or> 0 < hd cs"
        using Cons.prems(5,8) o' by (cases cs) (auto simp: min_def)
    qed (use Cons.prems fm in simp_all)
    then obtain chs' where r: "chk_write_loop al cb (Suc i) 0 (drop ?n src) chs = Inr chs'" "list_all2 chunk_fits chs' cs"
      "filled (max (m - c) (length src - ?n)) chs' cs"
      "take (max (m - c) (length src - ?n)) (padded chs' cs)
             = take (max (m - c) (length src - ?n)) (overwrite (padded chs cs) 0 (drop ?n src))" by auto
    have M: "?M - c = max (m - c) (length src - ?n)" using o' by (auto simp: min_def max_def)
    have head: "take ?M (overwrite d o' (take ?n src))
        = take ?M (overwrite (case ch of None \<Rightarrow> replicate c 0 | Some d \<Rightarrow> d) o' (take ?n src))"
    proof (cases ch)
      case (Some e)
      then show ?thesis using d(1) by simp
    next
      case None
      then have "o' = 0" "m = 0" using Cons.prems(3,4) by auto
      then show ?thesis using d(2) None by (auto simp: overwrite_def min_def)
    qed
    have len: "length (overwrite d o' (take ?n src)) = c" using d(2) o' by (simp add: length_overwrite)
    have chl: "length (case ch of None \<Rightarrow> replicate c 0 | Some d \<Rightarrow> d) = c"
      using Cons.hyps(1) by (auto simp: chunk_fits_def split: option.split)
    have "take ?M (padded (Some (overwrite d o' (take ?n src)) # chs') (c # cs))
        = take ?M (overwrite (padded (ch # chs) (c # cs)) o' src)"
    proof -
      have "overwrite (padded (ch # chs) (c # cs)) o' src
          = overwrite (case ch of None \<Rightarrow> replicate c 0 | Some d \<Rightarrow> d) o' (take ?n src) @ overwrite (padded chs cs) 0 (drop ?n src)"
        (is "_ = ?x @ ?y")
        using overwrite_append [of o' "case ch of None \<Rightarrow> replicate c 0 | Some d \<Rightarrow> d" "padded chs cs" src] chl o'
        unfolding take_n by (simp only: padded.simps less_imp_le)
      moreover have "length ?x = c" using chl o' by (subst length_overwrite) simp_all
      ultimately show ?thesis using head r(4) len by (simp only: padded.simps option.case take_append M)
    qed
    moreover have "chk_write_loop al cb i o' src (ch # chs) = Inr (Some (overwrite d o' (take ?n src)) # chs')"
      using False c d(1) sub w r(1) by (simp add: Let_def)
    moreover have "list_all2 chunk_fits (Some (overwrite d o' (take ?n src)) # chs') (c # cs)"
      using len r(2) by (simp add: chunk_fits_def)
    moreover have "filled ?M (Some (overwrite d o' (take ?n src)) # chs') (c # cs)"
      using r(3) M by simp
    ultimately show ?thesis by blast
  qed
qed simp

lemma mem_realloc_keeps:
  assumes "alloc_total al" and "k \<le> n" and "k \<le> length d"
  shows "\<exists>d'. mem_realloc al d n = Some d' \<and> length d' = n \<and> take k d' = take k d"
proof -
  obtain x where x: "malloc al n = Some x" "length x = n" using alloc_total_malloc [OF assms(1)] by blast
  then show ?thesis using assms(2,3) by (auto simp: mem_realloc_def min_def)
qed

lemma chunks_of_spec:
  assumes "0 < s" and "0 < r"
  shows "0 < chunks_of r s \<and> (chunks_of r s - 1) * s + last_of r s = r \<and> 0 < last_of r s \<and> last_of r s \<le> s"
proof (cases "r mod s = 0")
  case True
  then have "s dvd r" by (rule mod_0_imp_dvd)
  then obtain k where k: "r = s * k" by blast
  then have "0 < k" using assms(2) by (cases k) auto
  then obtain j where "k = Suc j" using gr0_conv_Suc by blast
  then show ?thesis using assms(1) k by (simp add: chunks_of_def last_of_def)
next
  case False
  have "r mod s < s" using assms(1) by simp
  moreover have "r div s * s + r mod s = r" by simp
  ultimately show ?thesis using False by (simp add: chunks_of_def last_of_def)
qed

lemma chunks_of_mono:
  assumes "0 < l" and "l \<le> s" and "n * s + l < r"
  shows "Suc n \<le> chunks_of r s \<and> (chunks_of r s = Suc n \<longrightarrow> l < last_of r s)"
proof -
  have s: "0 < s" "0 < r" using assms by simp_all
  note c = chunks_of_spec [OF s]
  have "n < chunks_of r s"
  proof (rule ccontr)
    assume "\<not> ?thesis"
    then have "chunks_of r s * s \<le> n * s" by simp
    moreover have "(chunks_of r s - 1) * s + s = chunks_of r s * s" using c by (cases "chunks_of r s") auto
    ultimately show False using c assms by linarith
  qed
  then show ?thesis using c assms by auto
qed

definition chk_grown :: "nat \<Rightarrow> chunked_buffer \<Rightarrow> chunked_buffer \<Rightarrow> bool" where
  "chk_grown r cb cb' \<longleftrightarrow> chk_inv cb' \<and> chk_filled cb' \<and> chk_bytes cb' = chk_bytes cb \<and> ccapacity cb' = r
     \<and> cbsize cb' = cbsize cb \<and> addressing cb' = addressing cb \<and> fixed_chunk_sizes cb' = fixed_chunk_sizes cb
     \<and> chunk_size cb' = chunk_size cb"

lemma filled_0 [simp]: "filled 0 chs cs"
  by (induction "0 :: nat" chs cs rule: filled.induct) simp_all

lemma chunk_fits_Nones: "list_all2 chunk_fits (replicate (length cs) None) cs"
  by (induction cs) (simp_all add: chunk_fits_def)

text \<open>Enlarging the last chunk and appending chunks without memory keeps the bytes below the old capacity.\<close>

lemma padded_grow:
  assumes "list_all2 chunk_fits (pre @ [ch]) (cs @ [l])" and "length pre = length cs" and "l \<le> x"
    and "filled m (pre @ [ch]) (cs @ [l])" and "m \<le> sum_list cs + l"
    and "case ch of None \<Rightarrow> ch' = None | Some d \<Rightarrow> (\<exists>d'. ch' = Some d' \<and> length d' = x \<and> take l d' = d)"
  shows "list_all2 chunk_fits (pre @ ch' # replicate (length rest) None) (cs @ x # rest)"
    and "filled m (pre @ ch' # replicate (length rest) None) (cs @ x # rest)"
    and "take m (padded (pre @ ch' # replicate (length rest) None) (cs @ x # rest)) = take m (padded (pre @ [ch]) (cs @ [l]))"
proof -
  have fits: "list_all2 chunk_fits pre cs" "chunk_fits ch l" using assms(1,2) by (auto simp: list_all2_append)
  have fits': "chunk_fits ch' x" using assms(6) by (auto simp: chunk_fits_def split: option.splits)
  show "list_all2 chunk_fits (pre @ ch' # replicate (length rest) None) (cs @ x # rest)"
    using fits(1) fits' chunk_fits_Nones by (auto intro: list_all2_appendI)
  have "m - sum_list cs - x = 0" using assms(3,5) by simp
  then show "filled m (pre @ ch' # replicate (length rest) None) (cs @ x # rest)"
    using assms(2,4,6) by (auto simp: filled_append split: option.splits)
  have len: "length (padded pre cs) = sum_list cs" by (rule length_padded [OF fits(1)])
  let ?v = "\<lambda>c z. case c of None \<Rightarrow> replicate z 0 | Some d \<Rightarrow> d"
  have v: "take l (?v ch' x) = ?v ch l" "l \<le> length (?v ch' x)"
    using assms(3,6) fits(2) fits' by (auto simp: chunk_fits_def split: option.splits)
  have k: "m - sum_list cs \<le> l" using assms(5) by simp
  have "take (m - sum_list cs) (?v ch' x @ zs) = take (m - sum_list cs) (take l (?v ch' x))" for zs
    using k v(2) by (simp add: min_def)
  then have "take (m - sum_list cs) (?v ch' x @ zs) = take (m - sum_list cs) (?v ch l)" for zs
    unfolding v(1) .
  then show "take m (padded (pre @ ch' # replicate (length rest) None) (cs @ x # rest)) = take m (padded (pre @ [ch]) (cs @ [l]))"
    using assms(2) len by (simp add: padded_append)
qed

lemma replicate_split:
  assumes "Suc n \<le> k"
  shows "replicate (k - 1) s @ [l]
       = replicate n s @ (if k = Suc n then l else s) # (if k = Suc n then [] else replicate (k - n - 2) s @ [l])"
proof (cases "k = Suc n")
  case False
  then obtain j where k: "k = Suc (Suc (n + j))"
    using assms by (metis add_Suc le_neq_implies_less less_imp_Suc_add)
  have "replicate (Suc (n + j)) s = replicate n s @ replicate (Suc j) s"
    using replicate_add [of n "Suc j" s] by simp
  then show ?thesis using k by simp
qed simp

text \<open>The sizes after growing to \<open>r\<close> bytes: the last chunk grows to \<open>x\<close> and is followed by chunks of sizes \<open>rest\<close>.\<close>

abbreviation resized :: "chunked_buffer \<Rightarrow> nat \<Rightarrow> byte list option list \<Rightarrow> byte list option \<Rightarrow> chunked_buffer" where
  "resized cb r chs b \<equiv> cb\<lparr>last_chunk_size := last_of r (chunk_size cb), cchunks := chs, ccapacity := r, cbase := b\<rparr>"

lemma grow_layout:
  assumes "chk_inv cb" and "fixed_chunk_sizes cb" and "ccapacity cb < r" and "r < 2 ^ 63"
    and "cchunks cb = pre @ [c0]"
  obtains x rest where "chunks_of r (chunk_size cb) = Suc (length pre) + length rest"
    and "x = (if chunks_of r (chunk_size cb) = Suc (length pre) then last_of r (chunk_size cb) else chunk_size cb)"
    and "last_chunk_size cb \<le> x" and "chunk_caps cb = replicate (length pre) (chunk_size cb) @ [last_chunk_size cb]"
    and "add64 (mul64 (chunk_size cb) (chunks_of r (chunk_size cb) - 1)) (last_of r (chunk_size cb)) = r"
    and "\<forall>chs b. length chs = chunks_of r (chunk_size cb) \<longrightarrow>
           chunk_caps (resized cb r chs b) = replicate (length pre) (chunk_size cb) @ x # rest"
    and "\<forall>chs b. length chs = chunks_of r (chunk_size cb) \<longrightarrow>
           (if addressing cb = CONTIGUOUS then \<forall>d. b = Some d \<longrightarrow> r \<le> length d
            else list_all2 chunk_fits chs (replicate (length pre) (chunk_size cb) @ x # rest)) \<longrightarrow>
           chk_inv (resized cb r chs b)"
proof -
  let ?s = "chunk_size cb" and ?l = "last_chunk_size cb" and ?n = "length pre"
  define lst k where "lst = last_of r ?s" and "k = chunks_of r ?s"
  have caps: "chunk_caps cb = replicate ?n ?s @ [?l]" using assms(2,5) by (simp add: chunk_caps_def)
  have inv: "0 < ?l" "?l \<le> ?s" "?s < 2 ^ 32" "0 < ?s" "ccapacity cb = ?n * ?s + ?l" "cbsize cb \<le> ccapacity cb"
    using assms(1,2) caps by (auto simp: chk_inv_def sum_list_replicate_nat)
  have r: "0 < r" using assms(3) by simp
  have sp: "0 < k" "(k - 1) * ?s + lst = r" "0 < lst" "lst \<le> ?s"
    using chunks_of_spec [OF inv(4) r] by (simp_all add: lst_def k_def)
  have mono: "Suc ?n \<le> k" "k = Suc ?n \<longrightarrow> ?l < lst"
    using chunks_of_mono [OF inv(1,2), of ?n r] assms(3) inv(5) by (simp_all add: lst_def k_def)
  define x rest where "x = (if k = Suc ?n then lst else ?s)"
    and "rest = (if k = Suc ?n then [] else replicate (k - ?n - 2) ?s @ [lst])"
  have caps': "replicate (k - 1) ?s @ [lst] = replicate ?n ?s @ x # rest"
    unfolding x_def rest_def by (rule replicate_split [OF mono(1)])
  have all: "chunk_caps (resized cb r chs b) = replicate (k - 1) ?s @ [lst]" if "length chs = k" for chs b
    using that assms(2) by (simp add: chunk_caps_def fixed_chunk_sizes_def lst_def)
  have sum: "sum_list (replicate (k - 1) ?s @ [lst]) = r" using sp(2) by (simp add: sum_list_replicate_nat)
  have inv': "chk_inv (resized cb r chs b)"
    if "length chs = k" "if addressing cb = CONTIGUOUS then \<forall>d. b = Some d \<longrightarrow> r \<le> length d
          else list_all2 chunk_fits chs (replicate ?n ?s @ x # rest)" for chs b
    using that sp inv assms(2-4) sum all [OF that(1), of b]
    by (auto simp: chk_inv_def list_all_iff caps' [symmetric] fixed_chunk_sizes_def lst_def [symmetric] split: if_splits)
  show thesis
  proof (rule that [of rest x])
    show "chunks_of r ?s = Suc ?n + length rest" using mono(1) by (auto simp: rest_def simp flip: k_def)
    show "?l \<le> x" using mono(2) inv(2) by (auto simp: x_def)
    show "add64 (mul64 ?s (chunks_of r ?s - 1)) (last_of r ?s) = r"
      using sp(2) assms(4) by (simp add: add64_exact mul64_exact mult.commute flip: k_def lst_def)
  qed (use caps all caps' inv' in \<open>simp_all add: x_def flip: k_def lst_def\<close>)
qed

lemma ensure_capacity_contiguous:
  assumes "chk_inv cb" and "chk_filled cb" and "fixed_chunk_sizes cb" and "alloc_total al"
    and "ccapacity cb < r" and "r < 2 ^ 63" and "addressing cb = CONTIGUOUS"
  shows "\<exists>cb'. ensure_capacity al r cb = Inr cb' \<and> chk_grown r cb cb'"
proof -
  let ?s = "chunk_size cb"
  obtain pre c0 where cc: "cchunks cb = pre @ [c0]"
    using assms(1) by (cases "cchunks cb" rule: rev_cases) (auto simp: chk_inv_def)
  obtain x rest where g: "chunks_of r ?s = Suc (length pre) + length rest"
    "add64 (mul64 ?s (chunks_of r ?s - 1)) (last_of r ?s) = r"
    "\<forall>chs b. length chs = chunks_of r ?s \<longrightarrow>
           (if addressing cb = CONTIGUOUS then \<forall>d. b = Some d \<longrightarrow> r \<le> length d
            else list_all2 chunk_fits chs (replicate (length pre) ?s @ x # rest)) \<longrightarrow> chk_inv (resized cb r chs b)"
    using grow_layout [OF assms(1,3,5,6) cc] by metis
  have inv: "0 < ?s" "cbsize cb \<le> ccapacity cb" "ccapacity cb < 2 ^ 63" "0 < ccapacity cb"
    using assms(1,3) by (auto simp: chk_inv_def chunk_caps_def)
  obtain sz where sz: "grow_alloc (ccapacity cb) r = Some sz" "r \<le> sz"
    using grow_alloc_returns [of "ccapacity cb" r] inv(3,4) assms(6) by fastforce
  let ?new = "case cbase cb of None \<Rightarrow> malloc al sz | Some d \<Rightarrow> mem_realloc al d sz"
  have "\<exists>d'. ?new = Some d' \<and> length d' = sz \<and> take (cbsize cb) d' = chk_bytes cb"
  proof (cases "cbase cb")
    case None
    then have "cbsize cb = 0" using assms(2,7) by (simp add: chk_filled_def)
    then show ?thesis using None alloc_total_malloc [OF assms(4), of sz] by (auto simp: chk_bytes_def)
  next
    case (Some d)
    then have "cbsize cb \<le> length d" "cbsize cb \<le> sz"
      using assms(1,5,7) inv(2) sz(2) by (auto simp: chk_inv_def)
    then show ?thesis using Some mem_realloc_keeps [OF assms(4), of "cbsize cb" sz d] assms(7)
      by (auto simp: chk_bytes_def chk_memory_def)
  qed
  then obtain d' where d': "?new = Some d'" "length d' = sz" "take (cbsize cb) d' = chk_bytes cb" by blast
  let ?cb = "resized cb r (cchunks cb @ replicate (length rest) None) (Some d')"
  have "ensure_capacity al r cb = Inr ?cb"
    using assms(3,7) inv cc g(1,2) sz(1) d'(1) by (simp add: ensure_capacity_def chk_get_contiguous_base Let_def)
  moreover have "chk_inv ?cb" using g(1,3) cc sz(2) d'(2) assms(7) by simp
  ultimately show ?thesis using d'(3) assms(7)
    by (simp add: chk_grown_def chk_filled_def chk_bytes_def chk_memory_def fixed_chunk_sizes_def)
qed

lemma ensure_capacity_discrete:
  assumes "chk_inv cb" and "chk_filled cb" and "fixed_chunk_sizes cb" and "alloc_total al"
    and "ccapacity cb < r" and "r < 2 ^ 63" and "addressing cb = DISCRETE"
  shows "\<exists>cb'. ensure_capacity al r cb = Inr cb' \<and> chk_grown r cb cb'"
proof -
  let ?s = "chunk_size cb" and ?l = "last_chunk_size cb"
  obtain pre c0 where cc: "cchunks cb = pre @ [c0]"
    using assms(1) by (cases "cchunks cb" rule: rev_cases) (auto simp: chk_inv_def)
  obtain x rest where g: "chunks_of r ?s = Suc (length pre) + length rest"
    "x = (if chunks_of r ?s = Suc (length pre) then last_of r ?s else ?s)" "?l \<le> x"
    "chunk_caps cb = replicate (length pre) ?s @ [?l]"
    "add64 (mul64 ?s (chunks_of r ?s - 1)) (last_of r ?s) = r"
    "\<forall>chs b. length chs = chunks_of r ?s \<longrightarrow> chunk_caps (resized cb r chs b) = replicate (length pre) ?s @ x # rest"
    "\<forall>chs b. length chs = chunks_of r ?s \<longrightarrow>
           (if addressing cb = CONTIGUOUS then \<forall>d. b = Some d \<longrightarrow> r \<le> length d
            else list_all2 chunk_fits chs (replicate (length pre) ?s @ x # rest)) \<longrightarrow> chk_inv (resized cb r chs b)"
    by (rule grow_layout [OF assms(1,3,5,6) cc])
  have inv: "0 < ?s" "cbsize cb \<le> ccapacity cb" "0 < ccapacity cb" "ccapacity cb = sum_list (chunk_caps cb)"
    "list_all2 chunk_fits (pre @ [c0]) (replicate (length pre) ?s @ [?l])"
    "filled (cbsize cb) (pre @ [c0]) (replicate (length pre) ?s @ [?l])"
    using assms(1,2,3,7) g(4) cc by (auto simp: chk_inv_def chk_filled_def)
  define ch where "ch = (if x = ?l then c0 else case c0 of None \<Rightarrow> None | Some d \<Rightarrow> mem_realloc al d x)"
  have ch: "case c0 of None \<Rightarrow> ch = None | Some d \<Rightarrow> \<exists>d'. ch = Some d' \<and> length d' = x \<and> take ?l d' = d"
  proof (cases c0)
    case (Some d)
    then have "length d = ?l" using inv(5) by (simp add: list_all2_append chunk_fits_def)
    then show ?thesis using Some mem_realloc_keeps [OF assms(4), of ?l x d] g(3) by (auto simp: ch_def)
  qed (simp add: ch_def)
  have m: "cbsize cb \<le> sum_list (replicate (length pre) ?s) + ?l" using inv(2,4) g(4) by simp
  note pg = padded_grow [OF inv(5) _ g(3) inv(6) m ch, of rest, simplified]
  let ?chs = "pre @ ch # replicate (length rest) None"
  let ?cb = "resized cb r ?chs (cbase cb)"
  have len: "length ?chs = chunks_of r ?s" using g(1) by simp
  have lay: "length (cchunks cb) \<le> chunks_of r ?s" "chunks_of r ?s - length (cchunks cb) = length rest"
    "(if length (cchunks cb) = chunks_of r ?s then last_of r ?s else ?s) = x"
    "cchunks cb ! (length (cchunks cb) - 1) = c0"
    "(cchunks cb @ replicate (length rest) None)[length (cchunks cb) - 1 := ch] = ?chs"
    "x = ?l \<or> ?l < x"
    using cc g(1,2,3) by (auto simp: list_update_append)
  have "(if x = ?l then Inr c0 else case c0 of None \<Rightarrow> Inr None | Some d \<Rightarrow>
           (case mem_realloc al d x of None \<Rightarrow> Inl e | Some d' \<Rightarrow> Inr (Some d'))) = Inr ch" for e :: error
    using ch by (auto simp: ch_def split: option.splits if_splits)
  then have "ensure_capacity al r cb = Inr ?cb"
    using assms(3,7) inv(1,3) g(5) lay(1,6) unfolding ensure_capacity_def Let_def lay(2,3,4) by (simp add: lay(5) [simplified])
  moreover have "chk_inv ?cb" using g(7) [rule_format, OF len, of "cbase cb"] pg(1) assms(7) by simp
  moreover have "chk_filled ?cb" using g(6) [rule_format, OF len, of "cbase cb"] pg(2) assms(7) by (simp add: chk_filled_def)
  moreover have "chk_bytes ?cb = chk_bytes cb" using g(4) g(6) [rule_format, OF len, of "cbase cb"] pg(3) assms(7) cc
    by (simp add: chk_bytes_def chk_memory_def)
  ultimately show ?thesis by (simp add: chk_grown_def fixed_chunk_sizes_def)
qed

lemma ensure_capacity_spec:
  assumes "chk_inv cb" and "chk_filled cb" and "fixed_chunk_sizes cb" and "alloc_total al"
    and "ccapacity cb < r" and "r < 2 ^ 63"
  shows "\<exists>cb'. ensure_capacity al r cb = Inr cb' \<and> chk_grown r cb cb'"
  using ensure_capacity_contiguous [OF assms] ensure_capacity_discrete [OF assms] by (cases "addressing cb") simp_all

text \<open>A write that fits the capacity.\<close>

definition chk_wrote :: "byte list \<Rightarrow> nat \<Rightarrow> chunked_buffer \<Rightarrow> chunked_buffer \<Rightarrow> bool" where
  "chk_wrote src off cb cb' \<longleftrightarrow> chk_inv cb' \<and> chk_filled cb'
     \<and> chk_bytes cb' = take off (chk_bytes cb) @ src @ drop (off + length src) (chk_bytes cb)
     \<and> addressing cb' = addressing cb \<and> fixed_chunk_sizes cb' = fixed_chunk_sizes cb
     \<and> chunk_size cb' = chunk_size cb"

lemma take_overwrite_max:
  assumes "off + length src \<le> length d" and "off \<le> m" and "m \<le> length d"
  shows "take (max m (off + length src)) (overwrite d off src) = take off (take m d) @ src @ drop (off + length src) (take m d)"
  using assms by (auto simp: overwrite_def max_def min_def take_drop)

lemma length_chk_memory:
  "chk_inv cb \<Longrightarrow> addressing cb = DISCRETE \<Longrightarrow> length (chk_memory cb) = ccapacity cb"
  by (simp add: chk_memory_def chk_inv_def length_padded)

lemma caps_update [simp]:
  "chunk_caps (cb\<lparr>cbase := b\<rparr>) = chunk_caps cb" "chunk_caps (cb\<lparr>cbsize := n\<rparr>) = chunk_caps cb"
  "fixed_chunk_sizes (cb\<lparr>cbase := b\<rparr>) = fixed_chunk_sizes cb" "fixed_chunk_sizes (cb\<lparr>cbsize := n\<rparr>) = fixed_chunk_sizes cb"
  "fixed_chunk_sizes (cb\<lparr>cchunks := chs\<rparr>) = fixed_chunk_sizes cb"
  by (simp_all add: chunk_caps_def fixed_chunk_sizes_def)

lemma filled_all:
  "list_all2 chunk_fits chs cs \<Longrightarrow> 0 \<notin> set cs \<Longrightarrow> filled (sum_list cs) chs cs \<Longrightarrow> filled m chs cs"
proof (induction arbitrary: m rule: list_all2_induct)
  case (Cons ch chs c cs)
  then have "0 < c" "filled (sum_list cs) chs cs" "ch \<noteq> None" by auto
  then show ?case using Cons.IH Cons.prems by simp
qed simp

lemma overwrite_append2: "overwrite (xs @ ys) (length xs + r) src = xs @ overwrite ys r src"
  by (simp add: overwrite_def)

lemma chk_write_contiguous:
  assumes "chk_inv cb" and "chk_filled cb" and "alloc_total al" and "off \<le> cbsize cb" and "off + length src \<le> ccapacity cb"
    and "addressing cb = CONTIGUOUS" and "src \<noteq> []"
  shows "\<exists>cb'. chk_write al src off cb = Inr cb' \<and> chk_wrote src off cb cb'"
proof -
  have cap: "ccapacity cb < 2 ^ 63" "cchunks cb \<noteq> []" "cbsize cb \<le> ccapacity cb" using assms(1) by (simp_all add: chk_inv_def)
  have add: "add64 off (length src) = off + length src" using assms(5) cap by (simp add: add64_exact)
  let ?b = "case cbase cb of None \<Rightarrow> malloc al (ccapacity cb) | Some d \<Rightarrow> Some d"
  obtain d where d: "?b = Some d" "ccapacity cb \<le> length d" "chk_bytes cb = take (cbsize cb) d"
  proof (cases "cbase cb")
    case None
    then show ?thesis using that alloc_total_malloc [OF assms(3), of "ccapacity cb"] assms(2,6)
      by (auto simp: chk_filled_def chk_bytes_def)
  next
    case (Some d)
    then show ?thesis using that [of d] assms(1,6) by (simp add: chk_inv_def chk_bytes_def chk_memory_def)
  qed
  let ?cb = "cb\<lparr>cbase := Some (overwrite d off src), cbsize := max (off + length src) (cbsize cb)\<rparr>"
  have "chk_write al src off cb = Inr ?cb"
    using assms(5-7) cap(2) add d(1,2) by (simp add: chk_write_def mem_write_def Let_def)
  moreover have "chk_inv ?cb" using assms(1,5,6) cap d(2)
    by (simp add: chk_inv_def length_overwrite)
  moreover have "chk_bytes ?cb = take off (chk_bytes cb) @ src @ drop (off + length src) (chk_bytes cb)"
    using take_overwrite_max [of off src d "cbsize cb"] d(2,3) assms(4-6) cap(3)
    by (simp add: chk_bytes_def chk_memory_def max.commute)
  ultimately show ?thesis using assms(6) by (simp add: chk_wrote_def chk_filled_def fixed_chunk_sizes_def)
qed

lemma chk_write_discrete:
  assumes "chk_inv cb" and "chk_filled cb" and "alloc_total al" and "off \<le> cbsize cb" and "off + length src \<le> ccapacity cb"
    and "addressing cb = DISCRETE" and "src \<noteq> []"
  shows "\<exists>cb'. chk_write al src off cb = Inr cb' \<and> chk_wrote src off cb cb'"
proof -
  let ?caps = "chunk_caps cb" and ?chs = "cchunks cb" and ?M = "max (off + length src) (cbsize cb)"
  have inv: "ccapacity cb < 2 ^ 63" "cbsize cb \<le> ccapacity cb" "length ?caps = length ?chs" "0 \<notin> set ?caps"
    "list_all2 chunk_fits ?chs ?caps" "ccapacity cb = sum_list ?caps" "filled (cbsize cb) ?chs ?caps"
    using assms(1,2,6) by (simp_all add: chk_inv_def chk_filled_def)
  have add: "add64 off (length src) = off + length src" using assms(5) inv(1) by (simp add: add64_exact)
  have "off < ccapacity cb" using assms(5,7) by (cases src) auto
  then obtain i r where t: "translate_logical_offset off cb = Inr (i, r)" "i < length ?chs"
    "sum_list (take i ?caps) + r = off" "r < ?caps ! i"
    using translate_spec [OF assms(1)] by blast
  let ?a = "take i ?chs" and ?b = "take i ?caps" and ?c = "drop i ?chs" and ?e = "drop i ?caps"
  define m where "m = cbsize cb - sum_list ?b"
  have sm: "sum_list ?b + sum_list ?e = ccapacity cb" using inv(6) by (metis append_take_drop_id sum_list_append)
  have lab: "length ?a = length ?b" using inv(3) by simp
  have fl: "filled (cbsize cb) ?a ?b" "filled m ?c ?e"
    using filled_append [OF lab, of "cbsize cb" ?c ?e] inv(7) by (simp_all add: m_def)
  have "\<exists>c'. chk_write_loop al cb i r src ?c = Inr c' \<and> list_all2 chunk_fits c' ?e
      \<and> filled (max m (r + length src)) c' ?e
      \<and> take (max m (r + length src)) (padded c' ?e) = take (max m (r + length src)) (overwrite (padded ?c ?e) r src)"
  proof (rule chk_write_loop_spec [OF _ _ assms(3) fl(2)])
    show "list_all2 chunk_fits ?c ?e" using inv(5) by (rule list_all2_dropI)
    show "\<And>j. j < length ?e \<Longrightarrow> get_chunk_capacity cb (i + j) = Inr (?e ! j)"
      using get_chunk_capacity_caps [OF assms(1)] inv(3) by simp
    show "r \<le> m" "r + length src \<le> sum_list ?e" "sum_list ?e < 2 ^ 64"
      using t(3) assms(4,5) sm inv(1) by (simp_all add: m_def)
    show "src = [] \<or> r < hd ?e" using t(2,4) inv(3) by (simp add: hd_drop_conv_nth)
    show "0 \<notin> set ?e" using inv(4) by (meson in_set_dropD)
  qed
  then obtain c' where c': "chk_write_loop al cb i r src ?c = Inr c'" "list_all2 chunk_fits c' ?e"
    "filled (max m (r + length src)) c' ?e"
    "take (max m (r + length src)) (padded c' ?e) = take (max m (r + length src)) (overwrite (padded ?c ?e) r src)" by blast
  have M: "?M - sum_list ?b = max m (r + length src)" using t(3) by (simp add: m_def)
  let ?cb = "cb\<lparr>cchunks := ?a @ c', cbsize := ?M\<rparr>"
  have lc: "length c' = length ?c" using c'(2) inv(3) by (simp add: list_all2_lengthD)
  have caps: "chunk_caps ?cb = ?caps" using lc t(2) by (simp add: chunk_caps_def fixed_chunk_sizes_def)
  have fits_a: "list_all2 chunk_fits ?a ?b" by (rule list_all2_takeI [OF inv(5)])
  have all: "list_all2 chunk_fits (?a @ c') ?caps"
    using list_all2_appendI [OF fits_a c'(2)] by simp
  have "chk_write al src off cb = Inr ?cb"
    using assms(5-7) add t(1) c'(1) by (simp add: chk_write_def Let_def)
  moreover have "chk_inv ?cb" using assms(1,5,6) inv(2,3) caps all lc t(2)
    by (auto simp: chk_inv_def fixed_chunk_sizes_def)
  moreover have "chk_filled ?cb"
  proof -
    have "filled (sum_list ?b) ?a ?b" by (rule filled_mono [OF fl(1)]) (use t(3) assms(4) in simp)
    then have "filled ?M ?a ?b" using filled_all [OF fits_a] inv(4) by (meson in_set_takeD)
    then have "filled ?M (?a @ c') (?b @ ?e)" using filled_append [OF lab, of ?M c' ?e] c'(3) M by simp
    then show ?thesis using caps assms(6) by (simp add: chk_filled_def)
  qed
  moreover have "chk_bytes ?cb = take off (chk_bytes cb) @ src @ drop (off + length src) (chk_bytes cb)"
  proof -
    have la: "length (padded ?a ?b) = sum_list ?b" by (rule length_padded [OF fits_a])
    have mem: "chk_memory cb = padded ?a ?b @ padded ?c ?e"
      using padded_append [OF lab, of ?c ?e] assms(6) by (simp add: chk_memory_def)
    have "chk_memory ?cb = padded ?a ?b @ padded c' ?e"
      using padded_append [OF lab, of c' ?e] assms(6) caps by (simp add: chk_memory_def)
    then have "take ?M (chk_memory ?cb) = take ?M (padded ?a ?b @ overwrite (padded ?c ?e) r src)"
      using la c'(4) M by simp
    also have "\<dots> = take ?M (overwrite (chk_memory cb) off src)"
      using overwrite_append2 [of "padded ?a ?b" "padded ?c ?e" r src] mem la t(3) by simp
    finally show ?thesis
      using take_overwrite_max [of off src "chk_memory cb" "cbsize cb"] length_chk_memory [OF assms(1,6)] assms(4,5) inv(2)
      by (simp add: chk_bytes_def max.commute)
  qed
  ultimately show ?thesis using assms(6) by (simp add: chk_wrote_def fixed_chunk_sizes_def)
qed

section \<open>A store of bytes\<close>

text \<open>
  What the users of a chunked buffer rely on: a write at an offset that is not past the end patches
  the contents, and a read returns a slice of them. Any sequence of such writes then gives the
  contents of the same sequence of patches to a plain list.
\<close>

fun in_range :: "nat \<Rightarrow> (nat \<times> byte list) list \<Rightarrow> bool" where
  "in_range n [] \<longleftrightarrow> True"
| "in_range n ((off, bs) # ws) \<longleftrightarrow> off \<le> n \<and> bs \<noteq> [] \<and> off + length bs < 2 ^ 63 \<and> in_range (max n (off + length bs)) ws"

definition patches :: "(nat \<times> byte list) list \<Rightarrow> byte list \<Rightarrow> byte list" where
  "patches ws xs = foldl (\<lambda>xs (off, bs). overwrite xs off bs) xs ws"

definition put_all :: "(byte list \<Rightarrow> nat \<Rightarrow> 's \<Rightarrow> 's result) \<Rightarrow> (nat \<times> byte list) list \<Rightarrow> 's \<Rightarrow> 's result" where
  "put_all put ws s = foldR (\<lambda>s (off, bs). put bs off s) s ws"

lemma length_patch: "off \<le> length xs \<Longrightarrow> length (overwrite xs off bs) = max (length xs) (off + length bs)"
  by (auto simp: overwrite_def max_def)

locale byte_store =
  fixes put :: "byte list \<Rightarrow> nat \<Rightarrow> 's \<Rightarrow> 's result"
    and fetch :: "nat \<Rightarrow> nat \<Rightarrow> 's \<Rightarrow> byte list result"
    and content :: "'s \<Rightarrow> byte list"
    and ok :: "'s \<Rightarrow> bool"
  assumes put: "ok s \<Longrightarrow> off \<le> length (content s) \<Longrightarrow> bs \<noteq> [] \<Longrightarrow> off + length bs < 2 ^ 63 \<Longrightarrow>
      \<exists>s'. put bs off s = Inr s' \<and> ok s' \<and> content s' = overwrite (content s) off bs"
    and fetch: "ok s \<Longrightarrow> off + n \<le> length (content s) \<Longrightarrow> off < length (content s) \<Longrightarrow>
      fetch n off s = Inr (slice (content s) off n)"
begin

lemma put_all_content:
  assumes "ok s" and "in_range (length (content s)) ws"
  shows "\<exists>s'. put_all put ws s = Inr s' \<and> ok s' \<and> content s' = patches ws (content s)"
  using assms
proof (induction ws arbitrary: s)
  case Nil
  then show ?case by (simp add: put_all_def patches_def)
next
  case (Cons w ws)
  obtain off bs where w: "w = (off, bs)" by (cases w)
  from put [of s off bs] Cons.prems w obtain s1 where
    s1: "put bs off s = Inr s1" "ok s1" "content s1 = overwrite (content s) off bs" by auto
  then have "in_range (length (content s1)) ws" using Cons.prems(2) w by (simp add: length_patch)
  from Cons.IH [OF s1(2) this] show ?case using s1(1,3) w by (auto simp: put_all_def patches_def)
qed

lemma fetch_patched:
  assumes "ok s" and "content s = []" and "in_range 0 ws" and "off + n \<le> length (patches ws [])" and "off < length (patches ws [])"
  shows "\<exists>s'. put_all put ws s = Inr s' \<and> content s' = patches ws [] \<and> fetch n off s' = Inr (slice (patches ws []) off n)"
  using put_all_content [OF assms(1), of ws] fetch assms by fastforce

end

lemma length_chk_bytes: "chk_inv cb \<Longrightarrow> chk_filled cb \<Longrightarrow> length (chk_bytes cb) = cbsize cb"
  using length_chk_memory [of cb]
  by (cases "addressing cb"; cases "cbase cb") (auto simp: chk_bytes_def chk_filled_def chk_memory_def chk_inv_def)

definition chk_ok :: "allocator \<Rightarrow> chunked_buffer \<Rightarrow> bool" where
  "chk_ok al cb \<longleftrightarrow> alloc_total al \<and> fixed_chunk_sizes cb \<and> chk_inv cb \<and> chk_filled cb"

lemma chk_write_fits:
  assumes "chk_inv cb" and "chk_filled cb" and "alloc_total al" and "off \<le> cbsize cb" and "off + length src \<le> ccapacity cb"
    and "src \<noteq> []"
  shows "\<exists>cb'. chk_write al src off cb = Inr cb' \<and> chk_wrote src off cb cb'"
  using chk_write_contiguous [OF assms(1-5)] chk_write_discrete [OF assms(1-5)] assms(6) by (cases "addressing cb") auto

lemma chk_write_ok:
  assumes "chk_ok al cb" and "off \<le> length (chk_bytes cb)" and "bs \<noteq> []" and "off + length bs < 2 ^ 63"
  shows "\<exists>cb'. chk_write al bs off cb = Inr cb' \<and> chk_ok al cb' \<and> chk_bytes cb' = overwrite (chk_bytes cb) off bs
           \<and> addressing cb' = addressing cb"
proof -
  have ok: "alloc_total al" "fixed_chunk_sizes cb" "chk_inv cb" "chk_filled cb" using assms(1) by (simp_all add: chk_ok_def)
  have off: "off \<le> cbsize cb" using assms(2) length_chk_bytes [OF ok(3,4)] by simp
  have wrote: ?thesis if "chk_write al bs off cb = Inr cb'" "chk_wrote bs off c cb'" "fixed_chunk_sizes c" "chk_bytes c = chk_bytes cb"
    "addressing c = addressing cb" for c cb'
    using that ok(1) by (auto simp: chk_wrote_def chk_ok_def overwrite_def)
  show ?thesis
  proof (cases "off + length bs \<le> ccapacity cb")
    case True
    then show ?thesis using chk_write_fits [OF ok(3,4,1) off True assms(3)] wrote ok(2) by blast
  next
    case False
    then obtain c where c: "ensure_capacity al (off + length bs) cb = Inr c" "chk_grown (off + length bs) cb c"
      using ensure_capacity_spec [OF ok(3,4,2,1) _ assms(4)] by auto
    then have g: "chk_inv c" "chk_filled c" "off \<le> cbsize c" "off + length bs \<le> ccapacity c" "ccapacity c = off + length bs"
      using off by (simp_all add: chk_grown_def)
    have "add64 off (length bs) = off + length bs" using assms(4) by (simp add: add64_exact)
    then have "chk_write al bs off cb = chk_write al bs off c"
      using False c(1) g(5) by (simp add: chk_write_def Let_def)
    then show ?thesis using chk_write_fits [OF g(1,2) ok(1) g(3,4) assms(3)] wrote [of _ c] c(2) ok(2)
      by (auto simp: chk_grown_def)
  qed
qed

interpretation cstore: byte_store "chk_write al" chk_read chk_bytes "chk_ok al" for al
proof
  fix s off and bs :: "byte list"
  assume "chk_ok al s" "off \<le> length (chk_bytes s)" "bs \<noteq> []" "off + length bs < 2 ^ 63"
  then show "\<exists>s'. chk_write al bs off s = Inr s' \<and> chk_ok al s' \<and> chk_bytes s' = overwrite (chk_bytes s) off bs"
    using chk_write_ok by blast
next
  fix s off n
  assume "chk_ok al s" "off + n \<le> length (chk_bytes s)" "off < length (chk_bytes s)"
  then show "chk_read n off s = Inr (slice (chk_bytes s) off n)"
    using chk_read_spec [of s off n] length_chk_bytes [of s] by (simp add: chk_ok_def)
qed

lemma chk_init_ok:
  assumes "0 < tot" and "tot < 2 ^ 63" and "0 < csz" and "csz < 2 ^ 32" and "alloc_total al"
  shows "\<exists>cb. chk_init_fixed_size adr tot csz chk_new = Inr cb \<and> chk_ok al cb \<and> chk_bytes cb = [] \<and> addressing cb = adr"
proof -
  define k where "k = chunks_of tot csz"
  have c: "0 < k" "(k - 1) * csz + last_of tot csz = tot" "0 < last_of tot csz" "last_of tot csz \<le> csz"
    using chunks_of_spec [OF assms(3,1)] by (simp_all add: k_def)
  have cap: "add64 (mul64 csz (k - 1)) (last_of tot csz) = tot"
    using c(2) assms(2) by (simp add: add64_exact mul64_exact mult.commute)
  define caps where "caps = replicate (k - 1) csz @ [last_of tot csz]"
  have caps: "length caps = k" "sum_list caps = tot" "0 \<notin> set caps" "list_all (\<lambda>c. c < 2 ^ 32) caps"
    using c assms(3,4) by (auto simp: caps_def sum_list_replicate_nat list_all_iff)
  let ?cb = "chk_new\<lparr>addressing := adr, chunk_size := csz, last_chunk_size := last_of tot csz,
                     cchunks := replicate k None, cbase := None, ccapacity := tot\<rparr>"
  have cc: "chunk_caps ?cb = caps" "fixed_chunk_sizes ?cb"
    by (simp_all add: chunk_caps_def fixed_chunk_sizes_def chk_new_def caps_def)
  have "list_all2 chunk_fits (replicate k None) caps" using chunk_fits_Nones [of caps] caps(1) by simp
  then have "chk_inv ?cb" using cc caps c assms(2-4) by (simp add: chk_inv_def chk_new_def)
  moreover have "chk_init_fixed_size adr tot csz chk_new = Inr ?cb"
    using assms(1,3) cap by (simp add: chk_init_fixed_size_def Let_def chk_new_def flip: k_def)
  ultimately show ?thesis using assms(5) cc(2)
    by (simp add: chk_ok_def chk_filled_def chk_bytes_def chk_new_def)
qed

section \<open>Properties\<close>

text \<open>
  C7: The two ways of addressing are equivalent. After initialising with any total and chunk size, every
  sequence of non-empty writes, each starting at or before the end of what has been written,
  succeeds with discrete chunks and with one contiguous block, both then hold the bytes that the same
  patches of a plain list give (growing the chunks as needed), and every read of a range of these
  bytes returns that range from both.
\<close>

theorem chunked_addressing_equivalent:
  assumes "alloc_total al" and "0 < tot" and "tot < 2 ^ 63" and "0 < csz" and "csz < 2 ^ 32" and "in_range 0 ws"
    and "off + n \<le> length (patches ws [])" and "off < length (patches ws [])"
  shows "\<exists>d0 c0 d c. chk_init_fixed_size DISCRETE tot csz chk_new = Inr d0
     \<and> chk_init_fixed_size CONTIGUOUS tot csz chk_new = Inr c0
     \<and> put_all (chk_write al) ws d0 = Inr d \<and> put_all (chk_write al) ws c0 = Inr c
     \<and> chk_bytes d = patches ws [] \<and> chk_bytes c = patches ws []
     \<and> chk_read n off d = Inr (slice (patches ws []) off n) \<and> chk_read n off c = Inr (slice (patches ws []) off n)"
proof -
  have "\<exists>s0 s. chk_init_fixed_size adr tot csz chk_new = Inr s0 \<and> put_all (chk_write al) ws s0 = Inr s
          \<and> chk_bytes s = patches ws [] \<and> chk_read n off s = Inr (slice (patches ws []) off n)" for adr
    using chk_init_ok [OF assms(2-5,1), of adr] cstore.fetch_patched [OF _ _ assms(6-8), of al] by blast
  from this [of DISCRETE] this [of CONTIGUOUS] show ?thesis by blast
qed

theorem chunked_addressing_equivalent_witness:
  "\<exists>d0 c0 d c. chk_init_fixed_size DISCRETE 3 2 chk_new = Inr d0
     \<and> chk_init_fixed_size CONTIGUOUS 3 2 chk_new = Inr c0
     \<and> put_all (chk_write (\<lambda>n. Some [])) [(0, [1, 2, 3]), (2, [4, 5, 6])] d0 = Inr d
     \<and> put_all (chk_write (\<lambda>n. Some [])) [(0, [1, 2, 3]), (2, [4, 5, 6])] c0 = Inr c
     \<and> chk_bytes d = [1, 2, 4, 5, 6] \<and> chk_bytes c = [1, 2, 4, 5, 6]
     \<and> chk_read 3 1 d = Inr [2, 4, 5] \<and> chk_read 3 1 c = Inr [2, 4, 5]"
  using chunked_addressing_equivalent [of "\<lambda>n. Some []" 3 2 "[(0, [1, 2, 3]), (2, [4, 5, 6])]" 1 3]
  by (simp add: alloc_total_def patches_def overwrite_def slice_def)

lemma chk_deep_copy_loop:
  assumes "\<forall>i < n. f i = None"
  shows "foldR (\<lambda>bufs i. case f i of None \<Rightarrow> Inr (bufs @ [None]) | Some d \<Rightarrow> g bufs i d) bufs [0..<n]
       = Inr (bufs @ replicate n None)"
  using assms by (induction n) (simp_all add: foldR_append replicate_append_same)

text \<open>
  C32: Copying a discretely addressed chunked buffer whose chunks have no memory yet doubles the number
  of its chunks, while its capacity and its chunk sizes stay as they were.
\<close>

theorem chk_deep_copy_doubles:
  assumes "addressing rhs = DISCRETE" and "cchunks rhs = replicate n None"
  shows "\<exists>cb. chk_deep_copy al rhs = Inr cb \<and> chk_nchunks cb = 2 * chk_nchunks rhs
           \<and> ccapacity cb = ccapacity rhs \<and> chunk_size cb = chunk_size rhs \<and> last_chunk_size cb = last_chunk_size rhs"
proof -
  let ?g = "\<lambda>bufs i d. bindR (get_chunk_capacity rhs i) (\<lambda>c. bindR (mem_read (Some d) 0 c) (\<lambda>bs.
              bindR (mem_write (malloc al c) 0 bs) (\<lambda>d'. Inr (bufs[i := d']))))"
  have "\<forall>i < n. cchunks rhs ! i = None" using assms(2) by simp
  from chk_deep_copy_loop [OF this, of ?g "replicate n None"] show ?thesis
    using assms by (simp add: chk_deep_copy_def Let_def chk_nchunks_def)
qed

theorem chk_deep_copy_doubles_witness:
  "\<exists>rhs cb. chk_init_fixed_size DISCRETE 5 2 chk_new = Inr rhs \<and> chk_nchunks rhs = 3
     \<and> chk_deep_copy (\<lambda>n. None) rhs = Inr cb \<and> chk_nchunks cb = 6"
  using chk_deep_copy_doubles [of "\<lparr>addressing = DISCRETE, cchunks = replicate 3 None, cbase = None, chunk_size = 2,
      last_chunk_size = 1, var_chunk_sizes = [], ccapacity = 5, cbsize = 0\<rparr>" 3 "\<lambda>n. None"]
  by (auto simp: chk_init_fixed_size_def chk_new_def last_of_def chunks_of_def add64_def mul64_def chk_nchunks_def)

end
