(* ===== verification/Tdb_Tile.thy ===== *)
theory Tdb_Tile
  imports Chunked_Buffer Tdb_Enums
begin

text \<open>
  Tiles (\<open>tile/tile.{h,cc}\<close>): a chunked buffer with a read and write position, the size and type of
  its cells, and the buffer with the filtered bytes that are on disk. The pointer to the chunked
  buffer is \<open>None\<close> when it is null.
\<close>

section \<open>The class\<close>

record tile =
  tchunked :: "chunked_buffer option"
  toffset :: nat
  cell_size :: nat
  dim_num :: nat
  tformat_version :: nat
  owns_chunked_buffer :: bool
  pre_filtered_size :: nat
  tile_type :: Datatype
  filtered_buffer :: buffer

definition tile_error :: "string \<Rightarrow> error" where
  "tile_error msg = Err SC_Tile msg"

definition max_tile_chunk_size :: nat where
  "max_tile_chunk_size = 64 * 1024"

definition compute_chunk_size :: "nat \<Rightarrow> nat \<Rightarrow> nat \<Rightarrow> nat result" where
  "compute_chunk_size tile_size tile_dim_num tile_cell_size =
     (let dim_num = (if tile_dim_num > 0 then tile_dim_num else 1);
          dim_tile_size = tile_size div dim_num;
          dim_cell_size = tile_cell_size div dim_num in
      if dim_cell_size = 0 then Inl UB
      else
        let chunk_size64 = max (min max_tile_chunk_size dim_tile_size div dim_cell_size * dim_cell_size) dim_cell_size in
        if chunk_size64 > 2 ^ 32 - 1 then Inl (tile_error ''Chunk size exceeds uint32_t'')
        else Inr chunk_size64)"

definition buffer_to_contiguous_fixed_chunks ::
  "byte list option \<Rightarrow> nat \<Rightarrow> nat \<Rightarrow> nat \<Rightarrow> chunked_buffer \<Rightarrow> chunked_buffer result" where
  "buffer_to_contiguous_fixed_chunks data buffer_size tile_dim_num tile_cell_size cb =
     bindR (compute_chunk_size buffer_size tile_dim_num tile_cell_size) (\<lambda>chunk_size.
     bindR (chk_init_fixed_size CONTIGUOUS buffer_size chunk_size cb) (\<lambda>cb1.
     bindR (chk_set_contiguous data cb1) (\<lambda>cb2. chk_set_size buffer_size cb2)))"

definition tile_new :: tile where
  "tile_new = \<lparr>tchunked = None, toffset = 0, cell_size = 0, dim_num = 0, tformat_version = 0,
               owns_chunked_buffer = True, pre_filtered_size = 0, tile_type = INT32,
               filtered_buffer = buffer_new\<rparr>"

definition tile_of :: "nat \<Rightarrow> Datatype \<Rightarrow> nat \<Rightarrow> nat \<Rightarrow> chunked_buffer option \<Rightarrow> bool \<Rightarrow> tile" where
  "tile_of version ty csz dims cb owns =
     \<lparr>tchunked = cb, toffset = 0, cell_size = csz, dim_num = dims, tformat_version = version,
      owns_chunked_buffer = owns, pre_filtered_size = 0, tile_type = ty, filtered_buffer = buffer_new\<rparr>"

definition tile_init_unfiltered :: "nat \<Rightarrow> Datatype \<Rightarrow> nat \<Rightarrow> nat \<Rightarrow> nat \<Rightarrow> tile \<Rightarrow> tile result" where
  "tile_init_unfiltered version ty tile_size csz dims t =
     bindR (compute_chunk_size tile_size dims csz) (\<lambda>chunk_size.
     bindR (chk_init_fixed_size CONTIGUOUS tile_size chunk_size chk_new) (\<lambda>cb.
       Inr (t\<lparr>cell_size := csz, dim_num := dims, tile_type := ty, tformat_version := version,
              tchunked := Some cb\<rparr>)))"

definition tile_init_filtered :: "nat \<Rightarrow> Datatype \<Rightarrow> nat \<Rightarrow> nat \<Rightarrow> tile \<Rightarrow> tile" where
  "tile_init_filtered version ty csz dims t =
     t\<lparr>cell_size := csz, dim_num := dims, tile_type := ty, tformat_version := version,
       tchunked := Some chk_new\<rparr>"

text \<open>\<open>filtered()\<close> asserts that at most one of the two buffers is in use.\<close>

definition tile_filtered :: "tile \<Rightarrow> bool result" where
  "tile_filtered t =
     (if alloced_size (filtered_buffer t) > 0
      then case tchunked t of None \<Rightarrow> Inl UB
           | Some cb \<Rightarrow> if cbsize cb > 0 then Inl AssertFail else Inr True
      else Inr False)"

definition assert_unfiltered :: "tile \<Rightarrow> unit result" where
  "assert_unfiltered t = bindR (tile_filtered t) (\<lambda>f. if f then Inl AssertFail else Inr ())"

definition with_chunked :: "(chunked_buffer \<Rightarrow> 'a result) \<Rightarrow> tile \<Rightarrow> 'a result" where
  "with_chunked f t = (case tchunked t of None \<Rightarrow> Inl UB | Some cb \<Rightarrow> f cb)"

definition tile_empty :: "tile \<Rightarrow> bool result" where
  "tile_empty t = bindR (assert_unfiltered t) (\<lambda>_.
     Inr (case tchunked t of None \<Rightarrow> True | Some cb \<Rightarrow> cbsize cb = 0))"

definition tile_full :: "tile \<Rightarrow> bool result" where
  "tile_full t = bindR (assert_unfiltered t) (\<lambda>_. bindR (tile_empty t) (\<lambda>e.
     if e then Inr False else with_chunked (\<lambda>cb. Inr (toffset t \<ge> ccapacity cb)) t))"

definition tile_size :: "tile \<Rightarrow> nat result" where
  "tile_size t = bindR (assert_unfiltered t) (\<lambda>_.
     Inr (case tchunked t of None \<Rightarrow> 0 | Some cb \<Rightarrow> cbsize cb))"

definition tile_cell_num :: "tile \<Rightarrow> nat result" where
  "tile_cell_num t = bindR (tile_size t) (\<lambda>n. if cell_size t = 0 then Inl UB else Inr (n div cell_size t))"

definition tile_advance_offset :: "nat \<Rightarrow> tile \<Rightarrow> tile" where
  "tile_advance_offset nbytes t = t\<lparr>toffset := add64 (toffset t) nbytes\<rparr>"

definition tile_set_offset :: "nat \<Rightarrow> tile \<Rightarrow> tile" where
  "tile_set_offset off t = t\<lparr>toffset := off\<rparr>"

definition tile_reset_offset :: "tile \<Rightarrow> tile" where
  "tile_reset_offset t = t\<lparr>toffset := 0\<rparr>"

text \<open>The status of \<open>set_size(0)\<close> is dropped; it is always ok.\<close>

definition tile_reset_size :: "tile \<Rightarrow> tile result" where
  "tile_reset_size t = bindR (assert_unfiltered t) (\<lambda>_.
     with_chunked (\<lambda>cb. Inr (t\<lparr>tchunked := Some (cb\<lparr>cbsize := 0\<rparr>)\<rparr>)) t)"

definition tile_reset :: "tile \<Rightarrow> tile result" where
  "tile_reset t = tile_reset_size (tile_reset_offset t)"

definition tile_set_pre_filtered_size :: "nat \<Rightarrow> tile \<Rightarrow> tile" where
  "tile_set_pre_filtered_size n t = t\<lparr>pre_filtered_size := n\<rparr>"

definition tile_stores_coords :: "tile \<Rightarrow> bool" where
  "tile_stores_coords t \<longleftrightarrow> dim_num t > 0"

definition tile_disown_buff :: "tile \<Rightarrow> tile" where
  "tile_disown_buff t = t\<lparr>owns_chunked_buffer := False\<rparr>"

definition tile_read :: "nat \<Rightarrow> tile \<Rightarrow> (byte list \<times> tile) result" where
  "tile_read nbytes t = bindR (assert_unfiltered t) (\<lambda>_.
     bindR (with_chunked (chk_read nbytes (toffset t)) t) (\<lambda>bs. Inr (bs, tile_advance_offset nbytes t)))"

definition tile_read_at :: "nat \<Rightarrow> nat \<Rightarrow> tile \<Rightarrow> byte list result" where
  "tile_read_at nbytes off t = bindR (assert_unfiltered t) (\<lambda>_. with_chunked (chk_read nbytes off) t)"

definition tile_write :: "allocator \<Rightarrow> byte list \<Rightarrow> tile \<Rightarrow> tile result" where
  "tile_write al bs t = bindR (assert_unfiltered t) (\<lambda>_.
     bindR (with_chunked (chk_write al bs (toffset t)) t) (\<lambda>cb.
       Inr (tile_advance_offset (length bs) (t\<lparr>tchunked := Some cb\<rparr>))))"

text \<open>
  Writing from a \<open>ConstBuffer\<close> takes \<open>nbytes\<close> from its current position. The variant without a size
  takes as many bytes as the whole buffer has.
\<close>

definition tile_write_cb_n :: "allocator \<Rightarrow> const_buffer \<Rightarrow> nat \<Rightarrow> tile \<Rightarrow> tile result" where
  "tile_write_cb_n al buf nbytes t = bindR (assert_unfiltered t) (\<lambda>_.
     bindR (mem_read (cb_cur_data buf) 0 nbytes) (\<lambda>bs. tile_write al bs t))"

definition tile_write_cb :: "allocator \<Rightarrow> const_buffer \<Rightarrow> tile \<Rightarrow> tile result" where
  "tile_write_cb al buf t = tile_write_cb_n al buf (csize buf) t"

definition tile_clone :: "allocator \<Rightarrow> bool \<Rightarrow> tile \<Rightarrow> tile result" where
  "tile_clone al deep t =
     bindR (buffer_assign al (filtered_buffer t)) (\<lambda>fb.
       if deep
       then case tchunked t of
              Some cb \<Rightarrow>
                if owns_chunked_buffer t
                then bindR (chk_deep_copy al cb) (\<lambda>cb'. Inr (t\<lparr>tchunked := Some cb', filtered_buffer := fb\<rparr>))
                else Inr (t\<lparr>filtered_buffer := fb\<rparr>)
            | None \<Rightarrow> Inr (t\<lparr>filtered_buffer := fb\<rparr>)
       else Inr (t\<lparr>owns_chunked_buffer := False, filtered_buffer := fb\<rparr>))"

definition tile_swap :: "tile \<Rightarrow> tile \<Rightarrow> tile \<times> tile" where
  "tile_swap t other = (other, t)"

section \<open>Zipping coordinates\<close>

text \<open>
  \<open>zip_coordinates\<close> turns the coordinates of one dimension after the other into the coordinates of
  one cell after the other.
\<close>

definition zip_step ::
  "byte list option \<Rightarrow> nat \<Rightarrow> nat \<Rightarrow> byte list option \<times> nat \<times> nat \<Rightarrow> nat \<Rightarrow> (byte list option \<times> nat \<times> nat) result" where
  "zip_step tmp coord_size csz s i =
     (case s of (tile_c, ptr, ptr_tmp) \<Rightarrow>
        bindR (mem_read tmp ptr_tmp coord_size) (\<lambda>bs.
        bindR (mem_write tile_c ptr bs) (\<lambda>tile_c'.
          Inr (tile_c', add64 ptr csz, add64 ptr_tmp coord_size))))"

definition zip_dim ::
  "byte list option \<Rightarrow> nat \<Rightarrow> nat \<Rightarrow> nat \<Rightarrow> byte list option \<times> nat \<Rightarrow> nat \<Rightarrow> (byte list option \<times> nat) result" where
  "zip_dim tmp coord_size csz cell_num s j =
     bindR (foldR (zip_step tmp coord_size csz) (fst s, mul64 j coord_size, snd s) [0..<cell_num])
       (\<lambda>(tile_c, _, ptr_tmp). Inr (tile_c, ptr_tmp))"

definition zip_coordinates :: "allocator \<Rightarrow> tile \<Rightarrow> tile result" where
  "zip_coordinates al t =
     (if dim_num t = 0 then Inl AssertFail
      else with_chunked (\<lambda>cb.
        if cell_size t = 0 then Inl UB
        else
          let tile_size = cbsize cb; coord_size = cell_size t div dim_num t; cell_num = tile_size div cell_size t in
          if addressing cb \<noteq> CONTIGUOUS then Inl AssertFail
          else bindR (chk_get_contiguous cb) (\<lambda>tile_c.
            case malloc al tile_size of
              None \<Rightarrow> Inl AssertFail
            | Some tmp0 \<Rightarrow>
                bindR (mem_read tile_c 0 tile_size) (\<lambda>bs.
                bindR (mem_write (Some tmp0) 0 bs) (\<lambda>tile_tmp.
                bindR (foldR (zip_dim tile_tmp coord_size (cell_size t) cell_num) (tile_c, 0) [0..<dim_num t])
                  (\<lambda>(tile_c', _). Inr (t\<lparr>tchunked := Some (cb\<lparr>cbase := tile_c'\<rparr>)\<rparr>)))))) t)"

section \<open>Rows of blocks\<close>

definition rows :: "nat \<Rightarrow> nat \<Rightarrow> (nat \<Rightarrow> nat \<Rightarrow> 'a) \<Rightarrow> 'a list" where
  "rows d n f = concat (map (\<lambda>j. map (f j) [0..<n]) [0..<d])"

lemma length_rows [simp]: "length (rows d n f) = d * n"
  by (induction d) (simp_all add: rows_def)

lemma rows_Suc: "rows (Suc d) n f = rows d n f @ map (f d) [0..<n]"
  by (simp add: rows_def)

lemma nth_rows: "j < d \<Longrightarrow> i < n \<Longrightarrow> rows d n f ! (j * n + i) = f j i"
proof (induction d)
  case (Suc d)
  show ?case
  proof (cases "j = d")
    case True
    then show ?thesis using Suc.prems(2) by (simp add: rows_Suc nth_append)
  next
    case False
    then have "j < d" using Suc.prems(1) by simp
    moreover from this have "Suc j * n \<le> d * n" by (intro mult_le_mono1) simp
    then have "j * n + i < d * n" using Suc.prems(2) by simp
    ultimately show ?thesis using Suc by (simp add: rows_Suc nth_append)
  qed
qed simp

lemma rows_eqI:
  assumes "length xs = d * n" and "\<And>j i. j < d \<Longrightarrow> i < n \<Longrightarrow> xs ! (j * n + i) = f j i"
  shows "xs = rows d n f"
proof (rule nth_equalityI)
  fix q
  assume "q < length xs"
  then have q: "q < d * n" and n: "0 < n" using assms(1) by (auto intro: Nat.gr0I)
  have e: "q div n * n + q mod n = q" by simp
  have "q div n < d" using q by (simp add: less_mult_imp_div_less)
  then show "xs ! q = rows d n f ! q"
    using assms(2) [of "q div n" "q mod n"] nth_rows [of "q div n" d "q mod n" n f] n e by simp
qed (simp add: assms(1))

text \<open>A region of memory as a list of blocks of the same length.\<close>

definition blocks :: "nat \<Rightarrow> byte list list \<Rightarrow> bool" where
  "blocks k B \<longleftrightarrow> (\<forall>b \<in> set B. length b = k)"

lemma length_concat_blocks: "blocks k B \<Longrightarrow> length (concat B) = length B * k"
  by (induction B) (simp_all add: blocks_def)

lemma blocks_split:
  assumes "blocks k B" and "q < length B"
  shows "concat B = concat (take q B) @ B ! q @ concat (drop (Suc q) B)" and "length (concat (take q B)) = q * k"
    and "length (B ! q) = k"
proof -
  have "B = take q B @ B ! q # drop (Suc q) B" using assms(2) by (rule id_take_nth_drop)
  then show "concat B = concat (take q B) @ B ! q @ concat (drop (Suc q) B)"
    by (metis concat.simps(2) concat_append)
  have "blocks k (take q B)" using assms(1) by (meson blocks_def in_set_takeD)
  from length_concat_blocks [OF this] show "length (concat (take q B)) = q * k" using assms(2) by (simp add: min_def)
  show "length (B ! q) = k" using assms by (simp add: blocks_def)
qed

lemma overwrite_block:
  assumes "blocks k B" and "q < length B" and "length x = k"
  shows "overwrite (concat B @ rest) (q * k) x = concat (B[q := x]) @ rest"
proof -
  note sp = blocks_split [OF assms(1,2)]
  have "B[q := x] = take q B @ x # drop (Suc q) B" using assms(2) by (rule upd_conv_take_nth_drop)
  then have "concat (B[q := x]) = concat (take q B) @ x @ concat (drop (Suc q) B)" by simp
  then show ?thesis using sp assms(3) by (simp add: overwrite_def)
qed

lemma slice_block:
  assumes "blocks k B" and "q < length B"
  shows "slice (concat B @ rest) (q * k) k = B ! q"
  using blocks_split [OF assms] by (simp add: slice_def)

lemma blocks_update: "blocks k B \<Longrightarrow> length x = k \<Longrightarrow> blocks k (B[q := x])"
  using set_update_subset_insert [of B q x] by (auto simp: blocks_def)

lemma zip_step_block:
  assumes "blocks k B" and "blocks k T" and "q < length B" and "p < length T" and "0 < k"
    and "length B * k + c < 2 ^ 64" and "length T * k < 2 ^ 64"
  shows "zip_step (Some (concat T)) k c (Some (concat B @ rest), q * k, p * k) i
       = Inr (Some (concat (B[q := T ! p]) @ rest), q * k + c, (p + 1) * k)"
proof -
  have l: "length (concat T) = length T * k" "length (concat B) = length B * k" "length (T ! p) = k"
    using length_concat_blocks assms(1,2) blocks_split(3) [OF assms(2,4)] by auto
  have p: "p * k + k \<le> length T * k" "q * k + k \<le> length B * k"
    using assms(3,4) by (metis Suc_leI add.commute mult_Suc mult_le_mono1)+
  have "mem_read (Some (concat T)) (p * k) k = Inr (T ! p)"
    using slice_block [OF assms(2,4), of "[]"] p(1) l(1) assms(5) by (simp add: mem_read_def)
  moreover have "T ! p \<noteq> []" using l(3) assms(5) by auto
  then have "mem_write (Some (concat B @ rest)) (q * k) (T ! p) = Inr (Some (concat (B[q := T ! p]) @ rest))"
    using overwrite_block [OF assms(1,3) l(3)] p(2) l(2,3) by (simp add: mem_write_def)
  moreover have "add64 (q * k) c = q * k + c" "add64 (p * k) k = (p + 1) * k"
    using p assms(6,7) by (simp_all add: add64_exact)
  ultimately show ?thesis by (simp add: zip_step_def)
qed

definition column_done :: "nat \<Rightarrow> nat \<Rightarrow> byte list list \<Rightarrow> byte list list \<Rightarrow> nat \<Rightarrow> nat \<Rightarrow> bool" where
  "column_done d n T B j m \<longleftrightarrow> (\<forall>i < m. B ! (i * d + j) = T ! (j * n + i))"

lemma zip_cells:
  assumes "blocks k B" and "blocks k T" and "length B = n * d" and "length T = d * n" and "0 < k" and "j < d"
    and "n * d * k + d * k < 2 ^ 64" and "m \<le> n"
  shows "\<exists>B'. foldR (zip_step (Some (concat T)) k (d * k)) (Some (concat B @ rest), j * k, j * n * k) [0..<m]
            = Inr (Some (concat B' @ rest), (m * d + j) * k, (j * n + m) * k)
          \<and> blocks k B' \<and> length B' = n * d \<and> column_done d n T B' j m
          \<and> (\<forall>j' < d. j' \<noteq> j \<longrightarrow> (\<forall>i < n. B' ! (i * d + j') = B ! (i * d + j')))"
  using assms(8)
proof (induction m)
  case 0
  then show ?case using assms by (auto simp: column_done_def)
next
  case (Suc m)
  then obtain B' where B': "foldR (zip_step (Some (concat T)) k (d * k)) (Some (concat B @ rest), j * k, j * n * k) [0..<m]
            = Inr (Some (concat B' @ rest), (m * d + j) * k, (j * n + m) * k)"
    "blocks k B'" "length B' = n * d" "column_done d n T B' j m"
    "\<forall>j' < d. j' \<noteq> j \<longrightarrow> (\<forall>i < n. B' ! (i * d + j') = B ! (i * d + j'))" by auto
  have "Suc m * d \<le> n * d" "Suc j * n \<le> d * n" using Suc.prems assms(6) by (simp_all only: mult_le_mono1 Suc_leI)
  then have q: "m * d + j < n * d" and p: "j * n + m < d * n" using assms(6) Suc.prems by simp_all
  let ?B = "B'[m * d + j := T ! (j * n + m)]"
  have "zip_step (Some (concat T)) k (d * k) (Some (concat B' @ rest), (m * d + j) * k, (j * n + m) * k) m
      = Inr (Some (concat ?B @ rest), (m * d + j) * k + d * k, (j * n + m + 1) * k)"
    using zip_step_block [OF B'(2) assms(2), of "m * d + j" "j * n + m"] B'(3) assms(4,5,7) q p by (simp add: mult.commute)
  moreover have "(m * d + j) * k + d * k = (Suc m * d + j) * k" by (simp add: algebra_simps)
  ultimately have "foldR (zip_step (Some (concat T)) k (d * k)) (Some (concat B @ rest), j * k, j * n * k) [0..<Suc m]
            = Inr (Some (concat ?B @ rest), (Suc m * d + j) * k, (j * n + Suc m) * k)"
    using B'(1) by (simp add: foldR_append)
  moreover have "blocks k ?B"
    using blocks_update [OF B'(2)] blocks_split(3) [OF assms(2)] p assms(4) by simp
  moreover have "column_done d n T ?B j (Suc m)"
    unfolding column_done_def
  proof (intro allI impI)
    fix i
    assume i: "i < Suc m"
    show "?B ! (i * d + j) = T ! (j * n + i)"
    proof (cases "i = m")
      case True
      then show ?thesis using q B'(3) by simp
    next
      case False
      then have "i * d \<noteq> m * d" using assms(6) by simp
      then show ?thesis using False i B'(4) by (simp add: column_done_def)
    qed
  qed
  moreover have "?B ! (i * d + j') = B ! (i * d + j')" if "j' < d" "j' \<noteq> j" "i < n" for i j'
  proof -
    have "(i * d + j') mod d \<noteq> (m * d + j) mod d" using that assms(6) by simp
    then have "m * d + j \<noteq> i * d + j'" by metis
    then show ?thesis using B'(5) that by simp
  qed
  ultimately show ?case using B'(3) by (intro exI [of _ ?B]) auto
qed

lemma zip_dims:
  assumes "blocks k B" and "blocks k T" and "length B = n * d" and "length T = d * n" and "0 < k"
    and "n * d * k + d * k < 2 ^ 64" and "m \<le> d"
  shows "\<exists>B'. foldR (zip_dim (Some (concat T)) k (d * k) n) (Some (concat B @ rest), 0) [0..<m]
            = Inr (Some (concat B' @ rest), m * n * k)
          \<and> blocks k B' \<and> length B' = n * d \<and> (\<forall>j < m. column_done d n T B' j n)"
  using assms(7)
proof (induction m)
  case 0
  then show ?case using assms by auto
next
  case (Suc m)
  then obtain B1 where B1: "foldR (zip_dim (Some (concat T)) k (d * k) n) (Some (concat B @ rest), 0) [0..<m]
            = Inr (Some (concat B1 @ rest), m * n * k)"
    "blocks k B1" "length B1 = n * d" "\<forall>j < m. column_done d n T B1 j n" by auto
  have m: "m < d" using Suc.prems by simp
  from zip_cells [OF B1(2) assms(2) B1(3) assms(4,5) m assms(6) order_refl, of rest] obtain B2 where
    B2: "foldR (zip_step (Some (concat T)) k (d * k)) (Some (concat B1 @ rest), m * k, m * n * k) [0..<n]
            = Inr (Some (concat B2 @ rest), (n * d + m) * k, (m * n + n) * k)"
      "blocks k B2" "length B2 = n * d" "column_done d n T B2 m n"
      "\<forall>j' < d. j' \<noteq> m \<longrightarrow> (\<forall>i < n. B2 ! (i * d + j') = B1 ! (i * d + j'))" by blast
  have "m * k < d * k" using m assms(5) by simp
  then have "m * k < 2 ^ 64" using assms(6) by linarith
  then have "mul64 m k = m * k" by (rule mul64_exact)
  then have "zip_dim (Some (concat T)) k (d * k) n (Some (concat B1 @ rest), m * n * k) m
      = Inr (Some (concat B2 @ rest), Suc m * n * k)"
    using B2(1) by (simp add: zip_dim_def add.commute)
  then have "foldR (zip_dim (Some (concat T)) k (d * k) n) (Some (concat B @ rest), 0) [0..<Suc m]
      = Inr (Some (concat B2 @ rest), Suc m * n * k)"
    using B1(1) by (simp add: foldR_append)
  moreover have "column_done d n T B2 j n" if "j < Suc m" for j
    using that B1(4) B2(4,5) m by (cases "j = m") (auto simp: column_done_def)
  ultimately show ?case using B2(2,3) by (intro exI [of _ B2]) auto
qed

lemma mem_write_all: "length tmp = length xs \<Longrightarrow> mem_write (Some tmp) 0 xs = Inr (Some xs)"
  by (cases xs) (simp_all add: mem_write_def overwrite_def)

lemma zip_coordinates_blocks:
  assumes "tchunked t = Some cb" and "addressing cb = CONTIGUOUS" and "cchunks cb \<noteq> []" and "0 < dim_num t"
    and "0 < k" and "cell_size t = dim_num t * k" and "cbsize cb = n * cell_size t"
    and "cbase cb = Some (concat T @ rest)" and "blocks k T" and "length T = dim_num t * n"
    and "cbsize cb + cell_size t < 2 ^ 64" and "alloc_total al"
  shows "\<exists>B. zip_coordinates al t = Inr (t\<lparr>tchunked := Some (cb\<lparr>cbase := Some (concat B @ rest)\<rparr>)\<rparr>)
           \<and> length B = n * dim_num t \<and> (\<forall>j < dim_num t. column_done (dim_num t) n T B j n)"
proof -
  let ?d = "dim_num t"
  have len: "length (concat T) = cbsize cb" using length_concat_blocks [OF assms(9)] assms(6,7,10) by simp
  obtain tmp where tmp: "malloc al (cbsize cb) = Some tmp" "length tmp = cbsize cb"
    using alloc_total_malloc [OF assms(12)] by blast
  have rd: "mem_read (cbase cb) 0 (cbsize cb) = Inr (concat T)"
    using assms(8) len mem_read_region [of 0 "cbsize cb" "cbase cb"] by (simp add: slice_def)
  have wr: "mem_write (Some tmp) 0 (concat T) = Inr (Some (concat T))"
    using mem_write_all [of tmp "concat T"] len tmp(2) by simp
  have "length T = n * ?d" "n * ?d * k + ?d * k < 2 ^ 64" using assms(6,7,10,11) by (simp_all add: ac_simps)
  from zip_dims [OF assms(9,9) this(1) assms(10,5) this(2) order_refl, of rest] obtain B where
    B: "foldR (zip_dim (Some (concat T)) k (?d * k) n) (Some (concat T @ rest), 0) [0..<?d]
            = Inr (Some (concat B @ rest), ?d * n * k)"
      "length B = n * ?d" "\<forall>j < ?d. column_done ?d n T B j n" by blast
  have "cell_size t div ?d = k" "cbsize cb div cell_size t = n" "cell_size t \<noteq> 0" using assms(4-7) by simp_all
  then have "zip_coordinates al t = Inr (t\<lparr>tchunked := Some (cb\<lparr>cbase := Some (concat B @ rest)\<rparr>)\<rparr>)"
    using assms(1-4,6,8) tmp(1) rd wr B(1)
    by (simp add: zip_coordinates_def with_chunked_def Let_def chk_get_contiguous_base)
  then show ?thesis using B(2,3) by blast
qed

section \<open>Tiles as streams\<close>

text \<open>Writes and reads of a chunked buffer with fixed chunk sizes, the empty ones included.\<close>

lemma chk_write_nil:
  assumes "chk_ok al cb" and "off \<le> length (chk_bytes cb)"
  shows "\<exists>cb'. chk_write al [] off cb = Inr cb' \<and> chk_ok al cb' \<and> chk_bytes cb' = chk_bytes cb"
proof -
  have ok: "alloc_total al" "fixed_chunk_sizes cb" "chk_inv cb" "chk_filled cb" using assms(1) by (simp_all add: chk_ok_def)
  have off: "off \<le> cbsize cb" using assms(2) length_chk_bytes [OF ok(3,4)] by simp
  have inv: "cbsize cb \<le> ccapacity cb" "ccapacity cb < 2 ^ 63" "cchunks cb \<noteq> []" "0 < chunk_size cb"
    using ok(2,3) by (simp_all add: chk_inv_def)
  have add: "add64 off 0 = off" using off inv by (simp add: add64_exact)
  show ?thesis
  proof (cases "addressing cb = CONTIGUOUS")
    case True
    let ?b = "case cbase cb of None \<Rightarrow> malloc al (ccapacity cb) | Some d \<Rightarrow> Some d"
    obtain d where d: "?b = Some d" "ccapacity cb \<le> length d" "take (cbsize cb) d = chk_bytes cb"
    proof (cases "cbase cb")
      case None
      then show ?thesis using that alloc_total_malloc [OF ok(1), of "ccapacity cb"] ok(4) True
        by (auto simp: chk_filled_def chk_bytes_def)
    next
      case (Some d)
      then show ?thesis using that [of d] ok(3) True by (simp add: chk_inv_def chk_bytes_def chk_memory_def)
    qed
    let ?cb = "cb\<lparr>cbase := Some d\<rparr>"
    have "chk_write al [] off cb = Inr ?cb"
      using True add off inv d(1) by (simp add: chk_write_def mem_write_def Let_def max_def)
    moreover have "chk_inv ?cb" using ok(3) True d(2) by (simp add: chk_inv_def)
    moreover have "chk_bytes ?cb = chk_bytes cb" using True d(3) by (simp add: chk_bytes_def chk_memory_def)
    ultimately show ?thesis using ok True by (simp add: chk_ok_def chk_filled_def)
  next
    case False
    have loop: "chk_write_loop al cb i r [] chs = Inr chs" for i r chs by (cases chs) simp_all
    obtain i r where "translate_logical_offset off cb = Inr (i, r)"
      using ok(2) inv(4) by (cases "off = 0") (simp_all add: translate_logical_offset_def)
    then have "chk_write al [] off cb = Inr cb"
      using False add off inv loop by (simp add: chk_write_def Let_def)
    then show ?thesis using assms(1) by simp
  qed
qed

lemma chk_write_any:
  assumes "chk_ok al cb" and "off \<le> length (chk_bytes cb)" and "off + length bs < 2 ^ 63"
  shows "\<exists>cb'. chk_write al bs off cb = Inr cb' \<and> chk_ok al cb' \<and> chk_bytes cb' = overwrite (chk_bytes cb) off bs"
  using cstore.put [OF assms(1,2) _ assms(3)] chk_write_nil [OF assms(1,2)] by (cases "bs = []") auto

lemma chk_read_any:
  assumes "fixed_chunk_sizes cb" and "chk_inv cb" and "chk_filled cb" and "off + n \<le> cbsize cb"
  shows "chk_read n off cb = Inr (slice (chk_bytes cb) off n)"
proof (cases "off < cbsize cb")
  case True
  then show ?thesis using chk_read_spec [OF assms(2-4)] by simp
next
  case False
  then have n: "n = 0" "off = cbsize cb" using assms(4) by simp_all
  have inv: "cbsize cb \<le> ccapacity cb" "ccapacity cb < 2 ^ 63" "cchunks cb \<noteq> []" "0 < chunk_size cb"
    using assms(1,2) by (simp_all add: chk_inv_def)
  have loop: "chk_read_loop cb i r 0 chs = Inr []" for i r chs by (cases chs) simp_all
  show ?thesis using inv assms(1) n loop
    by (cases "addressing cb = CONTIGUOUS")
      (simp_all add: chk_read_def chk_get_contiguous_base mem_read_def translate_logical_offset_def)
qed

definition tile_bytes :: "tile \<Rightarrow> byte list" where
  "tile_bytes t = (case tchunked t of None \<Rightarrow> [] | Some cb \<Rightarrow> chk_bytes cb)"

definition tile_sink :: "allocator \<Rightarrow> tile \<Rightarrow> bool" where
  "tile_sink al t \<longleftrightarrow> alloced_size (filtered_buffer t) = 0 \<and> toffset t = length (tile_bytes t)
     \<and> (case tchunked t of None \<Rightarrow> False | Some cb \<Rightarrow> chk_ok al cb)"

definition tile_room :: "tile \<Rightarrow> nat \<Rightarrow> bool" where
  "tile_room t n \<longleftrightarrow> toffset t + n < 2 ^ 63"

interpretation tsink: byte_sink "tile_write al" tile_bytes "tile_sink al" tile_room for al
proof unfold_locales
  fix t n and bs :: "byte list"
  assume t: "tile_sink al t" and r: "tile_room t (length bs + n)"
  obtain cb where cb: "tchunked t = Some cb" "chk_ok al cb" "toffset t = length (chk_bytes cb)"
    "alloced_size (filtered_buffer t) = 0"
    using t by (auto simp: tile_sink_def tile_bytes_def split: option.splits)
  have room: "toffset t + length bs < 2 ^ 63" "toffset t + length bs < 2 ^ 64" using r by (simp_all add: tile_room_def)
  from chk_write_any [OF cb(2) _ room(1)] cb(3) obtain cb' where
    cb': "chk_write al bs (toffset t) cb = Inr cb'" "chk_ok al cb'" "chk_bytes cb' = chk_bytes cb @ bs"
    by (auto simp: overwrite_def)
  let ?t = "tile_advance_offset (length bs) (t\<lparr>tchunked := Some cb'\<rparr>)"
  have "tile_write al bs t = Inr ?t"
    using cb(1,4) cb'(1) by (simp add: tile_write_def assert_unfiltered_def tile_filtered_def with_chunked_def)
  moreover have "toffset ?t = toffset t + length bs" using room(2) by (simp add: tile_advance_offset_def add64_exact)
  ultimately show "\<exists>t'. tile_write al bs t = Inr t' \<and> tile_sink al t' \<and> tile_bytes t' = tile_bytes t @ bs \<and> tile_room t' n"
    using cb cb'(2,3) r by (auto simp: tile_sink_def tile_bytes_def tile_room_def tile_advance_offset_def)
qed (simp add: tile_room_def)

definition tile_source :: "tile \<Rightarrow> bool" where
  "tile_source t \<longleftrightarrow> alloced_size (filtered_buffer t) = 0 \<and> toffset t \<le> length (tile_bytes t)
     \<and> (case tchunked t of None \<Rightarrow> False | Some cb \<Rightarrow> fixed_chunk_sizes cb \<and> chk_inv cb \<and> chk_filled cb)"

definition tile_rest :: "tile \<Rightarrow> byte list" where
  "tile_rest t = drop (toffset t) (tile_bytes t)"

interpretation tsource: byte_source tile_read tile_rest tile_source
proof unfold_locales
  fix t n
  assume t: "tile_source t"
  obtain cb where cb: "tchunked t = Some cb" "fixed_chunk_sizes cb" "chk_inv cb" "chk_filled cb"
    "toffset t \<le> length (chk_bytes cb)" "alloced_size (filtered_buffer t) = 0"
    using t by (auto simp: tile_source_def tile_bytes_def split: option.splits)
  have len: "length (chk_bytes cb) = cbsize cb" by (rule length_chk_bytes [OF cb(3,4)])
  have lim: "cbsize cb < 2 ^ 63" using cb(3) by (simp add: chk_inv_def)
  have rd: "tile_read n t = bindR (chk_read n (toffset t) cb) (\<lambda>bs. Inr (bs, tile_advance_offset n t))"
    using cb(1,6) by (simp add: tile_read_def assert_unfiltered_def tile_filtered_def with_chunked_def)
  {
    assume "n \<le> length (tile_rest t)"
    then have n: "toffset t + n \<le> cbsize cb" using cb(1,5) len by (simp add: tile_rest_def tile_bytes_def)
    then have "toffset (tile_advance_offset n t) = toffset t + n" using lim by (simp add: tile_advance_offset_def add64_exact)
    then show "\<exists>t'. tile_read n t = Inr (take n (tile_rest t), t') \<and> tile_source t' \<and> tile_rest t' = drop n (tile_rest t)"
      using rd chk_read_any [OF cb(2-4) n] cb n len
      by (simp add: tile_rest_def tile_bytes_def slice_def tile_source_def add.commute tile_advance_offset_def)
  }
  {
    assume "length (tile_rest t) < n" "n \<le> 2 ^ 63"
    then have "cbsize cb < toffset t + n" "toffset t + n < 2 ^ 64"
      using cb(1,5) len lim by (simp_all add: tile_rest_def tile_bytes_def)
    then show "\<exists>c m. tile_read n t = Inl (Err c m)"
      using rd by (simp add: chk_read_def add64_exact chunked_error_def)
  }
qed

section \<open>Properties\<close>

text \<open>
  C33: The chunk size of a tile. Whenever the size of one coordinate (or of a cell of an attribute) is
  positive and below \<open>2\<^sup>32\<close>, a chunk size is returned: a positive multiple of it, at most 64 KiB unless
  a single value is larger, and no more than the bytes of one dimension when these hold a value.
\<close>

theorem compute_chunk_size_bounds:
  fixes tile_size csz dims :: nat
  defines "m \<equiv> max 1 dims"
  assumes "0 < csz div m" and "csz div m < 2 ^ 32"
  shows "\<exists>c. compute_chunk_size tile_size dims csz = Inr c \<and> 0 < c \<and> c < 2 ^ 32 \<and> csz div m dvd c
           \<and> c \<le> max max_tile_chunk_size (csz div m) \<and> (csz div m \<le> tile_size div m \<longrightarrow> c \<le> tile_size div m)"
proof -
  let ?k = "csz div m" and ?ts = "tile_size div m"
  define a where "a = min max_tile_chunk_size ?ts div ?k * ?k"
  have m: "(if dims > 0 then dims else 1) = m" by (simp add: m_def)
  have a: "a \<le> min max_tile_chunk_size ?ts" unfolding a_def by (rule div_times_less_eq_dividend)
  have "?k dvd a" by (simp add: a_def)
  then have c: "0 < max a ?k" "?k dvd max a ?k" "max a ?k \<le> max max_tile_chunk_size ?k" "?k \<le> ?ts \<longrightarrow> max a ?k \<le> ?ts"
    using a assms(2) by (auto simp: max_def)
  moreover have lt: "max a ?k < 2 ^ 32" using c(3) assms(3) by (auto simp: max_tile_chunk_size_def)
  then have "\<not> 2 ^ 32 - 1 < max a ?k" by linarith
  then have "compute_chunk_size tile_size dims csz = Inr (max a ?k)"
    using assms(2) unfolding compute_chunk_size_def m Let_def a_def by (simp only: if_False neq0_conv [symmetric] simp_thms)
  ultimately show ?thesis using lt by blast
qed

theorem compute_chunk_size_bounds_witness:
  "compute_chunk_size 1000000 0 12 = Inr 65532 \<and> (65532::nat) \<le> 65536 \<and> 12 dvd (65532::nat)"
  using compute_chunk_size_bounds [of 12 0 1000000]
  by (auto simp: compute_chunk_size_def max_tile_chunk_size_def)

text \<open>
  C8: A tile is a stream of bytes. After \<open>init_unfiltered\<close> on a new tile, any sequence of writes
  succeeds, growing the chunks as needed, the tile then holds the written bytes in order, and after
  \<open>reset_offset\<close> a read of any number of them returns that prefix.
\<close>

theorem tile_write_then_read:
  assumes "alloc_total al" and "0 < tsize" and "tsize < 2 ^ 63" and "compute_chunk_size tsize dims csz = Inr c"
    and "length (concat bss) < 2 ^ 63" and "n \<le> length (concat bss)"
  shows "\<exists>t0 t t'. tile_init_unfiltered version ty tsize csz dims tile_new = Inr t0
           \<and> foldR (\<lambda>t bs. tile_write al bs t) t0 bss = Inr t \<and> tile_bytes t = concat bss
           \<and> tile_read n (tile_reset_offset t) = Inr (take n (concat bss), t')"
proof -
  have c: "0 < c" "c < 2 ^ 32"
    using assms(4) by (auto simp: compute_chunk_size_def Let_def split: if_splits)
  from chk_init_ok [OF assms(2,3) c assms(1), of CONTIGUOUS] obtain cb where
    cb: "chk_init_fixed_size CONTIGUOUS tsize c chk_new = Inr cb" "chk_ok al cb" "chk_bytes cb = []" by blast
  let ?t0 = "tile_new\<lparr>cell_size := csz, dim_num := dims, tile_type := ty, tformat_version := version, tchunked := Some cb\<rparr>"
  have t0: "tile_init_unfiltered version ty tsize csz dims tile_new = Inr ?t0"
    using assms(4) cb(1) by (simp add: tile_init_unfiltered_def)
  have "tile_sink al ?t0" "tile_room ?t0 (length (concat bss) + 0)" "tile_bytes ?t0 = []"
    using cb assms(5)
    by (simp_all add: tile_sink_def tile_room_def tile_bytes_def tile_new_def buffer_new_def buffer_wrap_def)
  from tsink.put_all [OF this(1,2)] this(3) obtain t where
    t: "foldR (\<lambda>t bs. tile_write al bs t) ?t0 bss = Inr t" "tile_sink al t" "tile_bytes t = concat bss" by auto
  have "tile_source (tile_reset_offset t)" "tile_rest (tile_reset_offset t) = concat bss"
    using t(2,3) by (auto simp: tile_source_def tile_sink_def tile_rest_def tile_reset_offset_def tile_bytes_def
        chk_ok_def split: option.splits)
  then obtain t' where "tile_read n (tile_reset_offset t) = Inr (take n (concat bss), t')"
    using tsource.get_ok assms(6) by metis
  then show ?thesis using t0 t(1,3) by blast
qed

theorem tile_write_then_read_witness:
  "\<exists>t0 t t'. tile_init_unfiltered 5 INT32 4 4 0 tile_new = Inr t0
     \<and> foldR (\<lambda>t bs. tile_write (\<lambda>n. Some []) bs t) t0 [[1, 2, 3], [], [4, 5, 6]] = Inr t
     \<and> tile_bytes t = [1, 2, 3, 4, 5, 6] \<and> tile_read 5 (tile_reset_offset t) = Inr ([1, 2, 3, 4, 5], t')"
proof -
  have "compute_chunk_size 4 0 4 = Inr 4" by (simp add: compute_chunk_size_def max_tile_chunk_size_def)
  from tile_write_then_read [of "\<lambda>n. Some []", OF _ _ _ this, of "[[1, 2, 3], [], [4, 5, 6]]" 5 5 INT32] show ?thesis
    by (simp add: alloc_total_def)
qed

text \<open>
  C9: \<open>zip_coordinates\<close>. When a contiguous tile holds the coordinates of \<open>n\<close> cells dimension after
  dimension, it holds them cell after cell afterwards, and the memory behind them is untouched.
\<close>

theorem zip_coordinates_transposes:
  assumes "tchunked t = Some cb" and "addressing cb = CONTIGUOUS" and "cchunks cb \<noteq> []" and "0 < dim_num t"
    and "0 < k" and "cell_size t = dim_num t * k" and "cbsize cb = n * cell_size t"
    and "\<And>i j. length (coord i j) = k"
    and "cbase cb = Some (concat (rows (dim_num t) n (\<lambda>j i. coord i j)) @ rest)"
    and "cbsize cb + cell_size t < 2 ^ 64" and "alloc_total al"
  shows "zip_coordinates al t =
           Inr (t\<lparr>tchunked := Some (cb\<lparr>cbase := Some (concat (rows n (dim_num t) coord) @ rest)\<rparr>)\<rparr>)"
proof -
  let ?T = "rows (dim_num t) n (\<lambda>j i. coord i j)"
  have T: "blocks k ?T" using assms(8) by (auto simp: blocks_def rows_def)
  from zip_coordinates_blocks [OF assms(1-7,9) T length_rows assms(10,11)] obtain B where
    B: "zip_coordinates al t = Inr (t\<lparr>tchunked := Some (cb\<lparr>cbase := Some (concat B @ rest)\<rparr>)\<rparr>)"
      "length B = n * dim_num t" "\<forall>j < dim_num t. column_done (dim_num t) n ?T B j n" by blast
  have "B = rows n (dim_num t) coord"
    by (rule rows_eqI) (use B(2,3) in \<open>auto simp: column_done_def nth_rows\<close>)
  then show ?thesis using B(1) by simp
qed

theorem zip_coordinates_transposes_witness:
  "\<exists>t t' cb'. zip_coordinates (\<lambda>n. Some []) t = Inr t' \<and> tchunked t' = Some cb' \<and> dim_num t = 2
     \<and> tile_bytes t = [1, 2, 3, 11, 12, 13] \<and> cbase cb' = Some [1, 11, 2, 12, 3, 13]"
proof -
  define cb where "cb = \<lparr>addressing = CONTIGUOUS, cchunks = [None], cbase = Some [1, 2, 3, 11, 12, 13 :: byte],
    chunk_size = 6, last_chunk_size = 6, var_chunk_sizes = [], ccapacity = 6, cbsize = 6\<rparr>"
  define t where "t = tile_of 1 INT8 2 2 (Some cb) True"
  define coord :: "nat \<Rightarrow> nat \<Rightarrow> byte list" where "coord = (\<lambda>i j. [of_nat (10 * j + i + 1)])"
  have three: "[0..<3] = [0, 1, 2 :: nat]" "[0..<2] = [0, 1 :: nat]" by (simp_all add: upt_rec)
  have "zip_coordinates (\<lambda>n. Some []) t = Inr (t\<lparr>tchunked := Some (cb\<lparr>cbase := Some (concat (rows 3 (dim_num t) coord) @ [])\<rparr>)\<rparr>)"
    by (rule zip_coordinates_transposes [where k = 1])
      (simp_all add: t_def cb_def tile_of_def coord_def rows_def three alloc_total_def)
  moreover have "concat (rows 3 (dim_num t) coord) = [1, 11, 2, 12, 3, 13]"
    by (simp add: t_def tile_of_def coord_def rows_def three)
  moreover have "dim_num t = 2" "tile_bytes t = [1, 2, 3, 11, 12, 13]"
    by (simp_all add: t_def tile_of_def cb_def tile_bytes_def chk_bytes_def chk_memory_def)
  ultimately show ?thesis by - (rule exI [of _ t], simp)
qed

text \<open>
  C35: \<open>Tile::write(ConstBuffer*)\<close> takes as many bytes as the whole buffer has, from its current
  position: when part of a buffer that fills its memory has been read already, the call on a tile
  that can take the bytes reads past the end of that memory.
\<close>

theorem tile_write_cb_overreads:
  assumes "0 < coffset buf" and "coffset buf \<le> csize buf" and "cdata buf = Some d" and "length d = csize buf"
    and "tile_sink al t" and "tile_room t (csize buf)"
  shows "tile_write_cb al buf t = Inl UB"
proof -
  have "\<not> csize buf \<le> csize buf - coffset buf" using assms(1,2) by linarith
  moreover have "assert_unfiltered t = Inr ()"
    using assms(5) by (simp add: assert_unfiltered_def tile_filtered_def tile_sink_def)
  ultimately show ?thesis using assms(3,4)
    by (auto simp: tile_write_cb_def tile_write_cb_n_def cb_cur_data_def mem_read_def)
qed

theorem tile_write_cb_overreads_witness:
  "\<exists>t buf'. tile_init_unfiltered 5 INT8 3 1 0 tile_new = Inr t
     \<and> cb_read 1 (cb_new (Some [1, 2, 3]) 3) = Inr ([1], buf') \<and> tile_write_cb (\<lambda>n. Some []) buf' t = Inl UB"
proof -
  have total: "alloc_total (\<lambda>n. Some [])" by (simp add: alloc_total_def)
  have c: "compute_chunk_size 3 0 1 = Inr 3" by (simp add: compute_chunk_size_def max_tile_chunk_size_def)
  from chk_init_ok [of 3 3 "\<lambda>n. Some []" CONTIGUOUS] total obtain cb where
    cb: "chk_init_fixed_size CONTIGUOUS 3 3 chk_new = Inr cb" "chk_ok (\<lambda>n. Some []) cb" "chk_bytes cb = []" by auto
  let ?t = "tile_new\<lparr>cell_size := 1, dim_num := 0, tile_type := INT8, tformat_version := 5, tchunked := Some cb\<rparr>"
  let ?buf = "cb_advance_offset 1 (cb_new (Some [1, 2, 3]) 3)"
  have "tile_sink (\<lambda>n. Some []) ?t" "tile_room ?t 3" using cb
    by (simp_all add: tile_sink_def tile_room_def tile_bytes_def tile_new_def buffer_new_def buffer_wrap_def)
  then have "tile_write_cb (\<lambda>n. Some []) ?buf ?t = Inl UB"
    by (intro tile_write_cb_overreads [where d = "[1, 2, 3]"]) (simp_all add: cb_advance_offset_def cb_new_def add64_def)
  moreover have "tile_init_unfiltered 5 INT8 3 1 0 tile_new = Inr ?t" using c cb(1) by (simp add: tile_init_unfiltered_def)
  moreover have "cb_read 1 (cb_new (Some [1, 2, 3]) 3) = Inr ([1], ?buf)"
    by (simp add: cb_read_def cb_new_def cb_advance_offset_def mem_read_def slice_def add64_def)
  ultimately show ?thesis by blast
qed

end
