(* ===== verification/Tdb_Uri.thy ===== *)
theory Tdb_Uri
  imports Tdb_Enums
begin

text \<open>
  Strings, URIs and the names of fragments: the parsing helpers of \<open>misc/utils.cc\<close>, the URI
  class of \<open>misc/uri.cc\<close>, the path resolution of \<open>filesystem/posix.cc\<close>, the formatting of
  UUIDs of \<open>misc/uuid.cc\<close>, and the fragment names of \<open>Writer::new_fragment_name\<close> and
  \<open>Consolidator::compute_new_fragment_uri\<close>.

  The working directory and the home directory are an argument, \<open>env\<close>; the random bytes
  behind a UUID are an argument too.
\<close>

section \<open>Character and number formats\<close>

definition is_digit :: "char \<Rightarrow> bool" where
  "is_digit c \<longleftrightarrow> 48 \<le> (of_char c :: nat) \<and> (of_char c :: nat) \<le> 57"

definition digit_char :: "nat \<Rightarrow> char" where
  "digit_char d = char_of (48 + d)"

fun nat_str :: "nat \<Rightarrow> string" where
  "nat_str n = (if n < 10 then [digit_char n] else nat_str (n div 10) @ [digit_char (n mod 10)])"

declare nat_str.simps [simp del]

definition digits_val :: "string \<Rightarrow> nat" where
  "digits_val s = foldl (\<lambda>a c. 10 * a + (of_char c - 48)) 0 s"

definition hex_digit :: "nat \<Rightarrow> char" where
  "hex_digit d = (if d < 10 then char_of (48 + d) else char_of (87 + d))"

text \<open>\<open>%0kx\<close>: the \<open>k\<close> lowest hexadecimal digits of a value that has no more.\<close>

definition hex_str :: "nat \<Rightarrow> nat \<Rightarrow> string" where
  "hex_str k n = map (\<lambda>i. hex_digit (n div 16 ^ (k - Suc i) mod 16)) [0..<k]"

definition tolower :: "char \<Rightarrow> char" where
  "tolower c = (let n = (of_char c :: nat) in if 65 \<le> n \<and> n \<le> 90 then char_of (n + 32) else c)"

definition is_space :: "char \<Rightarrow> bool" where
  "is_space c \<longleftrightarrow> (let n = (of_char c :: nat) in n = 32 \<or> (9 \<le> n \<and> n \<le> 13))"

section \<open>Strings\<close>

definition starts_with :: "string \<Rightarrow> string \<Rightarrow> bool" where
  "starts_with v p = (if length v < length p then False else take (length p) v = p)"

definition ends_with :: "string \<Rightarrow> string \<Rightarrow> bool" where
  "ends_with v s = (if length v < length s then False else drop (length v - length s) v = s)"

definition common_prefix_size :: "'a list \<Rightarrow> 'a list \<Rightarrow> nat" where
  "common_prefix_size a b = length (takeWhile (\<lambda>(x, y). x = y) (zip a b))"

fun find_last_of :: "char \<Rightarrow> string \<Rightarrow> nat option" where
  "find_last_of c [] = None"
| "find_last_of c (x # xs) =
     (case find_last_of c xs of Some i \<Rightarrow> Some (Suc i) | None \<Rightarrow> if x = c then Some 0 else None)"

fun find_str :: "string \<Rightarrow> string \<Rightarrow> nat option" where
  "find_str p [] = (if p = [] then Some 0 else None)"
| "find_str p (x # xs) =
     (if starts_with (x # xs) p then Some 0 else map_option Suc (find_str p xs))"

definition find_from :: "string \<Rightarrow> string \<Rightarrow> nat \<Rightarrow> nat option" where
  "find_from p s pos = map_option (\<lambda>i. pos + i) (find_str p (drop pos s))"

text \<open>The part of a string after the last occurrence of a character; all of it if there is none.\<close>

definition after_last :: "char \<Rightarrow> string \<Rightarrow> string" where
  "after_last c s = (case find_last_of c s of None \<Rightarrow> s | Some i \<Rightarrow> drop (Suc i) s)"

section \<open>Conversions of utils::parse\<close>

definition is_int :: "string \<Rightarrow> bool" where
  "is_int s = (case s of [] \<Rightarrow> False
     | c # cs \<Rightarrow> (c = CHR ''+'' \<or> c = CHR ''-'' \<or> is_digit c) \<and> list_all is_digit cs)"

definition is_uint :: "string \<Rightarrow> bool" where
  "is_uint s = (case s of [] \<Rightarrow> False
     | c # cs \<Rightarrow> (c = CHR ''+'' \<or> is_digit c) \<and> list_all is_digit cs)"

text \<open>
  The value \<open>stoi\<close>, \<open>stoul\<close>, \<open>stoull\<close> and \<open>stoll\<close> see in a string that passed one of the
  two checks: \<open>None\<close> when there is no digit (\<open>std::invalid_argument\<close>).
\<close>

definition signed_val :: "string \<Rightarrow> int option" where
  "signed_val s = (case s of [] \<Rightarrow> None
     | c # cs \<Rightarrow>
         if c = CHR ''+'' then (if cs = [] then None else Some (int (digits_val cs)))
         else if c = CHR ''-'' then (if cs = [] then None else Some (- int (digits_val cs)))
         else Some (int (digits_val s)))"

definition convert_error :: "string \<Rightarrow> string \<Rightarrow> string \<Rightarrow> error" where
  "convert_error s ty why =
     Err SC_Utils (''Failed to convert string '' @ [CHR 0x27] @ s @ [CHR 0x27] @ '' to '' @ ty
                   @ ''; '' @ why)"

definition convert_num ::
  "(string \<Rightarrow> bool) \<Rightarrow> string \<Rightarrow> int \<Rightarrow> int \<Rightarrow> string \<Rightarrow> int result" where
  "convert_num check ty lo hi s =
     (if \<not> check s then Inl (convert_error s ty ''Invalid argument'')
      else case signed_val s of
        None \<Rightarrow> Inl (convert_error s ty ''Invalid argument'')
      | Some v \<Rightarrow> if lo \<le> v \<and> v \<le> hi then Inr v
                  else Inl (convert_error s ty ''Value out of range''))"

definition convert_int :: "string \<Rightarrow> int result" where
  "convert_int = convert_num is_int ''int'' (- (2 ^ 31)) (2 ^ 31 - 1)"

definition convert_uint32 :: "string \<Rightarrow> int result" where
  "convert_uint32 = convert_num is_uint ''uint32_t'' 0 (2 ^ 32 - 1)"

definition convert_uint64 :: "string \<Rightarrow> int result" where
  "convert_uint64 = convert_num is_uint ''uint64_t'' 0 (2 ^ 64 - 1)"

definition convert_int64 :: "string \<Rightarrow> int result" where
  "convert_int64 = convert_num is_int ''int64_t'' (- (2 ^ 63)) (2 ^ 63 - 1)"

definition convert_bool :: "string \<Rightarrow> bool result" where
  "convert_bool s =
     (let l = map tolower s in
      if l = ''true'' then Inr True
      else if l = ''false'' then Inr False
      else Inl (Err SC_Utils (''Failed to convert string to bool; Value not '' @ [CHR 0x27] @ ''true''
             @ [CHR 0x27] @ '' or '' @ [CHR 0x27] @ ''false'' @ [CHR 0x27])))"

definition convert_serialization_type :: "string \<Rightarrow> SerializationType result" where
  "convert_serialization_type s =
     (let l = map tolower s in
      if l = ''json'' then Inr JSON
      else if l = ''capnp'' then Inr CAPNP
      else Inl (Err SC_Utils (''Failed to convert string to SerializationType; Value not ''
             @ [CHR 0x27] @ ''json'' @ [CHR 0x27] @ '' or '' @ [CHR 0x27] @ ''capnp'' @ [CHR 0x27])))"

section \<open>Arithmetic of utils::math\<close>

definition math_ceil :: "nat \<Rightarrow> nat \<Rightarrow> nat" where
  "math_ceil x y = (if y = 0 then 0 else x div y + (if x mod y \<noteq> 0 then 1 else 0))"

text \<open>The instances of \<open>safe_mul\<close> at an unsigned type; a zero factor \<open>a\<close> divides by zero.\<close>

definition safe_mul :: "'a::len word \<Rightarrow> 'a word \<Rightarrow> 'a word result" where
  "safe_mul a b =
     (let prod = a * b in
      if a = 0 then Inl UB
      else if prod div a \<noteq> b then Inr (- 1) else Inr prod)"

section \<open>Paths of the POSIX file system\<close>

record env =
  cwd :: string
  home_dir :: "string option"

fun both_slashes_dedup :: "string \<Rightarrow> string" where
  "both_slashes_dedup (a # b # xs) =
     (if a = CHR ''/'' \<and> b = CHR ''/'' then both_slashes_dedup (a # xs)
      else a # both_slashes_dedup (b # xs))"
| "both_slashes_dedup xs = xs"

definition adjacent_slashes_dedup :: "string \<Rightarrow> string result" where
  "adjacent_slashes_dedup path =
     (if starts_with path ''file://'' then Inr (take 7 path @ both_slashes_dedup (drop 7 path))
      else Inl AssertFail)"

fun split_slash :: "string \<Rightarrow> string list" where
  "split_slash [] = [[]]"
| "split_slash (x # xs) =
     (if x = CHR ''/'' then [] # split_slash xs
      else case split_slash xs of [] \<Rightarrow> [[x]] | t # ts \<Rightarrow> (x # t) # ts)"

definition path_tokens :: "string \<Rightarrow> string list" where
  "path_tokens s = filter (\<lambda>t. t \<noteq> []) (map (takeWhile (\<lambda>c. c \<noteq> CHR 0x00)) (split_slash s))"

fun purge_tokens :: "string list \<Rightarrow> string list \<Rightarrow> string list option" where
  "purge_tokens final [] = Some final"
| "purge_tokens final (t # ts) =
     (if t = ''.'' then purge_tokens final ts
      else if t = ''..'' then (if final = [] then None else purge_tokens (butlast final) ts)
      else purge_tokens (final @ [t]) ts)"

definition join_tokens :: "string list \<Rightarrow> string" where
  "join_tokens ts = concat (map (\<lambda>t. ''/'' @ t) ts)"

definition purge_dots_from_path :: "string \<Rightarrow> string result" where
  "purge_dots_from_path path =
     (if path = [] \<or> path = ''file:///'' then Inr path
      else if \<not> starts_with path ''file:///'' then Inl AssertFail
      else case purge_tokens [] (path_tokens (drop 8 path)) of
        None \<Rightarrow> Inr []
      | Some final \<Rightarrow> Inr (''file://'' @ join_tokens final))"

definition abs_path_internal :: "env \<Rightarrow> string \<Rightarrow> string result" where
  "abs_path_internal e path =
     (let current = cwd e;
          home = (case home_dir e of Some h \<Rightarrow> h | None \<Rightarrow> current);
          finish = (\<lambda>d. bindR (adjacent_slashes_dedup d) purge_dots_from_path) in
      if path = [] \<or> path = ''.'' \<or> path = ''./'' then Inr (''file://'' @ current)
      else if path = ''~'' then Inr (''file://'' @ home)
      else if path = ''/'' then Inr (''file://'' @ ''/'')
      else if starts_with path ''file://'' then Inr path
      else if starts_with path ''/'' then finish (''file://'' @ path)
      else if starts_with path ''~/'' then finish (''file://'' @ home @ drop 1 path)
      else if starts_with path ''./'' then finish (''file://'' @ current @ drop 1 path)
      else finish (''file://'' @ current @ ''/'' @ path))"

definition posix_abs_path :: "env \<Rightarrow> string \<Rightarrow> string result" where
  "posix_abs_path e path =
     bindR (abs_path_internal e path) (\<lambda>resolved.
       Inr (if ends_with path ''/''
            then (if \<not> ends_with resolved ''/'' then resolved @ ''/'' else resolved)
            else (if ends_with resolved ''/'' then butlast resolved else resolved)))"

section \<open>URI\<close>

definition path_is_file :: "string \<Rightarrow> bool" where
  "path_is_file p \<longleftrightarrow> starts_with p ''file:///'' \<or> find_str ''://'' p = None"

definition uri_is_file :: "string \<Rightarrow> bool" where
  "uri_is_file u \<longleftrightarrow> starts_with u ''file:///''"

definition is_hdfs :: "string \<Rightarrow> bool" where
  "is_hdfs p \<longleftrightarrow> starts_with p ''hdfs://''"

definition is_s3 :: "string \<Rightarrow> bool" where
  "is_s3 p \<longleftrightarrow> starts_with p ''s3://'' \<or> starts_with p ''http://'' \<or> starts_with p ''https://''"

definition is_azure :: "string \<Rightarrow> bool" where
  "is_azure p \<longleftrightarrow> starts_with p ''azure://''"

definition is_gcs :: "string \<Rightarrow> bool" where
  "is_gcs p \<longleftrightarrow> starts_with p ''gcs://''"

definition is_tiledb :: "string \<Rightarrow> bool" where
  "is_tiledb p \<longleftrightarrow> starts_with p ''tiledb://''"

definition vfs_abs_path :: "env \<Rightarrow> string \<Rightarrow> string result" where
  "vfs_abs_path e path = (if path_is_file path then posix_abs_path e path else Inr path)"

definition uri_new :: "env \<Rightarrow> string \<Rightarrow> string result" where
  "uri_new e path =
     (if path = [] then Inr []
      else if path_is_file path then vfs_abs_path e path
      else if is_hdfs path \<or> is_s3 path \<or> is_azure path \<or> is_gcs path \<or> is_tiledb path
      then Inr path
      else Inr [])"

definition is_invalid :: "string \<Rightarrow> bool" where
  "is_invalid u \<longleftrightarrow> u = []"

definition add_trailing_slash :: "env \<Rightarrow> string \<Rightarrow> string result" where
  "add_trailing_slash e u =
     (if u = [] then uri_new e ''/''
      else if last u \<noteq> CHR ''/'' then uri_new e (u @ ''/'')
      else uri_new e u)"

definition remove_trailing_slash :: "env \<Rightarrow> string \<Rightarrow> string result" where
  "remove_trailing_slash e u =
     (if u = [] then Inl UB
      else if last u = CHR ''/'' then uri_new e (butlast u)
      else uri_new e u)"

definition rest_error :: error where
  "rest_error = Err SC_RestError
     (''Invalid array URI for REST service; expected format is '' @ [CHR 0x27]
      @ ''tiledb://<namespace>/<array-name>'' @ [CHR 0x27] @ '' or '' @ [CHR 0x27]
      @ ''tiledb://<namespace>/<array-uri>'' @ [CHR 0x27] @ ''.'')"

definition get_rest_components :: "string \<Rightarrow> (string \<times> string) result" where
  "get_rest_components u =
     (let prefix = ''tiledb://'' in
      if \<not> is_tiledb u \<or> u = [] \<or> find_str prefix u = None \<or> length u \<le> length prefix
      then Inl rest_error
      else case find_from ''/'' u (length prefix) of
        None \<Rightarrow> Inl rest_error
      | Some slash \<Rightarrow>
          (let namespace_len = slash - length prefix;
               array_len = length u - (slash + 1) in
           if namespace_len = 0 \<or> array_len = 0 then Inl rest_error
           else Inr (slice u (length prefix) namespace_len, slice u (slash + 1) array_len)))"

definition join_path :: "env \<Rightarrow> string \<Rightarrow> string \<Rightarrow> string result" where
  "join_path e u path =
     (if path = [] then uri_new e u
      else if u = [] then uri_new e path
      else if last u = CHR ''/''
      then (if hd path = CHR ''/'' then uri_new e (u @ drop 1 path) else uri_new e (u @ path))
      else (if hd path = CHR ''/'' then uri_new e (u @ path) else uri_new e (u @ ''/'' @ path)))"

definition last_path_part :: "string \<Rightarrow> string" where
  "last_path_part u = after_last (CHR ''/'') u"

definition uri_parent :: "env \<Rightarrow> string \<Rightarrow> string result" where
  "uri_parent e u =
     (if u = [] then Inr []
      else let v = (if last u = CHR ''/'' then butlast u else u) in
        case find_last_of (CHR ''/'') v of
          None \<Rightarrow> Inr []
        | Some pos \<Rightarrow> uri_new e (take pos u))"

definition to_path :: "string \<Rightarrow> string result" where
  "to_path u =
     (if path_is_file u
      then (if length u < length ''file://'' then Inl (Throws ''std::out_of_range'')
            else Inr (drop (length ''file://'') u))
      else if is_hdfs u \<or> is_s3 u \<or> is_azure u \<or> is_gcs u \<or> is_tiledb u then Inr u
      else Inr [])"

section \<open>UUIDs\<close>

definition uuid_str :: "byte list \<Rightarrow> string" where
  "uuid_str rnd =
     (let b = (\<lambda>i. unat (rnd ! i));
          time_low = b 0 + 2 ^ 8 * b 1 + 2 ^ 16 * b 2 + 2 ^ 24 * b 3;
          time_mid = b 4 + 2 ^ 8 * b 5;
          time_hi = unat (or (and (of_nat (b 6 + 2 ^ 8 * b 7) :: 16 word) 0x0FFF) 0x4000);
          clk_hi = unat (or (and (rnd ! 8) 0x3F) (0x80 :: byte)) in
      hex_str 8 time_low @ ''-'' @ hex_str 4 time_mid @ ''-'' @ hex_str 4 time_hi @ ''-''
      @ hex_str 2 clk_hi @ hex_str 2 (b 9) @ ''-''
      @ concat (map (\<lambda>i. hex_str 2 (b i)) [10, 11, 12, 13, 14, 15]))"

text \<open>\<open>Inl msg\<close> stands for a failing \<open>RAND_bytes\<close>, with the message of the library.\<close>

definition generate_uuid :: "string + byte list \<Rightarrow> bool \<Rightarrow> string result" where
  "generate_uuid rnd hyphenate =
     (case rnd of
        Inl msg \<Rightarrow> Inl (Err SC_Utils (''Cannot generate random bytes with OpenSSL: '' @ msg))
      | Inr bs \<Rightarrow> Inr (filter (\<lambda>c. \<not> (c = CHR ''-'' \<and> \<not> hyphenate)) (uuid_str bs)))"

section \<open>Fragment names\<close>

definition format_version :: nat where
  "format_version = 5"

definition new_fragment_name :: "nat \<Rightarrow> nat \<Rightarrow> string + byte list \<Rightarrow> string result" where
  "new_fragment_name now timestamp rnd =
     (let t = (if timestamp \<noteq> 0 then timestamp else now) in
      bindR (generate_uuid rnd False) (\<lambda>uuid.
        Inr (''/__'' @ nat_str t @ ''_'' @ nat_str t @ ''_'' @ uuid @ ''_'' @ nat_str format_version)))"

definition get_fragment_name_version :: "string \<Rightarrow> nat" where
  "get_fragment_name_version name =
     (if count_list name (CHR ''_'') = 5 then 3
      else if length (after_last (CHR ''_'') name) = 32 then 2 else 1)"

text \<open>
  \<open>ss >> *version\<close>: an exhausted stream leaves the old value, a malformed number gives 0, one
  that is too large the maximum.
\<close>

definition stream_read_uint32 :: "string \<Rightarrow> nat \<Rightarrow> nat" where
  "stream_read_uint32 s old =
     (let s1 = dropWhile is_space s;
          neg = (s1 \<noteq> [] \<and> hd s1 = CHR ''-'');
          s2 = (if s1 \<noteq> [] \<and> (hd s1 = CHR ''+'' \<or> hd s1 = CHR ''-'') then tl s1 else s1);
          v = digits_val (takeWhile is_digit s2) in
      if s1 = [] then old
      else if v > 2 ^ 32 - 1 then 2 ^ 32 - 1
      else if neg then (2 ^ 32 - v) mod 2 ^ 32 else v)"

definition get_fragment_version :: "string \<Rightarrow> nat \<Rightarrow> nat" where
  "get_fragment_version name old =
     (if get_fragment_name_version name \<le> 2 then 2 ^ 32 - 1
      else stream_read_uint32 (after_last (CHR ''_'') name) old)"

text \<open>The directive \<open>%ld\<close> of \<open>sscanf\<close>: the value, saturated to 64 bits, and the rest of the input.\<close>

definition scan_int64 :: "string \<Rightarrow> (int \<times> string) option" where
  "scan_int64 s =
     (let s1 = dropWhile is_space s;
          neg = (s1 \<noteq> [] \<and> hd s1 = CHR ''-'');
          s2 = (if s1 \<noteq> [] \<and> (hd s1 = CHR ''+'' \<or> hd s1 = CHR ''-'') then tl s1 else s1);
          ds = takeWhile is_digit s2;
          v = (if neg then - int (digits_val ds) else int (digits_val ds)) in
      if ds = [] then None
      else Some (max (- (2 ^ 63)) (min (2 ^ 63 - 1) v), drop (length ds) s2))"

definition to_uint64 :: "int \<Rightarrow> nat" where
  "to_uint64 v = nat (v mod 2 ^ 64)"

definition scan_range :: "string \<Rightarrow> nat \<times> nat" where
  "scan_range name =
     (if \<not> starts_with name ''__'' then (0, 0)
      else case scan_int64 (drop 2 name) of
        None \<Rightarrow> (0, 0)
      | Some (a, r) \<Rightarrow>
          if starts_with r ''_'' then
            (case scan_int64 (drop 1 r) of
               None \<Rightarrow> (to_uint64 a, 0)
             | Some (b, _) \<Rightarrow> (to_uint64 a, to_uint64 b))
          else (to_uint64 a, 0))"

definition cut_suffix :: "string \<Rightarrow> string" where
  "cut_suffix name = (case find_last_of (CHR ''.'') name of None \<Rightarrow> name | Some pos \<Rightarrow> take pos name)"

definition get_timestamp_range :: "env \<Rightarrow> string \<Rightarrow> (nat \<times> nat) result" where
  "get_timestamp_range e u =
     bindR (remove_trailing_slash e u) (\<lambda>v.
       let name = cut_suffix (last_path_part v) in
       if find_last_of (CHR ''_'') name = None then Inl AssertFail
       else if get_fragment_name_version name = 1 then
         (case scan_int64 (after_last (CHR ''_'') name) of
            None \<Rightarrow> Inr (0, 0)
          | Some (t, _) \<Rightarrow> Inr (to_uint64 t, to_uint64 t))
       else Inr (scan_range name))"

definition compute_new_fragment_uri ::
  "env \<Rightarrow> string + byte list \<Rightarrow> string \<Rightarrow> string \<Rightarrow> string result" where
  "compute_new_fragment_uri e rnd u_first u_last =
     bindR (generate_uuid rnd False) (\<lambda>uuid.
     bindR (get_timestamp_range e u_first) (\<lambda>t_first.
     bindR (get_timestamp_range e u_last) (\<lambda>t_last.
     bindR (uri_parent e u_first) (\<lambda>p.
       uri_new e (p @ ''/__'' @ nat_str (fst t_first) @ ''_'' @ nat_str (snd t_last) @ ''_'' @ uuid
                  @ ''_'' @ nat_str format_version)))))"


section \<open>Lemmas on numbers\<close>

lemma of_char_digit: "d < 10 \<Longrightarrow> (of_char (digit_char d) :: nat) = 48 + d"
  by (simp add: digit_char_def)

lemma is_digit_digit_char [simp]: "d < 10 \<Longrightarrow> is_digit (digit_char d)"
  by (simp add: is_digit_def of_char_digit)

lemma digits_val_snoc: "digits_val (s @ [c]) = 10 * digits_val s + (of_char c - 48)"
  by (simp add: digits_val_def)

lemma digits_val_nat_str [simp]: "digits_val (nat_str n) = n"
proof (induction n rule: nat_str.induct)
  case (1 n)
  show ?case
  proof (cases "n < 10")
    case True
    then show ?thesis by (subst nat_str.simps) (simp add: digits_val_def of_char_digit)
  next
    case False
    then show ?thesis using 1 by (subst nat_str.simps) (simp add: digits_val_snoc of_char_digit)
  qed
qed

lemma nat_str_digits: "list_all is_digit (nat_str n)"
proof (induction n rule: nat_str.induct)
  case (1 n)
  then show ?case by (subst nat_str.simps) simp
qed

lemma nat_str_not_Nil [simp]: "nat_str n \<noteq> []"
  by (subst nat_str.simps) simp

lemma nat_str_inj [simp]: "nat_str m = nat_str n \<longleftrightarrow> m = n"
  by (metis digits_val_nat_str)

lemma not_digit [simp]:
  "\<not> is_digit (CHR ''_'')" "\<not> is_digit (CHR ''.'')" "\<not> is_digit (CHR ''/'')" "\<not> is_digit (CHR ''+'')"
  "\<not> is_digit (CHR ''-'')"
  by (simp_all add: is_digit_def)

lemma nat_str_no [simp]: "\<not> is_digit c \<Longrightarrow> c \<notin> set (nat_str n)"
  using nat_str_digits [of n] by (auto simp: list_all_iff)

lemma digit_not_space: "is_digit c \<Longrightarrow> \<not> is_space c"
  by (auto simp: is_digit_def is_space_def Let_def)

lemma hd_nat_str: "is_digit (hd (nat_str n @ r))"
proof -
  have "hd (nat_str n @ r) \<in> set (nat_str n)" by simp
  then show ?thesis using nat_str_digits [of n] by (simp add: list_all_iff)
qed

lemma scan_digits:
  assumes "r = [] \<or> \<not> is_digit (hd r)"
  shows "takeWhile is_digit (nat_str n @ r) = nat_str n"
    and "dropWhile is_space (nat_str n @ r) = nat_str n @ r"
proof -
  have "takeWhile is_digit r = []" using assms by (cases r) auto
  then show "takeWhile is_digit (nat_str n @ r) = nat_str n"
    using nat_str_digits [of n] by (simp add: list_all_iff takeWhile_append2)
  show "dropWhile is_space (nat_str n @ r) = nat_str n @ r"
    using hd_nat_str [of n r] digit_not_space by (cases "nat_str n") auto
qed

lemma hd_nat_str_sign: "hd (nat_str n @ r) \<noteq> CHR ''-''" "hd (nat_str n @ r) \<noteq> CHR ''+''"
  using hd_nat_str [of n r] not_digit by metis+

lemma scan_int64_nat_str:
  assumes "n < 2 ^ 63" and "r = [] \<or> \<not> is_digit (hd r)"
  shows "scan_int64 (nat_str n @ r) = Some (int n, r)"
  using assms(1) scan_digits [OF assms(2), of n] hd_nat_str_sign [of n r]
  by (simp add: scan_int64_def Let_def)

lemma takeWhile_nat_str [simp]: "takeWhile is_digit (nat_str n) = nat_str n"
  using scan_digits(1) [of "[]" n] by simp

lemma stream_read_nat_str: "n < 2 ^ 32 \<Longrightarrow> stream_read_uint32 (nat_str n) old = n"
  using scan_digits(2) [of "[]" n] hd_nat_str_sign [of n "[]"] by (simp add: stream_read_uint32_def Let_def)

lemma to_uint64_nat [simp]: "n < 2 ^ 64 \<Longrightarrow> to_uint64 (int n) = n"
  by (simp add: to_uint64_def flip: zmod_int)

section \<open>Lemmas on strings\<close>

lemma starts_with_append: "starts_with v p \<longleftrightarrow> (\<exists>r. v = p @ r)"
proof
  assume "starts_with v p"
  then have "v = p @ drop (length p) v"
    by (metis append_take_drop_id starts_with_def)
  then show "\<exists>r. v = p @ r" by blast
qed (auto simp: starts_with_def)

lemma find_last_of_None: "find_last_of c s = None \<longleftrightarrow> c \<notin> set s"
  by (induction s) (auto split: option.splits)

lemma find_last_of_last: "c \<notin> set r \<Longrightarrow> find_last_of c (p @ c # r) = Some (length p)"
  by (induction p) (auto simp: find_last_of_None [THEN iffD2])

lemma after_last_append [simp]: "c \<notin> set r \<Longrightarrow> after_last c (p @ c # r) = r"
  by (simp add: after_last_def find_last_of_last)

lemma cut_suffix_none [simp]: "CHR ''.'' \<notin> set s \<Longrightarrow> cut_suffix s = s"
  by (simp add: cut_suffix_def find_last_of_None [THEN iffD2])

lemma cut_suffix_dot [simp]: "CHR ''.'' \<notin> set r \<Longrightarrow> cut_suffix (s @ CHR ''.'' # r) = s"
  by (simp add: cut_suffix_def find_last_of_last)


section \<open>Lemmas on URIs\<close>

text \<open>The URIs that the constructor leaves as they are.\<close>

definition uri_valid :: "string \<Rightarrow> bool" where
  "uri_valid u \<longleftrightarrow>
     uri_is_file u \<or> is_hdfs u \<or> is_s3 u \<or> is_azure u \<or> is_gcs u \<or> is_tiledb u"

lemmas scheme_defs = uri_is_file_def is_hdfs_def is_s3_def is_azure_def is_gcs_def is_tiledb_def

lemma uri_valid_append: "uri_valid u \<Longrightarrow> uri_valid (u @ r)"
  by (auto simp: uri_valid_def scheme_defs starts_with_append)

lemma uri_valid_not_Nil [simp]: "uri_valid u \<Longrightarrow> u \<noteq> []"
  by (auto simp: uri_valid_def scheme_defs starts_with_append)

lemma ends_with_slash: "ends_with u ''/'' \<longleftrightarrow> u \<noteq> [] \<and> last u = CHR ''/''"
  by (cases u rule: rev_cases) (auto simp: ends_with_def)

lemma posix_abs_path_file:
  assumes "uri_is_file u"
  shows "posix_abs_path e u = Inr u"
proof -
  from assms obtain r where "u = ''file:///'' @ r" by (auto simp: uri_is_file_def starts_with_append)
  then have "abs_path_internal e u = Inr u" by (simp add: abs_path_internal_def starts_with_def)
  then show ?thesis by (simp add: posix_abs_path_def)
qed

lemma remote_not_file:
  assumes "is_hdfs u \<or> is_s3 u \<or> is_azure u \<or> is_gcs u \<or> is_tiledb u"
  shows "\<not> path_is_file u"
  using assms by (auto simp: scheme_defs starts_with_append path_is_file_def starts_with_def)

lemma uri_new_valid [simp]: "uri_valid u \<Longrightarrow> uri_new e u = Inr u"
proof -
  assume u: "uri_valid u"
  show ?thesis
  proof (cases "uri_is_file u")
    case True
    then have "path_is_file u" by (simp add: uri_is_file_def path_is_file_def)
    then show ?thesis using u posix_abs_path_file [OF True]
      by (simp add: uri_new_def vfs_abs_path_def)
  next
    case False
    then have "is_hdfs u \<or> is_s3 u \<or> is_azure u \<or> is_gcs u \<or> is_tiledb u"
      using u by (simp add: uri_valid_def)
    then show ?thesis using remote_not_file u by (simp add: uri_new_def)
  qed
qed

lemma last_path_part_append [simp]:
  "CHR ''/'' \<notin> set name \<Longrightarrow> last_path_part (u @ CHR ''/'' # name) = name"
  by (simp add: last_path_part_def)

lemma uri_parent_slash:
  assumes "name \<noteq> []" and "CHR ''/'' \<notin> set name"
  shows "uri_parent e (w @ CHR ''/'' # name) = uri_new e w"
proof -
  have "last (w @ CHR ''/'' # name) \<noteq> CHR ''/''" using assms by (auto dest: last_in_set)
  then show ?thesis using assms by (simp add: uri_parent_def find_last_of_last)
qed

lemma uri_parent_append:
  assumes "uri_valid u" and "name \<noteq> []" and "CHR ''/'' \<notin> set name"
  shows "uri_parent e (u @ CHR ''/'' # name) = Inr u"
  using assms by (simp add: uri_parent_slash)

lemma join_path_slash:
  "uri_valid u \<Longrightarrow> last u \<noteq> CHR ''/'' \<Longrightarrow> join_path e u (CHR ''/'' # name) = Inr (u @ CHR ''/'' # name)"
  by (simp add: join_path_def uri_valid_append)

lemma join_path_name:
  "uri_valid u \<Longrightarrow> last u \<noteq> CHR ''/'' \<Longrightarrow> name \<noteq> [] \<Longrightarrow> CHR ''/'' \<notin> set name \<Longrightarrow>
   join_path e u name = Inr (u @ CHR ''/'' # name)"
  by (cases name) (auto simp: join_path_def uri_valid_append)

lemma remove_trailing_slash_name:
  assumes "uri_valid u" and "name \<noteq> []" and "CHR ''/'' \<notin> set name"
  shows "remove_trailing_slash e (u @ CHR ''/'' # name) = Inr (u @ CHR ''/'' # name)"
proof -
  have "last (u @ CHR ''/'' # name) \<noteq> CHR ''/''" using assms(2,3) by (auto dest: last_in_set)
  then show ?thesis using assms(1) by (simp add: remove_trailing_slash_def uri_valid_append)
qed

section \<open>Lemmas on fragment names\<close>

definition hex_char :: "char \<Rightarrow> bool" where
  "hex_char c \<longleftrightarrow> c \<in> set ''0123456789abcdef''"

lemma hex_digit_hex: "d < 16 \<Longrightarrow> hex_char (hex_digit d)"
proof -
  have "list_all (\<lambda>d. hex_char (hex_digit d)) [0..<16]" by code_simp
  moreover assume "d < 16"
  ultimately show ?thesis by (simp add: list_all_iff)
qed

lemma hex_str_chars: "\<forall>c \<in> set (hex_str k n). hex_char c"
  by (auto simp: hex_str_def hex_digit_hex)

lemma length_hex_str [simp]: "length (hex_str k n) = k"
  by (simp add: hex_str_def)

lemma hex_char_not [simp]:
  "\<not> hex_char (CHR ''_'')" "\<not> hex_char (CHR ''.'')" "\<not> hex_char (CHR ''/'')" "\<not> hex_char (CHR ''-'')"
  by (simp_all add: hex_char_def)

lemma filter_hex_str [simp]: "filter (\<lambda>c. c \<noteq> CHR ''-'') (hex_str k n) = hex_str k n"
  by (rule filter_True) (use hex_str_chars hex_char_not in metis)

lemma generate_uuid_hex:
  "\<exists>u. generate_uuid (Inr rnd) False = Inr u \<and> length u = 32 \<and> (\<forall>c \<in> set u. hex_char c)"
  using hex_str_chars by (auto simp: generate_uuid_def uuid_str_def Let_def)

definition frag_name :: "nat \<Rightarrow> nat \<Rightarrow> string \<Rightarrow> nat \<Rightarrow> string" where
  "frag_name a b uuid v =
     ''__'' @ nat_str a @ ''_'' @ nat_str b @ ''_'' @ uuid @ ''_'' @ nat_str v"

definition plain :: "string \<Rightarrow> bool" where
  "plain s \<longleftrightarrow> CHR ''_'' \<notin> set s \<and> CHR ''.'' \<notin> set s \<and> CHR ''/'' \<notin> set s"

lemma plain_hex: "\<forall>c \<in> set u. hex_char c \<Longrightarrow> plain u"
  using hex_char_not by (auto simp: plain_def)

lemma frag_name_chars:
  assumes "plain uuid"
  shows "CHR ''.'' \<notin> set (frag_name a b uuid v)" "CHR ''/'' \<notin> set (frag_name a b uuid v)"
    "frag_name a b uuid v \<noteq> []" "CHR ''_'' \<in> set (frag_name a b uuid v)"
  using assms by (simp_all add: frag_name_def plain_def)

lemma frag_name_version:
  assumes "plain uuid"
  shows "get_fragment_name_version (frag_name a b uuid v) = 3"
proof -
  have "count_list (nat_str n) (CHR ''_'') = 0" for n by (simp add: count_list_0_iff)
  moreover have "count_list uuid (CHR ''_'') = 0" using assms by (simp add: plain_def count_list_0_iff)
  ultimately show ?thesis by (simp add: get_fragment_name_version_def frag_name_def)
qed

lemma frag_name_format:
  assumes "plain uuid" and "v < 2 ^ 32"
  shows "get_fragment_version (frag_name a b uuid v) old = v"
proof -
  have "after_last (CHR ''_'') (frag_name a b uuid v) = nat_str v"
    using after_last_append [of "CHR ''_''" "nat_str v" "''__'' @ nat_str a @ ''_'' @ nat_str b @ ''_'' @ uuid"]
    by (simp add: frag_name_def)
  then show ?thesis using frag_name_version [OF assms(1)] assms(2)
    by (simp add: get_fragment_version_def stream_read_nat_str)
qed

lemma scan_range_frag_name:
  assumes "a < 2 ^ 63" and "b < 2 ^ 63"
  shows "scan_range (frag_name a b uuid v) = (a, b)"
proof -
  have "scan_int64 (nat_str a @ ''_'' @ nat_str b @ ''_'' @ uuid @ ''_'' @ nat_str v)
      = Some (int a, ''_'' @ nat_str b @ ''_'' @ uuid @ ''_'' @ nat_str v)"
    by (rule scan_int64_nat_str) (use assms in simp_all)
  moreover have "scan_int64 (nat_str b @ ''_'' @ uuid @ ''_'' @ nat_str v)
      = Some (int b, ''_'' @ uuid @ ''_'' @ nat_str v)"
    by (rule scan_int64_nat_str) (use assms in simp_all)
  ultimately show ?thesis using assms
    by (simp add: scan_range_def frag_name_def starts_with_def)
qed

text \<open>
  The range of a fragment, or of a file that is named after a fragment (\<open>.ok\<close>, \<open>.vac\<close>,
  \<open>.meta\<close>).
\<close>

lemma timestamp_range_frag:
  assumes "uri_valid u" and "plain uuid" and "a < 2 ^ 63" and "b < 2 ^ 63"
    and "suffix = [] \<or> (\<exists>s. suffix = CHR ''.'' # s \<and> CHR ''.'' \<notin> set s \<and> CHR ''/'' \<notin> set s)"
  shows "get_timestamp_range e (u @ CHR ''/'' # frag_name a b uuid v @ suffix) = Inr (a, b)"
proof -
  note f = frag_name_chars [OF assms(2), of a b v] frag_name_version [OF assms(2), of a b v]
  have no: "CHR ''/'' \<notin> set (frag_name a b uuid v @ suffix)" using f(2) assms(5) by auto
  have rm: "remove_trailing_slash e (u @ CHR ''/'' # (frag_name a b uuid v @ suffix))
      = Inr (u @ CHR ''/'' # (frag_name a b uuid v @ suffix))"
    by (rule remove_trailing_slash_name [OF assms(1) _ no]) (use f(3) in simp)
  have "cut_suffix (frag_name a b uuid v @ suffix) = frag_name a b uuid v"
    using assms(5) f(1) by auto
  moreover have "find_last_of (CHR ''_'') (frag_name a b uuid v) \<noteq> None"
    using f(4) by (simp add: find_last_of_None)
  ultimately show ?thesis
    using rm no f(5) scan_range_frag_name [OF assms(3,4)]
    by (simp add: get_timestamp_range_def last_path_part_def Let_def)
qed


section \<open>Properties\<close>



text \<open>
  C21: the fragment that consolidation writes takes the start of the first fragment's range and
  the end of the last fragment's range, in the directory of the first one.
\<close>

theorem consolidated_fragment_range:
  assumes "uri_valid arr" and "plain ua" and "plain ub"
    and "a < 2 ^ 63" and "b < 2 ^ 63" and "c < 2 ^ 63" and "d < 2 ^ 63"
  shows "\<exists>u. compute_new_fragment_uri e (Inr rnd) (arr @ ''/'' @ frag_name a b ua va)
               (arr @ ''/'' @ frag_name c d ub vb) = Inr u
           \<and> uri_parent e u = Inr arr \<and> get_timestamp_range e u = Inr (a, d)
           \<and> get_fragment_version (last_path_part u) old = format_version"
proof -
  obtain uuid where uuid: "generate_uuid (Inr rnd) False = Inr uuid" "\<forall>c \<in> set uuid. hex_char c"
    using generate_uuid_hex by blast
  then have plain: "plain uuid" by (blast intro: plain_hex)
  let ?name = "frag_name a d uuid format_version"
  note f = frag_name_chars [OF plain, of a d format_version]
  have "get_timestamp_range e (arr @ CHR ''/'' # frag_name a b ua va) = Inr (a, b)"
    "get_timestamp_range e (arr @ CHR ''/'' # frag_name c d ub vb) = Inr (c, d)"
    "get_timestamp_range e (arr @ CHR ''/'' # ?name) = Inr (a, d)"
    using timestamp_range_frag [OF assms(1,2,4,5), of "[]"]
      timestamp_range_frag [OF assms(1,3,6,7), of "[]"]
      timestamp_range_frag [OF assms(1) plain assms(4,7), of "[]"] by simp_all
  moreover have "uri_parent e (arr @ CHR ''/'' # frag_name a b ua va) = Inr arr"
    by (rule uri_parent_append [OF assms(1)]) (simp_all add: frag_name_chars [OF assms(2)])
  moreover have "uri_parent e (arr @ CHR ''/'' # ?name) = Inr arr"
    by (rule uri_parent_append [OF assms(1) f(3,2)])
  moreover have "uri_new e (arr @ CHR ''/'' # ?name) = Inr (arr @ CHR ''/'' # ?name)"
    by (simp add: uri_valid_append [OF assms(1)])
  moreover have "get_fragment_version ?name old = format_version"
    by (rule frag_name_format [OF plain]) (simp add: format_version_def)
  ultimately show ?thesis
    using uuid(1) f(2) by (simp add: compute_new_fragment_uri_def frag_name_def)
qed

theorem consolidated_fragment_range_witness:
  "\<exists>u. compute_new_fragment_uri \<lparr>cwd = ''/'', home_dir = None\<rparr> (Inr (replicate 16 1))
         (''hdfs://h/arr'' @ ''/'' @ frag_name 10 20 ''aa'' 5)
         (''hdfs://h/arr'' @ ''/'' @ frag_name 30 40 ''bb'' 4) = Inr u
     \<and> uri_parent \<lparr>cwd = ''/'', home_dir = None\<rparr> u = Inr ''hdfs://h/arr''
     \<and> get_timestamp_range \<lparr>cwd = ''/'', home_dir = None\<rparr> u = Inr (10, 40)
     \<and> get_fragment_version (last_path_part u) 0 = format_version"
  by (rule consolidated_fragment_range)
    (simp_all add: uri_valid_def scheme_defs starts_with_def plain_def)

text \<open>
  C23: \<open>utils::parse::convert\<close> for \<open>uint64_t\<close> accepts exactly the decimal strings of the 64-bit
  values, with an optional plus sign, and returns their value; in particular it reads back every
  printed number and refuses the printed numbers that do not fit.
\<close>

theorem convert_uint64_exact:
  "(convert_uint64 s = Inr v \<longleftrightarrow>
     (\<exists>ds. ds \<noteq> [] \<and> list_all is_digit ds \<and> (s = ds \<or> s = CHR ''+'' # ds)
           \<and> v = int (digits_val ds) \<and> digits_val ds < 2 ^ 64))
   \<and> convert_uint64 (nat_str n) =
       (if n < 2 ^ 64 then Inr (int n)
        else Inl (convert_error (nat_str n) ''uint64_t'' ''Value out of range''))"
proof -
  have digits: "is_uint ds \<and> signed_val ds = Some (int (digits_val ds))"
    if "ds \<noteq> []" "list_all is_digit ds" for ds
    using that by (cases ds) (auto simp: is_uint_def signed_val_def)
  have plus: "is_uint (CHR ''+'' # ds) \<and> signed_val (CHR ''+'' # ds) = Some (int (digits_val ds))"
    if "ds \<noteq> []" "list_all is_digit ds" for ds
    using that by (auto simp: is_uint_def signed_val_def)
  have inv: "\<exists>ds. ds \<noteq> [] \<and> list_all is_digit ds \<and> (s = ds \<or> s = CHR ''+'' # ds)
                  \<and> w = int (digits_val ds)"
    if u: "is_uint s" "signed_val s = Some w" for w
  proof (cases s)
    case (Cons c cs)
    then have cs: "c = CHR ''+'' \<or> is_digit c" "list_all is_digit cs"
      using u(1) by (simp_all add: is_uint_def)
    show ?thesis
    proof (cases "c = CHR ''+''")
      case True
      then have "cs \<noteq> []" "w = int (digits_val cs)"
        using u(2) Cons by (simp_all add: signed_val_def split: if_splits)
      then show ?thesis using cs(2) Cons True by blast
    next
      case False
      then have d: "is_digit c" using cs(1) by simp
      then have "c \<noteq> CHR ''-''" by auto
      then have "w = int (digits_val s)" using u(2) Cons False by (simp add: signed_val_def)
      then show ?thesis using cs(2) Cons d by auto
    qed
  qed (use u in \<open>simp add: is_uint_def\<close>)
  have "convert_uint64 s = Inr v \<longleftrightarrow> is_uint s \<and> signed_val s = Some v \<and> 0 \<le> v \<and> v < 2 ^ 64"
    by (auto simp: convert_uint64_def convert_num_def split: option.splits if_splits)
  moreover have "convert_uint64 (nat_str n) =
       (if n < 2 ^ 64 then Inr (int n)
        else Inl (convert_error (nat_str n) ''uint64_t'' ''Value out of range''))"
    using digits [OF nat_str_not_Nil nat_str_digits, of n]
    by (simp add: convert_uint64_def convert_num_def)
  ultimately show ?thesis using inv digits plus by fastforce
qed

text \<open>
  C24: Joining a name to a URI and taking it apart again. For every URI that the constructor
  accepts unchanged, with or without a slash at its end, and every name without a slash, joining gives the same URI whether or not the name
  is given with a leading slash, the last path part of the joined URI is the name,
  the parent is the URI without its trailing slash, and constructing a URI from the result changes nothing.
\<close>

theorem join_path_parent:
  assumes "uri_valid u" and "name \<noteq> []" and "CHR ''/'' \<notin> set name"
  shows "\<exists>v. join_path e u name = Inr v \<and> join_path e u (''/'' @ name) = Inr v
           \<and> v = (if last u = CHR ''/'' then u else u @ ''/'') @ name
           \<and> last_path_part v = name \<and> uri_parent e v = remove_trailing_slash e u
           \<and> (last u \<noteq> CHR ''/'' \<longrightarrow> uri_parent e v = Inr u)
           \<and> uri_new e v = Inr v \<and> remove_trailing_slash e (v @ ''/'') = Inr v"
proof (cases "last u = CHR ''/''")
  case True
  with assms(1) obtain w where w: "u = w @ ''/''" by (metis append_butlast_last_id uri_valid_not_Nil)
  have "join_path e u name = Inr (u @ name)" using assms True by (cases name) (auto simp: join_path_def uri_valid_append)
  moreover have "join_path e u (''/'' @ name) = Inr (u @ name)"
    using assms True by (simp add: join_path_def uri_valid_append)
  moreover have "uri_parent e (u @ name) = remove_trailing_slash e u"
    using uri_parent_slash [OF assms(2,3)] w by (simp add: remove_trailing_slash_def)
  ultimately show ?thesis using True assms w uri_valid_append [OF assms(1), of name]
    by (simp add: remove_trailing_slash_def last_path_part_def)
next
  case False
  with assms join_path_name [OF assms(1) False assms(2,3)] join_path_slash [OF assms(1) False, of e name]
    uri_parent_append [OF assms] uri_valid_append [OF assms(1)]
  show ?thesis by (simp add: remove_trailing_slash_def)
qed

theorem join_path_parent_witness:
  "\<exists>v. join_path \<lparr>cwd = ''/'', home_dir = None\<rparr> ''file:///tmp/a/'' ''b'' = Inr v
     \<and> join_path \<lparr>cwd = ''/'', home_dir = None\<rparr> ''file:///tmp/a/'' (''/'' @ ''b'') = Inr v
     \<and> v = (if last ''file:///tmp/a/'' = CHR ''/'' then ''file:///tmp/a/'' else ''file:///tmp/a/'' @ ''/'') @ ''b''
     \<and> last_path_part v = ''b''
     \<and> uri_parent \<lparr>cwd = ''/'', home_dir = None\<rparr> v
         = remove_trailing_slash \<lparr>cwd = ''/'', home_dir = None\<rparr> ''file:///tmp/a/''
     \<and> (last ''file:///tmp/a/'' \<noteq> CHR ''/'' \<longrightarrow>
          uri_parent \<lparr>cwd = ''/'', home_dir = None\<rparr> v = Inr ''file:///tmp/a/'')
     \<and> uri_new \<lparr>cwd = ''/'', home_dir = None\<rparr> v = Inr v
     \<and> remove_trailing_slash \<lparr>cwd = ''/'', home_dir = None\<rparr> (v @ ''/'') = Inr v"
  by (rule join_path_parent) (simp_all add: uri_valid_def scheme_defs starts_with_def)

text \<open>
  A path that climbs back to the root directory loses the root. \<open>/name/..\<close> resolves to
  \<open>file:/\<close>, which no component accepts as a URI, and not to the URI \<open>file:///\<close> of the root.
\<close>

lemma abs_path_loses_root:
  assumes "name \<noteq> []" and "list_all (\<lambda>c. c \<noteq> CHR ''/'' \<and> c \<noteq> CHR 0x00) name"
    and "name \<noteq> ''.''" and "name \<noteq> ''..''" and "find_str ''://'' (''/'' @ name @ ''/..'') = None"
  shows "uri_new e (''/'' @ name @ ''/..'') = Inr ''file:/'' \<and> \<not> uri_valid ''file:/''
       \<and> uri_new e ''/'' = Inr ''file:///''"
proof -
  have dedup: "both_slashes_dedup (CHR ''/'' # n @ ''/..'') = CHR ''/'' # n @ ''/..''"
    if "n \<noteq> []" "CHR ''/'' \<notin> set n" for n
  proof -
    have "both_slashes_dedup (n @ ''/..'') = n @ ''/..''" if "CHR ''/'' \<notin> set n" for n
      using that
    proof (induction n)
      case (Cons a n)
      then show ?case by (cases n) auto
    qed simp
    from this [of n] that show ?thesis by (cases n) auto
  qed
  have split: "split_slash (n @ ''/..'') = [n, ''..'']" if "CHR ''/'' \<notin> set n" for n
    using that by (induction n) auto
  have n: "CHR ''/'' \<notin> set name" "takeWhile (\<lambda>c. c \<noteq> CHR 0x00) name = name"
    using assms(2) by (auto simp: list_all_iff)
  have toks: "path_tokens (name @ ''/..'') = [name, ''..'']"
    by (simp only: path_tokens_def split [OF n(1)] list.map n(2)) (simp add: assms(1))
  let ?p = "''/'' @ name @ ''/..''"
  have "adjacent_slashes_dedup (''file://'' @ ?p) = Inr (''file://'' @ ?p)"
    using dedup [OF assms(1) n(1)] by (simp add: adjacent_slashes_dedup_def starts_with_def)
  moreover have "purge_dots_from_path (''file://'' @ ?p) = Inr ''file://''"
    using toks assms(1,3,4) by (simp add: purge_dots_from_path_def starts_with_def join_tokens_def)
  ultimately have "abs_path_internal e ?p = Inr ''file://''"
    using assms(1) by (simp add: abs_path_internal_def starts_with_def)
  moreover have "\<not> ends_with ?p ''/''" by (simp add: ends_with_slash)
  ultimately have "posix_abs_path e ?p = Inr ''file:/''"
    by (simp add: posix_abs_path_def ends_with_slash)
  moreover have "path_is_file ?p" using assms(5) by (simp add: path_is_file_def)
  ultimately have "uri_new e ?p = Inr ''file:/''" by (simp add: uri_new_def vfs_abs_path_def)
  moreover have "uri_new e ''/'' = Inr ''file:///''"
    by (simp add: uri_new_def path_is_file_def vfs_abs_path_def posix_abs_path_def ends_with_slash
        abs_path_internal_def starts_with_def)
  moreover have "\<not> uri_valid ''file:/''" by (simp add: uri_valid_def scheme_defs starts_with_def)
  ultimately show ?thesis by blast
qed

end
