(* ===== verification/Tdb_Serial.thy ===== *)
theory Tdb_Serial
  imports Tdb_Buffer
begin

text \<open>
  Serialization: the \<open>serialize\<close> functions of the code append to a \<open>Buffer\<close> and the
  \<open>deserialize\<close> functions read from a \<open>ConstBuffer\<close>. \<open>writes al f bs\<close> says that \<open>f\<close> appends exactly the
  bytes \<open>bs\<close>, and \<open>reads g bs x\<close> that \<open>g\<close> takes them from the front and returns \<open>x\<close>. Both are
  closed under sequencing and loops, so that a round trip is proved by following the code.
\<close>

named_theorems serial_intros \<open>what serializers write and deserializers read\<close>

section \<open>Values\<close>

text \<open>\<open>write(&x, sizeof(x))\<close> and \<open>read(&x, sizeof(x))\<close>.\<close>

definition write_num :: "allocator \<Rightarrow> 'a::len word \<Rightarrow> buffer \<Rightarrow> buffer result" where
  "write_num al w b = buffer_write al (le_bytes (sizeof TYPE('a)) w) b"

definition read_num :: "const_buffer \<Rightarrow> ('a::len word \<times> const_buffer) result" where
  "read_num cb = bindR (cb_read (sizeof TYPE('a)) cb) (\<lambda>(bs, cb'). Inr (of_le bs, cb'))"

definition read_num_buffer :: "buffer \<Rightarrow> ('a::len word \<times> buffer) result" where
  "read_num_buffer b = bindR (buffer_read (sizeof TYPE('a)) b) (\<lambda>(bs, b'). Inr (of_le bs, b'))"

abbreviation bytes_of :: "'a::len word \<Rightarrow> byte list" where
  "bytes_of w \<equiv> le_bytes (sizeof TYPE('a)) w"

text \<open>The characters of a string as bytes.\<close>

definition bytes_of_string :: "string \<Rightarrow> byte list" where
  "bytes_of_string s = map (\<lambda>c. of_nat (of_char c)) s"

definition string_of_bytes :: "byte list \<Rightarrow> string" where
  "string_of_bytes bs = map (\<lambda>b. char_of (unat b)) bs"

lemma length_bytes_of_string [simp]: "length (bytes_of_string s) = length s"
  by (simp add: bytes_of_string_def)

lemma string_of_bytes_of_string [simp]: "string_of_bytes (bytes_of_string s) = s"
proof -
  have "char_of (unat (of_nat (of_char c) :: byte)) = c" for c :: char
    by (simp add: unat_of_nat char_of_take_bit_eq)
  then show ?thesis by (simp add: bytes_of_string_def string_of_bytes_def comp_def)
qed

lemma num_sizes [simp]: "sizeof TYPE(8) = 1" "sizeof TYPE(16) = 2" "sizeof TYPE(32) = 4" "sizeof TYPE(64) = 8"
  by (simp_all add: sizeof_def)

section \<open>Writers\<close>

definition writes :: "allocator \<Rightarrow> (buffer \<Rightarrow> buffer result) \<Rightarrow> byte list \<Rightarrow> bool" where
  "writes al f bs \<longleftrightarrow> (\<forall>b n. buffer_sink b \<longrightarrow> buffer_room al b (length bs + n) \<longrightarrow>
     (\<exists>b'. f b = Inr b' \<and> buffer_sink b' \<and> buffer_bytes b' = buffer_bytes b @ bs \<and> buffer_room al b' n))"

lemma writesD:
  assumes "writes al f bs" and "buffer_sink b" and "buffer_room al b (length bs + n)"
  shows "\<exists>b'. f b = Inr b' \<and> buffer_sink b' \<and> buffer_bytes b' = buffer_bytes b @ bs \<and> buffer_room al b' n"
  using assms by (simp add: writes_def)

lemma writes_buffer [serial_intros]: "writes al (buffer_write al bs) bs"
  using bsink.put_ok by (auto simp: writes_def)

lemma writes_num [serial_intros]: "writes al (write_num al w) (bytes_of w)"
  using writes_buffer [of al "bytes_of w"] by (simp add: writes_def write_num_def)

lemma writes_nothing [serial_intros]: "writes al Inr []"
  by (simp add: writes_def)

lemma writes_bind [serial_intros]:
  assumes "writes al f bs" and "writes al g cs"
  shows "writes al (\<lambda>b. bindR (f b) g) (bs @ cs)"
  unfolding writes_def
proof (intro allI impI)
  fix b n
  assume b: "buffer_sink b" "buffer_room al b (length (bs @ cs) + n)"
  then have "buffer_room al b (length bs + (length cs + n))" by (simp add: add.assoc)
  from writesD [OF assms(1) b(1) this] obtain b1 where
    b1: "f b = Inr b1" "buffer_sink b1" "buffer_bytes b1 = buffer_bytes b @ bs" "buffer_room al b1 (length cs + n)" by blast
  from writesD [OF assms(2) b1(2,4)] b1(1,3)
  show "\<exists>b'. bindR (f b) g = Inr b' \<and> buffer_sink b' \<and> buffer_bytes b' = buffer_bytes b @ (bs @ cs) \<and> buffer_room al b' n"
    by auto
qed

lemma writes_loop [serial_intros]:
  assumes "\<And>x. x \<in> set xs \<Longrightarrow> writes al (f x) (enc x)"
  shows "writes al (\<lambda>b. foldR (\<lambda>b x. f x b) b xs) (concat (map enc xs))"
  using assms
proof (induction xs)
  case Nil
  then show ?case using writes_nothing by simp
next
  case (Cons x xs)
  then have "writes al (\<lambda>b. bindR (f x b) (\<lambda>b. foldR (\<lambda>b x. f x b) b xs)) (enc x @ concat (map enc xs))"
    by (intro writes_bind) simp_all
  then show ?case by simp
qed

lemma writes_cong: "writes al f bs \<Longrightarrow> (\<And>b. g b = f b) \<Longrightarrow> bs = cs \<Longrightarrow> writes al g cs"
  by (simp add: writes_def)

section \<open>Readers\<close>

definition reads :: "(const_buffer \<Rightarrow> ('x \<times> const_buffer) result) \<Rightarrow> byte list \<Rightarrow> 'x \<Rightarrow> bool" where
  "reads g bs x \<longleftrightarrow> (\<forall>cb ys. cb_inv cb \<longrightarrow> cb_rest cb = bs @ ys \<longrightarrow>
     (\<exists>cb'. g cb = Inr (x, cb') \<and> cb_inv cb' \<and> cb_rest cb' = ys \<and> coffset cb' = coffset cb + length bs))"

lemma readsD:
  assumes "reads g bs x" and "cb_inv cb" and "cb_rest cb = bs @ ys"
  shows "\<exists>cb'. g cb = Inr (x, cb') \<and> cb_inv cb' \<and> cb_rest cb' = ys \<and> coffset cb' = coffset cb + length bs"
  using assms by (simp add: reads_def)

lemma cb_rest_bound: "cb_inv cb \<Longrightarrow> length (cb_rest cb) < 2 ^ 63"
  using length_cb_bytes [of cb] by (auto simp: cb_rest_def cb_inv_def)

lemma reads_bytes [serial_intros]: "n = length bs \<Longrightarrow> reads (cb_read n) bs bs"
  unfolding reads_def
proof (intro allI impI)
  fix cb ys
  assume n: "n = length bs" and cb: "cb_inv cb" "cb_rest cb = bs @ ys"
  have "n \<le> 2 ^ 63" using cb_rest_bound [OF cb(1)] cb(2) n by simp
  then show "\<exists>cb'. cb_read n cb = Inr (bs, cb') \<and> cb_inv cb' \<and> cb_rest cb' = ys \<and> coffset cb' = coffset cb + length bs"
    using cb_read_spec [OF cb(1)] csource.get_front [OF cb n] cb(2) n by auto
qed

lemma reads_num:
  assumes "LENGTH('a::len) \<le> 8 * sizeof TYPE('a)"
  shows "reads read_num (bytes_of (w :: 'a word)) w"
proof -
  have "reads (cb_read (sizeof TYPE('a))) (bytes_of w) (bytes_of w)" by (rule reads_bytes) simp
  then show ?thesis using of_le_le_bytes [OF assms, of w] by (fastforce simp: reads_def read_num_def)
qed

lemma reads_nums [serial_intros]:
  "reads read_num (bytes_of w8) (w8 :: 8 word)" "reads read_num (bytes_of w16) (w16 :: 16 word)"
  "reads read_num (bytes_of w32) (w32 :: 32 word)" "reads read_num (bytes_of w64) (w64 :: 64 word)"
  by (rule reads_num, simp add: sizeof_def)+

lemma reads_return [serial_intros]: "reads (\<lambda>cb. Inr (x, cb)) [] x"
  by (simp add: reads_def)

lemma reads_bind [serial_intros]:
  assumes "reads g bs x" and "reads (h x) cs y"
  shows "reads (\<lambda>cb. bindR (g cb) (\<lambda>(x, cb). h x cb)) (bs @ cs) y"
  unfolding reads_def
proof (intro allI impI)
  fix cb ys
  assume cb: "cb_inv cb" "cb_rest cb = (bs @ cs) @ ys"
  then have "cb_rest cb = bs @ (cs @ ys)" by simp
  from readsD [OF assms(1) cb(1) this] obtain cb1 where
    cb1: "g cb = Inr (x, cb1)" "cb_inv cb1" "cb_rest cb1 = cs @ ys" "coffset cb1 = coffset cb + length bs" by blast
  from readsD [OF assms(2) cb1(2,3)] cb1(1,4)
  show "\<exists>cb'. bindR (g cb) (\<lambda>(x, cb). h x cb) = Inr (y, cb') \<and> cb_inv cb' \<and> cb_rest cb' = ys
          \<and> coffset cb' = coffset cb + length (bs @ cs)" by auto
qed

lemma reads_cong: "reads g bs x \<Longrightarrow> (\<And>cb. h cb = g cb) \<Longrightarrow> bs = cs \<Longrightarrow> reads h cs x"
  by (simp add: reads_def)

text \<open>A loop that reads a known number of elements.\<close>

fun read_times :: "nat \<Rightarrow> (const_buffer \<Rightarrow> ('x \<times> const_buffer) result) \<Rightarrow> const_buffer \<Rightarrow> ('x list \<times> const_buffer) result" where
  "read_times 0 g cb = Inr ([], cb)"
| "read_times (Suc n) g cb = bindR (g cb) (\<lambda>(x, cb1). bindR (read_times n g cb1) (\<lambda>(xs, cb2). Inr (x # xs, cb2)))"

lemma reads_times [serial_intros]:
  assumes "\<And>x. x \<in> set xs \<Longrightarrow> reads g (enc x) x" and "n = length xs"
  shows "reads (read_times n g) (concat (map enc xs)) xs"
  using assms
proof (induction xs arbitrary: n)
  case Nil
  then show ?case by (simp add: reads_def)
next
  case (Cons x xs)
  have "reads (read_times (length xs) g) (concat (map enc xs)) xs" using Cons by simp
  moreover have "reads (\<lambda>cb. Inr (x # xs, cb)) [] (x # xs)" by (rule reads_return)
  ultimately have "reads (\<lambda>cb. bindR (read_times (length xs) g cb) (\<lambda>(xs, cb). Inr (x # xs, cb))) (concat (map enc xs) @ []) (x # xs)"
    by (rule reads_bind)
  with Cons.prems(1) [of x] have
    "reads (\<lambda>cb. bindR (g cb) (\<lambda>(y, cb). bindR (read_times (length xs) g cb) (\<lambda>(xs, cb). Inr (y # xs, cb))))
       (enc x @ (concat (map enc xs) @ [])) (x # xs)" by (intro reads_bind) simp_all
  then show ?case by (rule reads_cong) (use Cons.prems(2) in simp_all)
qed

section \<open>Round trips\<close>

text \<open>A fresh buffer written to and read back.\<close>

lemma write_read:
  assumes "writes al f bs" and "reads g bs x" and "alloc_total al" and "length bs < 2 ^ 63"
  shows "\<exists>b cb. f buffer_new = Inr b \<and> buffer_bytes b = bs \<and> g (cb_of_buffer b) = Inr (x, cb) \<and> cb_rest cb = []"
proof -
  have "buffer_sink buffer_new" "buffer_room al buffer_new (length bs + 0)"
    using assms(3,4) by (simp_all add: buffer_sink_def buffer_room_def buffer_new_def buffer_wrap_def buffer_inv_def)
  from writesD [OF assms(1) this] obtain b where
    b: "f buffer_new = Inr b" "buffer_sink b" "buffer_bytes b = bs" by (auto simp: buffer_new_def buffer_wrap_def buffer_bytes_def)
  have "bsize b = length bs" using b(2,3) length_buffer_bytes [of b] by (simp add: buffer_sink_def)
  then have "cb_inv (cb_of_buffer b)" "cb_rest (cb_of_buffer b) = bs @ []"
    using b(2,3) assms(4)
    by (simp_all add: cb_of_buffer_def cb_new_def cb_inv_def cb_rest_def cb_bytes_def buffer_sink_def buffer_inv_def buffer_bytes_def)
  from readsD [OF assms(2) this] b(1,3) show ?thesis by blast
qed

end
