(* ===== verification/Tdb_Cells.thy ===== *)
theory Tdb_Cells
  imports Tdb_Buffer
begin

text \<open>
  Regions of memory read as arrays of fixed-size cells: a \<open>T*\<close> of the code is a byte list of
  which cell \<open>i\<close> starts at byte \<open>i * sizeof(T)\<close>.
\<close>

section \<open>Splitting into chunks\<close>

definition chunks :: "nat \<Rightarrow> 'a list \<Rightarrow> 'a list list" where
  "chunks k xs = map (\<lambda>i. slice xs (i * k) k) [0..<length xs div k]"

lemma length_chunks [simp]: "length (chunks k xs) = length xs div k"
  by (simp add: chunks_def)

lemma nth_chunks: "i < length xs div k \<Longrightarrow> chunks k xs ! i = slice xs (i * k) k"
  by (simp add: chunks_def)

lemma chunk_bound: "i < n div k \<Longrightarrow> i * k + k \<le> (n :: nat)"
proof -
  assume "i < n div k"
  then have "Suc i \<le> n div k" by simp
  then have "Suc i * k \<le> n div k * k" by (rule mult_le_mono1)
  also have "\<dots> \<le> n" by (simp add: div_times_less_eq_dividend)
  finally show ?thesis by (simp add: add.commute)
qed

lemma chunks_lengths: "c \<in> set (chunks k xs) \<Longrightarrow> length c = k"
  using chunk_bound [of _ "length xs" k] by (auto simp: chunks_def length_slice)

lemma chunks_Nil [simp]: "chunks k [] = []"
  by (simp add: chunks_def)

lemma chunks_append:
  assumes "length x = k" and "0 < k"
  shows "chunks k (x @ xs) = x # chunks k xs"
proof -
  have "length (x @ xs) div k = Suc (length xs div k)" using assms by (simp add: div_add_self1)
  then have "chunks k (x @ xs) = slice (x @ xs) 0 k # map (\<lambda>i. slice (x @ xs) (Suc i * k) k) [0..<length xs div k]"
    by (simp add: chunks_def upt_conv_Cons del: upt_Suc flip: map_Suc_upt)
  moreover have "slice (x @ xs) (Suc i * k) k = slice xs (i * k) k" for i
    using assms(1) by (simp add: slice_def)
  ultimately show ?thesis using assms(1) by (simp add: chunks_def slice_def)
qed

lemma chunks_concat:
  "\<forall>x \<in> set xss. length x = k \<Longrightarrow> 0 < k \<Longrightarrow> chunks k (concat xss) = xss"
  by (induction xss) (simp_all add: chunks_append)

lemma concat_chunks:
  assumes "k dvd length xs" and "0 < k"
  shows "concat (chunks k xs) = xs"
proof -
  from assms obtain n where "length xs = n * k" by (metis dvd_def mult.commute)
  then show ?thesis
  proof (induction n arbitrary: xs)
    case (Suc n)
    have "xs = take k xs @ drop k xs" by simp
    moreover have "length (take k xs) = k" "length (drop k xs) = n * k" using Suc.prems by simp_all
    ultimately show ?case using Suc.IH [of "drop k xs"] chunks_append [of "take k xs" k "drop k xs"] assms(2)
      by (metis concat.simps(2))
  qed simp
qed

section \<open>Typed cells\<close>

text \<open>The number that a word of a signed or unsigned type stands for, and the order of the type.\<close>

definition value_of :: "bool \<Rightarrow> 'a::len word \<Rightarrow> int" where
  "value_of sig w = (if sig then sint w else uint w)"

definition less_t :: "bool \<Rightarrow> 'a::len word \<Rightarrow> 'a word \<Rightarrow> bool" where
  "less_t sig a b \<longleftrightarrow> value_of sig a < value_of sig b"

lemma value_of_inj [simp]: "value_of sig a = value_of sig b \<longleftrightarrow> a = b"
  by (auto simp: value_of_def dest: signed_word_eqI [where ?'a = int] unsigned_word_eqI [where ?'a = int])

definition enc_cells :: "'a::len word list \<Rightarrow> byte list" where
  "enc_cells ws = concat (map (le_bytes (sizeof TYPE('a))) ws)"

definition dec_cells :: "byte list \<Rightarrow> 'a::len word list" where
  "dec_cells bs = map of_le (chunks (sizeof TYPE('a)) bs)"

text \<open>The types of the code have a whole, positive number of bytes.\<close>

definition byte_sized :: "'a::len itself \<Rightarrow> bool" where
  "byte_sized _ \<longleftrightarrow> 8 dvd LENGTH('a)"

lemma sizeof_pos: "byte_sized TYPE('a::len) \<Longrightarrow> 0 < sizeof TYPE('a)"
proof -
  assume "byte_sized TYPE('a)"
  then obtain k where "LENGTH('a) = 8 * k" by (auto simp: byte_sized_def)
  moreover have "0 < LENGTH('a)" by simp
  ultimately show ?thesis by (simp add: sizeof_def)
qed

lemma sizeof_bits: "byte_sized TYPE('a::len) \<Longrightarrow> 8 * sizeof TYPE('a) = LENGTH('a)"
  by (simp add: byte_sized_def sizeof_def)

lemma of_le_cell [simp]:
  "byte_sized TYPE('a::len) \<Longrightarrow> of_le (le_bytes (sizeof TYPE('a)) (w :: 'a word)) = w"
  by (simp add: of_le_le_bytes sizeof_bits)

lemma length_enc_cells: "length (enc_cells (ws :: 'a::len word list)) = length ws * sizeof TYPE('a)"
  by (induction ws) (simp_all add: enc_cells_def)

lemma enc_cells_simps [simp]:
  "enc_cells [] = []"
  "enc_cells ((w :: 'a::len word) # ws) = le_bytes (sizeof TYPE('a)) w @ enc_cells ws"
  "enc_cells (us @ ws) = enc_cells us @ enc_cells (ws :: 'a word list)"
  by (simp_all add: enc_cells_def)

lemma dec_enc_cells:
  assumes "byte_sized TYPE('a::len)"
  shows "dec_cells (enc_cells ws) = (ws :: 'a word list)"
proof -
  have "chunks (sizeof TYPE('a)) (enc_cells ws) = map (le_bytes (sizeof TYPE('a))) ws"
    unfolding enc_cells_def by (rule chunks_concat) (use sizeof_pos [OF assms] in auto)
  then show ?thesis using assms by (simp add: dec_cells_def comp_def)
qed

lemma enc_dec_cells:
  assumes "byte_sized TYPE('a::len)" and "sizeof TYPE('a) dvd length bs"
  shows "enc_cells (dec_cells bs :: 'a word list) = bs"
proof -
  have "map (le_bytes (sizeof TYPE('a)) \<circ> (of_le :: byte list \<Rightarrow> 'a word)) (chunks (sizeof TYPE('a)) bs)
      = chunks (sizeof TYPE('a)) bs"
    by (rule map_idI) (auto simp: le_bytes_of_le chunks_lengths sizeof_bits [OF assms(1)])
  then show ?thesis
    using concat_chunks [OF assms(2)] sizeof_pos [OF assms(1)] by (simp add: enc_cells_def dec_cells_def)
qed

lemma slice_enc_cells:
  assumes "i < length ws"
  shows "slice (enc_cells (ws :: 'a::len word list) @ ys) (i * sizeof TYPE('a)) (sizeof TYPE('a))
       = le_bytes (sizeof TYPE('a)) (ws ! i)"
proof -
  have "ws = take i ws @ ws ! i # drop (Suc i) ws" using assms by (rule id_take_nth_drop)
  then have "enc_cells ws = enc_cells (take i ws) @ le_bytes (sizeof TYPE('a)) (ws ! i)
      @ enc_cells (drop (Suc i) ws)"
    by (metis enc_cells_simps(2,3))
  moreover have "length (enc_cells (take i ws)) = i * sizeof TYPE('a)"
    using assms by (simp add: length_enc_cells)
  ultimately show ?thesis by (simp add: slice_def)
qed

text \<open>Reading cell \<open>i\<close> of an array through a typed pointer.\<close>

definition cell_at :: "byte list option \<Rightarrow> nat \<Rightarrow> nat \<Rightarrow> 'a::len word result" where
  "cell_at d base i =
     bindR (mem_read d (base + i * sizeof TYPE('a)) (sizeof TYPE('a))) (\<lambda>bs. Inr (of_le bs))"

lemma cell_at_enc:
  assumes "byte_sized TYPE('a::len)" and "region d = pre @ enc_cells (ws :: 'a word list) @ ys"
    and "base = length pre" and "i < length ws"
  shows "cell_at d base i = Inr (ws ! i)"
proof -
  have "i * sizeof TYPE('a) + sizeof TYPE('a) \<le> length ws * sizeof TYPE('a)"
    using assms(4) by (metis Suc_leI add.commute mult_Suc mult_le_mono1)
  then have "base + i * sizeof TYPE('a) + sizeof TYPE('a) \<le> cap d"
    using arg_cong [OF assms(2), of length] assms(3) by (simp add: length_enc_cells)
  moreover have "slice (region d) (base + i * sizeof TYPE('a)) (sizeof TYPE('a))
      = slice (enc_cells ws @ ys) (i * sizeof TYPE('a)) (sizeof TYPE('a))"
    using assms(2,3) by (simp add: slice_def)
  ultimately show ?thesis
    using assms(1) slice_enc_cells [OF assms(4)] by (simp add: cell_at_def mem_read_region)
qed

end
