(* ===== verification/Filter_Buffer.thy ===== *)
theory Filter_Buffer
  imports Tdb_Cells
begin

text \<open>
  The data structure that filters read from and write to (\<open>filter/filter_buffer.{h,cc}\<close>) and the
  pool its buffers come from (\<open>filter/filter_storage.cc\<close>). A \<open>FilterBuffer\<close> is a list of buffers
  and of views on parts of other buffers, read and written as one sequence of bytes from a
  current position on.

  A view is modelled by the bytes it shows. This is sound as long as nobody writes to memory that
  a view shows; a write through a view is the error \<open>SharedWrite\<close>, so an execution without that
  error has none. The offset of a single \<open>Buffer\<close> in the list is not kept: every
  operation sets it before it uses it.
\<close>

section \<open>BufferOrView and FilterBuffer\<close>

record buffer_or_view =
  is_view :: bool
  bv_buffer :: buffer

definition bov_new :: "buffer \<Rightarrow> buffer_or_view" where
  "bov_new b = \<lparr>is_view = False, bv_buffer = b\<rparr>"

definition get_view :: "nat \<Rightarrow> nat \<Rightarrow> buffer_or_view \<Rightarrow> buffer_or_view" where
  "get_view off nbytes b =
     \<lparr>is_view = True, bv_buffer = buffer_wrap (buffer_data_at off (bv_buffer b)) nbytes\<rparr>"

text \<open>
  The current buffer is the index of a node, the length of the list for its \<open>end()\<close>, and
  \<open>None\<close> for the end of another list, which an exchange of two lists leaves behind.
\<close>

record filter_buffer =
  fbuffers :: "buffer_or_view list"
  current_buffer :: "nat option"
  current_relative :: nat
  fixed_allocation :: bool
  fixed_allocation_op_allowed :: bool
  foffset :: nat
  read_only :: bool

definition fb_new :: filter_buffer where
  "fb_new = \<lparr>fbuffers = [], current_buffer = Some 0, current_relative = 0,
             fixed_allocation = False, fixed_allocation_op_allowed = False, foffset = 0,
             read_only = False\<rparr>"

definition filter_error :: "string \<Rightarrow> error" where
  "filter_error msg = Err SC_Filter msg"

definition swapped_buffer :: "filter_buffer \<Rightarrow> nat option" where
  "swapped_buffer fb =
     (if current_buffer fb = Some (length (fbuffers fb)) then None else current_buffer fb)"

definition fb_swap :: "filter_buffer \<Rightarrow> filter_buffer \<Rightarrow> (filter_buffer \<times> filter_buffer) result" where
  "fb_swap fb other =
     (if read_only fb \<or> read_only other
      then Inl (filter_error ''FilterBuffer error; cannot swap read-only buffers.'')
      else Inr (other\<lparr>current_buffer := swapped_buffer other\<rparr>, fb\<lparr>current_buffer := swapped_buffer fb\<rparr>))"

definition fb_init :: "byte list option \<Rightarrow> nat \<Rightarrow> filter_buffer \<Rightarrow> filter_buffer result" where
  "fb_init data nbytes fb =
     (if fbuffers fb \<noteq> []
      then Inl (filter_error ''FilterBuffer error; cannot init buffer: not empty.'')
      else if data = None
      then Inl (filter_error ''FilterBuffer error; cannot init buffer: nullptr given.'')
      else if read_only fb
      then Inl (filter_error ''FilterBuffer error; cannot init buffer: read-only.'')
      else Inr (fb\<lparr>foffset := 0, fbuffers := [bov_new (buffer_wrap data nbytes)],
                   current_relative := 0, current_buffer := Some 0\<rparr>))"

definition fb_set_fixed_allocation ::
  "byte list option \<Rightarrow> nat \<Rightarrow> filter_buffer \<Rightarrow> filter_buffer result" where
  "fb_set_fixed_allocation data nbytes fb =
     (if fbuffers fb \<noteq> [] \<or> fixed_allocation fb
      then Inl (filter_error ''FilterBuffer error; cannot set fixed allocation: not empty.'')
      else if read_only fb
      then Inl (filter_error ''FilterBuffer error; cannot set fixed allocation: read-only.'')
      else bindR (fb_init data nbytes fb) (\<lambda>fb1.
           Inr (fb1\<lparr>fixed_allocation := True, fixed_allocation_op_allowed := True\<rparr>)))"

definition fb_copy_to_buffer :: "allocator \<Rightarrow> buffer \<Rightarrow> filter_buffer \<Rightarrow> buffer result" where
  "fb_copy_to_buffer al dest fb =
     foldR (\<lambda>dest b. bindR (mem_read (bdata (bv_buffer b)) 0 (bsize (bv_buffer b)))
                           (\<lambda>bs. buffer_write al bs dest)) dest (fbuffers fb)"

definition fb_copy_to :: "byte list option \<Rightarrow> nat \<Rightarrow> filter_buffer \<Rightarrow> byte list option result" where
  "fb_copy_to dest off fb =
     bindR (foldR (\<lambda>(d, dest_offset) b.
         bindR (mem_read (bdata (bv_buffer b)) 0 (bsize (bv_buffer b))) (\<lambda>bs.
         bindR (mem_write d (off + dest_offset) bs) (\<lambda>d'.
           Inr (d', add64 dest_offset (bsize (bv_buffer b)))))) (dest, 0) (fbuffers fb))
       (\<lambda>(d, _). Inr d)"

definition fb_get_const_buffer :: "nat \<Rightarrow> filter_buffer \<Rightarrow> const_buffer result" where
  "fb_get_const_buffer nbytes fb =
     (case current_buffer fb of None \<Rightarrow> Inl UB
      | Some c \<Rightarrow>
          if c = length (fbuffers fb)
          then Inl (filter_error ''FilterBuffer error; no current buffer.'')
          else let buf = bv_buffer (fbuffers fb ! c) in
            if sub64 (bsize buf) (current_relative fb) < nbytes
            then Inl (filter_error ''FilterBuffer error; ConstBuffer would span multiple regions.'')
            else Inr (cb_new (buffer_data_at (current_relative fb) buf) nbytes))"

definition fb_buffers :: "filter_buffer \<Rightarrow> const_buffer list" where
  "fb_buffers fb = map (\<lambda>b. cb_new (bdata (bv_buffer b)) (bsize (bv_buffer b))) (fbuffers fb)"

definition fb_num_buffers :: "filter_buffer \<Rightarrow> nat" where
  "fb_num_buffers fb = length (fbuffers fb)"

text \<open>\<open>buffer_ptr\<close> hands out a pointer; what the caller does through it is put back.\<close>

definition fb_buffer_ptr :: "nat \<Rightarrow> filter_buffer \<Rightarrow> buffer option result" where
  "fb_buffer_ptr i fb =
     (if read_only fb then Inl AssertFail
      else Inr (if i < length (fbuffers fb) then Some (buffer_reset_offset (bv_buffer (fbuffers fb ! i)))
                else None))"

definition fb_put_back :: "nat \<Rightarrow> buffer \<Rightarrow> filter_buffer \<Rightarrow> filter_buffer" where
  "fb_put_back i b fb = fb\<lparr>fbuffers := (fbuffers fb)[i := (fbuffers fb ! i)\<lparr>bv_buffer := b\<rparr>]\<rparr>"

text \<open>
  The loop of \<open>read\<close>: the bytes still to read, the offset in the next buffer, the index of the
  next buffer and of the current one; the result has the bytes, the current buffer, the relative
  offset and the number of bytes that are missing.
\<close>

fun fb_read_loop :: "nat \<Rightarrow> nat \<Rightarrow> nat \<Rightarrow> nat \<Rightarrow> buffer_or_view list
    \<Rightarrow> (byte list \<times> nat \<times> nat \<times> nat) result" where
  "fb_read_loop bytes_left rel it cur [] = Inr ([], cur, rel, bytes_left)"
| "fb_read_loop bytes_left rel it cur (b # bs) =
     (let src = bv_buffer b;
          bytes_in_src = sub64 (bsize src) rel;
          bytes_from_src = min bytes_in_src bytes_left in
      bindR (buffer_read bytes_from_src (buffer_set_offset rel src)) (\<lambda>(xs, _).
        if bytes_left - bytes_from_src = 0 then Inr (xs, it, add64 rel bytes_from_src, 0)
        else bindR (fb_read_loop (bytes_left - bytes_from_src) 0 (Suc it) it bs)
               (\<lambda>(ys, r). Inr (xs @ ys, r))))"

definition fb_read :: "nat \<Rightarrow> filter_buffer \<Rightarrow> (byte list \<times> filter_buffer) result" where
  "fb_read nbytes fb =
     (case current_buffer fb of None \<Rightarrow> Inl UB
      | Some c \<Rightarrow>
          bindR (fb_read_loop nbytes (current_relative fb) c c (drop c (fbuffers fb)))
            (\<lambda>(xs, cur, rel, bytes_left).
              if bytes_left > 0
              then Inl (filter_error ''FilterBuffer error; could not read requested byte count.'')
              else Inr (xs,
                let at_end = cur < length (fbuffers fb) \<and> rel = bsize (bv_buffer (fbuffers fb ! cur))
                in fb\<lparr>foffset := add64 (foffset fb) nbytes,
                      current_buffer := Some (if at_end then Suc cur else cur),
                      current_relative := if at_end then 0 else rel\<rparr>)))"

definition capacity :: "buffer \<Rightarrow> nat" where
  "capacity b = (if owns_data b then alloced_size b else bsize b)"

definition store :: "nat \<Rightarrow> byte list \<Rightarrow> buffer_or_view \<Rightarrow> buffer_or_view result" where
  "store rel src b =
     (let dest = bv_buffer b; n = length src in
      if is_view b \<and> src \<noteq> [] then Inl SharedWrite
      else bindR (mem_write (bdata dest) rel src) (\<lambda>d.
        Inr (b\<lparr>bv_buffer := dest\<lparr>bdata := d,
               bsize := if add64 rel n > bsize dest
                        then add64 (bsize dest) (sub64 (add64 rel n) (bsize dest)) else bsize dest\<rparr>\<rparr>)))"

fun fb_write_loop :: "byte list \<Rightarrow> nat \<Rightarrow> nat \<Rightarrow> nat \<Rightarrow> buffer_or_view list
    \<Rightarrow> (buffer_or_view list \<times> nat \<times> nat \<times> nat) result" where
  "fb_write_loop src rel it cur [] = Inr ([], cur, rel, length src)"
| "fb_write_loop src rel it cur (b # bs) =
     (let bytes_avail_in_dest = sub64 (capacity (bv_buffer b)) rel in
      if bytes_avail_in_dest = 0
      then Inl (filter_error ''FilterBuffer error; could not write: buffer is full.'')
      else let bytes_to_dest = min bytes_avail_in_dest (length src) in
        bindR (store rel (take bytes_to_dest src) b) (\<lambda>b'.
          if length src - bytes_to_dest = 0 then Inr (b' # bs, it, add64 rel bytes_to_dest, 0)
          else bindR (fb_write_loop (drop bytes_to_dest src) 0 (Suc it) it bs)
                 (\<lambda>(bs', r). Inr (b' # bs', r))))"

definition fb_write :: "byte list \<Rightarrow> filter_buffer \<Rightarrow> filter_buffer result" where
  "fb_write src fb =
     (if read_only fb
      then Inl (filter_error ''FilterBuffer error; cannot set write: read-only.'')
      else case current_buffer fb of None \<Rightarrow> Inl UB
      | Some c \<Rightarrow>
          bindR (fb_write_loop src (current_relative fb) c c (drop c (fbuffers fb)))
            (\<lambda>(bs, cur, rel, bytes_left).
              if bytes_left > 0
              then Inl (filter_error ''FilterBuffer error; could not write requested byte count.'')
              else Inr (let buffers = take c (fbuffers fb) @ bs;
                            at_end = cur < length buffers \<and> rel = capacity (bv_buffer (buffers ! cur))
                in fb\<lparr>fbuffers := buffers, foffset := add64 (foffset fb) (length src),
                      current_buffer := Some (if at_end then Suc cur else cur),
                      current_relative := if at_end then 0 else rel\<rparr>)))"

text \<open>Copying from another \<open>FilterBuffer\<close>, whose position stays.\<close>

fun fb_write_from_loop :: "nat \<Rightarrow> nat \<Rightarrow> buffer_or_view list \<Rightarrow> filter_buffer
    \<Rightarrow> (nat \<times> filter_buffer) result" where
  "fb_write_from_loop bytes_left rel [] fb = Inr (bytes_left, fb)"
| "fb_write_from_loop bytes_left rel (b # bs) fb =
     (if bytes_left = 0 then Inr (0, fb)
      else let buf = bv_buffer b;
               bytes_from_buf = min bytes_left (sub64 (bsize buf) rel) in
        bindR (mem_read (bdata buf) rel bytes_from_buf) (\<lambda>xs.
        bindR (fb_write xs fb) (\<lambda>fb'.
          fb_write_from_loop (bytes_left - bytes_from_buf) 0 bs fb')))"

definition fb_write_from :: "filter_buffer \<Rightarrow> nat \<Rightarrow> filter_buffer \<Rightarrow> filter_buffer result" where
  "fb_write_from other nbytes fb =
     (if read_only fb
      then Inl (filter_error ''FilterBuffer error; cannot write: read-only.'')
      else case current_buffer other of None \<Rightarrow> Inl UB
      | Some c \<Rightarrow>
          bindR (fb_write_from_loop nbytes (current_relative other) (drop c (fbuffers other)) fb)
            (\<lambda>(bytes_left, fb').
              if bytes_left > 0
              then Inl (filter_error ''FilterBuffer error; could not write requested byte count.'')
              else Inr fb'))"

fun relative_offset :: "nat \<Rightarrow> nat \<Rightarrow> buffer_or_view list \<Rightarrow> (nat \<times> nat) result" where
  "relative_offset rel_offset it [] =
     Inl (filter_error ''FilterBuffer error; cannot determine relative offset.'')"
| "relative_offset rel_offset it (b # bs) =
     (if rel_offset < capacity (bv_buffer b) then Inr (it, rel_offset)
      else relative_offset (rel_offset - capacity (bv_buffer b)) (Suc it) bs)"

definition get_relative_offset :: "nat \<Rightarrow> filter_buffer \<Rightarrow> (nat \<times> nat) result" where
  "get_relative_offset off fb = relative_offset off 0 (fbuffers fb)"

definition fb_size :: "filter_buffer \<Rightarrow> nat" where
  "fb_size fb = fold (\<lambda>b n. add64 n (bsize (bv_buffer b))) (fbuffers fb) 0"

definition fb_reset_offset :: "filter_buffer \<Rightarrow> filter_buffer" where
  "fb_reset_offset fb = fb\<lparr>foffset := 0, current_buffer := Some 0, current_relative := 0\<rparr>"

definition fb_set_offset :: "nat \<Rightarrow> filter_buffer \<Rightarrow> filter_buffer result" where
  "fb_set_offset off fb =
     (if off = 0 then Inr (fb_reset_offset fb)
      else case get_relative_offset off fb of Inl _ \<Rightarrow> Inl AssertFail
        | Inr (c, rel) \<Rightarrow> Inr (fb\<lparr>foffset := off, current_buffer := Some c, current_relative := rel\<rparr>))"

definition fb_set_read_only :: "bool \<Rightarrow> filter_buffer \<Rightarrow> filter_buffer" where
  "fb_set_read_only ro fb = fb\<lparr>read_only := ro\<rparr>"

definition fb_advance_offset :: "nat \<Rightarrow> filter_buffer \<Rightarrow> filter_buffer result" where
  "fb_advance_offset nbytes fb =
     (case current_buffer fb of None \<Rightarrow> Inl UB
      | Some c \<Rightarrow>
          if c \<ge> length (fbuffers fb) then Inl UB
          else let sz = bsize (bv_buffer (fbuffers fb ! c)); r = add64 (current_relative fb) nbytes;
                   off = add64 (foffset fb) nbytes in
            if r < sz then Inr (fb\<lparr>current_relative := r, foffset := off\<rparr>)
            else if r = sz
            then Inr (fb\<lparr>current_relative := 0, current_buffer := Some (Suc c), foffset := off\<rparr>)
            else if off \<le> fb_size fb
            then (case get_relative_offset off fb of Inl _ \<Rightarrow> Inl AssertFail
                  | Inr (c', rel) \<Rightarrow>
                      Inr (fb\<lparr>current_buffer := Some c', current_relative := rel, foffset := off\<rparr>))
            else Inr fb)"

text \<open>\<open>gb\<close> is the buffer that \<open>FilterStorage::get_buffer\<close> hands out.\<close>

definition fb_prepend_buffer :: "allocator \<Rightarrow> buffer \<Rightarrow> nat \<Rightarrow> filter_buffer \<Rightarrow> filter_buffer result" where
  "fb_prepend_buffer al gb nbytes fb =
     (if read_only fb
      then Inl (filter_error ''FilterBuffer error; cannot prepend buffer: read-only.'')
      else bindR
        (if \<not> fixed_allocation fb
         then bindR (buffer_realloc al nbytes gb) (\<lambda>b.
           Inr (fb\<lparr>fbuffers := bov_new (buffer_reset_size (buffer_reset_offset b)) # fbuffers fb,
                   foffset := add64 (foffset fb) nbytes\<rparr>))
         else if fbuffers fb = [] then Inl AssertFail
         else if \<not> fixed_allocation_op_allowed fb
         then Inl (filter_error (''FilterBuffer error; cannot prepend buffer: ''
                @ ''fixed allocation is set.''))
         else if nbytes > bsize (bv_buffer (hd (fbuffers fb)))
         then Inl (filter_error (''FilterBuffer error; cannot prepend buffer: ''
                @ ''fixed allocation not large enough.''))
         else Inr (fb\<lparr>fixed_allocation_op_allowed := False\<rparr>))
        (\<lambda>fb'. Inr (fb_reset_offset fb')))"

fun fb_views :: "nat \<Rightarrow> nat \<Rightarrow> buffer_or_view list \<Rightarrow> buffer_or_view list" where
  "fb_views rel bytes_left [] = []"
| "fb_views rel bytes_left (b # bs) =
     (if bytes_left = 0 then []
      else let n = min bytes_left (sub64 (bsize (bv_buffer b)) rel) in
        get_view rel n b # fb_views 0 (bytes_left - n) bs)"

text \<open>With a fixed allocation every view is copied to the start of the allocation.\<close>

definition copy_view :: "filter_buffer \<Rightarrow> buffer_or_view \<Rightarrow> filter_buffer result" where
  "copy_view fb v =
     (let front = bv_buffer (hd (fbuffers fb)) in
      bindR (mem_read (bdata (bv_buffer v)) 0 (bsize (bv_buffer v))) (\<lambda>bs.
      bindR (mem_write (bdata front) 0 bs) (\<lambda>d.
        Inr (fb\<lparr>fbuffers := (hd (fbuffers fb))\<lparr>bv_buffer := front\<lparr>bdata := d\<rparr>\<rparr> # tl (fbuffers fb)\<rparr>))))"

definition fb_append_view_range :: "filter_buffer \<Rightarrow> nat \<Rightarrow> nat \<Rightarrow> filter_buffer \<Rightarrow> filter_buffer result" where
  "fb_append_view_range other off nbytes fb =
     (if read_only fb
      then Inl (filter_error ''FilterBuffer error; cannot append view: read-only.'')
      else if nbytes = 0 then Inr fb
      else if fixed_allocation fb \<and> fbuffers fb = [] then Inl AssertFail
      else if fixed_allocation fb \<and> \<not> fixed_allocation_op_allowed fb
      then Inl (filter_error ''FilterBuffer error; cannot append view: fixed allocation set.'')
      else if fixed_allocation fb \<and> nbytes > bsize (bv_buffer (hd (fbuffers fb)))
      then Inl (filter_error (''FilterBuffer error; cannot append view: ''
             @ ''fixed allocation not large enough.''))
      else
        bindR (get_relative_offset off other) (\<lambda>(c, rel).
        let views = fb_views rel nbytes (drop c (fbuffers other)) in
        bindR
          (if fixed_allocation fb
           then foldR copy_view (fb\<lparr>fixed_allocation_op_allowed := False\<rparr>) views
           else Inr (fb\<lparr>fbuffers := fbuffers fb @ views\<rparr>))
          (\<lambda>fb'. Inr (fb_reset_offset fb'))))"

definition fb_append_view :: "filter_buffer \<Rightarrow> filter_buffer \<Rightarrow> filter_buffer result" where
  "fb_append_view other fb = fb_append_view_range other 0 (fb_size other) fb"

definition fb_clear :: "filter_buffer \<Rightarrow> filter_buffer result" where
  "fb_clear fb =
     (if read_only fb
      then Inl (filter_error ''FilterBuffer error; cannot clear: read-only.'')
      else Inr (fb\<lparr>foffset := 0, fbuffers := [], current_relative := 0, current_buffer := Some 0,
                   fixed_allocation := False, fixed_allocation_op_allowed := False\<rparr>))"

section \<open>Contents and invariants\<close>

definition bovs_bytes :: "buffer_or_view list \<Rightarrow> byte list" where
  "bovs_bytes bs = concat (map (\<lambda>b. buffer_bytes (bv_buffer b)) bs)"

definition fb_bytes :: "filter_buffer \<Rightarrow> byte list" where
  "fb_bytes fb = bovs_bytes (fbuffers fb)"

definition bovs_ok :: "buffer_or_view list \<Rightarrow> bool" where
  "bovs_ok bs \<longleftrightarrow> list_all (\<lambda>b. buffer_inv (bv_buffer b)) bs \<and> length (bovs_bytes bs) < 2 ^ 63"

lemma bovs_bytes_simps [simp]:
  "bovs_bytes [] = []" "bovs_bytes (b # bs) = buffer_bytes (bv_buffer b) @ bovs_bytes bs"
  "bovs_bytes (xs @ ys) = bovs_bytes xs @ bovs_bytes ys"
  by (simp_all add: bovs_bytes_def)

lemma bovs_ok_simps [simp]:
  "bovs_ok []"
  "bovs_ok (b # bs) \<longleftrightarrow>
     buffer_inv (bv_buffer b) \<and> bovs_ok bs \<and> bsize (bv_buffer b) + length (bovs_bytes bs) < 2 ^ 63"
  by (auto simp: bovs_ok_def length_buffer_bytes)

lemma bovs_ok_append [simp]:
  "bovs_ok (xs @ ys) \<longleftrightarrow>
     bovs_ok xs \<and> bovs_ok ys \<and> length (bovs_bytes xs) + length (bovs_bytes ys) < 2 ^ 63"
  by (auto simp: bovs_ok_def)

lemma bovs_ok_drop: "bovs_ok bs \<Longrightarrow> bovs_ok (drop n bs)"
  using bovs_ok_append [of "take n bs" "drop n bs"] by simp

definition pos_in :: "nat \<Rightarrow> buffer_or_view list \<Rightarrow> bool" where
  "pos_in rel bs \<longleftrightarrow> (case bs of [] \<Rightarrow> rel = 0 | b # _ \<Rightarrow> rel \<le> bsize (bv_buffer b))"

lemma pos_in_simps [simp]: "pos_in rel [] \<longleftrightarrow> rel = 0" "pos_in rel (b # bs) \<longleftrightarrow> rel \<le> bsize (bv_buffer b)"
  by (simp_all add: pos_in_def)

lemma pos_in_0 [simp]: "pos_in 0 bs"
  by (simp add: pos_in_def split: list.splits)

text \<open>A buffer to read from: the position is inside the current buffer or at the end of the list.\<close>

definition fb_source :: "filter_buffer \<Rightarrow> bool" where
  "fb_source fb \<longleftrightarrow> bovs_ok (fbuffers fb)
     \<and> (\<exists>c. current_buffer fb = Some c \<and> c \<le> length (fbuffers fb)
          \<and> pos_in (current_relative fb) (drop c (fbuffers fb))
          \<and> foffset fb = length (bovs_bytes (take c (fbuffers fb))) + current_relative fb)"

definition fb_rest :: "filter_buffer \<Rightarrow> byte list" where
  "fb_rest fb = drop (foffset fb) (fb_bytes fb)"

text \<open>What a filter gets as input: read-only and positioned at the start.\<close>

definition fb_start :: "filter_buffer \<Rightarrow> bool" where
  "fb_start fb \<longleftrightarrow> bovs_ok (fbuffers fb) \<and> current_buffer fb = Some 0 \<and> current_relative fb = 0
     \<and> foffset fb = 0"

lemma fb_start_source: "fb_start fb \<Longrightarrow> fb_source fb"
  by (auto simp: fb_start_def fb_source_def)

lemma fb_start_rest: "fb_start fb \<Longrightarrow> fb_rest fb = fb_bytes fb"
  by (simp add: fb_start_def fb_rest_def)

lemma fb_reset_start: "bovs_ok (fbuffers fb) \<Longrightarrow> fb_start (fb_reset_offset fb)"
  by (simp add: fb_start_def fb_reset_offset_def)

lemma fb_size_fold:
  "bovs_ok bs \<Longrightarrow> k + length (bovs_bytes bs) < 2 ^ 64 \<Longrightarrow>
   fold (\<lambda>b n. add64 n (bsize (bv_buffer b))) bs k = k + length (bovs_bytes bs)"
  by (induction bs arbitrary: k) (simp_all add: length_buffer_bytes add64_exact)

lemma fb_size_bytes: "bovs_ok (fbuffers fb) \<Longrightarrow> fb_size fb = length (fb_bytes fb)"
  by (simp add: fb_size_def fb_bytes_def fb_size_fold bovs_ok_def)

section \<open>Reading\<close>

lemma buffer_read_at:
  assumes "buffer_inv b" and "rel + n \<le> bsize b" and "bsize b < 2 ^ 63"
  shows "buffer_read n (buffer_set_offset rel b) =
    Inr (take n (drop rel (buffer_bytes b)), buffer_set_offset (rel + n) b)"
proof -
  have "add64 n rel = n + rel" "add64 rel n = rel + n" using assms by (simp_all add: add64_exact)
  then show ?thesis using assms
    by (simp add: buffer_read_def buffer_set_offset_def mem_read_region buffer_inv_def
        buffer_advance_offset_def buffer_bytes_def slice_def drop_take min_def)
qed

lemma fb_read_loop_spec:
  assumes "bovs_ok bs" and "pos_in rel bs"
  shows "\<exists>c r. fb_read_loop n rel it cur bs
               = Inr (take n (drop rel (bovs_bytes bs)), c, r, n - (length (bovs_bytes bs) - rel))
             \<and> (n \<le> length (bovs_bytes bs) - rel \<longrightarrow>
                 (if bs = [] then c = cur \<and> r = rel
                  else it \<le> c \<and> c - it < length bs \<and> r \<le> bsize (bv_buffer (bs ! (c - it)))
                     \<and> length (bovs_bytes (take (c - it) bs)) + r = rel + n))"
  using assms
proof (induction bs arbitrary: n rel it cur)
  case (Cons b bs)
  define m where "m = min (bsize (bv_buffer b) - rel) n"
  have b: "buffer_inv (bv_buffer b)" "rel \<le> bsize (bv_buffer b)" "bsize (bv_buffer b) < 2 ^ 63" "bovs_ok bs"
    using Cons.prems by simp_all
  have len: "length (buffer_bytes (bv_buffer b)) = bsize (bv_buffer b)" using b(1) by (rule length_buffer_bytes)
  have sub: "sub64 (bsize (bv_buffer b)) rel = bsize (bv_buffer b) - rel" using b(2,3) by (simp add: sub64_exact)
  have rd: "buffer_read m (buffer_set_offset rel (bv_buffer b)) =
      Inr (take m (drop rel (buffer_bytes (bv_buffer b))), buffer_set_offset (rel + m) (bv_buffer b))"
    by (rule buffer_read_at) (use b m_def in auto)
  show ?case
  proof (cases "n \<le> bsize (bv_buffer b) - rel")
    case True
    then have "m = n" by (simp add: m_def)
    moreover have "add64 rel n = rel + n" using True b(2,3) by (simp add: add64_exact)
    ultimately show ?thesis using True rd b(2) len sub by (auto simp: Let_def m_def)
  next
    case False
    then have m: "m = bsize (bv_buffer b) - rel" "m < n" by (auto simp: m_def)
    obtain c r where *: "fb_read_loop (n - m) 0 (Suc it) it bs
        = Inr (take (n - m) (bovs_bytes bs), c, r, n - m - length (bovs_bytes bs))"
      and **: "n - m \<le> length (bovs_bytes bs) \<Longrightarrow>
         (if bs = [] then c = it \<and> r = 0
          else Suc it \<le> c \<and> c - Suc it < length bs \<and> r \<le> bsize (bv_buffer (bs ! (c - Suc it)))
             \<and> length (bovs_bytes (take (c - Suc it) bs)) + r = n - m)"
      using Cons.IH [OF b(4), of 0 "n - m" "Suc it" it] by auto
    have r1: "fb_read_loop n rel it cur (b # bs) = Inr (take n (drop rel (bovs_bytes (b # bs))), c, r,
        n - (length (bovs_bytes (b # bs)) - rel))"
      using rd * m len b(2) sub by (simp add: Let_def m_def [symmetric])
    have r2: "it \<le> c \<and> c - it < length (b # bs) \<and> r \<le> bsize (bv_buffer ((b # bs) ! (c - it)))
        \<and> length (bovs_bytes (take (c - it) (b # bs))) + r = rel + n"
      if "n \<le> length (bovs_bytes (b # bs)) - rel"
    proof -
      have "n - m \<le> length (bovs_bytes bs)" using that m len b(2) by simp
      moreover from this have "bs \<noteq> []" using m(2) by auto
      ultimately have c: "Suc it \<le> c" "c - Suc it < length bs" "r \<le> bsize (bv_buffer (bs ! (c - Suc it)))"
        "length (bovs_bytes (take (c - Suc it) bs)) + r = n - m" using ** by auto
      then have "c - it = Suc (c - Suc it)" by simp
      then show ?thesis using c m b(2) len by simp
    qed
    show ?thesis by (rule exI [of _ c], rule exI [of _ r], rule conjI [OF r1])
        (simp only: list.distinct if_False, use r2 in blast)
  qed
qed simp

lemma rel_le_bytes:
  "bovs_ok bs \<Longrightarrow> pos_in rel bs \<Longrightarrow> rel \<le> length (bovs_bytes bs)"
  by (cases bs) (simp_all add: length_buffer_bytes)

lemma bovs_bytes_split: "bovs_bytes bs = bovs_bytes (take c bs) @ bovs_bytes (drop c bs)"
  by (simp flip: bovs_bytes_simps(3))

lemma length_bovs_take_Suc:
  "c < length bs \<Longrightarrow> buffer_inv (bv_buffer (bs ! c)) \<Longrightarrow>
   length (bovs_bytes (take (Suc c) bs)) = length (bovs_bytes (take c bs)) + bsize (bv_buffer (bs ! c))"
  by (simp add: take_Suc_conv_app_nth length_buffer_bytes)

lemma fb_sourceE:
  assumes "fb_source fb"
  obtains c where "current_buffer fb = Some c" and "c \<le> length (fbuffers fb)"
    and "bovs_ok (drop c (fbuffers fb))" and "pos_in (current_relative fb) (drop c (fbuffers fb))"
    and "foffset fb = length (bovs_bytes (take c (fbuffers fb))) + current_relative fb"
    and "fb_rest fb = drop (current_relative fb) (bovs_bytes (drop c (fbuffers fb)))"
proof -
  let ?bs = "fbuffers fb"
  obtain c where c: "current_buffer fb = Some c" "c \<le> length ?bs" "pos_in (current_relative fb) (drop c ?bs)"
    "foffset fb = length (bovs_bytes (take c ?bs)) + current_relative fb" and ok: "bovs_ok ?bs"
    using assms by (auto simp: fb_source_def)
  moreover have "fb_rest fb = drop (current_relative fb) (bovs_bytes (drop c ?bs))"
    using bovs_bytes_split [of ?bs c] c(4) by (simp add: fb_rest_def fb_bytes_def)
  ultimately show thesis using that bovs_ok_drop [OF ok] by blast
qed

lemma fb_source_offset:
  assumes "fb_source fb"
  shows "foffset fb \<le> length (fb_bytes fb)" and "length (fb_bytes fb) < 2 ^ 63"
proof -
  from assms obtain c where c: "bovs_ok (drop c (fbuffers fb))"
    "pos_in (current_relative fb) (drop c (fbuffers fb))"
    "foffset fb = length (bovs_bytes (take c (fbuffers fb))) + current_relative fb"
    by (rule fb_sourceE)
  from rel_le_bytes [OF c(1,2)] show "foffset fb \<le> length (fb_bytes fb)"
    using c(3) arg_cong [OF bovs_bytes_split [of "fbuffers fb" c], of length]
    by (simp only: fb_bytes_def length_append add_le_cancel_left)
  show "length (fb_bytes fb) < 2 ^ 63" using assms by (simp add: fb_source_def bovs_ok_def fb_bytes_def)
qed

interpretation fsource: byte_source fb_read fb_rest fb_source
proof unfold_locales
  fix fb n
  assume fb: "fb_source fb" and n: "n \<le> length (fb_rest fb)"
  let ?bs = "fbuffers fb" and ?rel = "current_relative fb"
  from fb have ok: "bovs_ok ?bs" by (simp add: fb_source_def)
  from fb obtain c where c: "current_buffer fb = Some c" "c \<le> length ?bs" and ds: "bovs_ok (drop c ?bs)" "pos_in ?rel (drop c ?bs)"
    and off: "foffset fb = length (bovs_bytes (take c ?bs)) + ?rel"
    and rest: "fb_rest fb = drop ?rel (bovs_bytes (drop c ?bs))"
    by (rule fb_sourceE)
  let ?ds = "drop c ?bs"
  obtain c' r where loop: "fb_read_loop n ?rel c c ?ds = Inr (take n (fb_rest fb), c', r, 0)"
    and pos: "if ?ds = [] then c' = c \<and> r = ?rel
       else c \<le> c' \<and> c' - c < length ?ds \<and> r \<le> bsize (bv_buffer (?ds ! (c' - c)))
          \<and> length (bovs_bytes (take (c' - c) ?ds)) + r = ?rel + n"
    using fb_read_loop_spec [OF ds, of n c c] n rest by auto
  have add: "add64 (foffset fb) n = foffset fb + n"
    using n fb_source_offset [OF fb] by (auto simp: add64_exact fb_rest_def)
  define e where "e \<longleftrightarrow> c' < length ?bs \<and> r = bsize (bv_buffer (?bs ! c'))"
  define fb' where "fb' = fb\<lparr>foffset := foffset fb + n, current_buffer := Some (if e then Suc c' else c'),
      current_relative := if e then 0 else r\<rparr>"
  have "fb_read n fb = Inr (take n (fb_rest fb), fb')"
    using c(1) loop add by (simp add: fb_read_def fb'_def e_def Let_def)
  moreover have "fb_rest fb' = drop n (fb_rest fb)"
    by (simp add: fb_rest_def fb'_def fb_bytes_def add.commute)
  moreover have "fb_source fb'"
  proof (cases "?ds = []")
    case True
    then have "c' = length ?bs" "r = 0" "n = 0" "\<not> e"
      using pos c(2) ds(2) n rest by (simp_all add: e_def)
    then show ?thesis using True ok off ds(2) c(2) by (simp add: fb_source_def fb'_def)
  next
    case False
    then have p: "c \<le> c'" "c' < length ?bs" "r \<le> bsize (bv_buffer (?bs ! c'))"
      and "length (bovs_bytes (take (c' - c) ?ds)) + r = ?rel + n"
      using pos c(2) by auto
    moreover have "take c' ?bs = take c ?bs @ take (c' - c) ?ds"
      using p(1) by (metis le_add_diff_inverse take_add)
    ultimately have o: "foffset fb + n = length (bovs_bytes (take c' ?bs)) + r" using off by simp
    have inv: "buffer_inv (bv_buffer (?bs ! c'))" using ok p(2) by (simp add: bovs_ok_def list_all_length)
    have "pos_in r (drop c' ?bs)" using p(2,3) by (simp add: Cons_nth_drop_Suc [symmetric])
    then show ?thesis
      using o p ok length_bovs_take_Suc [OF p(2) inv] by (auto simp: fb_source_def fb'_def e_def)
  qed
  ultimately show "\<exists>s'. fb_read n fb = Inr (take n (fb_rest fb), s') \<and> fb_source s'
      \<and> fb_rest s' = drop n (fb_rest fb)" by blast
next
  fix fb n
  assume fb: "fb_source fb" and n: "length (fb_rest fb) < n" "n \<le> 2 ^ 63"
  from fb obtain c where c: "current_buffer fb = Some c" and ds: "bovs_ok (drop c (fbuffers fb))"
    "pos_in (current_relative fb) (drop c (fbuffers fb))"
    and rest: "fb_rest fb = drop (current_relative fb) (bovs_bytes (drop c (fbuffers fb)))"
    by (rule fb_sourceE)
  show "\<exists>x m. fb_read n fb = Inl (Err x m)"
    using fb_read_loop_spec [OF ds, of n c c] n rest c by (auto simp: fb_read_def filter_error_def)
qed

text \<open>Reading keeps the buffers: only the position moves.\<close>

lemma fb_read_frame:
  "fb_read n fb = Inr (bs, fb') \<Longrightarrow> fbuffers fb' = fbuffers fb \<and> read_only fb' = read_only fb
     \<and> fixed_allocation fb' = fixed_allocation fb"
  by (auto simp: fb_read_def bindR_Inr Let_def split: option.splits if_splits prod.splits)

section \<open>Writing\<close>

text \<open>
  A buffer to write to: the first buffer of the list is not shared and takes the bytes, the others
  are those that were there before. \<open>fb_pos\<close> is the number of bytes written so far.
\<close>

definition solid :: "buffer_or_view \<Rightarrow> bool" where
  "solid v \<longleftrightarrow> buffer_inv (bv_buffer v) \<and> 0 < bsize (bv_buffer v)"

definition fb_pos :: "filter_buffer \<Rightarrow> nat" where
  "fb_pos fb = (if current_buffer fb = Some 0 then current_relative fb
                else capacity (bv_buffer (hd (fbuffers fb))))"

definition fb_sink :: "bool \<Rightarrow> nat \<Rightarrow> buffer_or_view list \<Rightarrow> filter_buffer \<Rightarrow> bool" where
  "fb_sink fx cp rest fb \<longleftrightarrow> \<not> read_only fb \<and> fixed_allocation fb = fx
     \<and> fbuffers fb \<noteq> [] \<and> tl (fbuffers fb) = rest \<and> list_all solid rest
     \<and> (let b = hd (fbuffers fb) in
        \<not> is_view b \<and> buffer_inv (bv_buffer b) \<and> owns_data (bv_buffer b) = (\<not> fx)
        \<and> capacity (bv_buffer b) = cp \<and> cp < 2 ^ 63
        \<and> (\<not> fx \<longrightarrow> bsize (bv_buffer b) = fb_pos fb))
     \<and> (current_buffer fb = Some 0 \<and> current_relative fb < cp
        \<or> current_buffer fb = Some 1 \<and> current_relative fb = 0
        \<or> cp = 0 \<and> current_buffer fb = Some 0 \<and> current_relative fb = 0)
     \<and> foffset fb = fb_pos fb"

definition fb_written :: "filter_buffer \<Rightarrow> byte list" where
  "fb_written fb = take (fb_pos fb) (region (bdata (bv_buffer (hd (fbuffers fb)))))"

definition fb_room :: "nat \<Rightarrow> filter_buffer \<Rightarrow> nat \<Rightarrow> bool" where
  "fb_room cp fb n \<longleftrightarrow> 0 < cp \<and> fb_pos fb + n \<le> cp"

lemma store_spec:
  assumes "\<not> is_view b" and "buffer_inv (bv_buffer b)" and "rel + length src \<le> capacity (bv_buffer b)"
    and "capacity (bv_buffer b) < 2 ^ 63" and "owns_data (bv_buffer b) \<Longrightarrow> bsize (bv_buffer b) = rel"
  shows "\<exists>d. store rel src b = Inr (b\<lparr>bv_buffer := (bv_buffer b)\<lparr>bdata := d,
             bsize := if owns_data (bv_buffer b) then rel + length src else bsize (bv_buffer b)\<rparr>\<rparr>)
         \<and> cap d = cap (bdata (bv_buffer b))
         \<and> region d = overwrite (region (bdata (bv_buffer b))) rel src"
proof -
  let ?b = "bv_buffer b"
  have le: "capacity ?b \<le> cap (bdata ?b)" using assms(2) by (auto simp: capacity_def buffer_inv_def)
  then have "rel + length src \<le> cap (bdata ?b)" using assms(3) by linarith
  from mem_write_region [OF this] obtain d where d: "mem_write (bdata ?b) rel src = Inr d"
    "cap d = cap (bdata ?b)" "region d = overwrite (region (bdata ?b)) rel src" by blast
  have add: "add64 rel (length src) = rel + length src" using assms(3,4) by (simp add: add64_exact)
  have small: "rel + length src < 2 ^ 63" using assms(3,4) by linarith
  have "(if rel + length src > bsize ?b then add64 (bsize ?b) (sub64 (rel + length src) (bsize ?b)) else bsize ?b)
      = (if owns_data ?b then rel + length src else bsize ?b)"
    using assms(3,5) small by (auto simp: sub64_exact add64_exact capacity_def split: if_splits)
  with assms(1) d(1) add have "store rel src b = Inr (b\<lparr>bv_buffer := ?b\<lparr>bdata := d,
      bsize := if owns_data ?b then rel + length src else bsize ?b\<rparr>\<rparr>)"
    by (simp only: store_def Let_def simp_thms if_False bindR_simps)
  with d(2,3) show ?thesis by blast
qed

lemma fb_write_full:
  assumes "fb_sink fx cp rest fb" and "current_buffer fb = Some 1"
  shows "fb_write [] fb = Inr fb"
proof -
  obtain b where b: "fbuffers fb = b # rest" "\<not> read_only fb" "current_relative fb = 0"
    "add64 (foffset fb) 0 = foffset fb" and rest: "list_all solid rest"
    using assms by (cases "fbuffers fb") (auto simp: fb_sink_def fb_pos_def add64_exact)
  have [simp]: "fb\<lparr>fbuffers := b # rest, foffset := foffset fb, current_buffer := Some (Suc 0),
      current_relative := 0\<rparr> = fb" using b assms(2) by simp
  show ?thesis
  proof (cases rest)
    case Nil
    then show ?thesis using b assms(2) by (simp add: fb_write_def)
  next
    case (Cons v vs)
    then have v: "0 < capacity (bv_buffer v)" "capacity (bv_buffer v) < 2 ^ 64"
      using rest by (auto simp: solid_def buffer_inv_def capacity_def)
    then have "sub64 (capacity (bv_buffer v)) 0 \<noteq> 0" by (simp add: sub64_exact)
    then show ?thesis using Cons b assms(2) v
      by (simp add: fb_write_def store_def Let_def mem_write_def)
  qed
qed

lemma fb_write_loop_first:
  assumes "\<not> is_view b" and "buffer_inv (bv_buffer b)" and "capacity (bv_buffer b) < 2 ^ 63"
    and "rel < capacity (bv_buffer b)" and "rel + length src \<le> capacity (bv_buffer b)"
    and "owns_data (bv_buffer b) \<Longrightarrow> bsize (bv_buffer b) = rel"
  shows "\<exists>b'. fb_write_loop src rel it cur (b # bs) = Inr (b' # bs, it, rel + length src, 0)
          \<and> \<not> is_view b' \<and> buffer_inv (bv_buffer b') \<and> capacity (bv_buffer b') = capacity (bv_buffer b)
          \<and> owns_data (bv_buffer b') = owns_data (bv_buffer b)
          \<and> bsize (bv_buffer b') = (if owns_data (bv_buffer b) then rel + length src else bsize (bv_buffer b))
          \<and> region (bdata (bv_buffer b')) = overwrite (region (bdata (bv_buffer b))) rel src"
proof -
  let ?b = "bv_buffer b"
  have sub: "sub64 (capacity ?b) rel = capacity ?b - rel" using assms(3,4) by (simp add: sub64_exact)
  have add: "add64 rel (length src) = rel + length src" using assms(3,5) by (simp add: add64_exact)
  have m: "min (capacity ?b - rel) (length src) = length src" using assms(5) by simp
  from store_spec [OF assms(1,2,5,3,6)] obtain d where d: "store rel src b = Inr (b\<lparr>bv_buffer := ?b\<lparr>bdata := d,
       bsize := if owns_data ?b then rel + length src else bsize ?b\<rparr>\<rparr>)"
     "cap d = cap (bdata ?b)" "region d = overwrite (region (bdata ?b)) rel src" by blast
  let ?b' = "b\<lparr>bv_buffer := ?b\<lparr>bdata := d, bsize := if owns_data ?b then rel + length src else bsize ?b\<rparr>\<rparr>"
  have "fb_write_loop src rel it cur (b # bs) = Inr (?b' # bs, it, rel + length src, 0)"
    using d(1) sub add m assms(4) by (simp add: Let_def)
  moreover have "rel + length src \<le> cap (bdata ?b)" if "owns_data ?b"
    using that assms(2,5) by (simp add: buffer_inv_def capacity_def)
  ultimately show ?thesis using d(2,3) assms(1,2) by (auto simp: buffer_inv_def capacity_def)
qed

lemma fb_sinkE:
  assumes "fb_sink fx cp rest fb"
  obtains b where "fbuffers fb = b # rest" and "\<not> is_view b" and "buffer_inv (bv_buffer b)"
    and "owns_data (bv_buffer b) = (\<not> fx)" and "capacity (bv_buffer b) = cp" and "cp < 2 ^ 63"
    and "\<not> fx \<longrightarrow> bsize (bv_buffer b) = fb_pos fb"
  using assms by (cases "fbuffers fb") (auto simp: fb_sink_def Let_def)

lemma fb_write_first:
  assumes "fb_sink fx cp rest fb" and "current_buffer fb = Some 0" and "fb_room cp fb (length src + n)"
  shows "\<exists>fb'. fb_write src fb = Inr fb' \<and> fb_sink fx cp rest fb' \<and> fb_written fb' = fb_written fb @ src
           \<and> fb_room cp fb' n"
proof -
  let ?rel = "current_relative fb"
  from assms(1) obtain b where b: "fbuffers fb = b # rest" "\<not> is_view b" "buffer_inv (bv_buffer b)"
    "owns_data (bv_buffer b) = (\<not> fx)" "capacity (bv_buffer b) = cp" "cp < 2 ^ 63"
    "\<not> fx \<longrightarrow> bsize (bv_buffer b) = fb_pos fb" by (rule fb_sinkE)
  have pos: "fb_pos fb = ?rel" "?rel + (length src + n) \<le> cp" "0 < cp" and rel: "?rel < cp"
    and off: "foffset fb = ?rel" and fl: "\<not> read_only fb" "fixed_allocation fb = fx" "list_all solid rest"
    using assms by (auto simp: fb_pos_def fb_room_def fb_sink_def)
  have "\<exists>b'. fb_write_loop src ?rel 0 0 (b # rest) = Inr (b' # rest, 0, ?rel + length src, 0)
          \<and> \<not> is_view b' \<and> buffer_inv (bv_buffer b') \<and> capacity (bv_buffer b') = capacity (bv_buffer b)
          \<and> owns_data (bv_buffer b') = owns_data (bv_buffer b)
          \<and> bsize (bv_buffer b') = (if owns_data (bv_buffer b) then ?rel + length src else bsize (bv_buffer b))
          \<and> region (bdata (bv_buffer b')) = overwrite (region (bdata (bv_buffer b))) ?rel src"
    by (rule fb_write_loop_first) (use b pos rel in auto)
  then obtain b' where b': "fb_write_loop src ?rel 0 0 (b # rest) = Inr (b' # rest, 0, ?rel + length src, 0)"
    "\<not> is_view b'" "buffer_inv (bv_buffer b')" "capacity (bv_buffer b') = cp" "owns_data (bv_buffer b') = (\<not> fx)"
    "bsize (bv_buffer b') = (if fx then bsize (bv_buffer b) else ?rel + length src)"
    "region (bdata (bv_buffer b')) = overwrite (region (bdata (bv_buffer b))) ?rel src"
    using b by auto
  have add: "add64 (foffset fb) (length src) = ?rel + length src" using pos b(6) off by (simp add: add64_exact)
  define e where "e \<longleftrightarrow> ?rel + length src = cp"
  define fb' where "fb' = fb\<lparr>fbuffers := b' # rest, foffset := ?rel + length src,
      current_buffer := Some (if e then Suc 0 else 0), current_relative := if e then 0 else ?rel + length src\<rparr>"
  have "fb_write src fb = Inr fb'"
    using fl(1) assms(2) b(1) b'(1,4) add by (simp add: fb_write_def fb'_def e_def Let_def)
  moreover have p: "fb_pos fb' = ?rel + length src" using b'(4) by (auto simp: fb_pos_def fb'_def e_def)
  moreover from p have "fb_sink fx cp rest fb'"
    using b(6) b' fl pos by (auto simp: fb_sink_def fb'_def e_def Let_def)
  moreover have "fb_written fb' = fb_written fb @ src"
  proof -
    have "?rel + length src \<le> cap (bdata (bv_buffer b))"
      using pos(2) b(3,5) by (auto simp: buffer_inv_def capacity_def split: if_splits)
    then show ?thesis using p b(1) b'(7) pos(1)
      by (simp add: fb_written_def fb'_def take_overwrite_end)
  qed
  ultimately show ?thesis using pos by (auto simp: fb_room_def)
qed

interpretation fsink: byte_sink fb_write fb_written "fb_sink fx cp rest" "fb_room cp" for fx cp rest
proof unfold_locales
  fix fb n and src :: "byte list"
  assume fb: "fb_sink fx cp rest fb" and room: "fb_room cp fb (length src + n)"
  show "\<exists>s'. fb_write src fb = Inr s' \<and> fb_sink fx cp rest s' \<and> fb_written s' = fb_written fb @ src
             \<and> fb_room cp s' n"
  proof (cases "current_buffer fb = Some 0")
    case True
    then show ?thesis using fb_write_first [OF fb _ room] by blast
  next
    case False
    then have c: "current_buffer fb = Some 1" and "capacity (bv_buffer (hd (fbuffers fb))) = cp"
      using fb by (auto simp: fb_sink_def Let_def)
    then have "src = []" using room False by (simp add: fb_room_def fb_pos_def)
    then show ?thesis using fb_write_full [OF fb c] fb room by simp
  qed
qed (simp add: fb_room_def)

lemma fb_sink_bytes:
  assumes "fb_sink fx cp rest fb" and "fx \<Longrightarrow> fb_pos fb = cp"
  shows "fb_bytes fb = fb_written fb @ bovs_bytes rest"
proof -
  from assms(1) obtain b where "fbuffers fb = b # rest" "owns_data (bv_buffer b) = (\<not> fx)"
    "capacity (bv_buffer b) = cp" "\<not> fx \<longrightarrow> bsize (bv_buffer b) = fb_pos fb" by (rule fb_sinkE)
  then show ?thesis using assms(2)
    by (cases fx) (auto simp: fb_bytes_def fb_written_def buffer_bytes_def capacity_def)
qed

lemma fb_sink_ok:
  assumes "fb_sink fx cp rest fb" and "bovs_ok rest" and "cp + length (bovs_bytes rest) < 2 ^ 63"
  shows "bovs_ok (fbuffers fb)"
proof -
  from assms(1) obtain b where "fbuffers fb = b # rest" "buffer_inv (bv_buffer b)" "capacity (bv_buffer b) = cp"
    by (rule fb_sinkE)
  then show ?thesis using assms(2,3) by (auto simp: capacity_def buffer_inv_def split: if_splits)
qed

lemma fb_written_length:
  assumes "fb_sink fx cp rest fb"
  shows "length (fb_written fb) = fb_pos fb" and "fb_pos fb \<le> cp"
proof -
  from assms obtain b where b: "fbuffers fb = b # rest" "buffer_inv (bv_buffer b)" "capacity (bv_buffer b) = cp"
    by (rule fb_sinkE)
  show "fb_pos fb \<le> cp" using assms b by (auto simp: fb_sink_def fb_pos_def Let_def)
  with b show "length (fb_written fb) = fb_pos fb"
    by (auto simp: fb_written_def capacity_def buffer_inv_def split: if_splits)
qed

section \<open>Prepending a buffer\<close>

text \<open>The buffers of the pool own their memory; what they hold is arbitrary.\<close>

definition pool_buffer :: "buffer \<Rightarrow> bool" where
  "pool_buffer gb \<longleftrightarrow> buffer_inv gb \<and> owns_data gb \<and> alloced_size gb < 2 ^ 62"

text \<open>
  What a filter may write its output to: an empty buffer, or a fixed allocation for exactly
  the bytes of the unfiltered chunk.
\<close>

definition fb_target :: "nat \<Rightarrow> filter_buffer \<Rightarrow> bool" where
  "fb_target n fb \<longleftrightarrow> fb = fb_new \<or>
     (\<exists>d. n \<le> length d \<and> length d < 2 ^ 63
        \<and> fb = fb_new\<lparr>fbuffers := [bov_new (buffer_wrap (Some d) n)], fixed_allocation := True,
                     fixed_allocation_op_allowed := True\<rparr>)"

lemma buffer_realloc_pool:
  assumes "pool_buffer gb" and "alloc_total al" and "n < 2 ^ 62"
  shows "\<exists>b. buffer_realloc al n gb = Inr b \<and> buffer_inv b \<and> owns_data b \<and> n \<le> alloced_size b
             \<and> alloced_size b < 2 ^ 62"
proof -
  have gb: "buffer_inv gb" "owns_data gb" "alloced_size gb < 2 ^ 62" using assms(1) by (simp_all add: pool_buffer_def)
  show ?thesis
  proof (cases "bdata gb")
    case None
    from alloc_total_malloc [OF assms(2)] obtain d where "malloc al n = Some d" "length d = n" by blast
    then show ?thesis using None gb assms(3) by (auto simp: buffer_realloc_def buffer_inv_def)
  next
    case (Some d0)
    show ?thesis
    proof (cases "alloced_size gb < n")
      case True
      then have "length d0 \<le> n" using Some gb by (simp add: buffer_inv_def)
      from alloc_total_realloc [OF assms(2) this] obtain d' where
        "mem_realloc al d0 n = Some d'" "length d' = n" by blast
      then show ?thesis using Some True gb assms(3) by (auto simp: buffer_realloc_def buffer_inv_def)
    next
      case False
      then show ?thesis using Some gb by (simp add: buffer_realloc_def)
    qed
  qed
qed

lemma fb_prepend_new:
  assumes "\<not> read_only fb" and "\<not> fixed_allocation fb" and "list_all solid (fbuffers fb)"
    and "pool_buffer gb" and "alloc_total al" and "n < 2 ^ 62"
  shows "\<exists>fb' cp. fb_prepend_buffer al gb n fb = Inr fb' \<and> fb_sink False cp (fbuffers fb) fb'
            \<and> fb_written fb' = [] \<and> n \<le> cp \<and> cp < 2 ^ 62"
proof -
  obtain b where b: "buffer_realloc al n gb = Inr b" "buffer_inv b" "owns_data b" "n \<le> alloced_size b"
    "alloced_size b < 2 ^ 62" using buffer_realloc_pool [OF assms(4-6)] by blast
  let ?fb = "fb_reset_offset (fb\<lparr>fbuffers := bov_new (buffer_reset_size (buffer_reset_offset b)) # fbuffers fb,
      foffset := add64 (foffset fb) n\<rparr>)"
  have "fb_prepend_buffer al gb n fb = Inr ?fb" using assms(1,2) b(1) by (simp add: fb_prepend_buffer_def)
  moreover have "fb_sink False (alloced_size b) (fbuffers fb) ?fb"
    using assms(1-3) b(2,3,5)
    by (auto simp: fb_sink_def fb_reset_offset_def bov_new_def buffer_reset_size_def buffer_reset_offset_def
        buffer_inv_def capacity_def fb_pos_def)
  moreover have "fb_written ?fb = []" by (simp add: fb_written_def fb_pos_def fb_reset_offset_def)
  ultimately show ?thesis using b(4,5) by blast
qed

lemma fb_prepend_target:
  assumes "fb_target m fb" and "n \<le> m" and "m < 2 ^ 62"
    and "pool_buffer gb" and "alloc_total al"
  shows "\<exists>fb' fx cp. fb_prepend_buffer al gb n fb = Inr fb' \<and> fb_sink fx cp [] fb' \<and> fb_written fb' = []
            \<and> n \<le> cp \<and> cp < 2 ^ 62 \<and> (fx \<longrightarrow> cp = m)"
proof -
  consider "fb = fb_new" | d where "m \<le> length d" "length d < 2 ^ 63"
    "fb = fb_new\<lparr>fbuffers := [bov_new (buffer_wrap (Some d) m)], fixed_allocation := True,
                 fixed_allocation_op_allowed := True\<rparr>"
    using assms(1) by (auto simp: fb_target_def)
  then show ?thesis
  proof cases
    case 1
    then show ?thesis using fb_prepend_new [of fb gb al n] assms(2-5) by (fastforce simp: fb_new_def)
  next
    case 2
    let ?fb = "fb_reset_offset (fb\<lparr>fixed_allocation_op_allowed := False\<rparr>)"
    have "fb_prepend_buffer al gb n fb = Inr ?fb" using 2 assms(2)
      by (simp add: fb_prepend_buffer_def fb_new_def bov_new_def buffer_wrap_def)
    moreover have "fb_sink True m [] ?fb"
      using 2(1,2) assms(3) unfolding 2(3)
      by (auto simp: fb_sink_def fb_reset_offset_def fb_new_def bov_new_def buffer_wrap_def
          buffer_inv_def capacity_def fb_pos_def)
    moreover have "fb_written ?fb = []" by (simp add: fb_written_def fb_pos_def fb_reset_offset_def)
    ultimately show ?thesis using assms(2,3) by blast
  qed
qed

section \<open>Views\<close>

lemma get_view_spec:
  assumes "buffer_inv (bv_buffer b)" and "rel + n \<le> bsize (bv_buffer b)"
  shows "buffer_inv (bv_buffer (get_view rel n b))"
    and "buffer_bytes (bv_buffer (get_view rel n b)) = take n (drop rel (buffer_bytes (bv_buffer b)))"
  using assms by (cases "bdata (bv_buffer b)";
      auto simp: get_view_def buffer_wrap_def buffer_data_at_def buffer_inv_def buffer_bytes_def drop_take min_def)+

lemma fb_views_spec:
  assumes "bovs_ok bs" and "pos_in rel bs"
  shows "bovs_bytes (fb_views rel n bs) = take n (drop rel (bovs_bytes bs))
       \<and> bovs_ok (fb_views rel n bs) \<and> list_all (\<lambda>v. \<not> owns_data (bv_buffer v)) (fb_views rel n bs)
       \<and> length (fb_views rel n bs) \<le> length bs"
  using assms
proof (induction bs arbitrary: rel n)
  case (Cons b bs)
  have b: "buffer_inv (bv_buffer b)" "rel \<le> bsize (bv_buffer b)" "bsize (bv_buffer b) < 2 ^ 63" "bovs_ok bs"
    using Cons.prems by simp_all
  define m where "m = min n (bsize (bv_buffer b) - rel)"
  have sub: "sub64 (bsize (bv_buffer b)) rel = bsize (bv_buffer b) - rel" using b(2,3) by (simp add: sub64_exact)
  have len: "length (buffer_bytes (bv_buffer b)) = bsize (bv_buffer b)" using b(1) by (rule length_buffer_bytes)
  have v: "buffer_inv (bv_buffer (get_view rel m b))"
    "buffer_bytes (bv_buffer (get_view rel m b)) = take m (drop rel (buffer_bytes (bv_buffer b)))"
    using get_view_spec [of b rel m] b(1,2) by (simp_all add: m_def)
  have "\<not> owns_data (bv_buffer (get_view rel m b))" by (simp add: get_view_def buffer_wrap_def)
  moreover have "bsize (bv_buffer (get_view rel m b)) = m" by (simp add: get_view_def buffer_wrap_def)
  moreover note IH = Cons.IH [OF b(4), of 0 "n - m"]
  moreover have "take m (drop rel (buffer_bytes (bv_buffer b))) @ take (n - m) (bovs_bytes bs)
      = take n (drop rel (bovs_bytes (b # bs)))"
    using len b(2) by (cases "n \<le> bsize (bv_buffer b) - rel") (simp_all add: m_def)
  moreover have "m + length (take (n - m) (bovs_bytes bs)) < 2 ^ 63" using Cons.prems by (auto simp: m_def)
  ultimately show ?case using v sub by (auto simp: Let_def m_def [symmetric] simp del: length_take)
qed simp

lemma fb_views_solid:
  "bovs_ok bs \<Longrightarrow> list_all solid bs \<Longrightarrow> list_all solid (fb_views 0 n bs)"
proof (induction bs arbitrary: n)
  case (Cons b bs)
  have "bsize (bv_buffer b) < 2 ^ 64" "solid b" using Cons.prems by simp_all
  then have "solid (get_view 0 (min n (bsize (bv_buffer b))) b)" if "0 < n"
    using that get_view_spec(1) [of b 0 "min n (bsize (bv_buffer b))"]
    by (simp add: solid_def get_view_def buffer_wrap_def)
  moreover have "sub64 (bsize (bv_buffer b)) 0 = bsize (bv_buffer b)" using Cons.prems by (simp add: sub64_exact)
  ultimately show ?case using Cons by (simp add: Let_def)
qed simp

lemma relative_offset_0:
  assumes "bovs_ok bs" and "bovs_bytes bs \<noteq> []"
  shows "\<exists>k. relative_offset 0 it bs = Inr (it + k, 0) \<and> bovs_bytes (drop k bs) = bovs_bytes bs"
  using assms
proof (induction bs arbitrary: it)
  case (Cons b bs)
  show ?case
  proof (cases "0 < capacity (bv_buffer b)")
    case True
    then show ?thesis by (intro exI [of _ 0]) simp
  next
    case False
    then have "buffer_bytes (bv_buffer b) = []" using Cons.prems(1)
      by (auto simp: capacity_def buffer_inv_def buffer_bytes_def split: if_splits)
    with Cons.IH [of "Suc it"] Cons.prems obtain k where "relative_offset 0 (Suc it) bs = Inr (Suc it + k, 0)"
      "bovs_bytes (drop k bs) = bovs_bytes bs" by auto
    then show ?thesis using False \<open>buffer_bytes (bv_buffer b) = []\<close> by (intro exI [of _ "Suc k"]) simp
  qed
qed simp

lemma relative_offset_single:
  assumes "bovs_ok bs" and "length bs \<le> 1" and "off < length (bovs_bytes bs)"
  shows "\<exists>b. bs = [b] \<and> off < bsize (bv_buffer b) \<and> relative_offset off it bs = Inr (it, off)"
proof -
  from assms(2,3) obtain b where b: "bs = [b]" by (cases bs) auto
  moreover have "off < bsize (bv_buffer b)" using assms b by (simp add: length_buffer_bytes)
  moreover from this have "off < capacity (bv_buffer b)" using assms(1) b by (simp add: capacity_def buffer_inv_def)
  ultimately show ?thesis by simp
qed

text \<open>Appending a view of everything in another buffer, to a buffer without a fixed allocation.\<close>

lemma fb_append_view_new:
  assumes "bovs_ok (fbuffers other)" and "\<not> read_only fb" and "\<not> fixed_allocation fb"
    and "current_buffer fb = Some 0" and "current_relative fb = 0" and "foffset fb = 0"
  shows "\<exists>vs. fb_append_view other fb = Inr (fb\<lparr>fbuffers := fbuffers fb @ vs\<rparr>)
      \<and> bovs_bytes vs = fb_bytes other \<and> bovs_ok vs \<and> list_all (\<lambda>v. \<not> owns_data (bv_buffer v)) vs
      \<and> length vs \<le> length (fbuffers other) \<and> (list_all solid (fbuffers other) \<longrightarrow> list_all solid vs)"
proof (cases "fb_bytes other = []")
  case True
  then show ?thesis using assms(1,2) fb_size_bytes [OF assms(1)]
    by (intro exI [of _ "[]"]) (simp add: fb_append_view_def fb_append_view_range_def)
next
  case False
  let ?bs = "fbuffers other" and ?n = "length (fb_bytes other)"
  obtain k where k: "relative_offset 0 0 ?bs = Inr (0 + k, 0)" "bovs_bytes (drop k ?bs) = bovs_bytes ?bs"
    using relative_offset_0 [OF assms(1)] False unfolding fb_bytes_def by blast
  have ok: "bovs_ok (drop k ?bs)" using assms(1) by (rule bovs_ok_drop)
  let ?vs = "fb_views 0 ?n (drop k ?bs)"
  have vs: "bovs_bytes ?vs = fb_bytes other" "bovs_ok ?vs" "list_all (\<lambda>v. \<not> owns_data (bv_buffer v)) ?vs"
    "length ?vs \<le> length (drop k ?bs)"
    using fb_views_spec [OF ok pos_in_0, of ?n] k(2) by (simp_all add: fb_bytes_def)
  have "list_all solid ?bs \<longrightarrow> list_all solid (drop k ?bs)" using set_drop_subset [of k ?bs] by (auto simp: list_all_iff)
  with fb_views_solid [OF ok, of ?n] have "list_all solid ?bs \<longrightarrow> list_all solid ?vs" by blast
  moreover have "fb_append_view other fb = Inr (fb\<lparr>fbuffers := fbuffers fb @ ?vs\<rparr>)"
    using assms k(1) False fb_size_bytes [OF assms(1)]
    by (simp add: fb_append_view_def fb_append_view_range_def get_relative_offset_def fb_reset_offset_def)
  ultimately show ?thesis using vs by (intro exI [of _ ?vs]) simp
qed

text \<open>The same for what is left of a buffer in one piece.\<close>

lemma fb_append_rest_new:
  assumes "bovs_ok (fbuffers other)" and "length (fbuffers other) \<le> 1" and "off \<le> length (fb_bytes other)"
  shows "\<exists>vs. fb_append_view_range other off (length (fb_bytes other) - off) fb_new = Inr (fb_new\<lparr>fbuffers := vs\<rparr>)
      \<and> bovs_bytes vs = drop off (fb_bytes other) \<and> bovs_ok vs \<and> length vs \<le> 1"
proof (cases "off = length (fb_bytes other)")
  case True
  then show ?thesis by (intro exI [of _ "[]"]) (simp add: fb_append_view_range_def fb_new_def)
next
  case False
  let ?bs = "fbuffers other" and ?n = "length (fb_bytes other) - off"
  have "off < length (bovs_bytes ?bs)" using False assms(3) by (simp add: fb_bytes_def)
  from relative_offset_single [OF assms(1,2) this, of 0] obtain b where
    b: "?bs = [b]" "off < bsize (bv_buffer b)" "relative_offset off 0 ?bs = Inr (0, off)" by blast
  have pos: "pos_in off ?bs" using b by simp
  let ?vs = "fb_views off ?n ?bs"
  have vs: "bovs_bytes ?vs = drop off (fb_bytes other)" "bovs_ok ?vs" "length ?vs \<le> length ?bs"
    using fb_views_spec [OF assms(1) pos, of ?n] by (simp_all add: fb_bytes_def)
  moreover have "fb_append_view_range other off ?n fb_new = Inr (fb_new\<lparr>fbuffers := ?vs\<rparr>)"
    using b(3) False assms(3)
    by (simp add: fb_append_view_range_def get_relative_offset_def fb_reset_offset_def fb_new_def)
  ultimately show ?thesis using b(1) by (intro exI [of _ ?vs]) simp
qed

text \<open>Passing the input on to the target of the output, when it is in one piece.\<close>

lemma fb_append_view_target:
  assumes "fb_target (length (fb_bytes other)) fb" and "bovs_ok (fbuffers other)"
    and "length (fbuffers other) \<le> 1"
  shows "\<exists>fb'. fb_append_view other fb = Inr fb' \<and> fb_bytes fb' = fb_bytes other \<and> bovs_ok (fbuffers fb')
            \<and> length (fbuffers fb') \<le> 1 \<and> \<not> read_only fb'"
proof -
  let ?n = "length (fb_bytes other)"
  consider "fb = fb_new" | d where "?n \<le> length d" "length d < 2 ^ 63"
    "fb = fb_new\<lparr>fbuffers := [bov_new (buffer_wrap (Some d) ?n)], fixed_allocation := True,
                 fixed_allocation_op_allowed := True\<rparr>"
    using assms(1) by (auto simp: fb_target_def)
  then show ?thesis
  proof cases
    case 1
    then show ?thesis using fb_append_view_new [OF assms(2), of fb] assms(3) by (auto simp: fb_new_def fb_bytes_def)
  next
    case 2
    note size = fb_size_bytes [OF assms(2)]
    show ?thesis
    proof (cases "fb_bytes other = []")
      case True
      then show ?thesis using size unfolding 2(3) using 2(1,2)
        by (simp add: fb_append_view_def fb_append_view_range_def fb_new_def fb_bytes_def bov_new_def
            buffer_wrap_def buffer_bytes_def buffer_inv_def)
    next
      case False
      then obtain b where b: "fbuffers other = [b]" using assms(3)
        by (cases "fbuffers other") (auto simp: fb_bytes_def)
      have bb: "buffer_inv (bv_buffer b)" "fb_bytes other = buffer_bytes (bv_buffer b)" "bsize (bv_buffer b) < 2 ^ 63"
        using assms(2) b by (simp_all add: fb_bytes_def)
      then have n: "?n = bsize (bv_buffer b)" "0 < bsize (bv_buffer b)"
        using length_buffer_bytes [OF bb(1)] False by (simp_all flip: length_greater_0_conv)
      have cp: "0 < capacity (bv_buffer b)" using n bb(1) by (auto simp: capacity_def buffer_inv_def)
      have rd: "mem_read (bdata (bv_buffer (get_view 0 ?n b))) 0 (bsize (bv_buffer (get_view 0 ?n b)))
          = Inr (fb_bytes other)"
        using get_view_spec [OF bb(1), of 0 ?n] n bb(2)
        by (simp add: mem_read_region buffer_inv_def buffer_bytes_def slice_def get_view_def buffer_wrap_def)
      have sub: "sub64 (bsize (bv_buffer b)) 0 = bsize (bv_buffer b)" using bb(3) by (simp add: sub64_exact)
      have wr: "mem_write (Some d) 0 (fb_bytes other) = Inr (Some (overwrite d 0 (fb_bytes other)))"
        using 2(1) False by (simp add: mem_write_def)
      let ?fb = "fb\<lparr>fixed_allocation_op_allowed := False,
          fbuffers := [bov_new (buffer_wrap (Some (overwrite d 0 (fb_bytes other))) ?n)]\<rparr>"
      have "fb_append_view other fb = Inr ?fb"
        using size False rd wr sub n cp b unfolding 2(3)
        by (simp add: fb_append_view_def fb_append_view_range_def fb_new_def bov_new_def buffer_wrap_def
            get_relative_offset_def copy_view_def Let_def fb_reset_offset_def)
      moreover have "fb_bytes ?fb = fb_bytes other" "bovs_ok (fbuffers ?fb)"
        using 2(1,2) take_overwrite_end [of 0 "fb_bytes other" d]
        by (simp_all add: fb_bytes_def bov_new_def buffer_wrap_def buffer_bytes_def buffer_inv_def length_overwrite)
      ultimately show ?thesis unfolding 2(3) by (auto simp: fb_new_def)
    qed
  qed
qed

end
