(* ===== verification/Filter_Interface.thy ===== *)
theory Filter_Interface
  imports Filter_Buffer Tdb_Enums
begin

text \<open>
  What the pipeline relies on when it runs a filter (\<open>filter/filter.h\<close>): the interface of
  \<open>Filter::run_forward\<close> and \<open>Filter::run_reverse\<close>. A filter reads its input and the metadata of the
  filters before it, and appends to an empty output and an empty output metadata. Its reverse,
  given the bytes it wrote, restores the input and hands on the metadata of the others.

  The first argument is the allocator, the second one gives the buffers that
  \<open>FilterStorage::get_buffer\<close> hands out during the run, in order.
\<close>

type_synonym filter_run =
  "allocator \<Rightarrow> (nat \<Rightarrow> buffer) \<Rightarrow> filter_buffer \<Rightarrow> filter_buffer \<Rightarrow> filter_buffer \<Rightarrow> filter_buffer
   \<Rightarrow> (filter_buffer \<times> filter_buffer \<times> filter_buffer \<times> filter_buffer) result"

text \<open>A call whose returned status is dropped.\<close>

definition drop_status :: "'a result \<Rightarrow> 'a \<Rightarrow> 'a result" where
  "drop_status r x = (case r of Inl (Err c m) \<Rightarrow> Inr x | _ \<Rightarrow> r)"

lemma drop_status_Inr [simp]: "drop_status (Inr x) y = Inr x"
  by (simp add: drop_status_def)

section \<open>Sizes\<close>

text \<open>
  The sizes of parts, windows and metadata are 32-bit numbers in the filters. The contract is for
  memory blocks below 256 MiB, for which none of them wraps; the chunks of a tile have 64 KiB.
\<close>

definition small_blocks :: "allocator \<Rightarrow> bool" where
  "small_blocks al \<longleftrightarrow> (\<forall>n. al n \<noteq> None \<longrightarrow> n < 2 ^ 28)"

definition small_pool :: "(nat \<Rightarrow> buffer) \<Rightarrow> bool" where
  "small_pool gb \<longleftrightarrow> (\<forall>i. pool_buffer (gb i) \<and> alloced_size (gb i) < 2 ^ 28)"

definition md_ok :: "filter_buffer \<Rightarrow> bool" where
  "md_ok fb \<longleftrightarrow> fb_start fb \<and> list_all solid (fbuffers fb) \<and> length (fb_bytes fb) < 2 ^ 32 \<and> length (fbuffers fb) < 2 ^ 20"

text \<open>The data of a chunk is never empty, and neither is any of its parts.\<close>

definition data_ok :: "filter_buffer \<Rightarrow> bool" where
  "data_ok fb \<longleftrightarrow> fb_start fb \<and> list_all solid (fbuffers fb) \<and> fb_bytes fb \<noteq> []
     \<and> length (fb_bytes fb) < 2 ^ 28 \<and> length (fbuffers fb) < 2 ^ 20"

text \<open>
  The result of a run: well-formed, within the limits, and not read-only. The metadata has at most one
  buffer more than the metadata of the input.
\<close>

definition md_done :: "filter_buffer \<Rightarrow> filter_buffer \<Rightarrow> bool" where
  "md_done im fb \<longleftrightarrow> bovs_ok (fbuffers fb) \<and> list_all solid (fbuffers fb) \<and> \<not> read_only fb
     \<and> length (fb_bytes fb) < length (fb_bytes im) + 2 ^ 28 \<and> length (fbuffers fb) \<le> Suc (length (fbuffers im))"

definition data_done :: "filter_buffer \<Rightarrow> bool" where
  "data_done fb \<longleftrightarrow> bovs_ok (fbuffers fb) \<and> list_all solid (fbuffers fb) \<and> \<not> read_only fb
     \<and> fb_bytes fb \<noteq> [] \<and> length (fb_bytes fb) < 2 ^ 28 \<and> length (fbuffers fb) < 2 ^ 20"

text \<open>The inputs of a reverse run are in one piece.\<close>

definition flat :: "byte list \<Rightarrow> filter_buffer \<Rightarrow> bool" where
  "flat bs fb \<longleftrightarrow> bovs_ok (fbuffers fb) \<and> length (fbuffers fb) \<le> 1 \<and> fb_bytes fb = bs"

section \<open>The contract\<close>

locale chunk_filter =
  fixes fwd rev :: filter_run
  assumes forward:
      "fwd al gb im inp fb_new fb_new = Inr (im1, inp1, om, out) \<Longrightarrow>
       small_blocks al \<Longrightarrow> small_pool gb \<Longrightarrow> md_ok im \<Longrightarrow> data_ok inp \<Longrightarrow>
       md_done im om \<and> data_done out"
    and undo:
      "fwd al gb im inp fb_new fb_new = Inr (im1, inp1, om, out) \<Longrightarrow>
       small_blocks al \<Longrightarrow> small_pool gb \<Longrightarrow> md_ok im \<Longrightarrow> data_ok inp \<Longrightarrow>
       flat (fb_bytes om) im' \<Longrightarrow> fb_start im' \<Longrightarrow> flat (fb_bytes out) inp' \<Longrightarrow> fb_start inp' \<Longrightarrow>
       fb_target (length (fb_bytes inp)) tgt \<Longrightarrow> alloc_total al' \<Longrightarrow> small_pool gb' \<Longrightarrow>
       \<exists>im2 inp2 om' out'. rev al' gb' im' inp' fb_new tgt = Inr (im2, inp2, om', out')
         \<and> flat (fb_bytes im) om' \<and> \<not> read_only om' \<and> flat (fb_bytes inp) out' \<and> \<not> read_only out'"

section \<open>Shared lemmas\<close>

lemma malloc_small: "small_blocks al \<Longrightarrow> malloc al n = Some d \<Longrightarrow> n < 2 ^ 28"
  by (auto simp: small_blocks_def malloc_def)

lemma mem_realloc_small: "small_blocks al \<Longrightarrow> mem_realloc al d0 n = Some d \<Longrightarrow> n < 2 ^ 28"
  by (auto simp: mem_realloc_def dest: malloc_small)

lemma small_poolD: "small_pool gb \<Longrightarrow> pool_buffer (gb i)" "small_pool gb \<Longrightarrow> alloced_size (gb i) < 2 ^ 28"
  by (simp_all add: small_pool_def)

lemma buffer_realloc_small:
  assumes "buffer_realloc al n gb = Inr b" and "small_blocks al" and "pool_buffer gb" and "alloced_size gb < 2 ^ 28"
  shows "buffer_inv b \<and> owns_data b \<and> n \<le> alloced_size b \<and> alloced_size b < 2 ^ 28"
proof (cases "bdata gb")
  case None
  then obtain d where "malloc al n = Some d" "b = gb\<lparr>bdata := Some d, alloced_size := n\<rparr>"
    using assms(1,3) by (auto simp: buffer_realloc_def pool_buffer_def split: option.splits)
  moreover from this have "length d = n" "n < 2 ^ 28"
    using length_malloc malloc_small [OF assms(2)] by blast+
  ultimately show ?thesis using assms(3) None by (simp add: pool_buffer_def buffer_inv_def)
next
  case (Some d0)
  have gb: "buffer_inv gb" "owns_data gb" "length d0 = alloced_size gb"
    using assms(3) Some by (simp_all add: pool_buffer_def buffer_inv_def)
  show ?thesis
  proof (cases "alloced_size gb < n")
    case True
    then obtain d where "mem_realloc al d0 n = Some d" "b = gb\<lparr>bdata := Some d, alloced_size := n\<rparr>"
      using assms(1) gb Some by (auto simp: buffer_realloc_def split: option.splits)
    moreover from this have "length d = n" "n < 2 ^ 28"
      using True gb(3) length_mem_realloc [of al d0 n] mem_realloc_small [OF assms(2)] by auto
    ultimately show ?thesis using gb Some True by (simp add: buffer_inv_def)
  next
    case False
    then show ?thesis using assms(1,4) gb Some by (simp add: buffer_realloc_def)
  qed
qed

text \<open>A successful prepend in the forward direction: the new buffer is below the limit.\<close>

lemma fb_prepend_small:
  assumes "fb_prepend_buffer al (gb i) n fb = Inr fb'" and "small_blocks al" and "small_pool gb"
    and "\<not> fixed_allocation fb" and "list_all solid (fbuffers fb)"
  shows "\<exists>cp. fb_sink False cp (fbuffers fb) fb' \<and> fb_written fb' = [] \<and> n \<le> cp \<and> cp < 2 ^ 28"
proof -
  from assms(1,4) obtain b where ro: "\<not> read_only fb" and b: "buffer_realloc al n (gb i) = Inr b"
    and fb': "fb' = fb_reset_offset (fb\<lparr>fbuffers := bov_new (buffer_reset_size (buffer_reset_offset b)) # fbuffers fb,
                   foffset := add64 (foffset fb) n\<rparr>)"
    by (auto simp: fb_prepend_buffer_def bindR_Inr split: if_splits)
  have b': "buffer_inv b" "owns_data b" "n \<le> alloced_size b" "alloced_size b < 2 ^ 28"
    using buffer_realloc_small [OF b assms(2)] assms(3) by (simp_all add: small_pool_def)
  moreover have "fb_sink False (alloced_size b) (fbuffers fb) fb'"
    using b' assms(4,5) ro unfolding fb'
    by (auto simp: fb_sink_def fb_reset_offset_def bov_new_def buffer_reset_size_def buffer_reset_offset_def
        buffer_inv_def capacity_def fb_pos_def)
  moreover have "fb_written fb' = []" by (simp add: fb' fb_written_def fb_pos_def fb_reset_offset_def)
  ultimately show ?thesis by blast
qed

text \<open>A prepend succeeds when the block can be allocated.\<close>

lemma fb_prepend_ok:
  assumes "\<not> read_only fb" and "\<not> fixed_allocation fb" and "list_all solid (fbuffers fb)"
    and "small_pool gb" and "al n \<noteq> None" and "n < 2 ^ 28"
  shows "\<exists>fb' cp. fb_prepend_buffer al (gb i) n fb = Inr fb' \<and> fb_sink False cp (fbuffers fb) fb'
            \<and> fb_written fb' = [] \<and> n \<le> cp"
proof -
  define al' where "al' = (\<lambda>m. if al m = None then Some [] else al m)"
  have "alloc_total al'" by (simp add: alloc_total_def al'_def)
  moreover have "al' n = al n" using assms(5) by (simp add: al'_def)
  then have "malloc al n = malloc al' n" "mem_realloc al d n = mem_realloc al' d n" for d
    by (simp_all add: malloc_def mem_realloc_def)
  then have "buffer_realloc al n b = buffer_realloc al' n b" for b
    by (simp only: buffer_realloc_def)
  then have "fb_prepend_buffer al (gb i) n fb = fb_prepend_buffer al' (gb i) n fb"
    by (simp add: fb_prepend_buffer_def)
  moreover have "n < 2 ^ 62" using assms(6) by simp
  ultimately show ?thesis
    using fb_prepend_new [OF assms(1-3) small_poolD(1) [OF assms(4)], of al' n i] by auto
qed

lemma fb_prepend_reset: "fb_prepend_buffer al gb n fb = Inr fb' \<Longrightarrow> fb_reset_offset fb' = fb'"
  by (auto simp: fb_prepend_buffer_def bindR_Inr fb_reset_offset_def split: if_splits)

lemma solid_count: "bovs_ok bs \<Longrightarrow> list_all solid bs \<Longrightarrow> length bs \<le> length (bovs_bytes bs)"
proof (induction bs)
  case (Cons b bs)
  then show ?case using length_buffer_bytes [of "bv_buffer b"] by (auto simp: solid_def)
qed simp

text \<open>The results of a forward run that wrote to prepended buffers.\<close>

lemma data_done_sink:
  assumes "fb_sink False cp [] out" and "cp < 2 ^ 28" and "fb_written out \<noteq> []"
  shows "data_done out"
proof -
  have "length (fb_bytes out) \<le> cp"
    using fb_sink_bytes [OF assms(1)] fb_written_length [OF assms(1)] by simp
  moreover have "0 < fb_pos out" using assms(3) fb_written_length [OF assms(1)] by (simp flip: length_greater_0_conv)
  then have "list_all solid (fbuffers out)" using assms(1) by (auto elim!: fb_sinkE simp: solid_def)
  moreover have "fb_bytes out \<noteq> []" using fb_sink_bytes [OF assms(1)] assms(3) by simp
  moreover have "length (fbuffers out) = 1" using assms(1) by (auto elim!: fb_sinkE)
  ultimately show ?thesis using fb_sink_ok [OF assms(1)] assms by (simp add: data_done_def fb_sink_def)
qed

lemma md_done_sink:
  assumes "fb_sink False cp vs om" and "cp < 2 ^ 28" and "fb_written om \<noteq> []" and "bovs_ok vs" and "list_all solid vs"
    and "bovs_bytes vs = fb_bytes im" and "length vs \<le> length (fbuffers im)" and "length (fb_bytes im) < 2 ^ 32"
  shows "md_done im om"
proof -
  have pos: "0 < fb_pos om" "fb_pos om \<le> cp"
    using assms(3) fb_written_length [OF assms(1)] by (simp_all flip: length_greater_0_conv)
  from assms(1) obtain b where b: "fbuffers om = b # vs" "buffer_inv (bv_buffer b)" "bsize (bv_buffer b) = fb_pos om"
    by (auto elim!: fb_sinkE)
  then have "list_all solid (fbuffers om)" using pos assms(5) by (simp add: solid_def)
  moreover have "length (fb_bytes om) < length (bovs_bytes vs) + 2 ^ 28"
    using fb_sink_bytes [OF assms(1)] fb_written_length [OF assms(1)] assms(2) by simp
  moreover have "cp + length (bovs_bytes vs) < 2 ^ 63" using assms(2,6,8) by simp
  ultimately show ?thesis using fb_sink_ok [OF assms(1,4)] assms(1,6,7) b(1) by (simp add: md_done_def fb_sink_def)
qed

section \<open>Copying from one filter buffer to another\<close>

lemma fb_write_from_loop_spec:
  assumes "bovs_ok bs" and "pos_in rel bs" and "n \<le> length (bovs_bytes bs) - rel"
    and "fb_sink fx cp rest fb" and "fb_room cp fb (n + m)"
  shows "\<exists>fb'. fb_write_from_loop n rel bs fb = Inr (0, fb') \<and> fb_sink fx cp rest fb'
           \<and> fb_written fb' = fb_written fb @ take n (drop rel (bovs_bytes bs)) \<and> fb_room cp fb' m"
  using assms
proof (induction bs arbitrary: n rel fb)
  case Nil
  then show ?case by simp
next
  case (Cons b bs)
  let ?b = "bv_buffer b"
  have b: "buffer_inv ?b" "rel \<le> bsize ?b" "bsize ?b < 2 ^ 63" "bovs_ok bs" using Cons.prems(1,2) by simp_all
  have len: "length (buffer_bytes ?b) = bsize ?b" using b(1) by (rule length_buffer_bytes)
  define k where "k = min n (bsize ?b - rel)"
  have sub: "sub64 (bsize ?b) rel = bsize ?b - rel" using b(2,3) by (simp add: sub64_exact)
  have "rel + k \<le> cap (bdata ?b)" using b(1,2) by (auto simp: k_def buffer_inv_def)
  then have rd: "mem_read (bdata ?b) rel k = Inr (take k (drop rel (buffer_bytes ?b)))"
    using b(2) by (simp add: mem_read_region slice_def buffer_bytes_def drop_take k_def)
  have "length (take k (drop rel (buffer_bytes ?b))) = k" using len by (simp add: k_def)
  moreover have "fb_room cp fb (k + ((n - k) + m))" using Cons.prems(5) by (simp add: k_def)
  ultimately obtain fb1 where fb1: "fb_write (take k (drop rel (buffer_bytes ?b))) fb = Inr fb1"
    "fb_sink fx cp rest fb1" "fb_written fb1 = fb_written fb @ take k (drop rel (buffer_bytes ?b))"
    "fb_room cp fb1 ((n - k) + m)"
    using fsink.put_ok [OF Cons.prems(4), of "take k (drop rel (buffer_bytes ?b))" "n - k + m"] by auto
  have "n - k \<le> length (bovs_bytes bs) - 0" using Cons.prems(3) len b(2) by (auto simp: k_def)
  from Cons.IH [OF b(4) pos_in_0 this fb1(2,4)] obtain fb' where fb':
    "fb_write_from_loop (n - k) 0 bs fb1 = Inr (0, fb')" "fb_sink fx cp rest fb'"
    "fb_written fb' = fb_written fb1 @ take (n - k) (bovs_bytes bs)" "fb_room cp fb' m" by auto
  have "take k (drop rel (buffer_bytes ?b)) @ take (n - k) (bovs_bytes bs) = take n (drop rel (bovs_bytes (b # bs)))"
    using len b(2) by (cases "n \<le> bsize ?b - rel") (simp_all add: k_def)
  then show ?case using fb' fb1(1,3) rd sub Cons.prems(4,5)
    by (cases "n = 0") (auto simp: Let_def k_def [symmetric])
qed

lemma fb_write_from_spec:
  assumes "fb_source src" and "n \<le> length (fb_rest src)"
    and "fb_sink fx cp rest fb" and "fb_room cp fb (n + m)"
  shows "\<exists>fb'. fb_write_from src n fb = Inr fb' \<and> fb_sink fx cp rest fb'
           \<and> fb_written fb' = fb_written fb @ take n (fb_rest src) \<and> fb_room cp fb' m"
proof -
  from assms(1) obtain c where c: "current_buffer src = Some c" "bovs_ok (drop c (fbuffers src))"
    "pos_in (current_relative src) (drop c (fbuffers src))"
    "fb_rest src = drop (current_relative src) (bovs_bytes (drop c (fbuffers src)))" by (rule fb_sourceE)
  have "n \<le> length (bovs_bytes (drop c (fbuffers src))) - current_relative src" using assms(2) c(4) by simp
  from fb_write_from_loop_spec [OF c(2,3) this assms(3,4)] c(1,4) show ?thesis
    using assms(3) by (auto simp: fb_write_from_def fb_sink_def)
qed

text \<open>Skipping bytes of a buffer in one piece.\<close>

lemma fb_advance_flat:
  assumes "fb_source fb" and "length (fbuffers fb) \<le> 1" and "fb_rest fb \<noteq> []" and "n \<le> length (fb_rest fb)"
  shows "\<exists>fb'. fb_advance_offset n fb = Inr fb' \<and> fb_source fb' \<and> fb_rest fb' = drop n (fb_rest fb)
           \<and> fbuffers fb' = fbuffers fb"
proof -
  obtain b where bs: "fbuffers fb = [b]" using assms(2,3)
    by (cases "fbuffers fb") (auto simp: fb_rest_def fb_bytes_def)
  have len: "length (fb_bytes fb) = bsize (bv_buffer b)" "bsize (bv_buffer b) < 2 ^ 63"
    using assms(1) bs by (auto simp: fb_source_def fb_bytes_def length_buffer_bytes)
  have c: "current_buffer fb = Some 0" "foffset fb = current_relative fb"
    "current_relative fb + n \<le> bsize (bv_buffer b)"
  proof -
    obtain c where "current_buffer fb = Some c" "c \<le> 1"
      "foffset fb = length (bovs_bytes (take c (fbuffers fb))) + current_relative fb"
      using assms(1) bs by (auto simp: fb_source_def)
    moreover have "foffset fb < bsize (bv_buffer b)" "foffset fb + n \<le> bsize (bv_buffer b)"
      using assms(3,4) len by (simp_all add: fb_rest_def)
    ultimately show "current_buffer fb = Some 0" "foffset fb = current_relative fb"
      "current_relative fb + n \<le> bsize (bv_buffer b)"
      using bs len by (cases c; auto simp: fb_bytes_def)+
  qed
  have add: "add64 (current_relative fb) n = current_relative fb + n" using c(3) len(2) by (simp add: add64_exact)
  let ?e = "current_relative fb + n = bsize (bv_buffer b)"
  let ?fb = "fb\<lparr>current_relative := if ?e then 0 else current_relative fb + n,
      current_buffer := Some (if ?e then 1 else 0), foffset := foffset fb + n\<rparr>"
  have "fb_advance_offset n fb = Inr ?fb"
    using c bs add by (auto simp: fb_advance_offset_def Let_def)
  moreover have "fb_source ?fb" using assms(1) c bs len by (auto simp: fb_source_def fb_bytes_def)
  moreover have "fb_rest ?fb = drop n (fb_rest fb)" by (simp add: fb_rest_def fb_bytes_def add.commute)
  ultimately show ?thesis by (intro exI [of _ ?fb]) simp
qed

section \<open>The filter that does nothing\<close>

text \<open>
  \<open>NoopFilter\<close>, in both directions (\<open>filter/noop_filter.cc\<close>); other filters do the same on types
  they do not support.
\<close>

definition noop_run :: filter_run where
  "noop_run al gb input_metadata input output_metadata output =
     bindR (fb_append_view input output) (\<lambda>out1.
     bindR (fb_append_view input_metadata output_metadata) (\<lambda>md1.
       Inr (input_metadata, input, md1, out1)))"

text \<open>Handing the metadata on, in both directions.\<close>

lemma forward_md:
  assumes "bovs_ok (fbuffers im)"
  shows "\<exists>vs. fb_append_view im fb_new = Inr (fb_new\<lparr>fbuffers := vs\<rparr>) \<and> bovs_bytes vs = fb_bytes im \<and> bovs_ok vs
      \<and> list_all (\<lambda>v. \<not> owns_data (bv_buffer v)) vs \<and> length vs \<le> length (fbuffers im)
      \<and> (list_all solid (fbuffers im) \<longrightarrow> list_all solid vs)"
  using fb_append_view_new [OF assms, of fb_new] by (simp add: fb_new_def)

lemma flat_rest:
  assumes "flat bs im" and "off \<le> length bs"
  shows "\<exists>om. fb_append_view_range im off (length bs - off) fb_new = Inr om
            \<and> flat (drop off bs) om \<and> \<not> read_only om"
  using fb_append_rest_new [of im off] assms
  by (auto simp: flat_def fb_bytes_def fb_new_def)

interpretation noop: chunk_filter noop_run noop_run
proof unfold_locales
  fix al gb im inp im1 inp1 om out
  assume run: "noop_run al gb im inp fb_new fb_new = Inr (im1, inp1, om, out)" and "small_blocks al" "small_pool gb"
    and im: "md_ok im" and inp: "data_ok inp"
  from im inp have ok: "bovs_ok (fbuffers im)" "bovs_ok (fbuffers inp)"
    by (simp_all add: md_ok_def data_ok_def fb_start_def)
  from forward_md [OF ok(1)] forward_md [OF ok(2)] obtain vs us where
    vs: "fb_append_view im fb_new = Inr (fb_new\<lparr>fbuffers := vs\<rparr>)" "bovs_bytes vs = fb_bytes im" "bovs_ok vs"
      "list_all solid (fbuffers im) \<longrightarrow> list_all solid vs" "length vs \<le> length (fbuffers im)"
    and us: "fb_append_view inp fb_new = Inr (fb_new\<lparr>fbuffers := us\<rparr>)" "bovs_bytes us = fb_bytes inp" "bovs_ok us"
      "list_all solid (fbuffers inp) \<longrightarrow> list_all solid us" "length us \<le> length (fbuffers inp)"
    by blast
  from run have r: "om = fb_new\<lparr>fbuffers := vs\<rparr>" "out = fb_new\<lparr>fbuffers := us\<rparr>"
    using vs(1) us(1) by (simp_all add: noop_run_def)
  show "md_done im om \<and> data_done out"
    using vs us im inp unfolding r
    by (simp add: md_done_def data_done_def md_ok_def data_ok_def fb_bytes_def fb_new_def)
  fix im' inp' tgt al' gb'
  assume "flat (fb_bytes om) im'" and "fb_start im'" and "flat (fb_bytes out) inp'" and "fb_start inp'"
    and tgt: "fb_target (length (fb_bytes inp)) tgt" and "alloc_total al'" and "small_pool gb'"
  then have im': "flat (fb_bytes im) im'" and inp': "flat (fb_bytes inp) inp'"
    using vs(2) us(2) by (simp_all add: r fb_bytes_def)
  from fb_append_view_target [of inp' tgt] tgt inp' obtain out' where
    out': "fb_append_view inp' tgt = Inr out'" "flat (fb_bytes inp) out'" "\<not> read_only out'"
    by (auto simp: flat_def)
  from im' have "bovs_ok (fbuffers im')" by (simp add: flat_def)
  from forward_md [OF this] im' obtain ws where
    "fb_append_view im' fb_new = Inr (fb_new\<lparr>fbuffers := ws\<rparr>)" "flat (fb_bytes im) (fb_new\<lparr>fbuffers := ws\<rparr>)"
    by (auto simp: flat_def fb_bytes_def)
  with out' show "\<exists>im2 inp2 om' out'. noop_run al' gb' im' inp' fb_new tgt = Inr (im2, inp2, om', out')
       \<and> flat (fb_bytes im) om' \<and> \<not> read_only om' \<and> flat (fb_bytes inp) out' \<and> \<not> read_only out'"
    by (simp add: noop_run_def fb_new_def)
qed

end
