(* ===== verification/Filter_Objects.thy ===== *)
theory Filter_Objects
  imports Tdb_Serial Filter_Interface Tdb_Tile
begin

text \<open>
  The filter objects and the pipeline as a list of them: creating, cloning, options and
  serialization (\<open>filter/filter.cc\<close>, the constructors, options and \<open>serialize_impl\<close> functions of its
  subclasses, and \<open>filter/filter_pipeline.cc\<close>). The fields of an object are its type, where it is
  not fixed by the class, and its parameters. A compressor is kept as the byte that is stored for it,
  because \<open>deserialize_impl\<close> takes any byte.
\<close>

section \<open>Filters\<close>

datatype filter_obj =
    NoopFilter
  | CompressionFilter FilterType byte "32 word"
  | BitWidthReductionFilter "32 word"
  | BitshuffleFilter
  | ByteshuffleFilter
  | PositiveDeltaFilter "32 word"
  | EncryptionAES256GCMFilter "byte list option"
  | ChecksumMD5Filter
  | ChecksumSHA256Filter

primrec filter_type :: "filter_obj \<Rightarrow> FilterType" where
  "filter_type NoopFilter = FILTER_NONE"
| "filter_type (CompressionFilter t c l) = t"
| "filter_type (BitWidthReductionFilter w) = FILTER_BIT_WIDTH_REDUCTION"
| "filter_type BitshuffleFilter = FILTER_BITSHUFFLE"
| "filter_type ByteshuffleFilter = FILTER_BYTESHUFFLE"
| "filter_type (PositiveDeltaFilter w) = FILTER_POSITIVE_DELTA"
| "filter_type (EncryptionAES256GCMFilter k) = INTERNAL_FILTER_AES_256_GCM"
| "filter_type ChecksumMD5Filter = FILTER_CHECKSUM_MD5"
| "filter_type ChecksumSHA256Filter = FILTER_CHECKSUM_SHA256"

text \<open>The numbers of the enumerations.\<close>

primrec filter_type_code :: "FilterType \<Rightarrow> byte" where
  "filter_type_code FILTER_NONE = 0"
| "filter_type_code FILTER_GZIP = 1"
| "filter_type_code FILTER_ZSTD = 2"
| "filter_type_code FILTER_LZ4 = 3"
| "filter_type_code FILTER_RLE = 4"
| "filter_type_code FILTER_BZIP2 = 5"
| "filter_type_code FILTER_DOUBLE_DELTA = 6"
| "filter_type_code FILTER_BIT_WIDTH_REDUCTION = 7"
| "filter_type_code FILTER_BITSHUFFLE = 8"
| "filter_type_code FILTER_BYTESHUFFLE = 9"
| "filter_type_code FILTER_POSITIVE_DELTA = 10"
| "filter_type_code INTERNAL_FILTER_AES_256_GCM = 11"
| "filter_type_code FILTER_CHECKSUM_MD5 = 12"
| "filter_type_code FILTER_CHECKSUM_SHA256 = 13"

primrec compressor_code :: "Compressor \<Rightarrow> byte" where
  "compressor_code NO_COMPRESSION = 0"
| "compressor_code GZIP = 1"
| "compressor_code ZSTD = 2"
| "compressor_code LZ4 = 3"
| "compressor_code RLE = 4"
| "compressor_code BZIP2 = 5"
| "compressor_code DOUBLE_DELTA = 6"

definition compressor_to_filter :: "byte \<Rightarrow> FilterType result" where
  "compressor_to_filter c =
     (if c = compressor_code NO_COMPRESSION then Inr FILTER_NONE
      else if c = compressor_code GZIP then Inr FILTER_GZIP
      else if c = compressor_code ZSTD then Inr FILTER_ZSTD
      else if c = compressor_code LZ4 then Inr FILTER_LZ4
      else if c = compressor_code RLE then Inr FILTER_RLE
      else if c = compressor_code BZIP2 then Inr FILTER_BZIP2
      else if c = compressor_code DOUBLE_DELTA then Inr FILTER_DOUBLE_DELTA
      else Inl AssertFail)"

fun filter_to_compressor :: "FilterType \<Rightarrow> Compressor result" where
  "filter_to_compressor FILTER_NONE = Inr NO_COMPRESSION"
| "filter_to_compressor FILTER_GZIP = Inr GZIP"
| "filter_to_compressor FILTER_ZSTD = Inr ZSTD"
| "filter_to_compressor FILTER_LZ4 = Inr LZ4"
| "filter_to_compressor FILTER_RLE = Inr RLE"
| "filter_to_compressor FILTER_BZIP2 = Inr BZIP2"
| "filter_to_compressor FILTER_DOUBLE_DELTA = Inr DOUBLE_DELTA"
| "filter_to_compressor _ = Inl AssertFail"

text \<open>The two constructors of \<open>CompressionFilter\<close>, and \<open>set_compressor\<close>.\<close>

definition compression_of_type :: "FilterType \<Rightarrow> 32 word \<Rightarrow> filter_obj result" where
  "compression_of_type t level =
     bindR (filter_to_compressor t) (\<lambda>c. Inr (CompressionFilter t (compressor_code c) level))"

definition compression_of_compressor :: "byte \<Rightarrow> 32 word \<Rightarrow> filter_obj result" where
  "compression_of_compressor c level =
     bindR (compressor_to_filter c) (\<lambda>t. Inr (CompressionFilter t c level))"

definition set_compressor :: "byte \<Rightarrow> filter_obj \<Rightarrow> filter_obj result" where
  "set_compressor c f = (case f of CompressionFilter t c0 level \<Rightarrow> compression_of_compressor c level | _ \<Rightarrow> Inr f)"

text \<open>\<open>Filter::create\<close>, on a byte that is cast to a \<open>FilterType\<close>.\<close>

fun create_filter :: "FilterType \<Rightarrow> filter_obj result" where
  "create_filter FILTER_NONE = Inr NoopFilter"
| "create_filter FILTER_BIT_WIDTH_REDUCTION = Inr (BitWidthReductionFilter 256)"
| "create_filter FILTER_BITSHUFFLE = Inr BitshuffleFilter"
| "create_filter FILTER_BYTESHUFFLE = Inr ByteshuffleFilter"
| "create_filter FILTER_POSITIVE_DELTA = Inr (PositiveDeltaFilter 1024)"
| "create_filter INTERNAL_FILTER_AES_256_GCM = Inr (EncryptionAES256GCMFilter None)"
| "create_filter FILTER_CHECKSUM_MD5 = Inr ChecksumMD5Filter"
| "create_filter FILTER_CHECKSUM_SHA256 = Inr ChecksumSHA256Filter"
| "create_filter t = compression_of_type t (- 1)"

definition filter_types :: "FilterType list" where
  "filter_types = [FILTER_NONE, FILTER_GZIP, FILTER_ZSTD, FILTER_LZ4, FILTER_RLE, FILTER_BZIP2, FILTER_DOUBLE_DELTA,
     FILTER_BIT_WIDTH_REDUCTION, FILTER_BITSHUFFLE, FILTER_BYTESHUFFLE, FILTER_POSITIVE_DELTA,
     INTERNAL_FILTER_AES_256_GCM, FILTER_CHECKSUM_MD5, FILTER_CHECKSUM_SHA256]"

definition create_filter_code :: "byte \<Rightarrow> filter_obj result" where
  "create_filter_code c = (case find (\<lambda>t. filter_type_code t = c) filter_types of None \<Rightarrow> Inl AssertFail | Some t \<Rightarrow> create_filter t)"

definition clone_filter :: "filter_obj \<Rightarrow> filter_obj result" where
  "clone_filter f = (case f of CompressionFilter t c level \<Rightarrow> compression_of_compressor c level | _ \<Rightarrow> Inr f)"

section \<open>Options\<close>

text \<open>The pointer to the value of an option: null, or 32 bits.\<close>

definition no_options :: error where
  "no_options = filter_error ''Filter does not support options.''"

definition compression_set_option :: "FilterOption \<Rightarrow> 32 word option \<Rightarrow> 32 word result" where
  "compression_set_option opt v =
     (case v of None \<Rightarrow> Inl (filter_error ''Compression filter error; invalid option value'')
      | Some x \<Rightarrow> if opt = COMPRESSION_LEVEL then Inr x
                  else Inl (filter_error ''Compression filter error; unknown option''))"

definition bit_width_set_option :: "FilterOption \<Rightarrow> 32 word option \<Rightarrow> 32 word result" where
  "bit_width_set_option opt v =
     (case v of None \<Rightarrow> Inl (filter_error ''Bit width reduction filter error; invalid option value'')
      | Some x \<Rightarrow> if opt = BIT_WIDTH_MAX_WINDOW then Inr x
                  else Inl (filter_error ''Bit width reduction filter error; unknown option''))"

definition positive_delta_set_option :: "FilterOption \<Rightarrow> 32 word option \<Rightarrow> 32 word result" where
  "positive_delta_set_option opt v =
     (case v of None \<Rightarrow> Inl (filter_error ''Positive delta filter error; invalid option value'')
      | Some x \<Rightarrow> if opt = POSITIVE_DELTA_MAX_WINDOW then Inr x
                  else Inl (filter_error ''Positive delta filter error; unknown option''))"

fun set_option :: "FilterOption \<Rightarrow> 32 word option \<Rightarrow> filter_obj \<Rightarrow> filter_obj result" where
  "set_option opt v (CompressionFilter t c level) = bindR (compression_set_option opt v) (\<lambda>x. Inr (CompressionFilter t c x))"
| "set_option opt v (BitWidthReductionFilter w) = bindR (bit_width_set_option opt v) (\<lambda>x. Inr (BitWidthReductionFilter x))"
| "set_option opt v (PositiveDeltaFilter w) = bindR (positive_delta_set_option opt v) (\<lambda>x. Inr (PositiveDeltaFilter x))"
| "set_option opt v f = Inl no_options"

definition compression_get_option :: "FilterOption \<Rightarrow> 32 word \<Rightarrow> 32 word result" where
  "compression_get_option opt level =
     (if opt = COMPRESSION_LEVEL then Inr level else Inl (filter_error ''Compression filter error; unknown option''))"

definition bit_width_get_option :: "FilterOption \<Rightarrow> 32 word \<Rightarrow> 32 word result" where
  "bit_width_get_option opt w =
     (if opt = BIT_WIDTH_MAX_WINDOW then Inr w else Inl (filter_error ''Bit width reduction filter error; unknown option''))"

definition positive_delta_get_option :: "FilterOption \<Rightarrow> 32 word \<Rightarrow> 32 word result" where
  "positive_delta_get_option opt w =
     (if opt = POSITIVE_DELTA_MAX_WINDOW then Inr w else Inl (filter_error ''Positive delta filter error; unknown option''))"

fun get_option_impl :: "FilterOption \<Rightarrow> filter_obj \<Rightarrow> 32 word result" where
  "get_option_impl opt (CompressionFilter t c level) = compression_get_option opt level"
| "get_option_impl opt (BitWidthReductionFilter w) = bit_width_get_option opt w"
| "get_option_impl opt (PositiveDeltaFilter w) = positive_delta_get_option opt w"
| "get_option_impl opt f = Inl no_options"

definition get_option :: "FilterOption \<Rightarrow> bool \<Rightarrow> filter_obj \<Rightarrow> 32 word result" where
  "get_option opt null f =
     (if null then Inl (filter_error ''Cannot get option; null value pointer'') else get_option_impl opt f)"

section \<open>Serialization\<close>

definition compression_serialize :: "allocator \<Rightarrow> byte \<Rightarrow> 32 word \<Rightarrow> buffer \<Rightarrow> buffer result" where
  "compression_serialize al c level b = bindR (write_num al c b) (write_num al level)"

definition compression_deserialize :: "FilterType \<Rightarrow> const_buffer \<Rightarrow> (filter_obj \<times> const_buffer) result" where
  "compression_deserialize t cb =
     bindR (read_num cb) (\<lambda>(c, cb1). bindR (read_num cb1) (\<lambda>(level, cb2). Inr (CompressionFilter t c level, cb2)))"

definition bit_width_deserialize :: "const_buffer \<Rightarrow> (filter_obj \<times> const_buffer) result" where
  "bit_width_deserialize cb = bindR (read_num cb) (\<lambda>(w, cb1). Inr (BitWidthReductionFilter w, cb1))"

definition positive_delta_deserialize :: "const_buffer \<Rightarrow> (filter_obj \<times> const_buffer) result" where
  "positive_delta_deserialize cb = bindR (read_num cb) (\<lambda>(w, cb1). Inr (PositiveDeltaFilter w, cb1))"

primrec serialize_impl :: "allocator \<Rightarrow> filter_obj \<Rightarrow> buffer \<Rightarrow> buffer result" where
  "serialize_impl al NoopFilter b = Inr b"
| "serialize_impl al (CompressionFilter t c level) b = compression_serialize al c level b"
| "serialize_impl al (BitWidthReductionFilter w) b = write_num al w b"
| "serialize_impl al BitshuffleFilter b = Inr b"
| "serialize_impl al ByteshuffleFilter b = Inr b"
| "serialize_impl al (PositiveDeltaFilter w) b = write_num al w b"
| "serialize_impl al (EncryptionAES256GCMFilter k) b = Inr b"
| "serialize_impl al ChecksumMD5Filter b = Inr b"
| "serialize_impl al ChecksumSHA256Filter b = Inr b"

text \<open>The length of the metadata is written as 0 first, and corrected afterwards.\<close>

definition filter_serialize :: "allocator \<Rightarrow> filter_obj \<Rightarrow> buffer \<Rightarrow> buffer result" where
  "filter_serialize al f b =
     bindR (write_num al (filter_type_code (filter_type f)) b) (\<lambda>b1.
     bindR (write_num al (0 :: 32 word) b1) (\<lambda>b2.
     bindR (serialize_impl al f b2) (\<lambda>b3.
       if bsize b3 < bsize b2 \<or> bsize b3 - bsize b2 > 2 ^ 32 - 1
       then Inl (filter_error ''Filter metadata exceeds max length'')
       else bindR (mem_write (bdata b3) (boffset b1) (bytes_of (of_nat (bsize b3 - bsize b2) :: 32 word))) (\<lambda>d.
         Inr (b3\<lparr>bdata := d\<rparr>)))))"

primrec deserialize_impl :: "filter_obj \<Rightarrow> const_buffer \<Rightarrow> (filter_obj \<times> const_buffer) result" where
  "deserialize_impl NoopFilter cb = Inr (NoopFilter, cb)"
| "deserialize_impl (CompressionFilter t c0 level0) cb = compression_deserialize t cb"
| "deserialize_impl (BitWidthReductionFilter w0) cb = bit_width_deserialize cb"
| "deserialize_impl BitshuffleFilter cb = Inr (BitshuffleFilter, cb)"
| "deserialize_impl ByteshuffleFilter cb = Inr (ByteshuffleFilter, cb)"
| "deserialize_impl (PositiveDeltaFilter w0) cb = positive_delta_deserialize cb"
| "deserialize_impl (EncryptionAES256GCMFilter k) cb = Inr (EncryptionAES256GCMFilter k, cb)"
| "deserialize_impl ChecksumMD5Filter cb = Inr (ChecksumMD5Filter, cb)"
| "deserialize_impl ChecksumSHA256Filter cb = Inr (ChecksumSHA256Filter, cb)"

definition filter_deserialize :: "const_buffer \<Rightarrow> (filter_obj \<times> const_buffer) result" where
  "filter_deserialize cb =
     bindR (read_num cb) (\<lambda>(type, cb1).
     bindR (read_num cb1) (\<lambda>(filter_metadata_len :: 32 word, cb2).
     bindR (create_filter_code type) (\<lambda>f0.
     bindR (deserialize_impl f0 cb2) (\<lambda>(f, cb3).
       if sub64 (coffset cb3) (coffset cb2) \<noteq> unat filter_metadata_len
       then Inl (filter_error ''Deserialization error; unexpected metadata length'')
       else Inr (f, cb3)))))"

section \<open>The pipeline as a list of filters\<close>

record filter_pipeline =
  filters :: "filter_obj list"
  max_chunk_size :: "32 word"

definition pipeline_new :: filter_pipeline where
  "pipeline_new = \<lparr>filters = [], max_chunk_size = of_nat max_tile_chunk_size\<rparr>"

definition add_filter :: "filter_obj \<Rightarrow> filter_pipeline \<Rightarrow> filter_pipeline result" where
  "add_filter f p = bindR (clone_filter f) (\<lambda>c. Inr (p\<lparr>filters := filters p @ [c]\<rparr>))"

definition pipeline_clear :: "filter_pipeline \<Rightarrow> filter_pipeline" where
  "pipeline_clear p = p\<lparr>filters := []\<rparr>"

text \<open>The copy constructor drops the statuses of \<open>add_filter\<close>, which has none but success.\<close>

definition pipeline_copy :: "filter_pipeline \<Rightarrow> filter_pipeline result" where
  "pipeline_copy other =
     bindR (foldR (\<lambda>p f. add_filter f p) (pipeline_new\<lparr>filters := []\<rparr>) (filters other)) (\<lambda>p.
       Inr (p\<lparr>max_chunk_size := max_chunk_size other\<rparr>))"

definition pipeline_swap :: "filter_pipeline \<Rightarrow> filter_pipeline \<Rightarrow> filter_pipeline \<times> filter_pipeline" where
  "pipeline_swap p other = (other, p)"

definition get_filter :: "nat \<Rightarrow> filter_pipeline \<Rightarrow> filter_obj option" where
  "get_filter index p = (if index \<ge> length (filters p) then None else Some (filters p ! index))"

definition set_max_chunk_size :: "32 word \<Rightarrow> filter_pipeline \<Rightarrow> filter_pipeline" where
  "set_max_chunk_size n p = p\<lparr>max_chunk_size := n\<rparr>"

definition pipeline_size :: "filter_pipeline \<Rightarrow> nat" where
  "pipeline_size p = u32 (length (filters p))"

definition pipeline_empty :: "filter_pipeline \<Rightarrow> bool" where
  "pipeline_empty p = (filters p = [])"

text \<open>An encryption key is its type and the pointer to its bytes.\<close>

definition append_encryption_filter :: "EncryptionType \<times> byte list option \<Rightarrow> filter_pipeline \<Rightarrow> filter_pipeline result" where
  "append_encryption_filter key p =
     (case fst key of NO_ENCRYPTION \<Rightarrow> Inr p | AES_256_GCM \<Rightarrow> add_filter (EncryptionAES256GCMFilter (snd key)) p)"

definition serialized_as :: "filter_obj \<Rightarrow> filter_obj" where
  "serialized_as f = (case f of CompressionFilter t c level \<Rightarrow> if t = FILTER_NONE then NoopFilter else f | _ \<Rightarrow> f)"

definition pipeline_serialize :: "allocator \<Rightarrow> filter_pipeline \<Rightarrow> buffer \<Rightarrow> buffer result" where
  "pipeline_serialize al p b =
     bindR (write_num al (max_chunk_size p) b) (\<lambda>b1.
     bindR (write_num al (of_nat (length (filters p)) :: 32 word) b1) (\<lambda>b2.
       foldR (\<lambda>b f. filter_serialize al (serialized_as f) b) b2 (filters p)))"

fun deserialize_filters :: "nat \<Rightarrow> filter_pipeline \<Rightarrow> const_buffer \<Rightarrow> (filter_pipeline \<times> const_buffer) result" where
  "deserialize_filters 0 p cb = Inr (p, cb)"
| "deserialize_filters (Suc n) p cb =
     bindR (filter_deserialize cb) (\<lambda>(f, cb1). bindR (add_filter f p) (\<lambda>p1. deserialize_filters n p1 cb1))"

definition pipeline_deserialize :: "filter_pipeline \<Rightarrow> const_buffer \<Rightarrow> (filter_pipeline \<times> const_buffer) result" where
  "pipeline_deserialize p0 cb =
     (let p = pipeline_clear p0 in
      bindR (read_num cb) (\<lambda>(mcs, cb1).
      bindR (read_num cb1) (\<lambda>(num_filters :: 32 word, cb2).
        deserialize_filters (unat num_filters) (p\<lparr>max_chunk_size := mcs\<rparr>) cb2)))"

section \<open>Round trips\<close>

text \<open>The bytes of the parameters of a filter, and of the filter.\<close>

primrec impl_bytes :: "filter_obj \<Rightarrow> byte list" where
  "impl_bytes NoopFilter = []"
| "impl_bytes (CompressionFilter t c level) = bytes_of c @ bytes_of level"
| "impl_bytes (BitWidthReductionFilter w) = bytes_of w"
| "impl_bytes BitshuffleFilter = []"
| "impl_bytes ByteshuffleFilter = []"
| "impl_bytes (PositiveDeltaFilter w) = bytes_of w"
| "impl_bytes (EncryptionAES256GCMFilter k) = []"
| "impl_bytes ChecksumMD5Filter = []"
| "impl_bytes ChecksumSHA256Filter = []"

definition filter_bytes :: "filter_obj \<Rightarrow> byte list" where
  "filter_bytes f = bytes_of (filter_type_code (filter_type f)) @ bytes_of (of_nat (length (impl_bytes f)) :: 32 word) @ impl_bytes f"

lemma length_impl_bytes: "length (impl_bytes f) \<le> 5"
  by (cases f) simp_all

lemma writes_impl: "writes al (serialize_impl al f) (impl_bytes f)"
proof (cases f)
  case (CompressionFilter t c level)
  have "writes al (\<lambda>b. bindR (write_num al c b) (write_num al level)) (bytes_of c @ bytes_of level)"
    by (intro serial_intros)
  then show ?thesis using CompressionFilter by (simp add: writes_def compression_serialize_def)
next
  case (BitWidthReductionFilter w)
  then show ?thesis using writes_num [of al w] by (simp add: writes_def)
next
  case (PositiveDeltaFilter w)
  then show ?thesis using writes_num [of al w] by (simp add: writes_def)
qed (simp_all add: writes_def)

text \<open>Correcting four bytes inside a buffer.\<close>

lemma patch_bytes:
  assumes "buffer_sink b" and "buffer_bytes b = pre @ old @ post" and "length new = length old"
  shows "\<exists>d. mem_write (bdata b) (length pre) new = Inr d \<and> buffer_sink (b\<lparr>bdata := d\<rparr>)
           \<and> buffer_bytes (b\<lparr>bdata := d\<rparr>) = pre @ new @ post"
proof -
  have inv: "buffer_inv b" and len: "bsize b = length pre + length old + length post"
    using assms(1,2) length_buffer_bytes [of b] by (simp_all add: buffer_sink_def)
  show ?thesis
  proof (cases "bdata b")
    case None
    then have "pre = [] \<and> old = [] \<and> post = []" using inv len by (simp add: buffer_inv_def)
    then show ?thesis using None assms(1,3) by (simp add: mem_write_def buffer_bytes_def buffer_sink_def buffer_inv_def)
  next
    case (Some D)
    have le: "bsize b \<le> length D" using inv Some by (simp add: buffer_inv_def)
    have "take (bsize b) D = pre @ old @ post" using assms(2) Some by (simp add: buffer_bytes_def)
    then obtain x where D: "D = pre @ old @ post @ x" using append_take_drop_id [of "bsize b" D] by (metis append.assoc)
    let ?D = "pre @ new @ post @ x"
    have "overwrite D (length pre) new = ?D" using assms(3) by (simp add: D overwrite_def)
    moreover have "length pre + length new \<le> length D" using assms(3) by (simp add: D)
    ultimately have "mem_write (bdata b) (length pre) new = Inr (Some ?D)" using Some by (auto simp: mem_write_def)
    moreover have "length ?D = length D" using assms(3) by (simp add: D)
    ultimately show ?thesis using assms(1,3) Some len
      by (intro exI [of _ "Some ?D"]) (simp add: buffer_sink_def buffer_inv_def buffer_bytes_def)
  qed
qed

lemma writes_filter: "writes al (filter_serialize al f) (filter_bytes f)"
  unfolding writes_def
proof (intro allI impI)
  fix b n
  let ?c = "bytes_of (filter_type_code (filter_type f))" and ?m = "impl_bytes f"
  assume b: "buffer_sink b" "buffer_room al b (length (filter_bytes f) + n)"
  have "buffer_room al b (length ?c + (4 + (length ?m + n)))" using b(2) by (simp add: filter_bytes_def add.assoc)
  from writesD [OF writes_num b(1) this] obtain b1 where
    b1: "write_num al (filter_type_code (filter_type f)) b = Inr b1" "buffer_sink b1"
      "buffer_bytes b1 = buffer_bytes b @ ?c" "buffer_room al b1 (4 + (length ?m + n))" by blast
  from writesD [OF writes_num [of al "0 :: 32 word"] b1(2), of "length ?m + n"] b1(4) obtain b2 where
    b2: "write_num al (0 :: 32 word) b1 = Inr b2" "buffer_sink b2"
      "buffer_bytes b2 = buffer_bytes b1 @ bytes_of (0 :: 32 word)" "buffer_room al b2 (length ?m + n)" by auto
  from writesD [OF writes_impl b2(2,4)] obtain b3 where
    b3: "serialize_impl al f b2 = Inr b3" "buffer_sink b3" "buffer_bytes b3 = buffer_bytes b2 @ ?m" "buffer_room al b3 n" by blast
  have sz: "bsize b' = length (buffer_bytes b')" if "buffer_sink b'" for b' using that length_buffer_bytes [of b'] by (simp add: buffer_sink_def)
  have d: "bsize b3 - bsize b2 = length ?m" "\<not> bsize b3 < bsize b2" using sz [OF b2(2)] sz [OF b3(2)] b3(3) by simp_all
  have off: "boffset b1 = length (buffer_bytes b @ ?c)" using b1(2,3) sz [OF b1(2)] by (simp add: buffer_sink_def)
  have "buffer_bytes b3 = (buffer_bytes b @ ?c) @ bytes_of (0 :: 32 word) @ ?m" using b1(3) b2(3) b3(3) by simp
  from patch_bytes [OF b3(2) this, of "bytes_of (of_nat (length ?m) :: 32 word)"] obtain D where
    D: "mem_write (bdata b3) (boffset b1) (bytes_of (of_nat (length ?m) :: 32 word)) = Inr D" "buffer_sink (b3\<lparr>bdata := D\<rparr>)"
      "buffer_bytes (b3\<lparr>bdata := D\<rparr>) = buffer_bytes b @ filter_bytes f" by (auto simp: off filter_bytes_def)
  have "\<not> length ?m > 2 ^ 32 - 1" using length_impl_bytes [of f] by simp
  then have "filter_serialize al f b = Inr (b3\<lparr>bdata := D\<rparr>)" using b1(1) b2(1) b3(1) d D(1) by (simp add: filter_serialize_def)
  moreover have "buffer_room al (b3\<lparr>bdata := D\<rparr>) n" using b3(4) by (simp add: buffer_room_def)
  ultimately show "\<exists>b'. filter_serialize al f b = Inr b' \<and> buffer_sink b' \<and> buffer_bytes b' = buffer_bytes b @ filter_bytes f \<and> buffer_room al b' n"
    using D by blast
qed

text \<open>
  Filters as the constructors make them: the compressor fits the type. The key of an encryption filter is
  not stored.
\<close>

fun consistent :: "filter_obj \<Rightarrow> bool" where
  "consistent (CompressionFilter t c level) \<longleftrightarrow> compressor_to_filter c = Inr t"
| "consistent f \<longleftrightarrow> True"

fun without_key :: "filter_obj \<Rightarrow> filter_obj" where
  "without_key (EncryptionAES256GCMFilter k) = EncryptionAES256GCMFilter None"
| "without_key f = f"

lemma create_filter_type:
  "create_filter_code (filter_type_code t) = create_filter t"
  by (cases t) (simp_all add: create_filter_code_def filter_types_def)

text \<open>What \<open>create\<close> makes for the type of a filter has the class of the filter.\<close>

lemma created_class:
  assumes "consistent f" and "serialized_as f = f"
  shows "\<exists>f0. create_filter (filter_type f) = Inr f0 \<and> reads (deserialize_impl f0) (impl_bytes f) (without_key f)"
proof (cases f)
  case (CompressionFilter t c level)
  have "reads (\<lambda>cb. bindR (read_num cb) (\<lambda>(c, cb1). bindR (read_num cb1) (\<lambda>(level, cb2). Inr (CompressionFilter t c level, cb2))))
          (bytes_of c @ bytes_of level @ []) (CompressionFilter t c level)"
    by (rule serial_intros)+
  moreover have "\<exists>c0. create_filter t = Inr (CompressionFilter t c0 (- 1))"
    using assms CompressionFilter
    by (cases t) (auto simp: compression_of_type_def compressor_to_filter_def serialized_as_def split: if_splits)
  ultimately show ?thesis using CompressionFilter by (auto simp: reads_def compression_deserialize_def)
next
  case (BitWidthReductionFilter w)
  have "reads (\<lambda>cb. bindR (read_num cb) (\<lambda>(w, cb1). Inr (BitWidthReductionFilter w, cb1))) (bytes_of w @ []) (BitWidthReductionFilter w)"
    by (rule serial_intros)+
  then show ?thesis using BitWidthReductionFilter by (simp add: reads_def bit_width_deserialize_def)
next
  case (PositiveDeltaFilter w)
  have "reads (\<lambda>cb. bindR (read_num cb) (\<lambda>(w, cb1). Inr (PositiveDeltaFilter w, cb1))) (bytes_of w @ []) (PositiveDeltaFilter w)"
    by (rule serial_intros)+
  then show ?thesis using PositiveDeltaFilter by (simp add: reads_def positive_delta_deserialize_def)
qed (simp_all add: reads_def)

lemma reads_filter:
  assumes "consistent f" and "serialized_as f = f"
  shows "reads filter_deserialize (filter_bytes f) (without_key f)"
  unfolding reads_def
proof (intro allI impI)
  fix cb ys
  let ?m = "impl_bytes f"
  assume cb: "cb_inv cb" "cb_rest cb = filter_bytes f @ ys"
  from created_class [OF assms] obtain f0 where
    f0: "create_filter (filter_type f) = Inr f0" "reads (deserialize_impl f0) ?m (without_key f)" by blast
  from readsD [OF reads_nums(1) cb(1), of "filter_type_code (filter_type f)"] cb(2) obtain cb1 where
    cb1: "read_num cb = Inr (filter_type_code (filter_type f), cb1)" "cb_inv cb1" "coffset cb1 = coffset cb + 1"
      "cb_rest cb1 = bytes_of (of_nat (length ?m) :: 32 word) @ ?m @ ys" by (auto simp: filter_bytes_def)
  from readsD [OF reads_nums(3) cb1(2,4)] obtain cb2 where
    cb2: "read_num cb1 = Inr (of_nat (length ?m) :: 32 word, cb2)" "cb_inv cb2" "cb_rest cb2 = ?m @ ys"
      "coffset cb2 = coffset cb1 + 4" by auto
  from readsD [OF f0(2) cb2(2,3)] obtain cb3 where
    cb3: "deserialize_impl f0 cb2 = Inr (without_key f, cb3)" "cb_inv cb3" "cb_rest cb3 = ys" "coffset cb3 = coffset cb2 + length ?m" by blast
  have "sub64 (coffset cb3) (coffset cb2) = length ?m"
    using cb3(2,4) by (subst sub64_exact) (auto simp: cb_inv_def)
  moreover have "unat (of_nat (length ?m) :: 32 word) = length ?m"
    using length_impl_bytes [of f] by (simp add: unat_of_nat take_bit_nat_eq_self_iff)
  ultimately have "filter_deserialize cb = Inr (without_key f, cb3)"
    using cb1(1) cb2(1) cb3(1) f0(1) by (simp add: filter_deserialize_def create_filter_type)
  moreover have "coffset cb3 = coffset cb + length (filter_bytes f)"
    using cb1(3) cb2(4) cb3(4) by (simp add: filter_bytes_def)
  ultimately show "\<exists>cb'. filter_deserialize cb = Inr (without_key f, cb') \<and> cb_inv cb' \<and> cb_rest cb' = ys
      \<and> coffset cb' = coffset cb + length (filter_bytes f)" using cb3(2,3) by blast
qed

lemma serialized_as_idem [simp]: "serialized_as (serialized_as f) = serialized_as f"
  by (auto simp: serialized_as_def split: filter_obj.splits)

lemma serialized_as_consistent: "consistent f \<Longrightarrow> consistent (serialized_as f)"
  by (auto simp: serialized_as_def split: filter_obj.splits)

lemma clone_consistent: "consistent f \<Longrightarrow> clone_filter (without_key f) = Inr (without_key f)"
  by (cases f) (simp_all add: clone_filter_def compression_of_compressor_def)

lemma reads_filters:
  assumes "list_all consistent fs"
  shows "reads (deserialize_filters (length fs) p) (concat (map (\<lambda>f. filter_bytes (serialized_as f)) fs))
           (p\<lparr>filters := filters p @ map (\<lambda>f. without_key (serialized_as f)) fs\<rparr>)"
  using assms
proof (induction fs arbitrary: p)
  case Nil
  then show ?case by (simp add: reads_def)
next
  case (Cons f fs)
  let ?f = "serialized_as f" and ?g = "without_key (serialized_as f)"
  have f: "consistent ?f" using Cons.prems serialized_as_consistent by simp
  have add: "add_filter ?g p = Inr (p\<lparr>filters := filters p @ [?g]\<rparr>)" using clone_consistent [OF f] by (simp add: add_filter_def)
  have "reads (deserialize_filters (length fs) (p\<lparr>filters := filters p @ [?g]\<rparr>)) (concat (map (\<lambda>f. filter_bytes (serialized_as f)) fs))
      (p\<lparr>filters := (filters p @ [?g]) @ map (\<lambda>f. without_key (serialized_as f)) fs\<rparr>)"
    using Cons.IH [of "p\<lparr>filters := filters p @ [?g]\<rparr>"] Cons.prems by simp
  then have "reads (\<lambda>cb. bindR (add_filter ?g p) (\<lambda>p1. deserialize_filters (length fs) p1 cb)) (concat (map (\<lambda>f. filter_bytes (serialized_as f)) fs))
      (p\<lparr>filters := (filters p @ [?g]) @ map (\<lambda>f. without_key (serialized_as f)) fs\<rparr>)" by (simp add: add)
  from reads_bind [where h = "\<lambda>f cb. bindR (add_filter f p) (\<lambda>p1. deserialize_filters (length fs) p1 cb)",
      OF reads_filter [OF f serialized_as_idem] this]
  show ?case by (simp add: reads_def)
qed

definition pipeline_bytes :: "filter_pipeline \<Rightarrow> byte list" where
  "pipeline_bytes p = bytes_of (max_chunk_size p) @ bytes_of (of_nat (length (filters p)) :: 32 word)
     @ concat (map (\<lambda>f. filter_bytes (serialized_as f)) (filters p))"

lemma writes_pipeline: "writes al (pipeline_serialize al p) (pipeline_bytes p)"
proof -
  have "writes al (\<lambda>b. bindR (write_num al (max_chunk_size p) b) (\<lambda>b1.
     bindR (write_num al (of_nat (length (filters p)) :: 32 word) b1) (\<lambda>b2.
       foldR (\<lambda>b f. filter_serialize al (serialized_as f) b) b2 (filters p)))) (pipeline_bytes p)"
    unfolding pipeline_bytes_def by (intro serial_intros writes_filter)
  then show ?thesis by (simp add: writes_def pipeline_serialize_def)
qed

definition restored_pipeline :: "filter_pipeline \<Rightarrow> filter_pipeline" where
  "restored_pipeline p = p\<lparr>filters := map (\<lambda>f. without_key (serialized_as f)) (filters p)\<rparr>"

lemma reads_pipeline:
  assumes "list_all consistent (filters p)" and "length (filters p) < 2 ^ 32"
  shows "reads (pipeline_deserialize p0) (pipeline_bytes p) (restored_pipeline p)"
proof -
  let ?n = "of_nat (length (filters p)) :: 32 word"
  have n: "unat ?n = length (filters p)" using assms(2) by (simp add: unat_of_nat take_bit_nat_eq_self_iff)
  have eq: "p0\<lparr>max_chunk_size := max_chunk_size p, filters := xs\<rparr> = p\<lparr>filters := xs\<rparr>" for xs
    by (cases p0; cases p) simp
  have "reads (deserialize_filters (unat ?n) ((pipeline_clear p0)\<lparr>max_chunk_size := max_chunk_size p\<rparr>))
      (concat (map (\<lambda>f. filter_bytes (serialized_as f)) (filters p))) (restored_pipeline p)"
    using reads_filters [OF assms(1), of "(pipeline_clear p0)\<lparr>max_chunk_size := max_chunk_size p\<rparr>"]
      by (simp add: n eq pipeline_clear_def restored_pipeline_def)
  then have "reads (\<lambda>cb. bindR (read_num cb) (\<lambda>(mcs, cb1). bindR (read_num cb1) (\<lambda>(num_filters :: 32 word, cb2).
        deserialize_filters (unat num_filters) ((pipeline_clear p0)\<lparr>max_chunk_size := mcs\<rparr>) cb2))) (pipeline_bytes p) (restored_pipeline p)"
    unfolding pipeline_bytes_def by - (rule serial_intros | assumption)+
  then show ?thesis by (simp add: reads_def pipeline_deserialize_def Let_def)
qed

text \<open>
  C14: Storing a filter pipeline. A pipeline of filters as the constructors and the option setters make
  them is serialized completely, and deserializing the bytes into any pipeline gives it back: the same
  filters with the same parameters in the same order, except that a compression filter without a
  compressor comes back as the filter that does nothing, and an encryption filter without its key.
\<close>

theorem pipeline_serialize_round_trip:
  assumes "list_all consistent (filters p)" and "length (filters p) < 2 ^ 32" and "alloc_total al"
  shows "\<exists>b cb. pipeline_serialize al p buffer_new = Inr b
           \<and> pipeline_deserialize p0 (cb_of_buffer b) = Inr (restored_pipeline p, cb) \<and> cb_rest cb = []"
proof -
  have "length (filter_bytes f) \<le> 10" for f using length_impl_bytes [of f] by (simp add: filter_bytes_def)
  then have "length (concat (map (\<lambda>f. filter_bytes (serialized_as f)) fs)) \<le> 10 * length fs" for fs
    by (induction fs) (auto intro: add_mono)
  from this [of "filters p"] have "length (pipeline_bytes p) < 2 ^ 63" using assms(2) by (simp add: pipeline_bytes_def)
  from write_read [OF writes_pipeline reads_pipeline [OF assms(1,2)] assms(3) this] show ?thesis by blast
qed

theorem pipeline_serialize_round_trip_witness:
  "\<exists>b cb. pipeline_serialize (\<lambda>n. Some []) \<lparr>filters = [PositiveDeltaFilter 512, CompressionFilter FILTER_ZSTD 2 5], max_chunk_size = 65536\<rparr> buffer_new = Inr b
     \<and> pipeline_deserialize pipeline_new (cb_of_buffer b)
       = Inr (\<lparr>filters = [PositiveDeltaFilter 512, CompressionFilter FILTER_ZSTD 2 5], max_chunk_size = 65536\<rparr>, cb) \<and> cb_rest cb = []"
  using pipeline_serialize_round_trip [of "\<lparr>filters = [PositiveDeltaFilter 512, CompressionFilter FILTER_ZSTD 2 5], max_chunk_size = 65536\<rparr>"
      "\<lambda>n. Some []" pipeline_new]
  by (simp add: alloc_total_def compressor_to_filter_def restored_pipeline_def serialized_as_def)

text \<open>Setting an option is refused, or is seen by \<open>get_option\<close> and changes nothing else.\<close>

lemma set_option_get_option:
  assumes "set_option opt v f = Inr f'" and "consistent f"
  shows "\<exists>x. v = Some x \<and> get_option opt False f' = Inr x \<and> filter_type f' = filter_type f \<and> consistent f'
       \<and> (opt' \<noteq> opt \<longrightarrow> get_option opt' False f' = get_option opt' False f)"
  using assms
  by (cases f) (auto simp: get_option_def bindR_Inr compression_set_option_def bit_width_set_option_def positive_delta_set_option_def
      compression_get_option_def bit_width_get_option_def positive_delta_get_option_def split: option.splits if_splits)

end
