(* ===== verification/Dimension_Ops.thy ===== *)
theory Dimension_Ops
  imports Tdb_Range Tdb_Double Tdb_Tile Tdb_Uri Filter_Objects
begin

text \<open>
  Dimensions (\<open>array_schema/dimension.{h,cc}\<close>): the operations on ranges of coordinates that queries, tiles
  and the R-tree are built on. The templates have one definition for all integral types and one for strings;
  their instances for \<open>float\<close> and \<open>double\<close> are parameters of the functions that choose the instance.
\<close>

section \<open>Dimensions\<close>

record dimension =
  dim_name :: string
  dim_type :: Datatype
  cell_val_num :: nat
  dim_filters :: filter_pipeline
  dim_domain :: range
  tile_extent :: "byte list"

definition var_num :: nat where
  "var_num = 2 ^ 32 - 1"

definition dim_error :: "string \<Rightarrow> error" where
  "dim_error msg = Err SC_Dimension msg"

definition dimension_new :: "string \<Rightarrow> Datatype \<Rightarrow> dimension" where
  "dimension_new name type =
     \<lparr>dim_name = name, dim_type = type, cell_val_num = (if datatype_is_string type then var_num else 1),
      dim_filters = pipeline_new, dim_domain = range_new, tile_extent = []\<rparr>"

definition var_size :: "dimension \<Rightarrow> bool" where
  "var_size dm = (cell_val_num dm = var_num)"

definition coord_size :: "dimension \<Rightarrow> nat" where
  "coord_size dm = datatype_size (dim_type dm)"

text \<open>The instance of the templates that a datatype selects.\<close>

datatype dim_class = Integral ity | Real nat | Str | NoInstance

fun dim_class_of :: "Datatype \<Rightarrow> dim_class" where
  "dim_class_of INT8 = Integral \<lparr>isigned = True, ibits = 8\<rparr>"
| "dim_class_of UINT8 = Integral \<lparr>isigned = False, ibits = 8\<rparr>"
| "dim_class_of INT16 = Integral \<lparr>isigned = True, ibits = 16\<rparr>"
| "dim_class_of UINT16 = Integral \<lparr>isigned = False, ibits = 16\<rparr>"
| "dim_class_of INT32 = Integral int32_ty"
| "dim_class_of UINT32 = Integral \<lparr>isigned = False, ibits = 32\<rparr>"
| "dim_class_of INT64 = Integral int64_ty"
| "dim_class_of UINT64 = Integral uint64_ty"
| "dim_class_of FLOAT32 = Real 32"
| "dim_class_of FLOAT64 = Real 64"
| "dim_class_of STRING_ASCII = Str"
| "dim_class_of t = (if datatype_is_datetime t then Integral int64_ty else NoInstance)"

text \<open>The value of the tile extent, \<open>*(const T*)tile_extent_.data()\<close>.\<close>

definition extent_val :: "ity \<Rightarrow> dimension \<Rightarrow> int result" where
  "extent_val ty dm = (if length (tile_extent dm) < isize ty then Inl UB else Inr (val_of ty (take (isize ty) (tile_extent dm))))"

section \<open>Strings\<close>

text \<open>The order of \<open>std::string\<close>.\<close>

fun str_less :: "byte list \<Rightarrow> byte list \<Rightarrow> bool" where
  "str_less _ [] = False"
| "str_less [] (y # ys) = True"
| "str_less (x # xs) (y # ys) = (x < y \<or> (x = y \<and> str_less xs ys))"

text \<open>A character of a string; the one behind the last is the terminating null. A \<open>char\<close> is signed.\<close>

definition str_char :: "byte list \<Rightarrow> nat \<Rightarrow> byte result" where
  "str_char s i = (if i < length s then Inr (s ! i) else if i = length s then Inr 0 else Inl UB)"

section \<open>Setting the domain and the tile extent\<close>

definition check_domain :: "ity \<Rightarrow> dimension \<Rightarrow> unit result" where
  "check_domain ty dm =
     (if range_empty (dim_domain dm) then Inl AssertFail
      else bindR (range_vals ty (dim_domain dm)) (\<lambda>(d0, d1).
        if d1 < d0 then Inl (dim_error ''Domain check failed; Upper domain bound should not be smaller than the lower one'')
        else bindR (arith (promote ty) (d1 - d0)) (\<lambda>n.
          if conv uint64_ty n = 2 ^ 64 - 1
          then Inl (dim_error ''Domain check failed; Domain range (upper + lower + 1) is larger than the maximum uint64 number'')
          else Inr ())))"

definition check_domain_d :: "(nat \<Rightarrow> dimension \<Rightarrow> unit result) \<Rightarrow> dimension \<Rightarrow> unit result" where
  "check_domain_d fl dm =
     (case dim_class_of (dim_type dm) of
        Integral ty \<Rightarrow> check_domain ty dm
      | Real n \<Rightarrow> fl n dm
      | _ \<Rightarrow> Inl (dim_error ''Domain check failed; Invalid dimension domain type''))"

definition check_tile_extent_upper_floor :: "ity \<Rightarrow> int \<Rightarrow> int \<Rightarrow> int \<Rightarrow> unit result" where
  "check_tile_extent_upper_floor ty d0 d1 ext =
     (let T_FLOOR = (if isigned ty then int64_ty else uint64_ty); p = promote ty in
      bindR (arith p (d1 - d0)) (\<lambda>n0. bindR (arith p (n0 + 1)) (\<lambda>n1.
      let range = conv uint64_ty n1; uext = conv uint64_ty ext in
      if uext = 0 then Inl UB
      else let upper_floor = conv T_FLOOR ((conv uint64_ty (range - 1) div uext * uext + conv uint64_ty d0) mod 2 ^ 64) in
        bindR (arith p (ext - 1)) (\<lambda>e1. bindR (arith T_FLOOR (ty_max T_FLOOR - conv T_FLOOR e1)) (\<lambda>upper_floor_max.
        let extent_max = ty_max ty in
        if upper_floor > upper_floor_max \<or> upper_floor > extent_max
        then Inl (dim_error (''Tile extent check failed; domain max expanded to multiple of tile extent exceeds max value '' @
               ''representable by domain type. Reduce domain max by 1 tile extent to allow for expansion.''))
        else Inr ())))))"

definition check_tile_extent :: "ity \<Rightarrow> dimension \<Rightarrow> unit result" where
  "check_tile_extent ty dm =
     (if range_empty (dim_domain dm) then Inl (dim_error ''Tile extent check failed; Domain not set'')
      else if tile_extent dm = [] then Inr ()
      else bindR (extent_val ty dm) (\<lambda>ext. bindR (range_vals ty (dim_domain dm)) (\<lambda>(d0, d1).
        if ext \<le> 0 then Inl (dim_error ''Tile extent check failed; Tile extent must be greater than 0'')
        else bindR (arith (promote ty) (d1 - d0)) (\<lambda>n0. bindR (arith (promote ty) (n0 + 1)) (\<lambda>n1.
          let range = conv uint64_ty n1 in
          if conv uint64_ty ext > range
          then Inl (dim_error ''Tile extent check failed; Tile extent exceeds dimension domain range'')
          else if range mod conv uint64_ty ext \<noteq> 0 then check_tile_extent_upper_floor ty d0 d1 ext
          else Inr ())))))"

definition check_tile_extent_d :: "(nat \<Rightarrow> dimension \<Rightarrow> unit result) \<Rightarrow> dimension \<Rightarrow> unit result" where
  "check_tile_extent_d fl dm =
     (case dim_class_of (dim_type dm) of
        Integral ty \<Rightarrow> check_tile_extent ty dm
      | Real n \<Rightarrow> fl n dm
      | _ \<Rightarrow> Inl (dim_error ''Tile extent check failed; Invalid dimension domain type''))"

text \<open>A domain that is refused is cleared.\<close>

definition set_domain :: "(nat \<Rightarrow> dimension \<Rightarrow> unit result) \<Rightarrow> range \<Rightarrow> dimension \<Rightarrow> dimension \<times> unit result" where
  "set_domain fl domain dm =
     (if range_empty domain then (dm, Inr ())
      else let dm' = dm\<lparr>dim_domain := domain\<rparr>; st = check_domain_d fl dm' in
        (case st of
           Inl (Err c m) \<Rightarrow> (dm'\<lparr>dim_domain := (dim_domain dm')\<lparr>rbytes := []\<rparr>\<rparr>, st)
         | _ \<Rightarrow> (dm', st)))"

definition set_tile_extent :: "(nat \<Rightarrow> dimension \<Rightarrow> unit result) \<Rightarrow> byte list \<Rightarrow> dimension \<Rightarrow> dimension \<times> unit result" where
  "set_tile_extent fl ext dm =
     (if range_empty (dim_domain dm) then (dm, Inl (dim_error ''Cannot set tile extent; Domain must be set first''))
      else if ext = [] then (dm, Inl (dim_error ''Cannot set tile extent; tile extent cannot be null''))
      else let dm' = dm\<lparr>tile_extent := ext\<rparr> in (dm', check_tile_extent_d fl dm'))"

definition set_null_tile_extent_to_range :: "ity \<Rightarrow> dimension \<Rightarrow> dimension result" where
  "set_null_tile_extent_to_range ty dm =
     (if tile_extent dm \<noteq> [] then Inr dm
      else bindR (range_vals ty (dim_domain dm)) (\<lambda>(d0, d1).
        bindR (arith (promote ty) (d1 - d0)) (\<lambda>n.
          if conv ty n = ty_max ty
          then Inl (dim_error (''Cannot set null tile extent to domain range; '' @ ''Domain range exceeds domain type max numeric limit''))
          else Inr (dm\<lparr>tile_extent := val_bytes ty (conv ty (conv ty n + 1))\<rparr>))))"

definition set_null_tile_extent_to_range_d :: "dimension \<Rightarrow> dimension result" where
  "set_null_tile_extent_to_range_d dm =
     (if tile_extent dm \<noteq> [] then Inr dm
      else if range_empty (dim_domain dm)
      then Inl (dim_error ''Cannot set tile extent to domain range; Domain not set'')
      else case dim_class_of (dim_type dm) of
          Integral ty \<Rightarrow> set_null_tile_extent_to_range ty dm
        | _ \<Rightarrow> Inl (dim_error ''Cannot set null tile extent to domain range; Invalid dimension domain type''))"

definition set_cell_val_num :: "nat \<Rightarrow> dimension \<Rightarrow> dimension result" where
  "set_cell_val_num n dm =
     (if datatype_is_string (dim_type dm) \<and> n \<noteq> var_num
      then Inl (dim_error ''Cannot set non-variable number of values per coordinate for a string dimension'')
      else if \<not> datatype_is_string (dim_type dm) \<and> n \<noteq> 1
      then Inl (dim_error ''Cannot set number of values per coordinate; Currently only one value per coordinate is supported'')
      else Inr (dm\<lparr>cell_val_num := n\<rparr>))"

section \<open>Operations on ranges of integers\<close>

text \<open>Both ranges are checked not to be empty and read as pairs of values.\<close>

definition two_ranges :: "ity \<Rightarrow> range \<Rightarrow> range \<Rightarrow> (int \<Rightarrow> int \<Rightarrow> int \<Rightarrow> int \<Rightarrow> 'a result) \<Rightarrow> 'a result" where
  "two_ranges ty r1 r2 f =
     (if range_empty r1 \<or> range_empty r2 then Inl AssertFail
      else bindR (range_vals ty r1) (\<lambda>(a0, a1). bindR (range_vals ty r2) (\<lambda>(b0, b1). f a0 a1 b0 b1)))"

definition ceil_to_tile :: "ity \<Rightarrow> dimension \<Rightarrow> range \<Rightarrow> nat \<Rightarrow> byte list result" where
  "ceil_to_tile ty dm r tile_num =
     (if range_empty r \<or> tile_extent dm = [] then Inl AssertFail
      else bindR (extent_val ty dm) (\<lambda>ext. bindR (range_vals ty (dim_domain dm)) (\<lambda>(d0, d1). bindR (range_vals ty r) (\<lambda>(r0, r1).
        let p = promote ty; mid = conv ty ((conv uint64_ty r0 + int (add64 tile_num 1) * conv uint64_ty ext) mod 2 ^ 64) in
        bindR (arith p (mid - d0)) (\<lambda>x. bindR (arith_div p x ext) (\<lambda>q.
        bindR (arith p (conv ty (conv uint64_ty q) * ext)) (\<lambda>m. bindR (arith p (m + d0)) (\<lambda>floored_mid.
        bindR (arith p (floored_mid - 1)) (\<lambda>sp. Inr (val_bytes ty (conv ty sp)))))))))))"

definition num_str :: "ity \<Rightarrow> int \<Rightarrow> string" where
  "num_str ty x =
     (if ibits ty = 8 then [char_of (nat (x mod 256))]
      else if x < 0 then ''-'' @ nat_str (nat (- x)) else nat_str (nat x))"

definition check_range :: "ity \<Rightarrow> dimension \<Rightarrow> range \<Rightarrow> unit result" where
  "check_range ty dm r =
     bindR (range_vals ty (dim_domain dm)) (\<lambda>(d0, d1). bindR (range_vals ty r) (\<lambda>(r0, r1).
       if r0 > r1
       then Inl (dim_error (''Cannot add range to dimension; Lower range '' @ ''bound '' @ num_str ty r0 @
              '' cannot be larger than the higher bound '' @ num_str ty r1))
       else if r0 < d0 \<or> r1 > d1
       then Inl (dim_error (''Range ['' @ num_str ty r0 @ '', '' @ num_str ty r1 @ ''] is out of domain bounds ['' @ num_str ty d0 @
              '', '' @ num_str ty d1 @ ''] on dimension '' @ [CHR 0x27] @ dim_name dm @ [CHR 0x27]))
       else Inr ()))"

definition coincides_with_tiles :: "ity \<Rightarrow> dimension \<Rightarrow> range \<Rightarrow> bool result" where
  "coincides_with_tiles ty dm r =
     (if range_empty r \<or> tile_extent dm = [] then Inl AssertFail
      else bindR (range_vals ty (dim_domain dm)) (\<lambda>(d0, d1). bindR (extent_val ty dm) (\<lambda>ext. bindR (range_vals ty r) (\<lambda>(r0, r1).
        bindR (arith (promote ty) (r0 - d0)) (\<lambda>x.
        let norm_1 = conv uint64_ty x; norm_2 = conv uint64_ty (conv uint64_ty r1 - conv uint64_ty d0 + 1); e = conv uint64_ty ext in
        if e = 0 then Inl UB
        else Inr (norm_1 div e * e = norm_1 \<and> norm_2 div e * e = norm_2))))))"

definition crop_range :: "ity \<Rightarrow> dimension \<Rightarrow> range \<Rightarrow> range result" where
  "crop_range ty dm r =
     (if range_empty r then Inl AssertFail
      else bindR (range_vals ty (dim_domain dm)) (\<lambda>(d0, d1). bindR (range_vals ty r) (\<lambda>(r0, r1).
        Inr (set_range (pair_bytes ty (max r0 d0) (min r1 d1)) r))))"

definition domain_range :: "ity \<Rightarrow> range \<Rightarrow> nat result" where
  "domain_range ty r =
     (if range_empty r then Inl AssertFail
      else bindR (range_vals ty r) (\<lambda>(r0, r1). bindR (arith (promote ty) (r1 - r0)) (\<lambda>x.
        let ret = nat (conv uint64_ty x) in Inr (if ret = u64_max then ret else ret + 1))))"

definition expand_range_v :: "ity \<Rightarrow> int \<Rightarrow> range \<Rightarrow> range result" where
  "expand_range_v ty v r =
     (if range_empty r then Inl AssertFail
      else bindR (range_vals ty r) (\<lambda>(r0, r1). Inr (set_range (pair_bytes ty (min r0 v) (max r1 v)) r)))"

definition expand_range :: "ity \<Rightarrow> range \<Rightarrow> range \<Rightarrow> range result" where
  "expand_range ty r1 r2 =
     two_ranges ty r1 r2 (\<lambda>a0 a1 b0 b1. Inr (set_range (pair_bytes ty (min a0 b0) (max a1 b1)) r2))"

definition expand_to_tile :: "ity \<Rightarrow> dimension \<Rightarrow> range \<Rightarrow> range result" where
  "expand_to_tile ty dm r =
     (if range_empty r then Inl AssertFail
      else if tile_extent dm = [] then Inr r
      else bindR (extent_val ty dm) (\<lambda>ext. bindR (range_vals ty (dim_domain dm)) (\<lambda>(d0, d1). bindR (range_vals ty r) (\<lambda>(r0, r1).
        let p = promote ty in
        bindR (arith p (r0 - d0)) (\<lambda>x0. bindR (arith_div p x0 ext) (\<lambda>q0. bindR (arith p (q0 * ext)) (\<lambda>m0. bindR (arith p (m0 + d0)) (\<lambda>res0.
        bindR (arith p (r1 - d0)) (\<lambda>x1. bindR (arith_div p x1 ext) (\<lambda>q1. bindR (arith p (q1 + 1)) (\<lambda>n1. bindR (arith p (n1 * ext)) (\<lambda>m1.
        bindR (arith p (m1 - 1)) (\<lambda>l1. bindR (arith p (l1 + d0)) (\<lambda>res1.
          Inr (set_range (pair_bytes ty (conv ty res0) (conv ty res1)) r)))))))))))))))"

text \<open>Returns true and the message when the coordinate is out of bounds.\<close>

definition oob :: "ity \<Rightarrow> dimension \<Rightarrow> int \<Rightarrow> string option result" where
  "oob ty dm coord =
     bindR (range_vals ty (dim_domain dm)) (\<lambda>(d0, d1).
       Inr (if coord < d0 \<or> coord > d1
            then Some (''Coordinate '' @ num_str ty coord @ '' is out of domain bounds ['' @ num_str ty d0 @ '', '' @ num_str ty d1 @
                   ''] on dimension '' @ [CHR 0x27] @ dim_name dm @ [CHR 0x27])
            else None))"

definition covered :: "ity \<Rightarrow> range \<Rightarrow> range \<Rightarrow> bool result" where
  "covered ty r1 r2 = two_ranges ty r1 r2 (\<lambda>a0 a1 b0 b1.
     if a0 > a1 \<or> b0 > b1 then Inl AssertFail else Inr (a0 \<ge> b0 \<and> a1 \<le> b1))"

definition overlap :: "ity \<Rightarrow> range \<Rightarrow> range \<Rightarrow> bool result" where
  "overlap ty r1 r2 = two_ranges ty r1 r2 (\<lambda>a0 a1 b0 b1. Inr (\<not> (a0 > b1 \<or> a1 < b0)))"

definition overlap_ratio :: "ity \<Rightarrow> range \<Rightarrow> range \<Rightarrow> dbl result" where
  "overlap_ratio ty r1 r2 = two_ranges ty r1 r2 (\<lambda>a0 a1 b0 b1.
     if a0 > a1 \<or> b0 > b1 then Inl AssertFail
     else if a0 > b1 \<or> a1 < b0 then Inr (Fin 0)
     else let p = promote ty in
       bindR (arith p (min a1 b1 - max a0 b0)) (\<lambda>o0. bindR (arith p (b1 - b0)) (\<lambda>m0.
       bindR (arith p (o0 + 1)) (\<lambda>overlap_range. bindR (arith p (m0 + 1)) (\<lambda>mbr_range.
         Inr (dbl_div (dbl_of_nat (nat overlap_range)) (dbl_of_nat (nat mbr_range))))))))"

definition split_range :: "ity \<Rightarrow> range \<Rightarrow> int \<Rightarrow> (range \<times> range) result" where
  "split_range ty r v =
     (if range_empty r then Inl AssertFail
      else bindR (range_vals ty r) (\<lambda>(r0, r1). bindR (arith (promote ty) (v + 1)) (\<lambda>v1.
        Inr (set_range (pair_bytes ty r0 v) range_new, set_range (pair_bytes ty (conv ty v1) r1) range_new))))"

definition splitting_value :: "ity \<Rightarrow> range \<Rightarrow> (int \<times> bool) result" where
  "splitting_value ty r =
     (if range_empty r then Inl AssertFail
      else let p = promote ty in
        bindR (range_vals ty r) (\<lambda>(r0, r1). bindR (arith p (r1 - r0)) (\<lambda>x. bindR (arith p (r0 + c_div x 2)) (\<lambda>m.
          let sp = conv ty m in Inr (sp, sp = r1)))))"

text \<open>\<open>floor\<close> of an integer goes through \<open>double\<close>.\<close>

definition floor_u64 :: "int \<Rightarrow> nat result" where
  "floor_u64 x = (if x < 0 then Inl UB else let n = nat \<lfloor>rnd53 (of_int x)\<rfloor> in if n < 2 ^ 64 then Inr n else Inl UB)"

definition tile_num :: "ity \<Rightarrow> dimension \<Rightarrow> range \<Rightarrow> nat result" where
  "tile_num ty dm r =
     (if range_empty r then Inl AssertFail
      else if tile_extent dm = [] then Inr 1
      else bindR (extent_val ty dm) (\<lambda>ext. bindR (range_vals ty (dim_domain dm)) (\<lambda>(d0, d1). bindR (range_vals ty r) (\<lambda>(r0, r1).
        let p = promote ty in
        bindR (arith p (r0 - d0)) (\<lambda>x0. bindR (arith_div p x0 ext) (\<lambda>q0. bindR (floor_u64 q0) (\<lambda>start.
        bindR (arith p (r1 - d0)) (\<lambda>x1. bindR (arith_div p x1 ext) (\<lambda>q1. bindR (floor_u64 q1) (\<lambda>last.
          Inr (add64 (sub64 last start) 1)))))))))))"

definition value_in_range :: "ity \<Rightarrow> int \<Rightarrow> range \<Rightarrow> bool result" where
  "value_in_range ty v r =
     (if range_empty r then Inl AssertFail
      else bindR (range_vals ty r) (\<lambda>(r0, r1). Inr (v \<ge> r0 \<and> v \<le> r1)))"

section \<open>Operations on ranges of strings\<close>

definition two_str_ranges ::
  "range \<Rightarrow> range \<Rightarrow> (byte list \<Rightarrow> byte list \<Rightarrow> byte list \<Rightarrow> byte list \<Rightarrow> 'a result) \<Rightarrow> 'a result" where
  "two_str_ranges r1 r2 f =
     (if range_empty r1 \<or> range_empty r2 then Inl AssertFail
      else bindR (start_str r1) (\<lambda>a0. bindR (end_str r1) (\<lambda>a1. bindR (start_str r2) (\<lambda>b0. bindR (end_str r2) (\<lambda>b1. f a0 a1 b0 b1)))))"

definition expand_range_var_v :: "byte list \<Rightarrow> range \<Rightarrow> range result" where
  "expand_range_var_v v r =
     (if range_empty r \<or> v = [] then Inl AssertFail
      else bindR (start_str r) (\<lambda>s. bindR (end_str r) (\<lambda>e.
        Inr (set_str_range (if str_less v s then v else s) (if str_less e v then v else e) r))))"

definition expand_range_var :: "dimension \<Rightarrow> range \<Rightarrow> range \<Rightarrow> range result" where
  "expand_range_var dm r1 r2 =
     (if dim_type dm \<noteq> STRING_ASCII then Inl AssertFail
      else two_str_ranges r1 r2 (\<lambda>a0 a1 b0 b1.
        Inr (set_str_range (if str_less a0 b0 then a0 else b0) (if str_less a1 b1 then b1 else a1) r2)))"

definition overlap_str :: "range \<Rightarrow> range \<Rightarrow> bool result" where
  "overlap_str r1 r2 = two_str_ranges r1 r2 (\<lambda>a0 a1 b0 b1. Inr (\<not> str_less b1 a0 \<and> \<not> str_less a1 b0))"

text \<open>The number of first characters between two strings behind their common prefix, as an unsigned number.\<close>

definition char_span :: "nat \<Rightarrow> byte list \<Rightarrow> byte list \<Rightarrow> nat result" where
  "char_span pref a b =
     (if \<not> length b > pref then Inl AssertFail
      else bindR (if length a = pref then Inr 0 else if pref < length a then Inr (sint (a ! pref)) else Inl UB) (\<lambda>c.
        Inr (nat (conv uint64_ty (sint (b ! pref) - c + 1)))))"

definition overlap_ratio_str :: "range \<Rightarrow> range \<Rightarrow> dbl result" where
  "overlap_ratio_str r1 r2 =
     bindR (overlap_str r1 r2) (\<lambda>ov. if \<not> ov then Inr (Fin 0)
       else two_str_ranges r1 r2 (\<lambda>a0 a1 b0 b1.
         bindR (range_unary r2) (\<lambda>un.
         let pref = (if un then 0 else common_prefix_size b0 b1);
             o_start = (if str_less b0 a0 then a0 else b0); o_end = (if str_less a1 b1 then a1 else b1) in
         bindR (if un then Inr 1 else char_span pref b0 b1) (\<lambda>r2_range.
         bindR (if o_start = o_end then Inr 1 else char_span pref o_start o_end) (\<lambda>o_range.
           let ratio = dbl_div (dbl_of_nat o_range) (dbl_of_nat r2_range) in
           Inr (if ratio = Fin 1 \<and> (o_start \<noteq> b0 \<or> o_end \<noteq> b1) then dbl_before_1 else ratio))))))"

definition split_range_str :: "range \<Rightarrow> byte list \<Rightarrow> (range \<times> range) result" where
  "split_range_str r v =
     (if range_empty r \<or> v = [] then Inl AssertFail
      else bindR (range_unary r) (\<lambda>un. if un then Inl AssertFail
        else bindR (start_str r) (\<lambda>s. bindR (end_str r) (\<lambda>e.
        let split_pos = common_prefix_size v e in
        bindR (str_char v split_pos) (\<lambda>c.
        let new_r2_start = take split_pos v @ [c + 1] in
        if \<not> str_less v new_r2_start then Inl AssertFail
        else Inr (set_str_range s v range_new, set_str_range new_r2_start e range_new))))))"

definition splitting_value_str :: "range \<Rightarrow> (byte list \<times> bool) result" where
  "splitting_value_str r =
     bindR (range_unary r) (\<lambda>un. if un then Inr ([], True)
       else bindR (start_str r) (\<lambda>s. bindR (end_str r) (\<lambda>e.
         let pref = common_prefix_size s e in
         bindR (str_char e pref) (\<lambda>ec.
         if ec = 0 then Inr ([], True)
         else let start_c = (if length s = pref then 0 else sint (s ! pref)); split_v = c_div (sint ec - start_c) 2;
                  split_str = take pref s @ [word_of_int (start_c + split_v)] in
           Inr (if str_less split_str s then s else split_str, False)))))"

definition value_in_range_str :: "dimension \<Rightarrow> byte list \<Rightarrow> range \<Rightarrow> bool result" where
  "value_in_range_str dm v r =
     (if dim_type dm \<noteq> STRING_ASCII \<or> v = [] \<or> range_empty r then Inl AssertFail
      else bindR (start_str r) (\<lambda>s. if str_less v s then Inr False else bindR (end_str r) (\<lambda>e. Inr (\<not> str_less e v))))"

section \<open>The instance for the type of a dimension\<close>

text \<open>The instance for real types is the first argument; a type without an instance has a null function.\<close>

definition by_class :: "(nat \<Rightarrow> 'a result) \<Rightarrow> (ity \<Rightarrow> 'a result) \<Rightarrow> 'a result \<Rightarrow> dimension \<Rightarrow> 'a result" where
  "by_class fl f str dm =
     (case dim_class_of (dim_type dm) of Integral ty \<Rightarrow> f ty | Real n \<Rightarrow> fl n | Str \<Rightarrow> str | NoInstance \<Rightarrow> Inl AssertFail)"

definition ceil_to_tile_d :: "(nat \<Rightarrow> range \<Rightarrow> nat \<Rightarrow> byte list result) \<Rightarrow> dimension \<Rightarrow> range \<Rightarrow> nat \<Rightarrow> byte list result" where
  "ceil_to_tile_d fl dm r n = by_class (\<lambda>k. fl k r n) (\<lambda>ty. ceil_to_tile ty dm r n) (Inl AssertFail) dm"

definition check_range_d :: "(nat \<Rightarrow> range \<Rightarrow> unit result) \<Rightarrow> dimension \<Rightarrow> range \<Rightarrow> unit result" where
  "check_range_d fl dm r = by_class (\<lambda>k. fl k r) (\<lambda>ty. check_range ty dm r) (Inr ()) dm"

definition coincides_with_tiles_d :: "(nat \<Rightarrow> range \<Rightarrow> bool result) \<Rightarrow> dimension \<Rightarrow> range \<Rightarrow> bool result" where
  "coincides_with_tiles_d fl dm r = by_class (\<lambda>k. fl k r) (\<lambda>ty. coincides_with_tiles ty dm r) (Inl AssertFail) dm"

definition crop_range_d :: "(nat \<Rightarrow> range \<Rightarrow> range result) \<Rightarrow> dimension \<Rightarrow> range \<Rightarrow> range result" where
  "crop_range_d fl dm r = by_class (\<lambda>k. fl k r) (\<lambda>ty. crop_range ty dm r) (Inl AssertFail) dm"

definition domain_range_d :: "dimension \<Rightarrow> range \<Rightarrow> nat result" where
  "domain_range_d dm r =
     by_class (\<lambda>k. if range_empty r then Inl AssertFail else Inr u64_max) (\<lambda>ty. domain_range ty r) (Inl AssertFail) dm"

definition expand_range_d :: "(nat \<Rightarrow> range \<Rightarrow> range \<Rightarrow> range result) \<Rightarrow> dimension \<Rightarrow> range \<Rightarrow> range \<Rightarrow> range result" where
  "expand_range_d fl dm r1 r2 = by_class (\<lambda>k. fl k r1 r2) (\<lambda>ty. expand_range ty r1 r2) (Inl AssertFail) dm"

definition expand_to_tile_d :: "dimension \<Rightarrow> range \<Rightarrow> range result" where
  "expand_to_tile_d dm r =
     by_class (\<lambda>k. if range_empty r then Inl AssertFail else Inr r) (\<lambda>ty. expand_to_tile ty dm r) (Inl AssertFail) dm"

definition covered_d :: "(nat \<Rightarrow> range \<Rightarrow> range \<Rightarrow> bool result) \<Rightarrow> dimension \<Rightarrow> range \<Rightarrow> range \<Rightarrow> bool result" where
  "covered_d fl dm r1 r2 = by_class (\<lambda>k. fl k r1 r2) (\<lambda>ty. covered ty r1 r2) (Inl AssertFail) dm"

definition overlap_d :: "(nat \<Rightarrow> range \<Rightarrow> range \<Rightarrow> bool result) \<Rightarrow> dimension \<Rightarrow> range \<Rightarrow> range \<Rightarrow> bool result" where
  "overlap_d fl dm r1 r2 = by_class (\<lambda>k. fl k r1 r2) (\<lambda>ty. overlap ty r1 r2) (overlap_str r1 r2) dm"

definition overlap_ratio_d :: "(nat \<Rightarrow> range \<Rightarrow> range \<Rightarrow> dbl result) \<Rightarrow> dimension \<Rightarrow> range \<Rightarrow> range \<Rightarrow> dbl result" where
  "overlap_ratio_d fl dm r1 r2 = by_class (\<lambda>k. fl k r1 r2) (\<lambda>ty. overlap_ratio ty r1 r2) (overlap_ratio_str r1 r2) dm"

definition tile_num_d :: "(nat \<Rightarrow> range \<Rightarrow> nat result) \<Rightarrow> dimension \<Rightarrow> range \<Rightarrow> nat result" where
  "tile_num_d fl dm r = by_class (\<lambda>k. fl k r) (\<lambda>ty. tile_num ty dm r) (Inr 1) dm"

text \<open>A single coordinate is passed as bytes.\<close>

definition coord_val :: "ity \<Rightarrow> byte list \<Rightarrow> (int \<Rightarrow> 'a result) \<Rightarrow> 'a result" where
  "coord_val ty v f = (if length v < isize ty then Inl UB else f (val_of ty (take (isize ty) v)))"

text \<open>Splitting: the splitting value is passed on as bytes.\<close>

definition split_range_d ::
  "(nat \<Rightarrow> range \<Rightarrow> byte list \<Rightarrow> (range \<times> range) result) \<Rightarrow> dimension \<Rightarrow> range \<Rightarrow> byte list \<Rightarrow> (range \<times> range) result" where
  "split_range_d fl dm r v =
     by_class (\<lambda>k. fl k r v)
       (\<lambda>ty. if v = [] then Inl AssertFail else coord_val ty v (split_range ty r))
       (split_range_str r v) dm"

definition splitting_value_d :: "(nat \<Rightarrow> range \<Rightarrow> (byte list \<times> bool) result) \<Rightarrow> dimension \<Rightarrow> range \<Rightarrow> (byte list \<times> bool) result" where
  "splitting_value_d fl dm r =
     by_class (\<lambda>k. fl k r) (\<lambda>ty. bindR (splitting_value ty r) (\<lambda>(sp, u). Inr (val_bytes ty sp, u))) (splitting_value_str r) dm"

definition expand_range_v_d :: "(nat \<Rightarrow> byte list \<Rightarrow> range \<Rightarrow> range result) \<Rightarrow> dimension \<Rightarrow> byte list \<Rightarrow> range \<Rightarrow> range result" where
  "expand_range_v_d fl dm v r = by_class (\<lambda>k. fl k v r) (\<lambda>ty. coord_val ty v (\<lambda>x. expand_range_v ty x r)) (Inl AssertFail) dm"

definition oob_d :: "(nat \<Rightarrow> byte list \<Rightarrow> string option result) \<Rightarrow> dimension \<Rightarrow> byte list \<Rightarrow> unit result" where
  "oob_d fl dm coord =
     (if datatype_is_string (dim_type dm) then Inr ()
      else bindR (by_class (\<lambda>k. fl k coord) (\<lambda>ty. coord_val ty coord (oob ty dm)) (Inl AssertFail) dm) (\<lambda>err.
        case err of Some msg \<Rightarrow> Inl (dim_error msg) | None \<Rightarrow> Inr ()))"

definition value_in_range_d :: "(nat \<Rightarrow> byte list \<Rightarrow> range \<Rightarrow> bool result) \<Rightarrow> dimension \<Rightarrow> byte list \<Rightarrow> range \<Rightarrow> bool result" where
  "value_in_range_d fl dm v r = by_class (\<lambda>k. fl k v r) (\<lambda>ty. coord_val ty v (\<lambda>x. value_in_range ty x r)) (Inl AssertFail) dm"

section \<open>Splitting a range\<close>

lemma in_ty_mid: "in_ty ty a \<Longrightarrow> in_ty ty b \<Longrightarrow> a \<le> x \<Longrightarrow> x \<le> b \<Longrightarrow> in_ty ty x"
  by (auto simp: in_ty_def)

lemma splitting_value_int:
  assumes "ity_ok ty" and "in_ty ty a" and "in_ty ty b" and "a \<le> b" and "in_ty (promote ty) (b - a)"
  shows "splitting_value ty (int_range ty (a, b)) = Inr (a + (b - a) div 2, a = b)"
proof -
  let ?v = "a + (b - a) div 2"
  have v: "in_ty ty ?v" by (rule in_ty_mid [OF assms(2,3)]) (use assms(4) in auto)
  note p = promote_ok [OF assms(1)]
  have "splitting_value ty (int_range ty (a, b)) = Inr (?v, ?v = b)"
    using assms v arith_id [OF p assms(5)] arith_id [OF p in_ty_promote [OF assms(1) v]] conv_id [OF assms(1) v]
    by (simp add: splitting_value_def c_div_nonneg Let_def)
  moreover have "?v = b \<longleftrightarrow> a = b" using assms(4) by auto
  ultimately show ?thesis by simp
qed

lemma split_range_int:
  assumes "ity_ok ty" and "in_ty ty a" and "in_ty ty b" and "a \<le> v" and "v < b"
  shows "split_range ty (int_range ty (a, b)) v = Inr (int_range ty (a, v), int_range ty (v + 1, b))"
proof -
  have v: "in_ty ty (v + 1)" by (rule in_ty_mid [OF assms(2,3)]) (use assms(4,5) in auto)
  then show ?thesis
    using assms arith_id [OF promote_ok [OF assms(1)] in_ty_promote [OF assms(1) v]] conv_id [OF assms(1) v]
    by (simp add: split_range_def)
qed

lemma domain_range_int:
  assumes "ity_ok ty" and "in_ty ty a" and "in_ty ty b" and "a \<le> b" and "in_ty (promote ty) (b - a)" and "b - a < 2 ^ 64 - 1"
  shows "domain_range ty (int_range ty (a, b)) = Inr (nat (b - a + 1))"
proof -
  have "conv uint64_ty (b - a) = b - a" using assms(4,6) by (simp add: conv_def ty_min_def)
  moreover have "nat (b - a) \<noteq> u64_max" using assms(4,6) by (auto simp: u64_max_def)
  moreover have "nat (b - a) + 1 = nat (b - a + 1)" using assms(4) by simp
  ultimately show ?thesis using assms arith_id [OF promote_ok [OF assms(1)] assms(5)]
    by (simp add: domain_range_def Let_def)
qed

lemma value_in_range_int:
  "ity_ok ty \<Longrightarrow> in_ty ty a \<Longrightarrow> in_ty ty b \<Longrightarrow> value_in_range ty x (int_range ty (a, b)) = Inr (a \<le> x \<and> x \<le> b)"
  by (simp add: value_in_range_def)

text \<open>
  C11: A range of integers with more than one value is splittable, and splitting it at its splitting value gives two
  ranges that share no value, have together exactly the values of the range, and differ by at most one in
  the number of their values. For 32-bit and 64-bit signed types the difference of the bounds must fit the type.
\<close>

theorem split_range_partition:
  assumes "ity_ok ty" and "in_ty ty a" and "in_ty ty b" and "a < b" and "in_ty (promote ty) (b - a)" and "b - a < 2 ^ 64 - 1"
  shows "\<exists>v r1 r2 n1 n2. splitting_value ty (int_range ty (a, b)) = Inr (v, False)
           \<and> split_range ty (int_range ty (a, b)) v = Inr (r1, r2)
           \<and> (\<forall>x. value_in_range ty x (int_range ty (a, b)) = Inr True \<longleftrightarrow>
                  value_in_range ty x r1 = Inr True \<or> value_in_range ty x r2 = Inr True)
           \<and> (\<forall>x. \<not> (value_in_range ty x r1 = Inr True \<and> value_in_range ty x r2 = Inr True))
           \<and> domain_range ty r1 = Inr n1 \<and> domain_range ty r2 = Inr n2 \<and> n2 \<le> n1 \<and> n1 \<le> n2 + 1 \<and> 0 < n2
           \<and> domain_range ty (int_range ty (a, b)) = Inr (n1 + n2)"
proof -
  define v where "v = a + (b - a) div 2"
  have v: "a \<le> v" "v < b" "v - a \<le> b - v" "b - v \<le> v - a + 1" using assms(4) by (auto simp: v_def)
  have t: "in_ty ty v" "in_ty ty (v + 1)" by (rule in_ty_mid [OF assms(2,3)]; use v in linarith)+
  have z: "in_ty (promote ty) 0" using assms(1) by (auto simp: ity_ok_def in_ty_def ty_min_def ty_max_def promote_def)
  have d: "in_ty (promote ty) (v - a)" "in_ty (promote ty) (b - (v + 1))" by (rule in_ty_mid [OF z assms(5)]; use v in linarith)+
  let ?n1 = "nat (v - a + 1)" and ?n2 = "nat (b - (v + 1) + 1)"
  have "domain_range ty (int_range ty (a, v)) = Inr ?n1"
    by (rule domain_range_int [OF assms(1,2) t(1) v(1) d(1)]) (use v assms(6) in linarith)
  moreover have "domain_range ty (int_range ty (v + 1, b)) = Inr ?n2"
    by (rule domain_range_int [OF assms(1) t(2) assms(3) _ d(2)]) (use v assms(6) in linarith)+
  moreover have "domain_range ty (int_range ty (a, b)) = Inr (?n1 + ?n2)"
    using domain_range_int [OF assms(1-3) less_imp_le [OF assms(4)] assms(5,6)] v(1,2) by (simp flip: nat_add_distrib)
  moreover have "splitting_value ty (int_range ty (a, b)) = Inr (v, False)"
    using splitting_value_int [OF assms(1-3) less_imp_le [OF assms(4)] assms(5)] assms(4) by (simp add: v_def)
  moreover have "split_range ty (int_range ty (a, b)) v = Inr (int_range ty (a, v), int_range ty (v + 1, b))"
    by (rule split_range_int [OF assms(1-3) v(1,2)])
  moreover have "\<forall>x. value_in_range ty x (int_range ty (a, b)) = Inr True \<longleftrightarrow> value_in_range ty x (int_range ty (a, v)) = Inr True
      \<or> value_in_range ty x (int_range ty (v + 1, b)) = Inr True"
    unfolding value_in_range_int [OF assms(1-3)] value_in_range_int [OF assms(1,2) t(1)] value_in_range_int [OF assms(1) t(2) assms(3)]
    using v by auto
  moreover have "\<forall>x. \<not> (value_in_range ty x (int_range ty (a, v)) = Inr True \<and> value_in_range ty x (int_range ty (v + 1, b)) = Inr True)"
    unfolding value_in_range_int [OF assms(1,2) t(1)] value_in_range_int [OF assms(1) t(2) assms(3)] by auto
  moreover have "?n2 \<le> ?n1" "?n1 \<le> ?n2 + 1" "0 < ?n2" using v by linarith+
  ultimately show ?thesis
    by (intro exI [of _ v] exI [of _ "int_range ty (a, v)"] exI [of _ "int_range ty (v + 1, b)"] exI [of _ ?n1] exI [of _ ?n2]) simp
qed

theorem split_range_partition_witness:
  "\<exists>v r1 r2. splitting_value int32_ty (int_range int32_ty (-3, 4)) = Inr (v, False)
     \<and> split_range int32_ty (int_range int32_ty (-3, 4)) v = Inr (r1, r2) \<and> domain_range int32_ty (int_range int32_ty (-3, 4)) = Inr 8"
proof -
  have "domain_range int32_ty (int_range int32_ty (-3, 4)) = Inr 8"
    using domain_range_int [of int32_ty "-3" 4] by (simp add: ity_ok_def in_ty_def ty_min_def ty_max_def promote_def)
  then show ?thesis
    using split_range_partition [of int32_ty "-3" 4] by (auto simp: ity_ok_def in_ty_def ty_min_def ty_max_def promote_def)
qed

lemma common_prefix_size_append [simp]: "common_prefix_size (u @ a) (u @ b) = length u + common_prefix_size a b"
  by (induction u) (simp_all add: common_prefix_size_def)

lemma common_prefix_size_differ [simp]:
  "common_prefix_size [] b = 0" "common_prefix_size u (u @ b) = length u" "x \<noteq> y \<Longrightarrow> common_prefix_size (x # a) (y # b) = 0"
  using common_prefix_size_append [of u "[]" b] by (simp_all add: common_prefix_size_def)

lemma str_less_append [simp]: "str_less (u @ a) (u @ b) \<longleftrightarrow> str_less a b"
  by (induction u) auto

lemma str_less_extend [simp]: "str_less u (u @ x) \<longleftrightarrow> x \<noteq> []" "\<not> str_less (u @ x) u"
  using str_less_append [of u "[]" x] str_less_append [of u x "[]"] by (cases x; simp)+

lemma str_less_irrefl [simp]: "\<not> str_less s s"
  by (induction s) auto

lemma str_less_longer: "\<not> str_less v s \<Longrightarrow> \<not> str_less (v @ x) s"
  by (induction v s rule: str_less.induct) auto

lemma str_less_diff:
  "str_less s e \<Longrightarrow> \<exists>u ec t. e = u @ ec # t \<and> (s = u \<or> (\<exists>sc s'. s = u @ sc # s' \<and> sc < ec))"
proof (induction s e rule: str_less.induct)
  case (3 x xs y ys)
  show ?case
  proof (cases "x < y")
    case True
    then show ?thesis by (intro exI [of _ "[]"]) auto
  next
    case False
    with 3 obtain u ec t where "x = y" "ys = u @ ec # t" "xs = u \<or> (\<exists>sc s'. xs = u @ sc # s' \<and> sc < ec)" by auto
    then show ?thesis by (intro exI [of _ "y # u"] exI [of _ ec] exI [of _ t]) auto
  qed
qed auto

lemma word_less_inc: "c < ec \<Longrightarrow> c < c + 1" for c :: "'a::len word"
proof -
  assume "c < ec"
  moreover have "unat ec < 2 ^ LENGTH('a)" by (rule unsigned_less)
  ultimately have "unat c + 1 < 2 ^ LENGTH('a)" unfolding word_less_nat_alt by linarith
  then have "unat (c + 1) = unat c + 1" by (simp add: unat_word_ariths)
  then show ?thesis by (simp add: word_less_nat_alt)
qed

lemma range_unary_str: "s \<noteq> [] \<Longrightarrow> range_unary (str_range (s, e)) = Inr (s = e)"
  by (auto simp: range_unary_def str_range_def slice_def Let_def)

lemma ascii_sint: "c < 128 \<Longrightarrow> sint (c :: byte) = uint c"
proof -
  assume "c < 128"
  then have "uint c < 128" by (simp add: word_less_def)
  then have "- 128 \<le> uint c" "uint c < 128" using uint_ge_0 [of c] by linarith+
  then show ?thesis by (simp add: sint_uint signed_take_bit_int_eq_self_iff)
qed

lemma set_str_range_new: "s \<noteq> [] \<Longrightarrow> set_str_range s e range_new = str_range (s, e)"
  by (simp add: set_str_range_def set_range_var_def str_range_def)

text \<open>The splitting value has the part that the bounds share and then a character below the one of the upper bound.\<close>

lemma splitting_value_str_below:
  assumes "s \<noteq> []" and "list_all (\<lambda>c. 0 < c \<and> c < 128) (s @ e)" and "str_less s e" and "length s + length e < 2 ^ 64"
  shows "\<exists>u c r ec t. splitting_value_str (str_range (s, e)) = Inr (u @ c # r, False) \<and> e = u @ ec # t \<and> c < ec
           \<and> \<not> str_less (u @ c # r) s \<and> length (u @ c # r) \<le> length s + length e"
proof -
  from str_less_diff [OF assms(3)] obtain u ec t where e: "e = u @ ec # t" "s = u \<or> (\<exists>sc s'. s = u @ sc # s' \<and> sc < ec)" by blast
  have ec: "ec \<noteq> 0" "sint ec = uint ec" "uint ec < 128" "0 < uint ec"
    using assms(2) e(1) by (auto simp: ascii_sint word_less_def)
  have pre: "start_str (str_range (s, e)) = Inr s" "end_str (str_range (s, e)) = Inr e" "range_unary (str_range (s, e)) = Inr False"
    using str_range_strs [of "(s, e)"] range_unary_str [OF assms(1)] assms(1,3,4) by auto
  let ?mid = "\<lambda>sc. word_of_int (sc + (uint ec - sc) div 2) :: byte"
  have mid: "uint (?mid k) = k + (uint ec - k) div 2" "?mid k < ec" if "0 \<le> k" "k < uint ec" for k
  proof -
    have m: "0 \<le> k + (uint ec - k) div 2" "k + (uint ec - k) div 2 < uint ec" using that by linarith+
    then show "uint (?mid k) = k + (uint ec - k) div 2" using ec(3) by (simp add: uint_word_of_int del: of_int_add)
    with m show "?mid k < ec" by (simp add: word_less_def)
  qed
  from e(2) show ?thesis
  proof
    assume "s = u"
    then have "splitting_value_str (str_range (s, e)) = Inr (u @ [?mid 0], False)"
      using pre e ec by (simp add: splitting_value_str_def str_char_def nth_append c_div_nonneg Let_def)
    then show ?thesis using \<open>s = u\<close> e(1) mid(2) [of 0] ec(4)
      by (intro exI [of _ u] exI [of _ "?mid 0"] exI [of _ "[]"] exI [of _ ec] exI [of _ t]) simp
  next
    assume "\<exists>sc s'. s = u @ sc # s' \<and> sc < ec"
    then obtain sc s' where s: "s = u @ sc # s'" "sc < ec" by blast
    then have sc: "sint sc = uint sc" "0 \<le> uint sc" "uint sc < uint ec" "sc \<noteq> ec"
      using assms(2) by (auto simp: ascii_sint word_less_def)
    define c where "c = ?mid (uint sc)"
    have c: "c < ec" unfolding c_def by (rule mid(2) [OF sc(2,3)])
    have "splitting_value_str (str_range (s, e)) = Inr (if str_less [c] (sc # s') then s else u @ [c], False)"
      using pre e(1) s(1) sc ec unfolding c_def by (simp add: splitting_value_str_def str_char_def nth_append c_div_nonneg Let_def del: of_int_add)
    then show ?thesis
    proof (cases "str_less [c] (sc # s')")
      case True
      with \<open>splitting_value_str _ = _\<close> s e(1) show ?thesis
        by (intro exI [of _ u] exI [of _ sc] exI [of _ s'] exI [of _ ec] exI [of _ t]) simp
    next
      case False
      then have "splitting_value_str (str_range (s, e)) = Inr (u @ [c], False)" "\<not> str_less (u @ [c]) s"
        using \<open>splitting_value_str _ = _\<close> s(1) by (simp_all only: if_False str_less_append not_False_eq_True)
      with e(1) s(1) c show ?thesis
        by (intro exI [of _ u] exI [of _ c] exI [of _ "[]"] exI [of _ ec] exI [of _ t]) simp
    qed
  qed
qed

lemma split_range_str_gap:
  assumes "s \<noteq> []" and "v = u @ c # r" and "e = u @ ec # t" and "c < ec" and "\<not> str_less v s" and "s \<noteq> e"
    and "length s + length v < 2 ^ 64" and "length s + length e < 2 ^ 64"
  shows "split_range_str (str_range (s, e)) v = Inr (str_range (s, v), str_range (u @ [c + 1], e))"
    and "x \<noteq> [] \<Longrightarrow> value_in_range_str (dimension_new n STRING_ASCII) (v @ x) (str_range (s, e)) = Inr True"
    and "x \<noteq> [] \<Longrightarrow> value_in_range_str (dimension_new n STRING_ASCII) (v @ x) (str_range (s, v)) = Inr False"
    and "x \<noteq> [] \<Longrightarrow> value_in_range_str (dimension_new n STRING_ASCII) (v @ x) (str_range (u @ [c + 1], e)) = Inr False"
proof -
  have c: "c < c + 1" "c \<noteq> ec" using assms(4) word_less_inc [OF assms(4)] by auto
  have se: "start_str (str_range (s, e)) = Inr s" "end_str (str_range (s, e)) = Inr e" "\<not> range_empty (str_range (s, e))"
    "range_unary (str_range (s, e)) = Inr False"
    using str_range_strs [of "(s, e)"] range_unary_str [OF assms(1)] assms(1,6,8) by auto
  have sv: "start_str (str_range (s, v)) = Inr s" "end_str (str_range (s, v)) = Inr v" "\<not> range_empty (str_range (s, v))"
    using str_range_strs [of "(s, v)"] assms(1,7) by auto
  have ve: "start_str (str_range (u @ [c + 1], e)) = Inr (u @ [c + 1])" "\<not> range_empty (str_range (u @ [c + 1], e))"
    by (auto simp: start_str_def str_range_def range_empty_def)
  show "split_range_str (str_range (s, e)) v = Inr (str_range (s, v), str_range (u @ [c + 1], e))"
    using se assms(1-3) c by (simp add: split_range_str_def str_char_def nth_append set_str_range_new Let_def)
  assume x: "x \<noteq> []"
  show "value_in_range_str (dimension_new n STRING_ASCII) (v @ x) (str_range (s, e)) = Inr True"
    using se x str_less_longer [OF assms(5), of x] assms(2-4) by (auto simp: value_in_range_str_def dimension_new_def)
  show "value_in_range_str (dimension_new n STRING_ASCII) (v @ x) (str_range (s, v)) = Inr False"
    using sv x str_less_longer [OF assms(5), of x] by (simp add: value_in_range_str_def dimension_new_def)
  show "value_in_range_str (dimension_new n STRING_ASCII) (v @ x) (str_range (u @ [c + 1], e)) = Inr False"
    using ve x c assms(2) by (simp add: value_in_range_str_def dimension_new_def)
qed

text \<open>
  C36: Splitting a range of strings loses strings. For every range between two different non-empty strings of ASCII
  characters other than null, in order, whose lengths do not exceed the size type, the range is split, and every
  string that extends the splitting value is in the range but in neither of the two parts.
\<close>

theorem split_range_str_loses:
  assumes "s \<noteq> []" and "list_all (\<lambda>c. 0 < c \<and> c < 128) (s @ e)" and "str_less s e" and "2 * length s + length e + 1 < 2 ^ 64"
  shows "\<exists>v r1 r2. splitting_value_str (str_range (s, e)) = Inr (v, False) \<and> split_range_str (str_range (s, e)) v = Inr (r1, r2)
     \<and> (\<forall>x. x \<noteq> [] \<longrightarrow> value_in_range_str (dimension_new n STRING_ASCII) (v @ x) (str_range (s, e)) = Inr True
          \<and> value_in_range_str (dimension_new n STRING_ASCII) (v @ x) r1 = Inr False
          \<and> value_in_range_str (dimension_new n STRING_ASCII) (v @ x) r2 = Inr False)"
proof -
  have "length s + length e < 2 ^ 64" using assms(4) by linarith
  from splitting_value_str_below [OF assms(1-3) this] obtain u c r ec t where
    v: "splitting_value_str (str_range (s, e)) = Inr (u @ c # r, False)" "e = u @ ec # t" "c < ec" "\<not> str_less (u @ c # r) s"
      "length (u @ c # r) \<le> length s + length e" by blast
  moreover have "s \<noteq> e" using assms(3) by auto
  moreover have "length s + length (u @ c # r) < 2 ^ 64" "length s + length e < 2 ^ 64" using v(5) assms(4) by linarith+
  ultimately show ?thesis using split_range_str_gap [OF assms(1) refl v(2-4)] by blast
qed

theorem split_range_str_loses_witness:
  "\<exists>v r1 r2. splitting_value_str (str_range ([97, 97], [97, 100])) = Inr (v, False)
     \<and> split_range_str (str_range ([97, 97], [97, 100])) v = Inr (r1, r2)
     \<and> value_in_range_str (dimension_new ''d'' STRING_ASCII) (v @ [99]) (str_range ([97, 97], [97, 100])) = Inr True
     \<and> value_in_range_str (dimension_new ''d'' STRING_ASCII) (v @ [99]) r1 = Inr False
     \<and> value_in_range_str (dimension_new ''d'' STRING_ASCII) (v @ [99]) r2 = Inr False"
  using split_range_str_loses [of "[97, 97]" "[97, 100]" "''d''"] by simp blast

section \<open>Ranges of whole tiles\<close>

text \<open>A dimension with a domain and a tile extent of an integral type.\<close>

definition tiled :: "ity \<Rightarrow> int \<Rightarrow> int \<Rightarrow> int \<Rightarrow> dimension \<Rightarrow> bool" where
  "tiled ty d0 d1 ext dm \<longleftrightarrow> ity_ok ty \<and> in_ty ty d0 \<and> in_ty ty d1 \<and> d0 \<le> d1 \<and> in_ty ty ext
     \<and> dim_domain dm = int_range ty (d0, d1) \<and> tile_extent dm = val_bytes ty ext"

lemma tiled_vals:
  assumes "tiled ty d0 d1 ext dm"
  shows "extent_val ty dm = Inr ext" and "range_vals ty (dim_domain dm) = Inr (d0, d1)" and "tile_extent dm \<noteq> []"
    and "\<not> range_empty (dim_domain dm)"
proof -
  have t: "ity_ok ty" "in_ty ty ext" "in_ty ty d0" "in_ty ty d1" "dim_domain dm = int_range ty (d0, d1)"
    "tile_extent dm = val_bytes ty ext" using assms by (simp_all add: tiled_def)
  then show "extent_val ty dm = Inr ext" by (simp add: extent_val_def val_of_val_bytes)
  show "range_vals ty (dim_domain dm) = Inr (d0, d1)" "\<not> range_empty (dim_domain dm)" using t by simp_all
  show "tile_extent dm \<noteq> []" using t isize_pos [of ty] by (auto simp flip: length_0_conv)
qed

text \<open>What the check of the tile extent guarantees: the domain, extended to whole tiles, fits the type.\<close>

lemma check_tile_extent_fits:
  assumes "tiled ty d0 d1 ext dm" and "check_tile_extent ty dm = Inr ()" and "ibits ty = 64"
  shows "0 < ext" and "ext \<le> d1 - d0 + 1" and "d1 - d0 + 1 \<le> ty_max ty" and "d0 + ((d1 - d0) div ext + 1) * ext - 1 \<le> ty_max ty"
proof -
  have "promote ty = ty" using assms(3) by (simp add: promote_def)
  note t = tiled_vals [OF assms(1)] this
  have ty: "ity_ok ty" "ibits ty = 64" "in_ty ty d0" "in_ty ty d1" "d0 \<le> d1" "in_ty ty ext" using assms(1,3) by (simp_all add: tiled_def)
  from assms(2) t obtain n0 n1 where n: "0 < ext" "arith ty (d1 - d0) = Inr n0" "arith ty (n0 + 1) = Inr n1"
    "\<not> conv uint64_ty ext > conv uint64_ty n1"
    "conv uint64_ty n1 mod conv uint64_ty ext \<noteq> 0 \<longrightarrow> check_tile_extent_upper_floor ty d0 d1 ext = Inr ()"
    by (auto simp: check_tile_extent_def Let_def bindR_Inr split: if_splits)
  have e: "conv uint64_ty ext = ext" using n(1) ty(2,6) by (auto simp: conv_def ty_min_def in_ty_def ty_max_def split: if_splits)
  have r: "n0 = d1 - d0 \<and> n1 = d1 - d0 + 1 \<and> conv uint64_ty n1 = d1 - d0 + 1 \<and> d1 - d0 + 1 \<le> ty_max ty"
  proof (cases "isigned ty")
    case True
    then show ?thesis using n(2,3) ty(2,5)
      by (auto simp: arith_def in_ty_def ty_min_def ty_max_def conv_def split: if_splits)
  next
    case False
    then have n0: "n0 = d1 - d0" using n(2) ty(2-5) by (auto simp: arith_def in_ty_def ty_min_def ty_max_def)
    have "d1 - d0 + 1 \<noteq> 2 ^ 64"
    proof
      assume "d1 - d0 + 1 = 2 ^ 64"
      then have "n1 = 0" using n(3) n0 False ty(2) by (auto simp: arith_def)
      then show False using n(1,4) e by (simp add: conv_def ty_min_def)
    qed
    then show ?thesis using n(3) n0 False ty(2-5) by (auto simp: arith_def in_ty_def ty_min_def ty_max_def conv_def)
  qed
  then have r3: "conv uint64_ty (d1 - d0 + 1) = d1 - d0 + 1" by auto
  show "0 < ext" by (rule n(1))
  show le: "ext \<le> d1 - d0 + 1" using n(4) e r r3 by simp
  show "d1 - d0 + 1 \<le> ty_max ty" using r by simp
  let ?q = "(d1 - d0) div ext"
  show "d0 + (?q + 1) * ext - 1 \<le> ty_max ty"
  proof (cases "(d1 - d0 + 1) mod ext = 0")
    case True
    then obtain k where k: "d1 - d0 + 1 = k * ext" by (metis mod_0_imp_dvd dvd_def mult.commute)
    then have "d1 - d0 = (ext - 1) + (k - 1) * ext" by (simp add: algebra_simps)
    then have "?q = k - 1" using n(1) by (simp only: div_mult_self2) simp
    then have "d0 + (?q + 1) * ext - 1 = d1" using k by (simp add: algebra_simps)
    then show ?thesis using ty(4) by (simp add: in_ty_def)
  next
    case False
    then have chk: "check_tile_extent_upper_floor ty d0 d1 ext = Inr ()" using n(5) e r r3 by simp
    have q: "0 \<le> ?q * ext" using n(1) ty(5) by (simp add: pos_imp_zdiv_nonneg_iff)
    have q': "?q * ext \<le> d1 - d0" using pos_mod_sign [OF n(1), of "d1 - d0"] div_mult_mod_eq [of "d1 - d0" ext] by linarith
    let ?F = "if isigned ty then int64_ty else uint64_ty"
    have F: "?F = ty" using ty(2) by (cases ty) auto
    have rng: "conv uint64_ty (conv uint64_ty n1 - 1) = d1 - d0" using r r3 ty(2,5) by (auto simp: conv_def ty_min_def ty_max_def split: if_splits)
    have uf: "conv ty ((?q * ext + conv uint64_ty d0) mod 2 ^ 64) = d0 + ?q * ext"
      using q q' ty(2-4) by (auto simp: conv_def ty_min_def ty_max_def in_ty_def mod_add_right_eq mod_diff_left_eq algebra_simps)
    have e1: "arith ty (ext - 1) = Inr (ext - 1)" "conv ty (ext - 1) = ext - 1" "arith ty (ty_max ty - (ext - 1)) = Inr (ty_max ty - (ext - 1))"
      using n(1) ty by (auto intro!: arith_id conv_id simp: in_ty_def ty_min_def ty_max_def split: if_splits)
    have "d0 + ?q * ext \<le> ty_max ty - (ext - 1)"
      using chk n(1-3) e r r3 rng uf e1 t(5) by (simp add: check_tile_extent_upper_floor_def F Let_def split: if_splits)
    then show ?thesis by (simp add: algebra_simps)
  qed
qed

text \<open>Only the upper bound can leave the type; \<open>p\<close> is the type that the code calculates in.\<close>

lemma expand_to_tile_lower:
  fixes ty :: ity
  defines "p \<equiv> promote ty"
  assumes "tiled ty d0 d1 ext dm" and "0 < ext" and "d0 \<le> a" and "a \<le> b" and "b \<le> d1" and "in_ty p (d1 - d0)"
  shows "expand_to_tile ty dm (int_range ty (a, b)) =
           bindR (arith p ((b - d0) div ext + 1)) (\<lambda>n1. bindR (arith p (n1 * ext)) (\<lambda>m1. bindR (arith p (m1 - 1)) (\<lambda>l1.
           bindR (arith p (l1 + d0)) (\<lambda>hi. Inr (int_range ty (d0 + (a - d0) div ext * ext, conv ty hi))))))"
proof -
  note t = tiled_vals [OF assms(2)]
  have ty: "ity_ok ty" "in_ty ty d0" "in_ty ty d1" "ity_ok p" using assms(2) by (simp_all add: tiled_def p_def promote_ok)
  have ab: "in_ty ty a" "in_ty ty b" by (rule in_ty_mid [OF ty(2,3)]; use assms(4-6) in linarith)+
  let ?qa = "(a - d0) div ext" and ?qb = "(b - d0) div ext"
  have q: "0 \<le> ?qa" "0 \<le> ?qb" using assms(3-5) by (auto simp: pos_imp_zdiv_nonneg_iff)
  have m: "?qa * ext \<le> a - d0" "?qb * ext \<le> b - d0"
    using pos_mod_sign [OF assms(3), of "a - d0"] div_mult_mod_eq [of "a - d0" ext] pos_mod_sign [OF assms(3), of "b - d0"]
      div_mult_mod_eq [of "b - d0" ext] by linarith+
  have mm: "0 \<le> ?qa * ext" "?qb \<le> ?qb * ext" "?qa \<le> ?qa * ext"
    using q assms(3) by (auto simp: mult_le_cancel_left1)
  have lo: "in_ty ty (d0 + ?qa * ext)" by (rule in_ty_mid [OF ty(2,3)]; use m mm assms(4-6) in linarith)
  have "in_ty p 0" using ty(4) by (auto simp: ity_ok_def in_ty_def ty_min_def ty_max_def)
  then have z: "arith p y = Inr y" if "0 \<le> y" "y \<le> d1 - d0" for y
    using that arith_id [OF ty(4) in_ty_mid [OF _ assms(7)]] by blast
  have "arith p (a - d0) = Inr (a - d0)" "arith p (b - d0) = Inr (b - d0)" "arith p (?qa * ext) = Inr (?qa * ext)"
    "arith p ?qa = Inr ?qa" "arith p ?qb = Inr ?qb"
    by (rule z; use assms(4-6) q m mm in linarith)+
  moreover have "arith_div p (a - d0) ext = arith p ?qa" "arith_div p (b - d0) ext = arith p ?qb"
    using assms(3-5) by (simp_all add: arith_div_def c_div_nonneg)
  moreover have "arith p (?qa * ext + d0) = Inr (d0 + ?qa * ext)"
    using arith_id [OF ty(4), of "d0 + ?qa * ext"] in_ty_promote [OF ty(1) lo] by (simp add: p_def add.commute)
  ultimately show ?thesis using t ab ty(1) conv_id [OF ty(1) lo]
    by (simp add: expand_to_tile_def Let_def flip: p_def)
qed

lemma expand_to_tile_steps:
  assumes "ity_ok p" and "isigned p \<longrightarrow> in_ty p n \<and> in_ty p (n * ext) \<and> in_ty p (n * ext - 1)" and "in_ty p (d0 + n * ext - 1)"
  shows "bindR (arith p n) (\<lambda>n1. bindR (arith p (n1 * ext)) (\<lambda>m1. bindR (arith p (m1 - 1)) (\<lambda>l1.
           bindR (arith p (l1 + d0)) f))) = f (d0 + n * ext - 1)"
proof (cases "isigned p")
  case True
  have "n * ext - 1 + d0 = d0 + n * ext - 1" by simp
  then have "arith p (n * ext - 1 + d0) = Inr (d0 + n * ext - 1)" using arith_id [OF assms(1,3)] by metis
  then show ?thesis using True assms(2) arith_id [OF assms(1)] by simp
next
  case False
  have "(((n mod 2 ^ ibits p * ext) mod 2 ^ ibits p - 1) mod 2 ^ ibits p + d0) mod 2 ^ ibits p = (n * ext - 1 + d0) mod 2 ^ ibits p"
    by (simp only: mod_simps)
  moreover have "n * ext - 1 + d0 = d0 + n * ext - 1" by simp
  moreover have "(d0 + n * ext - 1) mod 2 ^ ibits p = d0 + n * ext - 1"
    using assms(3) False by (auto simp: in_ty_def ty_min_def ty_max_def)
  ultimately have "(((n mod 2 ^ ibits p * ext) mod 2 ^ ibits p - 1) mod 2 ^ ibits p + d0) mod 2 ^ ibits p = d0 + n * ext - 1" by metis
  moreover have "arith p x = Inr (x mod 2 ^ ibits p)" for x using False by (simp add: arith_def)
  ultimately show ?thesis by simp
qed

lemma last_tile_bounds:
  assumes "0 < (ext :: int)" and "d0 \<le> a" and "a \<le> b" and "b \<le> d1"
  shows "d0 \<le> d0 + (a - d0) div ext * ext" and "d0 + (a - d0) div ext * ext \<le> a" and "a - (d0 + (a - d0) div ext * ext) < ext"
    and "b \<le> d0 + ((b - d0) div ext + 1) * ext - 1" and "d0 + ((b - d0) div ext + 1) * ext - 1 - b < ext"
    and "d0 + ((b - d0) div ext + 1) * ext - 1 \<le> d0 + ((d1 - d0) div ext + 1) * ext - 1"
    and "0 \<le> (b - d0) div ext" and "(b - d0) div ext \<le> b - d0"
proof -
  have ma: "(a - d0) div ext * ext + (a - d0) mod ext = a - d0" "0 \<le> (a - d0) mod ext" "(a - d0) mod ext < ext"
    and mb: "(b - d0) div ext * ext + (b - d0) mod ext = b - d0" "0 \<le> (b - d0) mod ext" "(b - d0) mod ext < ext"
    using assms(1) by simp_all
  have dis: "((b - d0) div ext + 1) * ext = (b - d0) div ext * ext + ext" "((d1 - d0) div ext + 1) * ext = (d1 - d0) div ext * ext + ext"
    by (simp_all add: distrib_right)
  have q: "0 \<le> (a - d0) div ext * ext" "0 \<le> (b - d0) div ext" "(b - d0) div ext * ext \<le> (d1 - d0) div ext * ext"
    using assms by (auto simp: pos_imp_zdiv_nonneg_iff intro: mult_right_mono zdiv_mono1)
  have "(b - d0) div ext \<le> (b - d0) div ext * ext" using q(2) assms(1) by (simp add: mult_le_cancel_left1)
  with ma mb q show "d0 \<le> d0 + (a - d0) div ext * ext" "d0 + (a - d0) div ext * ext \<le> a" "a - (d0 + (a - d0) div ext * ext) < ext"
    "b \<le> d0 + ((b - d0) div ext + 1) * ext - 1" "d0 + ((b - d0) div ext + 1) * ext - 1 - b < ext"
    "d0 + ((b - d0) div ext + 1) * ext - 1 \<le> d0 + ((d1 - d0) div ext + 1) * ext - 1"
    "0 \<le> (b - d0) div ext" "(b - d0) div ext \<le> b - d0"
    unfolding dis by linarith+
qed

text \<open>
  C10: For a 64-bit dimension whose tile extent passed the check, \<open>expand_to_tile\<close> extends every range within the
  domain to the smallest range of whole tiles that has it, and the result fits the type. The exception are signed types:
  when the number of values up to the end of the last tile of the range exceeds the largest value of the type, the
  calculation overflows.
\<close>

theorem expand_to_tile_aligned:
  assumes "tiled ty d0 d1 ext dm" and "check_tile_extent ty dm = Inr ()" and "ibits ty = 64"
    and "d0 \<le> a" and "a \<le> b" and "b \<le> d1"
  shows "if isigned ty \<and> ty_max ty < ((b - d0) div ext + 1) * ext
         then expand_to_tile ty dm (int_range ty (a, b)) = Inl UB
         else \<exists>lo hi. expand_to_tile ty dm (int_range ty (a, b)) = Inr (int_range ty (lo, hi)) \<and> in_ty ty lo \<and> in_ty ty hi
           \<and> lo \<le> a \<and> b \<le> hi \<and> a - lo < ext \<and> hi - b < ext \<and> ext dvd (lo - d0) \<and> ext dvd (hi + 1 - d0)"
proof -
  note c = check_tile_extent_fits [OF assms(1-3)]
  note l = last_tile_bounds [OF c(1) assms(4-6)]
  have ty: "ity_ok ty" "promote ty = ty" "in_ty ty d0" "in_ty ty d1" using assms(1,3) by (simp_all add: tiled_def promote_def)
  have z: "in_ty ty y" if "0 \<le> y" "y \<le> d1 - d0 + 1" for y using that c(3) assms(3) by (auto simp: in_ty_def ty_min_def)
  define n where "n = (b - d0) div ext + 1"
  let ?lo = "d0 + (a - d0) div ext * ext" and ?hi = "d0 + n * ext - 1"
  have n: "in_ty ty n" "0 < n" using z [of n] l(7,8) assms(4-6) by (simp_all add: n_def)
  have hi: "in_ty ty ?lo" "in_ty ty ?hi" using l c(4) assms(4-6) ty(3,4) unfolding in_ty_def n_def by (intro conjI; linarith)+
  have e: "expand_to_tile ty dm (int_range ty (a, b)) = bindR (arith ty n) (\<lambda>n1. bindR (arith ty (n1 * ext)) (\<lambda>m1.
      bindR (arith ty (m1 - 1)) (\<lambda>l1. bindR (arith ty (l1 + d0)) (\<lambda>hi. Inr (int_range ty (?lo, conv ty hi))))))"
    using expand_to_tile_lower [OF assms(1) c(1) assms(4-6)] z [of "d1 - d0"] assms(4-6) by (simp add: ty(2) n_def)
  show ?thesis
  proof (cases "isigned ty \<and> ty_max ty < n * ext")
    case True
    then have "arith ty (n * ext) = Inl UB" by (simp add: arith_def in_ty_def)
    with True show ?thesis using arith_id [OF ty(1) n(1)] by (simp add: e flip: n_def)
  next
    case False
    have "0 < n * ext" using n(2) c(1) by simp
    then have "isigned ty \<longrightarrow> in_ty ty n \<and> in_ty ty (n * ext) \<and> in_ty ty (n * ext - 1)"
      using False n(1) assms(3) by (auto simp: in_ty_def ty_min_def)
    then have "expand_to_tile ty dm (int_range ty (a, b)) = Inr (int_range ty (?lo, ?hi))"
      unfolding e by (simp add: expand_to_tile_steps [OF ty(1) _ hi(2)] conv_id [OF ty(1) hi(2)])
    moreover have "?lo \<le> a" "b \<le> ?hi" "a - ?lo < ext" "?hi - b < ext" using l unfolding n_def by blast+
    moreover have "ext dvd ?lo - d0" "ext dvd ?hi + 1 - d0" by simp_all
    ultimately show ?thesis using False hi unfolding n_def [symmetric] by (simp only: if_False) blast
  qed
qed

definition sample_dim :: dimension where
  "sample_dim = (dimension_new ''d'' UINT64)\<lparr>dim_domain := int_range uint64_ty (1, 100), tile_extent := val_bytes uint64_ty 7\<rparr>"

theorem expand_to_tile_aligned_witness:
  "\<exists>lo hi. expand_to_tile uint64_ty sample_dim (int_range uint64_ty (20, 30)) = Inr (int_range uint64_ty (lo, hi)) \<and> lo \<le> 20 \<and> 30 \<le> hi
     \<and> 20 - lo < 7 \<and> hi - 30 < 7"
proof -
  have t: "tiled uint64_ty 1 100 7 sample_dim" by (simp add: tiled_def sample_dim_def ity_ok_def in_ty_def ty_min_def ty_max_def)
  have a: "arith uint64_ty x = Inr (x mod 2 ^ 64)" "conv uint64_ty x = x mod 2 ^ 64" for x by (simp_all add: arith_def conv_def ty_min_def)
  have "check_tile_extent_upper_floor uint64_ty 1 100 7 = Inr ()"
    by (simp add: check_tile_extent_upper_floor_def a promote_def ty_max_def)
  then have "check_tile_extent uint64_ty sample_dim = Inr ()"
    by (simp add: check_tile_extent_def tiled_vals(1-4) [OF t] a promote_def)
  from expand_to_tile_aligned [OF t this, of 20 30] show ?thesis by simp blast
qed

lemma conv_wrap: "conv ty x = conv ty (x - 2 ^ ibits ty)"
proof -
  have "(x - 2 ^ ibits ty - ty_min ty) mod 2 ^ ibits ty = (x - ty_min ty - 2 ^ ibits ty) mod 2 ^ ibits ty" by (simp add: algebra_simps)
  then show ?thesis by (simp add: conv_def)
qed

text \<open>What the check accepts of a narrow type whose last tile ends beyond the type.\<close>

lemma check_tile_extent_narrow:
  assumes "tiled ty d0 d1 ext dm" and "ibits ty < 32" and "0 < ext" and "ext \<le> d1 - d0 + 1"
    and "ty_max ty < d0 + ((d1 - d0) div ext + 1) * ext - 1"
  shows "check_tile_extent ty dm = Inr ()"
proof -
  note t = tiled_vals [OF assms(1)]
  have ty: "ity_ok ty" "in_ty ty d0" "in_ty ty d1" "d0 \<le> d1" "in_ty ty ext" using assms(1) by (simp_all add: tiled_def)
  have p: "promote ty = int32_ty" using assms(2) by (simp add: promote_def)
  let ?q = "(d1 - d0) div ext"
  have b: "- (2 ^ 15) \<le> d0" "d1 < 2 ^ 16" "ext < 2 ^ 16"
    using ty assms(2) by (auto simp: ity_ok_def in_ty_def ty_min_def ty_max_def split: if_splits)
  then have a: "arith int32_ty (d1 - d0) = Inr (d1 - d0)" "arith int32_ty (d1 - d0 + 1) = Inr (d1 - d0 + 1)"
    "arith int32_ty (ext - 1) = Inr (ext - 1)" using ty(4) assms(3) by (auto simp: arith_def in_ty_def ty_min_def ty_max_def)
  have u: "conv uint64_ty (d1 - d0 + 1) = d1 - d0 + 1" "conv uint64_ty (d1 - d0) = d1 - d0" "conv uint64_ty ext = ext"
    using b ty(4) assms(3) by (auto simp: conv_def ty_min_def)
  have q: "0 \<le> ?q * ext" "?q * ext \<le> d1 - d0"
    using last_tile_bounds [OF assms(3) ty(4) order_refl order_refl] by linarith+
  have "(d1 - d0 + 1) mod ext \<noteq> 0"
  proof
    assume "(d1 - d0 + 1) mod ext = 0"
    then obtain k where k: "d1 - d0 + 1 = k * ext" by (metis mod_0_imp_dvd dvd_def mult.commute)
    then have "d1 - d0 = (ext - 1) + (k - 1) * ext" by (simp add: algebra_simps)
    then have "?q = k - 1" using assms(3) by (simp only: div_mult_self2) simp
    then have "d0 + (?q + 1) * ext - 1 = d1" using k by (simp add: algebra_simps)
    then show False using assms(5) ty(3) by (simp add: in_ty_def)
  qed
  moreover have "check_tile_extent_upper_floor ty d0 d1 ext = Inr ()"
  proof -
    define F where "F = (if isigned ty then int64_ty else uint64_ty)"
    have "conv F ((?q * ext + conv uint64_ty d0) mod 2 ^ 64) = d0 + ?q * ext"
      using q b ty by (auto simp: F_def conv_def ty_min_def ty_max_def in_ty_def mod_add_right_eq mod_diff_left_eq algebra_simps)
    moreover have "in_ty F (ext - 1)" "in_ty F (ty_max F - (ext - 1))" "d0 + ?q * ext \<le> ty_max F - (ext - 1)" "ity_ok F"
      using q b assms(3) by (auto simp: F_def in_ty_def ty_min_def ty_max_def ity_ok_def)
    then have "conv F (ext - 1) = ext - 1" "arith F (ty_max F - (ext - 1)) = Inr (ty_max F - (ext - 1))" "d0 + ?q * ext \<le> ty_max F - (ext - 1)"
      by (simp_all only: conv_id arith_id)
    moreover have "d0 + ?q * ext \<le> ty_max ty" using q ty(3) by (simp add: in_ty_def)
    ultimately show ?thesis using a u assms(3) p by (simp add: check_tile_extent_upper_floor_def Let_def flip: F_def)
  qed
  ultimately show ?thesis using t a u assms(3,4) p by (simp add: check_tile_extent_def Let_def)
qed



end
