(* ===== verification/Filter_Parts.thy ===== *)
theory Filter_Parts
  imports Filter_Interface
begin

text \<open>
  What the filters that work part by part share: the parts of an input, the bytes of a part in a buffer
  in one piece, and writing a part through a pointer to the memory of the output buffer.
\<close>

section \<open>The parts of an input\<close>

definition parts_ok :: "const_buffer list \<Rightarrow> bool" where
  "parts_ok parts \<longleftrightarrow> list_all (\<lambda>p. coffset p = 0 \<and> csize p \<le> cap (cdata p) \<and> cap (cdata p) < 2 ^ 64) parts
     \<and> length (concat (map cb_bytes parts)) < 2 ^ 28"

lemma parts_ok_Cons:
  "parts_ok (p # ps) \<Longrightarrow> coffset p = 0 \<and> csize p \<le> cap (cdata p) \<and> cap (cdata p) < 2 ^ 64 \<and> parts_ok ps
     \<and> csize p + length (concat (map cb_bytes ps)) < 2 ^ 28"
  by (auto simp: parts_ok_def cb_bytes_def)

lemma parts_of_input:
  assumes "bovs_ok (fbuffers inp)" and "length (fb_bytes inp) < 2 ^ 28"
  shows "concat (map cb_bytes (fb_buffers inp)) = fb_bytes inp" and "parts_ok (fb_buffers inp)"
proof -
  have "cb_bytes (cb_new (bdata b) (bsize b)) = buffer_bytes b" for b
    by (simp add: cb_bytes_def cb_new_def buffer_bytes_def)
  then show eq: "concat (map cb_bytes (fb_buffers inp)) = fb_bytes inp"
    by (simp add: fb_buffers_def fb_bytes_def bovs_bytes_def comp_def)
  show "parts_ok (fb_buffers inp)" using assms eq
    by (auto simp: parts_ok_def fb_buffers_def bovs_ok_def list_all_iff cb_new_def buffer_inv_def)
qed

lemma of_le_u32:
  "n < 2 ^ 32 \<Longrightarrow> unat (of_le (le_bytes 4 (of_nat n :: 32 word)) :: 32 word) = n"
  by (simp add: of_le_le_bytes unat_of_nat)

lemma md_parts:
  assumes "bovs_ok (fbuffers fb)"
  shows "concat (map cb_bytes (fb_buffers fb)) = fb_bytes fb" and "list_all (\<lambda>p. csize p \<le> cap (cdata p)) (fb_buffers fb)"
    and "length (fb_buffers fb) = length (fbuffers fb)"
    and "list_all solid (fbuffers fb) \<Longrightarrow> list_all (\<lambda>p. cb_bytes p \<noteq> []) (fb_buffers fb)"
proof -
  have "cb_bytes (cb_new (bdata b) (bsize b)) = buffer_bytes b" for b
    by (simp add: cb_bytes_def cb_new_def buffer_bytes_def)
  then show "concat (map cb_bytes (fb_buffers fb)) = fb_bytes fb"
    by (simp add: fb_buffers_def fb_bytes_def bovs_bytes_def comp_def)
  show "list_all (\<lambda>p. csize p \<le> cap (cdata p)) (fb_buffers fb)" "length (fb_buffers fb) = length (fbuffers fb)" using assms
    by (auto simp: fb_buffers_def bovs_ok_def list_all_iff cb_new_def buffer_inv_def)
  have "0 < length (cb_bytes (cb_new (bdata (bv_buffer b)) (bsize (bv_buffer b))))" if "solid b" for b
    using that by (simp add: solid_def cb_bytes_def cb_new_def buffer_inv_def)
  then show "list_all (\<lambda>p. cb_bytes p \<noteq> []) (fb_buffers fb)" if "list_all solid (fbuffers fb)"
    using that by (auto simp: fb_buffers_def list_all_iff)
qed

lemma parts_of_data:
  assumes "data_ok inp"
  shows "parts_ok (fb_buffers inp)" and "concat (map cb_bytes (fb_buffers inp)) = fb_bytes inp"
    and "length (fb_buffers inp) < 2 ^ 28" and "list_all (\<lambda>p. cb_bytes p \<noteq> []) (fb_buffers inp)" and "fb_buffers inp \<noteq> []"
proof -
  have inp: "bovs_ok (fbuffers inp)" "length (fb_bytes inp) < 2 ^ 28" "list_all solid (fbuffers inp)" "fb_bytes inp \<noteq> []"
    "length (fbuffers inp) < 2 ^ 20" using assms by (simp_all add: data_ok_def fb_start_def)
  show "parts_ok (fb_buffers inp)" "concat (map cb_bytes (fb_buffers inp)) = fb_bytes inp"
    by (rule parts_of_input [OF inp(1,2)])+
  show "fb_buffers inp \<noteq> []" using inp(4) by (auto simp: fb_buffers_def fb_bytes_def)
  show "length (fb_buffers inp) < 2 ^ 28" "list_all (\<lambda>p. cb_bytes p \<noteq> []) (fb_buffers inp)"
    using md_parts(3,4) [OF inp(1)] inp(3,5) by simp_all
qed

lemma flat_length:
  assumes "flat bs fb"
  shows "length bs < 2 ^ 63"
proof (cases "fbuffers fb")
  case Nil
  then show ?thesis using assms by (auto simp: flat_def fb_bytes_def)
next
  case (Cons b l)
  then have "bs = buffer_bytes (bv_buffer b)" "buffer_inv (bv_buffer b)" "bsize (bv_buffer b) < 2 ^ 63"
    using assms by (auto simp: flat_def fb_bytes_def)
  then show ?thesis by (simp add: length_buffer_bytes)
qed

lemma part_length: "x \<in> set xs \<Longrightarrow> length x \<le> length (concat xs)"
  unfolding length_concat by (intro member_le_sum_list) auto

lemma le_bytes_ne: "0 < n \<Longrightarrow> le_bytes n w \<noteq> []"
  by (simp flip: length_greater_0_conv)

text \<open>A part of an input in one piece.\<close>

lemma fb_get_part:
  assumes "fb_source fb" and "length (fbuffers fb) \<le> 1" and "fb_rest fb = x @ y" and "fb_rest fb \<noteq> []"
  shows "\<exists>part. fb_get_const_buffer (length x) fb = Inr part \<and> csize part = length x \<and> coffset part = 0
           \<and> cb_bytes part = x \<and> length x \<le> cap (cdata part) \<and> cap (cdata part) < 2 ^ 64"
proof -
  obtain b where bs: "fbuffers fb = [b]" using assms(2,4)
    by (cases "fbuffers fb") (auto simp: fb_rest_def fb_bytes_def)
  have b: "buffer_inv (bv_buffer b)" "bsize (bv_buffer b) < 2 ^ 63" "length (fb_bytes fb) = bsize (bv_buffer b)"
    "fb_bytes fb = take (bsize (bv_buffer b)) (region (bdata (bv_buffer b)))"
    using assms(1) bs by (auto simp: fb_source_def fb_bytes_def buffer_bytes_def buffer_inv_def)
  obtain c where "current_buffer fb = Some c" "c \<le> 1"
    "foffset fb = length (bovs_bytes (take c (fbuffers fb))) + current_relative fb"
    using assms(1) bs by (auto simp: fb_source_def)
  moreover have "foffset fb < bsize (bv_buffer b)" using assms(4) b(3) by (auto simp: fb_rest_def)
  ultimately have c: "current_buffer fb = Some 0" "foffset fb = current_relative fb" "current_relative fb < bsize (bv_buffer b)"
    using bs b(3) by (cases c; auto simp: fb_bytes_def)+
  have x: "x = take (length x) (drop (current_relative fb) (fb_bytes fb))" using assms(3) c(2) by (simp add: fb_rest_def)
  have len: "current_relative fb + length x \<le> bsize (bv_buffer b)"
    using arg_cong [OF assms(3), of length] b(3) c(2,3) by (simp add: fb_rest_def)
  have sub: "sub64 (bsize (bv_buffer b)) (current_relative fb) = bsize (bv_buffer b) - current_relative fb"
    using b(2) c(3) by (simp add: sub64_exact)
  let ?p = "cb_new (buffer_data_at (current_relative fb) (bv_buffer b)) (length x)"
  have "fb_get_const_buffer (length x) fb = Inr ?p" using c(1) bs sub len by (simp add: fb_get_const_buffer_def Let_def)
  moreover have "cdata ?p = map_option (drop (current_relative fb)) (bdata (bv_buffer b))" "csize ?p = length x" "coffset ?p = 0"
    by (simp_all add: cb_new_def buffer_data_at_def)
  moreover have "cb_bytes ?p = x" using x len b(4)
    by (cases "bdata (bv_buffer b)") (simp_all add: cb_bytes_def cb_new_def buffer_data_at_def drop_take)
  moreover have "length x \<le> cap (cdata ?p)" "cap (cdata ?p) < 2 ^ 64"
    using b(1) len c(3) by (cases "bdata (bv_buffer b)"; auto simp: cb_new_def buffer_data_at_def buffer_inv_def)+
  ultimately show ?thesis by blast
qed

text \<open>Skipping bytes.\<close>

lemma fb_advance_skip:
  assumes "fb_source fb" and "length (fbuffers fb) \<le> 1" and "fb_rest fb = x @ y" and "x \<noteq> []"
  shows "\<exists>fb'. fb_advance_offset (length x) fb = Inr fb' \<and> fb_source fb' \<and> fb_rest fb' = y \<and> fbuffers fb' = fbuffers fb"
  using fb_advance_flat [OF assms(1,2), of "length x"] assms(3,4) by auto

section \<open>Writing through a pointer\<close>

text \<open>After the bytes have been written through the pointer, the position moves behind them.\<close>

definition advance_output :: "nat \<Rightarrow> buffer \<Rightarrow> buffer result" where
  "advance_output n output =
     bindR (if owns_data output then drop_status (buffer_advance_size n output) output else Inr output)
       (\<lambda>b. Inr (buffer_advance_offset n b))"

text \<open>A transformation of the bytes of a part into as many bytes, written at the position of the output.\<close>

definition transform_part :: "(byte list \<Rightarrow> byte list \<Rightarrow> byte list) \<Rightarrow> const_buffer \<Rightarrow> buffer \<Rightarrow> buffer result" where
  "transform_part f part output =
     bindR (mem_read (cdata part) 0 (csize part)) (\<lambda>src.
     bindR (mem_read (bdata output) (boffset output) (csize part)) (\<lambda>dest.
     bindR (mem_write (bdata output) (boffset output) (f src dest)) (\<lambda>d.
       Inr (output\<lparr>bdata := d\<rparr>))))"

text \<open>
  The output buffer behind the pointer: \<open>ws\<close> has been written and there are \<open>cp\<close> bytes. The size of a
  buffer of the pool grows with what is written; memory of others has its size from the start.
\<close>

definition raw_sink :: "bool \<Rightarrow> nat \<Rightarrow> byte list \<Rightarrow> buffer \<Rightarrow> bool" where
  "raw_sink fx cp ws b \<longleftrightarrow> buffer_inv b \<and> owns_data b = (\<not> fx) \<and> capacity b = cp \<and> cp < 2 ^ 63
     \<and> (\<not> fx \<longrightarrow> bsize b = boffset b) \<and> boffset b \<le> cp \<and> take (boffset b) (region (bdata b)) = ws"

lemma raw_sink_cap: "raw_sink fx cp ws b \<Longrightarrow> cp \<le> cap (bdata b) \<and> length ws = boffset b"
  by (auto simp: raw_sink_def capacity_def buffer_inv_def split: if_splits)

lemma raw_sink_start:
  assumes "fb_sink fx cp rest fb" and "fb_written fb = []"
  shows "\<exists>b. fb_buffer_ptr 0 fb = Inr (Some b) \<and> raw_sink fx cp [] b"
proof -
  from assms(1) obtain b where b: "fbuffers fb = b # rest" "buffer_inv (bv_buffer b)" "owns_data (bv_buffer b) = (\<not> fx)"
    "capacity (bv_buffer b) = cp" "cp < 2 ^ 63" "\<not> fx \<longrightarrow> bsize (bv_buffer b) = fb_pos fb" by (rule fb_sinkE)
  moreover have "fb_pos fb = 0" using fb_written_length(1) [OF assms(1)] assms(2) by simp
  moreover have "\<not> read_only fb" using assms(1) by (simp add: fb_sink_def)
  ultimately show ?thesis
    by (auto simp: fb_buffer_ptr_def raw_sink_def buffer_reset_offset_def buffer_inv_def capacity_def)
qed

lemma raw_sink_advance:
  assumes "raw_sink fx cp ws b" and "length ws + length x \<le> cp" and "cap d = cap (bdata b)"
    and "region d = overwrite (region (bdata b)) (length ws) x"
  shows "\<exists>b'. advance_output (length x) (b\<lparr>bdata := d\<rparr>) = Inr b' \<and> raw_sink fx cp (ws @ x) b'"
proof -
  have b: "buffer_inv b" "owns_data b = (\<not> fx)" "capacity b = cp" "cp < 2 ^ 63" "\<not> fx \<longrightarrow> bsize b = boffset b"
    "boffset b = length ws" "take (boffset b) (region (bdata b)) = ws" "cp \<le> cap (bdata b)"
    using assms(1) raw_sink_cap [OF assms(1)] by (simp_all add: raw_sink_def)
  have add: "add64 (boffset b) (length x) = length ws + length x" using assms(2) b(4,6) by (simp add: add64_exact)
  have "take (length ws + length x) (region d) = ws @ x"
    using b(6,7,8) assms(2,4) by (simp add: take_overwrite_end)
  then show ?thesis using b add assms(2,3)
    by (cases fx) (auto simp: advance_output_def buffer_advance_size_def buffer_advance_offset_def raw_sink_def
        buffer_inv_def capacity_def)
qed

lemma transform_part_ok:
  assumes "raw_sink fx cp ws b" and "csize part \<le> cap (cdata part)" and "length ws + csize part \<le> cp"
    and "\<And>d. length d = csize part \<Longrightarrow> length (f (cb_bytes part) d) = csize part"
  shows "\<exists>d b1 b'. transform_part f part b = Inr b1 \<and> advance_output (csize part) b1 = Inr b'
           \<and> length d = csize part \<and> raw_sink fx cp (ws @ f (cb_bytes part) d) b'"
proof -
  note cp = raw_sink_cap [OF assms(1)]
  let ?d = "slice (region (bdata b)) (boffset b) (csize part)"
  have src: "mem_read (cdata part) 0 (csize part) = Inr (cb_bytes part)"
    using assms(2) by (simp add: mem_read_region cb_bytes_def slice_def)
  have dst: "mem_read (bdata b) (boffset b) (csize part) = Inr ?d" "length ?d = csize part"
    using assms(3) cp by (simp_all add: mem_read_region length_slice)
  note n = assms(4) [OF dst(2)]
  from mem_write_region [of "boffset b" "f (cb_bytes part) ?d" "bdata b"] assms(3) cp n obtain d' where
    d': "mem_write (bdata b) (boffset b) (f (cb_bytes part) ?d) = Inr d'" "cap d' = cap (bdata b)"
    "region d' = overwrite (region (bdata b)) (length ws) (f (cb_bytes part) ?d)" by auto
  from raw_sink_advance [OF assms(1) _ d'(2,3)] assms(3) n obtain b' where
    b': "advance_output (csize part) (b\<lparr>bdata := d'\<rparr>) = Inr b'" "raw_sink fx cp (ws @ f (cb_bytes part) ?d) b'" by auto
  have "transform_part f part b = Inr (b\<lparr>bdata := d'\<rparr>)" using src dst d'(1) by (simp add: transform_part_def)
  then show ?thesis using b' dst(2) by blast
qed

text \<open>What was written through the pointer is in the filter buffer.\<close>

lemma raw_sink_bytes:
  assumes "raw_sink fx cp ws b" and "fx \<Longrightarrow> length ws = cp" and "fbuffers fb = b0 # rest"
  shows "fbuffers (fb_put_back 0 b fb) = b0\<lparr>bv_buffer := b\<rparr> # rest" "fb_bytes (fb_put_back 0 b fb) = ws @ bovs_bytes rest"
    "bsize b = length ws" "buffer_inv b" "read_only (fb_put_back 0 b fb) = read_only fb" "cp < 2 ^ 63" "length ws \<le> cp"
proof -
  have "bsize b = boffset b" using assms(1,2) raw_sink_cap [OF assms(1)] by (cases fx) (auto simp: raw_sink_def capacity_def)
  then show "fbuffers (fb_put_back 0 b fb) = b0\<lparr>bv_buffer := b\<rparr> # rest" "fb_bytes (fb_put_back 0 b fb) = ws @ bovs_bytes rest"
    "bsize b = length ws" "buffer_inv b" "read_only (fb_put_back 0 b fb) = read_only fb" "cp < 2 ^ 63" "length ws \<le> cp"
    using assms(1,3) raw_sink_cap [OF assms(1)]
    by (simp_all add: fb_put_back_def fb_bytes_def raw_sink_def buffer_bytes_def)
qed

lemma raw_data_done:
  assumes "raw_sink False cp ws b" and "fb_sink fx c [] fb" and "cp < 2 ^ 28" and "ws \<noteq> []"
  shows "data_done (fb_put_back 0 b fb)" and "fb_bytes (fb_put_back 0 b fb) = ws"
proof -
  from assms(2) obtain b0 where b0: "fbuffers fb = [b0]" by (rule fb_sinkE)
  note r = raw_sink_bytes [OF assms(1) _ b0]
  show "fb_bytes (fb_put_back 0 b fb) = ws" using r(2) by simp
  moreover have "0 < length ws" using assms(4) by simp
  ultimately show "data_done (fb_put_back 0 b fb)" using r assms(2,3,4)
    by (simp add: data_done_def solid_def fb_sink_def)
qed

lemma raw_flat:
  assumes "raw_sink fx cp ws b" and "fx \<Longrightarrow> length ws = cp" and "fb_sink fx c [] fb"
  shows "flat ws (fb_put_back 0 b fb)" and "\<not> read_only (fb_put_back 0 b fb)"
proof -
  from assms(3) obtain b0 where b0: "fbuffers fb = [b0]" by (rule fb_sinkE)
  note r = raw_sink_bytes [OF assms(1,2) b0]
  show "flat ws (fb_put_back 0 b fb)" using r by (simp add: flat_def)
  show "\<not> read_only (fb_put_back 0 b fb)" using r(5) assms(3) by (simp add: fb_sink_def)
qed

section \<open>Filters that code each part on its own\<close>

text \<open>
  The shuffling filters write a code of the same size for every part, and the sizes of the parts to the
  metadata. The function that codes one part is an argument of the loops.
\<close>

type_synonym part_fun = "allocator \<Rightarrow> const_buffer \<Rightarrow> buffer \<Rightarrow> buffer result"

definition code_part :: "part_fun \<Rightarrow> allocator \<Rightarrow> buffer \<times> filter_buffer \<Rightarrow> const_buffer \<Rightarrow> (buffer \<times> filter_buffer) result" where
  "code_part shuffle al s part =
     (case s of (output_buf, output_metadata) \<Rightarrow>
        bindR (fb_write (le_bytes 4 (of_nat (csize part) :: 32 word)) output_metadata) (\<lambda>md.
        bindR (shuffle al part output_buf) (\<lambda>b1.
        bindR (advance_output (csize part) b1) (\<lambda>b2. Inr (b2, md)))))"

definition code_forward :: "(filter_buffer \<Rightarrow> const_buffer list) \<Rightarrow> part_fun \<Rightarrow> filter_run" where
  "code_forward parts_of shuffle al gb input_metadata input output_metadata output =
     bindR (fb_prepend_buffer al (gb 0) (fb_size input) output) (\<lambda>out1.
     bindR (fb_buffer_ptr 0 out1) (\<lambda>p. case p of None \<Rightarrow> Inl AssertFail | Some output_buf \<Rightarrow>
       let parts = parts_of input; num_parts = u32 (length parts) in
       bindR (fb_append_view input_metadata output_metadata) (\<lambda>md1.
       bindR (fb_prepend_buffer al (gb 1) (u32 (4 + num_parts * 4)) md1) (\<lambda>md2.
       bindR (fb_write (le_bytes 4 (of_nat num_parts :: 32 word)) md2) (\<lambda>md3.
       bindR (foldR (code_part shuffle al) (output_buf, md3) parts) (\<lambda>(b, md4).
         Inr (input_metadata, input, md4, fb_put_back 0 b out1)))))))"

definition decode_part :: "part_fun \<Rightarrow> allocator \<Rightarrow> filter_buffer \<times> filter_buffer \<times> buffer \<Rightarrow> nat
    \<Rightarrow> (filter_buffer \<times> filter_buffer \<times> buffer) result" where
  "decode_part unshuffle al s i =
     (case s of (input_metadata, input, output_buf) \<Rightarrow>
        bindR (fb_read 4 input_metadata) (\<lambda>(bs, md).
        let part_size = unat (of_le bs :: 32 word) in
        bindR (fb_get_const_buffer part_size input) (\<lambda>part.
        bindR (unshuffle al part output_buf) (\<lambda>b1.
        bindR (advance_output part_size b1) (\<lambda>b2.
        bindR (fb_advance_offset part_size input) (\<lambda>inp. Inr (md, inp, b2)))))))"

definition code_reverse :: "part_fun \<Rightarrow> filter_run" where
  "code_reverse unshuffle al gb input_metadata input output_metadata output =
     bindR (fb_read 4 input_metadata) (\<lambda>(bs, md1).
     bindR (fb_prepend_buffer al (gb 0) (fb_size input) output) (\<lambda>out1.
     bindR (fb_buffer_ptr 0 out1) (\<lambda>p. case p of None \<Rightarrow> Inl AssertFail | Some output_buf \<Rightarrow>
       bindR (foldR (decode_part unshuffle al) (md1, input, output_buf) [0..<unat (of_le bs :: 32 word)])
         (\<lambda>(md2, inp2, b).
       bindR (fb_append_view_range md2 (foffset md2) (sub64 (fb_size md2) (foffset md2)) output_metadata) (\<lambda>om.
         Inr (md2, inp2, om, fb_put_back 0 b out1))))))"

definition part_sizes :: "byte list list \<Rightarrow> byte list" where
  "part_sizes xs = concat (map (\<lambda>x. le_bytes 4 (of_nat (length x) :: 32 word)) xs)"

lemma part_sizes_simps [simp]: "part_sizes [] = []"
  "part_sizes (x # xs) = le_bytes 4 (of_nat (length x) :: 32 word) @ part_sizes xs"
  by (simp_all add: part_sizes_def)

text \<open>What the loops need: the parts cover the input, and every code can be undone.\<close>

locale part_coder =
  fixes parts_of :: "filter_buffer \<Rightarrow> const_buffer list" and shuffle unshuffle :: part_fun
    and code :: "byte list \<Rightarrow> byte list"
  assumes parts: "data_ok inp \<Longrightarrow> parts_ok (parts_of inp) \<and> concat (map cb_bytes (parts_of inp)) = fb_bytes inp
        \<and> length (parts_of inp) < 2 ^ 29 \<and> cb_bytes (last (parts_of inp)) \<noteq> []"
    and shuffled: "shuffle al part b = Inr b1 \<Longrightarrow> raw_sink fx cp ws b \<Longrightarrow> csize part \<le> cap (cdata part) \<Longrightarrow>
        length ws + csize part \<le> cp \<Longrightarrow>
        \<exists>b'. advance_output (csize part) b1 = Inr b' \<and> raw_sink fx cp (ws @ code (cb_bytes part)) b'"
    and unshuffled: "alloc_total al \<Longrightarrow> raw_sink fx cp ws b \<Longrightarrow> csize part \<le> cap (cdata part) \<Longrightarrow>
        length ws + csize part \<le> cp \<Longrightarrow> cb_bytes part = code x \<Longrightarrow>
        \<exists>b1 b'. unshuffle al part b = Inr b1 \<and> advance_output (csize part) b1 = Inr b' \<and> raw_sink fx cp (ws @ x) b'"
    and length_code: "length (code x) = length x"
begin

lemma length_codes: "length (concat (map code xs)) = length (concat xs)"
  by (induction xs) (simp_all add: length_code)

lemma code_parts:
  assumes "foldR (code_part shuffle al) (b, md) ps = Inr (b', md')" and "parts_ok ps" and "raw_sink fx cp ws b"
    and "length ws + length (concat (map cb_bytes ps)) \<le> cp" and "fb_sink False cm vs md" and "fb_room cm md (4 * length ps + m)"
  shows "raw_sink fx cp (ws @ concat (map (\<lambda>p. code (cb_bytes p)) ps)) b'
       \<and> fb_sink False cm vs md' \<and> fb_written md' = fb_written md @ part_sizes (map cb_bytes ps)"
  using assms
proof (induction ps arbitrary: b md ws)
  case (Cons p ps)
  from Cons.prems(1) obtain md1 b1 b2 where s: "fb_write (le_bytes 4 (of_nat (csize p) :: 32 word)) md = Inr md1"
    "shuffle al p b = Inr b1" "advance_output (csize p) b1 = Inr b2" "foldR (code_part shuffle al) (b2, md1) ps = Inr (b', md')"
    by (auto simp: code_part_def [of _ _ _ p] bindR_Inr)
  have p: "csize p \<le> cap (cdata p)" "parts_ok ps" using parts_ok_Cons [OF Cons.prems(2)] by simp_all
  then have n: "length (cb_bytes p) = csize p" by (simp add: cb_bytes_def)
  from shuffled [OF s(2) Cons.prems(3) p(1)] Cons.prems(4) n s(3) have b2: "raw_sink fx cp (ws @ code (cb_bytes p)) b2"
    by auto
  have "fb_room cm md (length (le_bytes 4 (of_nat (csize p) :: 32 word)) + (4 * length ps + m))"
    using Cons.prems(6) by (simp add: add.assoc)
  from fsink.put_ok [OF Cons.prems(5) this] s(1) have md1: "fb_sink False cm vs md1"
    "fb_written md1 = fb_written md @ le_bytes 4 (of_nat (csize p) :: 32 word)" "fb_room cm md1 (4 * length ps + m)" by auto
  have "length (ws @ code (cb_bytes p)) + length (concat (map cb_bytes ps)) \<le> cp"
    using Cons.prems(4) length_code [of "cb_bytes p"] by simp
  from Cons.IH [OF s(4) p(2) b2 this md1(1,3)] md1(2) n show ?case by simp
qed simp

lemma decode_parts:
  assumes "alloc_total al" and "length js = length xs" and "xs \<noteq> [] \<longrightarrow> last xs \<noteq> []" and "list_all (\<lambda>x. length x < 2 ^ 32) xs"
    and "fb_source md" and "fb_rest md = part_sizes xs @ zs"
    and "fb_source inp" and "length (fbuffers inp) \<le> 1" and "fb_rest inp = concat (map code xs)"
    and "raw_sink fx cp ws b" and "length ws + length (concat xs) \<le> cp"
  shows "\<exists>md' inp' b'. foldR (decode_part unshuffle al) (md, inp, b) js = Inr (md', inp', b')
       \<and> fb_source md' \<and> fb_rest md' = zs \<and> fbuffers md' = fbuffers md \<and> raw_sink fx cp (ws @ concat xs) b'"
  using assms(2-)
proof (induction xs arbitrary: js md inp b ws)
  case (Cons x xs)
  from Cons.prems(1) obtain j js' where js: "js = j # js'" "length js' = length xs" by (cases js) auto
  let ?h = "le_bytes 4 (of_nat (length x) :: 32 word)"
  have "fb_rest md = ?h @ (part_sizes xs @ zs)" using Cons.prems(5) by simp
  from fsource.get_front [OF Cons.prems(4) this, of 4] obtain md1 where
    md1: "fb_read 4 md = Inr (?h, md1)" "fb_source md1" "fb_rest md1 = part_sizes xs @ zs" by auto
  have x: "unat (of_le ?h :: 32 word) = length x" using Cons.prems(3) by (simp add: of_le_u32)
  have "concat (x # xs) \<noteq> []" using Cons.prems(2) last_in_set [of "x # xs"] by auto
  then have ne: "fb_rest inp \<noteq> []" using Cons.prems(8) length_codes [of "x # xs"] by (metis length_0_conv)
  have fr: "fb_rest inp = code x @ concat (map code xs)" using Cons.prems(8) by simp
  from fb_get_part [OF Cons.prems(6,7) fr ne] obtain part where
    part: "fb_get_const_buffer (length x) inp = Inr part" "csize part = length x" "cb_bytes part = code x"
      "csize part \<le> cap (cdata part)" using length_code [of x] by auto
  from unshuffled [OF assms(1) Cons.prems(9) part(4) _ part(3)] Cons.prems(10) part(2) obtain b1 b2 where
    b: "unshuffle al part b = Inr b1" "advance_output (length x) b1 = Inr b2" "raw_sink fx cp (ws @ x) b2" by auto
  have "length x \<le> length (fb_rest inp)" using fr length_code [of x] by simp
  from fb_advance_flat [OF Cons.prems(6,7) ne this] obtain inp1 where
    inp1: "fb_advance_offset (length x) inp = Inr inp1" "fb_source inp1" "fb_rest inp1 = concat (map code xs)"
      "fbuffers inp1 = fbuffers inp" using fr length_code [of x] by auto
  have prems: "xs \<noteq> [] \<longrightarrow> last xs \<noteq> []" "list_all (\<lambda>x. length x < 2 ^ 32) xs" "length (fbuffers inp1) \<le> 1"
    "length (ws @ x) + length (concat xs) \<le> cp" using Cons.prems inp1(4) by (simp_all split: if_splits)
  from Cons.IH [OF js(2) prems(1,2) md1(2,3) inp1(2) prems(3) inp1(3) b(3) prems(4)] obtain md' inp' b' where
    "foldR (decode_part unshuffle al) (md1, inp1, b2) js' = Inr (md', inp', b')"
    "fb_source md'" "fb_rest md' = zs" "fbuffers md' = fbuffers md1" "raw_sink fx cp ((ws @ x) @ concat xs) b'" by blast
  moreover have "decode_part unshuffle al (md, inp, b) j = Inr (md1, inp1, b2)"
    using md1(1) x part(1) b(1,2) inp1(1) by (simp add: decode_part_def Let_def)
  ultimately show ?case using js(1) fb_read_frame [OF md1(1)] by simp
qed simp

lemma code_forward_spec:
  assumes run: "code_forward parts_of shuffle al gb im inp fb_new fb_new = Inr (im1, inp1, om, out)"
    and mem: "small_blocks al" "small_pool gb" and im: "md_ok im" and inp: "data_ok inp"
  defines "xs \<equiv> map cb_bytes (parts_of inp)"
  shows "fb_bytes out = concat (map code xs)" (is ?bytes)
    and "fb_bytes om = le_bytes 4 (of_nat (length xs) :: 32 word) @ part_sizes xs @ fb_bytes im" (is ?meta)
    and "md_done im om" and "data_done out"
proof -
  let ?ps = "parts_of inp" and ?B = "length (fb_bytes inp)"
  have ok: "bovs_ok (fbuffers im)" "list_all solid (fbuffers im)" "bovs_ok (fbuffers inp)" "?B < 2 ^ 28" "fb_bytes inp \<noteq> []"
    using im inp by (simp_all add: md_ok_def data_ok_def fb_start_def)
  note ps = parts [OF inp]
  have u: "u32 (length ?ps) = length ?ps" "u32 (4 + length ?ps * 4) = 4 + 4 * length ?ps"
    using ps by (simp_all add: u32_def)
  from run obtain out1 b md1 md2 md3 b' where
    out1: "fb_prepend_buffer al (gb 0) (fb_size inp) fb_new = Inr out1" and b: "fb_buffer_ptr 0 out1 = Inr (Some b)"
    and md1: "fb_append_view im fb_new = Inr md1" and md2: "fb_prepend_buffer al (gb 1) (4 + 4 * length ?ps) md1 = Inr md2"
    and md3: "fb_write (le_bytes 4 (of_nat (length ?ps) :: 32 word)) md2 = Inr md3"
    and enc: "foldR (code_part shuffle al) (b, md3) ?ps = Inr (b', om)" and out: "out = fb_put_back 0 b' out1"
    by (auto simp: code_forward_def Let_def bindR_Inr u split: option.splits)
  from fb_prepend_small [OF out1 mem] obtain cp where cp: "fb_sink False cp [] out1" "fb_written out1 = []" "?B \<le> cp"
    "cp < 2 ^ 28" using fb_size_bytes [OF ok(3)] by (auto simp: fb_new_def)
  have raw: "raw_sink False cp [] b" using raw_sink_start [OF cp(1,2)] b by auto
  from forward_md [OF ok(1)] ok(2) md1 obtain vs where vs: "md1 = fb_new\<lparr>fbuffers := vs\<rparr>" "bovs_bytes vs = fb_bytes im"
    "bovs_ok vs" "list_all solid vs" "length vs \<le> length (fbuffers im)" by auto
  from fb_prepend_small [OF md2 mem] vs obtain cm where cm: "fb_sink False cm vs md2" "fb_written md2 = []"
    "4 + 4 * length ?ps \<le> cm" "cm < 2 ^ 28" by (auto simp: fb_new_def)
  have "fb_room cm md2 (length (le_bytes 4 (of_nat (length ?ps) :: 32 word)) + (4 * length ?ps + 0))"
    using cm(3) fb_written_length(1) [OF cm(1)] cm(2) by (simp add: fb_room_def)
  from fsink.put_ok [OF cm(1) this] md3 cm(2) have md3': "fb_sink False cm vs md3"
    "fb_written md3 = le_bytes 4 (of_nat (length ?ps) :: 32 word)" "fb_room cm md3 (4 * length ?ps + 0)" by auto
  have room: "length ([] :: byte list) + length (concat (map cb_bytes ?ps)) \<le> cp" using cp(3) ps by simp
  have sinks: "raw_sink False cp (concat (map code xs)) b'" "fb_sink False cm vs om"
    "fb_written om = fb_written md3 @ part_sizes xs"
    using code_parts [OF enc _ raw room md3'(1,3)] ps by (simp_all add: xs_def comp_def)
  have "length (concat (map code xs)) = ?B" using length_codes [of xs] ps by (simp add: xs_def)
  then have ne: "concat (map code xs) \<noteq> []" using ok(5) by (metis length_0_conv)
  show ?bytes and "data_done out" unfolding out by (rule raw_data_done [OF sinks(1) cp(1,4) ne])+
  show ?meta using fb_sink_bytes [OF sinks(2)] sinks(3) md3'(2) vs(2) by (simp add: xs_def)
  have "fb_written om \<noteq> []" using sinks(3) md3'(2) by (simp flip: length_greater_0_conv)
  then show "md_done im om" using md_done_sink [OF sinks(2) cm(4) _ vs(3,4,2,5)] im by (simp add: md_ok_def)
qed

lemma code_reverse_spec:
  assumes xs: "last xs \<noteq> []" "xs \<noteq> []" "length xs < 2 ^ 32" "length (concat xs) < 2 ^ 28"
    and im: "flat (le_bytes 4 (of_nat (length xs) :: 32 word) @ part_sizes xs @ zs) im" "fb_start im"
    and inp: "flat (concat (map code xs)) inp" "fb_start inp"
    and tgt: "fb_target (length (concat xs)) tgt" and mem: "alloc_total al" "small_pool gb"
  shows "\<exists>im2 inp2 om out. code_reverse unshuffle al gb im inp fb_new tgt = Inr (im2, inp2, om, out)
       \<and> flat zs om \<and> \<not> read_only om \<and> flat (concat xs) out \<and> \<not> read_only out"
proof -
  let ?n = "length (concat xs)" and ?h = "le_bytes 4 (of_nat (length xs) :: 32 word)"
  have bi: "fb_bytes inp = concat (map code xs)" "length (fbuffers inp) \<le> 1" "bovs_ok (fbuffers inp)"
    using inp(1) by (simp_all add: flat_def)
  have "fb_rest im = ?h @ (part_sizes xs @ zs)" using im by (simp add: flat_def fb_start_rest)
  from fsource.get_front [OF fb_start_source [OF im(2)] this, of 4] obtain md1 where
    md1: "fb_read 4 im = Inr (?h, md1)" "fb_source md1" "fb_rest md1 = part_sizes xs @ zs" by auto
  have n62: "?n < 2 ^ 62" using xs(4) by simp
  from fb_prepend_target [OF tgt order_refl n62 small_poolD(1) [OF mem(2)] mem(1), of 0]
  obtain out1 fx cp where out1: "fb_prepend_buffer al (gb 0) ?n tgt = Inr out1" "fb_sink fx cp [] out1"
    "fb_written out1 = []" "?n \<le> cp" "cp < 2 ^ 62" "fx \<longrightarrow> cp = ?n" by blast
  from raw_sink_start [OF out1(2,3)] obtain b where b: "fb_buffer_ptr 0 out1 = Inr (Some b)" "raw_sink fx cp [] b" by blast
  have size: "fb_size inp = ?n" using fb_size_bytes [OF bi(3)] bi(1) length_codes by simp
  have "list_all (\<lambda>x. length x < 2 ^ 32) xs"
    unfolding list_all_iff
  proof
    fix x assume "x \<in> set xs"
    then have "length x \<le> ?n" by (rule part_length)
    then show "length x < 2 ^ 32" using xs(4) by simp
  qed
  moreover have "fb_rest inp = concat (map code xs)" using bi(1) fb_start_rest [OF inp(2)] by simp
  ultimately obtain md2 inp2 b' where r: "foldR (decode_part unshuffle al) (md1, inp, b) [0..<length xs] = Inr (md2, inp2, b')"
    "fb_source md2" "fb_rest md2 = zs" "fbuffers md2 = fbuffers md1" "raw_sink fx cp ([] @ concat xs) b'"
    using decode_parts [of al "[0..<length xs]" xs md1 zs inp fx cp "[]" b] mem(1) xs(1) md1(2,3) fb_start_source [OF inp(2)]
      bi(2) b(2) out1(4) by auto
  have md2: "flat (fb_bytes im) md2"
    using im(1) r(4) fb_read_frame [OF md1(1)] by (simp add: flat_def fb_bytes_def)
  have off: "foffset md2 \<le> length (fb_bytes im)" "zs = drop (foffset md2) (fb_bytes im)"
    using fb_source_offset(1) [OF r(2)] md2 r(3) by (simp_all add: flat_def fb_rest_def)
  from flat_rest [OF md2 off(1)] obtain om where om: "flat zs om" "\<not> read_only om"
    "fb_append_view_range md2 (foffset md2) (length (fb_bytes im) - foffset md2) fb_new = Inr om"
    using off(2) by auto
  have sz: "sub64 (fb_size md2) (foffset md2) = length (fb_bytes im) - foffset md2"
    using fb_size_bytes [of md2] md2 fb_source_offset [OF r(2)] by (simp add: flat_def sub64_exact)
  have full: "fx \<Longrightarrow> length ([] @ concat xs) = cp" using out1(6) by simp
  have "code_reverse unshuffle al gb im inp fb_new tgt = Inr (md2, inp2, om, fb_put_back 0 b' out1)"
    using md1(1) out1(1) b(1) r(1) om(3) sz size of_le_u32 [OF xs(3)] by (simp add: code_reverse_def)
  then show ?thesis using om(1,2) raw_flat [OF r(5) full out1(2)] by simp
qed

end

sublocale part_coder \<subseteq> coder: chunk_filter "code_forward parts_of shuffle" "code_reverse unshuffle"
proof unfold_locales
  fix al gb im inp im1 inp1 om out
  assume run: "code_forward parts_of shuffle al gb im inp fb_new fb_new = Inr (im1, inp1, om, out)"
    and mem: "small_blocks al" "small_pool gb" and im: "md_ok im" and inp: "data_ok inp"
  note fw = code_forward_spec [OF run mem im inp]
  show "md_done im om \<and> data_done out" using fw(3,4) ..
  note ps = parts [OF inp]
  have "parts_of inp \<noteq> []" using ps inp by (auto simp: data_ok_def)
  then have xs: "last (map cb_bytes (parts_of inp)) \<noteq> []" "map cb_bytes (parts_of inp) \<noteq> []"
    "length (map cb_bytes (parts_of inp)) < 2 ^ 32" "length (concat (map cb_bytes (parts_of inp))) < 2 ^ 28"
    using ps inp by (auto simp: last_map data_ok_def)
  fix im' inp' tgt al' gb'
  assume "flat (fb_bytes om) im'" and "fb_start im'" and "flat (fb_bytes out) inp'" and "fb_start inp'"
    and "fb_target (length (fb_bytes inp)) tgt" and "alloc_total al'" and "small_pool gb'"
  then show "\<exists>im2 inp2 om' out'. code_reverse unshuffle al' gb' im' inp' fb_new tgt = Inr (im2, inp2, om', out')
       \<and> flat (fb_bytes im) om' \<and> \<not> read_only om' \<and> flat (fb_bytes inp) out' \<and> \<not> read_only out'"
    using code_reverse_spec [OF xs, of "fb_bytes im" im' inp' tgt al' gb'] fw(1,2) ps by simp
qed

end
