(* ===== verification/Positive_Delta.thy ===== *)
theory Positive_Delta
  imports Filter_Parts
begin

text \<open>
  The positive-delta filter (\<open>filter/positive_delta_filter.cc\<close>): every part of the input is cut into
  windows, and each window of whole values is replaced by the differences of consecutive values. The
  first value and the length of each window go into the metadata. A type \<open>T\<close> of the code is a word
  type and a flag for signed types; differences wrap around like the machine's.
\<close>

section \<open>The filter\<close>

definition pd_window_size :: "nat \<Rightarrow> nat \<Rightarrow> nat \<Rightarrow> nat" where
  "pd_window_size k max_window_size bytes = min bytes max_window_size div k * k"

definition pd_num_windows :: "nat \<Rightarrow> nat \<Rightarrow> nat" where
  "pd_num_windows bytes window_size =
     u32 (bytes div window_size + (if bytes mod window_size = 0 then 0 else 1))"

text \<open>One value of a window: the input, the previous value and the output.\<close>

definition pd_encode_value ::
  "bool \<Rightarrow> const_buffer \<times> 'a::len word \<times> filter_buffer \<Rightarrow> nat \<Rightarrow> (const_buffer \<times> 'a word \<times> filter_buffer) result" where
  "pd_encode_value sig s j =
     (case s of (input, prev_value, output) \<Rightarrow>
        bindR (cb_value (coffset input) input) (\<lambda>curr_value.
          if less_t sig curr_value prev_value
          then Inl (filter_error ''Positive delta filter error: delta is not positive.'')
          else bindR (fb_write (le_bytes (sizeof TYPE('a)) (curr_value - prev_value)) output) (\<lambda>output'.
            Inr (cb_advance_offset (sizeof TYPE('a)) input, curr_value, output'))))"

definition pd_encode_window ::
  "'a::len itself \<Rightarrow> bool \<Rightarrow> nat \<Rightarrow> nat \<Rightarrow> const_buffer \<times> filter_buffer \<times> filter_buffer \<Rightarrow> nat
   \<Rightarrow> (const_buffer \<times> filter_buffer \<times> filter_buffer) result" where
  "pd_encode_window T sig window_size input_bytes s i =
     (case s of (input, output, output_metadata) \<Rightarrow>
      let k = sizeof TYPE('a);
          window_nbytes = min window_size (sub32 input_bytes (u32 (i * window_size)));
          window_nelts = window_nbytes div k in
      bindR (cb_value (coffset input) input) (\<lambda>window_value_offset :: 'a word.
      bindR (fb_write (le_bytes k window_value_offset) output_metadata) (\<lambda>md1.
      bindR (fb_write (le_bytes 4 (of_nat window_nbytes :: 32 word)) md1) (\<lambda>md2.
        if window_nbytes mod k \<noteq> 0
        then bindR (mem_read (cdata input) (coffset input) window_nbytes) (\<lambda>bs.
             bindR (fb_write bs output) (\<lambda>output'.
               Inr (cb_advance_offset window_nbytes input, output', md2)))
        else bindR (cb_value (coffset input) input) (\<lambda>prev_value :: 'a word.
             bindR (foldR (pd_encode_value sig) (input, prev_value, output) [0..<window_nelts])
               (\<lambda>(input', _, output'). Inr (input', output', md2)))))))"

definition pd_encode_part ::
  "'a::len itself \<Rightarrow> bool \<Rightarrow> nat \<Rightarrow> filter_buffer \<times> filter_buffer \<Rightarrow> const_buffer
   \<Rightarrow> (filter_buffer \<times> filter_buffer) result" where
  "pd_encode_part T sig max_window_size s input =
     (case s of (output, output_metadata) \<Rightarrow>
      let input_bytes = u32 (csize input);
          window_size = pd_window_size (sizeof TYPE('a)) max_window_size input_bytes in
      if window_size = 0 then Inl UB
      else bindR (foldR (pd_encode_window T sig window_size input_bytes) (input, output, output_metadata)
                   [0..<pd_num_windows input_bytes window_size])
             (\<lambda>(_, output', md'). Inr (output', md')))"

text \<open>The size of the output and of the metadata, and the number of windows, over all parts.\<close>

definition pd_sizes :: "nat \<Rightarrow> nat \<Rightarrow> nat \<times> nat \<times> nat \<Rightarrow> const_buffer \<Rightarrow> (nat \<times> nat \<times> nat) result" where
  "pd_sizes k max_window_size s part =
     (case s of (output_size_ub, metadata_size, total_num_windows) \<Rightarrow>
      let part_size = u32 (csize part);
          window_size = pd_window_size k max_window_size part_size in
      if window_size = 0 then Inl UB
      else let num_windows = pd_num_windows part_size window_size in
        Inr (add64 output_size_ub part_size, u32 (metadata_size + u32 (num_windows * (4 + k))),
             u32 (total_num_windows + num_windows)))"

definition pd_run_forward_t :: "'a::len itself \<Rightarrow> bool \<Rightarrow> nat \<Rightarrow> filter_run" where
  "pd_run_forward_t T sig max_window_size al gb input_metadata input output_metadata output =
     (let parts = fb_buffers input in
      bindR (foldR (pd_sizes (sizeof TYPE('a)) max_window_size) (0, 8, 0) parts)
        (\<lambda>(output_size_ub, metadata_size, total_num_windows).
      bindR (fb_prepend_buffer al (gb 0) output_size_ub output) (\<lambda>out1.
      bindR (fb_buffer_ptr 0 out1) (\<lambda>buffer_ptr.
      if buffer_ptr = None then Inl UB else
      bindR (fb_append_view input_metadata output_metadata) (\<lambda>md1.
      bindR (fb_prepend_buffer al (gb 1) metadata_size md1) (\<lambda>md2.
      bindR (fb_write (le_bytes 4 (of_nat total_num_windows :: 32 word)) md2) (\<lambda>md3.
      bindR (foldR (pd_encode_part T sig max_window_size) (out1, md3) parts) (\<lambda>(out2, md4).
        Inr (input_metadata, input, md4, out2)))))))))"

definition pd_decode_value ::
  "nat \<Rightarrow> filter_buffer \<times> 'a::len word \<times> filter_buffer \<Rightarrow> nat \<Rightarrow> (filter_buffer \<times> 'a word \<times> filter_buffer) result" where
  "pd_decode_value tile_type_size s j =
     (case s of (input, prev_value, output) \<Rightarrow>
        bindR (fb_read (sizeof TYPE('a)) input) (\<lambda>(bs, input').
          let decoded_value = prev_value + of_le bs in
          bindR (fb_write (le_bytes tile_type_size decoded_value) output) (\<lambda>output'.
            Inr (input', decoded_value, output'))))"

definition pd_decode_window ::
  "'a::len itself \<Rightarrow> nat \<Rightarrow> filter_buffer \<times> filter_buffer \<times> filter_buffer \<Rightarrow> nat
   \<Rightarrow> (filter_buffer \<times> filter_buffer \<times> filter_buffer) result" where
  "pd_decode_window T tile_type_size s i =
     (case s of (input_metadata, input, output) \<Rightarrow>
        bindR (fb_read tile_type_size input_metadata) (\<lambda>(v, md1).
        bindR (fb_read 4 md1) (\<lambda>(nb, md2).
          let window_nbytes = unat (of_le nb :: 32 word) in
          if window_nbytes mod sizeof TYPE('a) \<noteq> 0
          then bindR (fb_write_from input window_nbytes output) (\<lambda>output'.
               bindR (fb_advance_offset window_nbytes input) (\<lambda>input'. Inr (md2, input', output')))
          else bindR (foldR (pd_decode_value tile_type_size) (input, of_le v :: 'a word, output)
                       [0..<window_nbytes div sizeof TYPE('a)])
                 (\<lambda>(input', _, output'). Inr (md2, input', output')))))"

definition pd_run_reverse_t :: "'a::len itself \<Rightarrow> nat \<Rightarrow> filter_run" where
  "pd_run_reverse_t T tile_type_size al gb input_metadata input output_metadata output =
     bindR (fb_read 4 input_metadata) (\<lambda>(n, md1).
     bindR (fb_prepend_buffer al (gb 0) (fb_size input) output) (\<lambda>out1.
     bindR (foldR (pd_decode_window T tile_type_size) (md1, input, fb_reset_offset out1)
              [0..<unat (of_le n :: 32 word)]) (\<lambda>(md2, input', out2).
     let md_offset = foffset md2 in
     bindR (fb_append_view_range md2 md_offset (sub64 (fb_size md2) md_offset) output_metadata) (\<lambda>md'.
       Inr (md2, input', md', out2)))))"

fun pd_run_forward :: "nat \<Rightarrow> Datatype \<Rightarrow> filter_run" where
  "pd_run_forward mx INT8 = pd_run_forward_t TYPE(8) True mx"
| "pd_run_forward mx UINT8 = pd_run_forward_t TYPE(8) False mx"
| "pd_run_forward mx INT16 = pd_run_forward_t TYPE(16) True mx"
| "pd_run_forward mx UINT16 = pd_run_forward_t TYPE(16) False mx"
| "pd_run_forward mx INT32 = pd_run_forward_t TYPE(32) True mx"
| "pd_run_forward mx UINT32 = pd_run_forward_t TYPE(32) False mx"
| "pd_run_forward mx INT64 = pd_run_forward_t TYPE(64) True mx"
| "pd_run_forward mx UINT64 = pd_run_forward_t TYPE(64) False mx"
| "pd_run_forward mx t = noop_run"

fun pd_run_reverse :: "Datatype \<Rightarrow> filter_run" where
  "pd_run_reverse INT8 = pd_run_reverse_t TYPE(8) (datatype_size INT8)"
| "pd_run_reverse UINT8 = pd_run_reverse_t TYPE(8) (datatype_size UINT8)"
| "pd_run_reverse INT16 = pd_run_reverse_t TYPE(16) (datatype_size INT16)"
| "pd_run_reverse UINT16 = pd_run_reverse_t TYPE(16) (datatype_size UINT16)"
| "pd_run_reverse INT32 = pd_run_reverse_t TYPE(32) (datatype_size INT32)"
| "pd_run_reverse UINT32 = pd_run_reverse_t TYPE(32) (datatype_size UINT32)"
| "pd_run_reverse INT64 = pd_run_reverse_t TYPE(64) (datatype_size INT64)"
| "pd_run_reverse UINT64 = pd_run_reverse_t TYPE(64) (datatype_size UINT64)"
| "pd_run_reverse t = noop_run"

section \<open>The reference: differences of a list\<close>

fun deltas :: "'a::len word \<Rightarrow> 'a word list \<Rightarrow> 'a word list" where
  "deltas p [] = []"
| "deltas p (x # xs) = (x - p) # deltas x xs"

fun undeltas :: "'a::len word \<Rightarrow> 'a word list \<Rightarrow> 'a word list" where
  "undeltas p [] = []"
| "undeltas p (d # ds) = (p + d) # undeltas (p + d) ds"

lemma undeltas_deltas [simp]: "undeltas p (deltas p xs) = xs"
  by (induction xs arbitrary: p) simp_all

lemma length_deltas [simp]: "length (deltas p xs) = length xs"
  by (induction xs arbitrary: p) simp_all

text \<open>
  A window in the filtered form: its first value and its bytes. \<open>pd_decode\<close> is the window it
  stands for, \<open>pd_header\<close> what the metadata has of it.
\<close>

definition pd_decode :: "'a::len word \<times> byte list \<Rightarrow> byte list" where
  "pd_decode w = (case w of (v, c) \<Rightarrow>
     if length c mod sizeof TYPE('a) \<noteq> 0 then c else enc_cells (undeltas v (dec_cells c)))"

definition pd_header :: "'a::len word \<times> byte list \<Rightarrow> byte list" where
  "pd_header w = le_bytes (sizeof TYPE('a)) (fst w) @ le_bytes 4 (of_nat (length (snd w)) :: 32 word)"

lemma length_undeltas [simp]: "length (undeltas p xs) = length xs"
  by (induction xs arbitrary: p) simp_all

lemma length_dec_cells [simp]: "length (dec_cells bs :: 'a::len word list) = length bs div sizeof TYPE('a)"
  by (simp add: dec_cells_def)

lemma length_pd_decode:
  "byte_sized TYPE('a::len) \<Longrightarrow> length (pd_decode (v :: 'a word, c)) = length c"
  by (auto simp: pd_decode_def length_enc_cells)

section \<open>Encoding\<close>

lemma cb_value_region:
  "off + sizeof TYPE('a::len) \<le> cap (cdata cb) \<Longrightarrow>
   cb_value off cb = Inr (of_le (slice (region (cdata cb)) off (sizeof TYPE('a))) :: 'a word)"
  by (simp add: cb_value_def mem_read_region)

lemma dec_cells_slice_Suc:
  assumes "byte_sized TYPE('a::len)" and "off + Suc n * sizeof TYPE('a) \<le> length r"
  shows "dec_cells (slice r off (Suc n * sizeof TYPE('a)))
       = (of_le (slice r off (sizeof TYPE('a))) :: 'a word) # dec_cells (slice r (off + sizeof TYPE('a)) (n * sizeof TYPE('a)))"
proof -
  have "slice r off (Suc n * sizeof TYPE('a))
      = slice r off (sizeof TYPE('a)) @ slice r (off + sizeof TYPE('a)) (n * sizeof TYPE('a))"
    by (simp add: slice_def take_add add.commute)
  moreover have "length (slice r off (sizeof TYPE('a))) = sizeof TYPE('a)"
    using assms(2) by (simp add: length_slice)
  ultimately show ?thesis
    using chunks_append [of "slice r off (sizeof TYPE('a))"] sizeof_pos [OF assms(1)] by (simp add: dec_cells_def)
qed

text \<open>The loop over the values of a window, when it succeeds.\<close>

lemma length_pd_decodes:
  fixes wins :: "('a::len word \<times> byte list) list"
  assumes "byte_sized TYPE('a)"
  shows "length (concat (map pd_decode wins)) = length (concat (map snd wins))"
  by (induction wins) (auto simp: length_pd_decode [OF assms])

lemma pd_encode_values:
  fixes prev :: "'a::len word"
  assumes "foldR (pd_encode_value sig) (cb, prev, fb) js = Inr (cb', v', fb')"
    and "byte_sized TYPE('a)" and "fb_sink fx cp rest fb" and "fb_room cp fb (length js * sizeof TYPE('a) + m)"
    and "coffset cb + length js * sizeof TYPE('a) \<le> cap (cdata cb)" and "cap (cdata cb) < 2 ^ 64"
  shows "fb_sink fx cp rest fb' \<and> fb_room cp fb' m
       \<and> fb_written fb' = fb_written fb
           @ enc_cells (deltas prev (dec_cells (slice (region (cdata cb)) (coffset cb) (length js * sizeof TYPE('a)))))
       \<and> cb' = cb\<lparr>coffset := coffset cb + length js * sizeof TYPE('a)\<rparr>"
  using assms
proof (induction js arbitrary: cb prev fb)
  case Nil
  then show ?case by (simp add: slice_def dec_cells_def)
next
  case (Cons j js)
  let ?k = "sizeof TYPE('a)" and ?x = "of_le (slice (region (cdata cb)) (coffset cb) (sizeof TYPE('a))) :: 'a word"
  let ?cb = "cb\<lparr>coffset := coffset cb + ?k\<rparr>"
  have val: "cb_value (coffset cb) cb = Inr ?x" by (rule cb_value_region) (use Cons.prems(5) in simp)
  have adv: "cb_advance_offset ?k cb = ?cb"
    using Cons.prems(5,6) by (simp add: cb_advance_offset_def add64_exact)
  have "fb_room cp fb (length (le_bytes ?k (?x - prev)) + (length js * ?k + m))" using Cons.prems(4) by (simp add: add.assoc)
  from fsink.put_ok [OF Cons.prems(3) this] obtain fb1 where fb1: "fb_write (le_bytes ?k (?x - prev)) fb = Inr fb1"
    "fb_sink fx cp rest fb1" "fb_written fb1 = fb_written fb @ le_bytes ?k (?x - prev)"
    "fb_room cp fb1 (length js * ?k + m)" by blast
  have "foldR (pd_encode_value sig) (?cb, ?x, fb1) js = Inr (cb', v', fb')"
    using Cons.prems(1) val adv fb1(1)
    by (auto simp: pd_encode_value_def [of sig "(cb, prev, fb)" j] split: if_splits)
  from Cons.IH [OF this Cons.prems(2) fb1(2,4)] Cons.prems(5,6)
  show ?case
    using fb1(3) dec_cells_slice_Suc [OF Cons.prems(2), of "coffset cb" "length js" "region (cdata cb)"]
    by (simp add: add.assoc)
qed

lemma pd_encode_window_spec:
  fixes T :: "'a::len itself"
  assumes "pd_encode_window T sig ws n (cb, fb, md) i = Inr (cb', fb', md')" and "byte_sized TYPE('a)"
    and "w = min ws (n - i * ws)" and "i * ws \<le> n" and "n < 2 ^ 32"
    and "fb_sink fx cp rest fb" and "fb_room cp fb (w + m)"
    and "fb_sink fx' cp' rest' md" and "fb_room cp' md (sizeof TYPE('a) + 4 + m')"
    and "coffset cb + w \<le> cap (cdata cb)" and "cap (cdata cb) < 2 ^ 64"
  shows "\<exists>win :: 'a word \<times> byte list. pd_decode win = slice (region (cdata cb)) (coffset cb) w \<and> length (snd win) = w
       \<and> fb_sink fx cp rest fb' \<and> fb_room cp fb' m \<and> fb_written fb' = fb_written fb @ snd win
       \<and> fb_sink fx' cp' rest' md' \<and> fb_room cp' md' m' \<and> fb_written md' = fb_written md @ pd_header win
       \<and> cb' = cb\<lparr>coffset := coffset cb + w\<rparr>"
proof -
  let ?k = "sizeof TYPE('a)" and ?bs = "slice (region (cdata cb)) (coffset cb) w"
  have w: "min ws (sub32 n (u32 (i * ws))) = w" using assms(3-5) by (simp add: u32_exact sub32_exact)
  have lbs: "length ?bs = w" using assms(10) by (simp add: length_slice)
  from assms(1) obtain v :: "'a word" where v: "cb_value (coffset cb) cb = Inr v"
    by (auto simp: pd_encode_window_def Let_def bindR_Inr)
  have "fb_room cp' md (length (le_bytes ?k v) + (4 + m'))" using assms(9) by (simp add: add.assoc)
  from fsink.put_ok [OF assms(8) this] obtain md1 where md1: "fb_write (le_bytes ?k v) md = Inr md1"
    "fb_sink fx' cp' rest' md1" "fb_written md1 = fb_written md @ le_bytes ?k v" "fb_room cp' md1 (4 + m')" by blast
  have "fb_room cp' md1 (length (le_bytes 4 (of_nat w :: 32 word)) + m')" using md1(4) by simp
  from fsink.put_ok [OF md1(2) this] obtain md2 where md2: "fb_write (le_bytes 4 (of_nat w :: 32 word)) md1 = Inr md2"
    "fb_sink fx' cp' rest' md2" "fb_written md2 = fb_written md1 @ le_bytes 4 (of_nat w :: 32 word)" "fb_room cp' md2 m'"
    by blast
  show ?thesis
  proof (cases "w mod ?k = 0")
    case False
    have rd: "mem_read (cdata cb) (coffset cb) w = Inr ?bs" using assms(10) by (rule mem_read_region)
    from fsink.put_ok [OF assms(6), of ?bs m] assms(7) lbs obtain fb1 where fb1: "fb_write ?bs fb = Inr fb1"
      "fb_sink fx cp rest fb1" "fb_written fb1 = fb_written fb @ ?bs" "fb_room cp fb1 m" by auto
    have "add64 (coffset cb) w = coffset cb + w" using assms(10,11) by (simp add: add64_exact)
    then have "cb' = cb\<lparr>coffset := coffset cb + w\<rparr>" "fb' = fb1" "md' = md2"
      using assms(1) False v md1(1) md2(1) rd fb1(1) w
      by (auto simp: pd_encode_window_def Let_def cb_advance_offset_def)
    moreover have "pd_decode (v, ?bs) = ?bs" "pd_header (v, ?bs) = le_bytes ?k v @ le_bytes 4 (of_nat w :: 32 word)"
      using False lbs by (simp_all add: pd_decode_def pd_header_def)
    ultimately show ?thesis using lbs fb1 md1(3) md2 by (intro exI [of _ "(v, ?bs)"]) simp
  next
    case True
    let ?e = "w div ?k" and ?xs = "dec_cells ?bs :: 'a word list"
    have we: "w = ?e * ?k" using True by (simp add: mod_0_imp_dvd)
    obtain v' where fold: "foldR (pd_encode_value sig) (cb, v, fb) [0..<?e] = Inr (cb', v', fb')" and "md' = md2"
      using assms(1) True v md1(1) md2(1) w by (auto simp: pd_encode_window_def Let_def bindR_Inr)
    from pd_encode_values [OF fold assms(2,6)] assms(7,10,11) we
    have r: "fb_sink fx cp rest fb'" "fb_room cp fb' m" "fb_written fb' = fb_written fb @ enc_cells (deltas v ?xs)"
      "cb' = cb\<lparr>coffset := coffset cb + w\<rparr>" by simp_all
    let ?win = "(v, enc_cells (deltas v ?xs))"
    have "length (snd ?win) = w" using we lbs by (simp add: length_enc_cells)
    moreover from this have "pd_decode ?win = ?bs"
      using True lbs enc_dec_cells [OF assms(2), of ?bs] mod_0_imp_dvd [OF True] by (simp add: pd_decode_def dec_enc_cells [OF assms(2)])
    ultimately show ?thesis using r md1(3) md2 \<open>md' = md2\<close>
      by (intro exI [of _ ?win]) (simp add: pd_header_def)
  qed
qed

lemma window_count:
  fixes n ws :: nat
  assumes "0 < ws" and "i < n div ws + (if n mod ws = 0 then 0 else 1)"
  shows "i * ws < n"
proof (cases "i < n div ws")
  case True
  then show ?thesis using chunk_bound [OF True] assms(1) by linarith
next
  case False
  then have i: "i = n div ws" "n mod ws \<noteq> 0" using assms(2) by (auto split: if_splits)
  then have "n div ws * ws < n" using div_mult_mod_eq [of n ws] by linarith
  then show ?thesis by (simp only: i)
qed

lemma window_last:
  fixes n ws :: nat
  assumes "0 < ws"
  shows "n \<le> (n div ws + (if n mod ws = 0 then 0 else 1)) * ws"
proof -
  have m: "n mod ws < ws" using assms by simp
  note e = div_mult_mod_eq [of n ws]
  show ?thesis
  proof (cases "n mod ws = 0")
    case True
    then have "n \<le> n div ws * ws" using e by linarith
    then show ?thesis using True by (simp only: refl if_True add_0_right)
  next
    case False
    have "n \<le> n div ws * ws + ws" using m e by linarith
    then show ?thesis using False by (simp only: if_False add_mult_distrib mult_1)
  qed
qed

lemma pd_encode_windows:
  fixes T :: "'a::len itself"
  assumes "foldR (pd_encode_window T sig ws n) (cb, fb, md) [i..<N] = Inr (cb', fb', md')"
    and "byte_sized TYPE('a)" and "0 < ws" and "n < 2 ^ 32"
    and "N = n div ws + (if n mod ws = 0 then 0 else 1)" and "i \<le> N"
    and "fb_sink fx cp rest fb" and "fb_room cp fb ((n - i * ws) + m)"
    and "fb_sink fx' cp' rest' md" and "fb_room cp' md ((N - i) * (sizeof TYPE('a) + 4) + m')"
    and "coffset cb = min n (i * ws)" and "n \<le> cap (cdata cb)" and "cap (cdata cb) < 2 ^ 64"
  shows "\<exists>wins :: ('a word \<times> byte list) list.
       concat (map pd_decode wins) = slice (region (cdata cb)) (i * ws) (n - i * ws)
       \<and> length wins = N - i \<and> list_all (\<lambda>w. snd w \<noteq> [] \<and> length (snd w) < 2 ^ 32) wins
       \<and> fb_sink fx cp rest fb' \<and> fb_room cp fb' m \<and> fb_written fb' = fb_written fb @ concat (map snd wins)
       \<and> fb_sink fx' cp' rest' md' \<and> fb_room cp' md' m'
       \<and> fb_written md' = fb_written md @ concat (map pd_header wins)"
  using assms
proof (induction "N - i" arbitrary: i cb fb md)
  case 0
  then have "i = N" by simp
  moreover have "n - N * ws = 0" using window_last [OF 0(4), of n] 0(6) by simp
  ultimately show ?case using 0 by (intro exI [of _ "[]"]) (simp add: slice_def)
next
  case (Suc d)
  let ?k = "sizeof TYPE('a)"
  have iN: "i < N" using Suc(2) by simp
  then have lt: "i * ws < n" using window_count [OF Suc.prems(3)] Suc.prems(5) by simp
  define w where "w = min ws (n - i * ws)"
  have w0: "0 < w" "w < 2 ^ 32" using lt Suc.prems(3,4) by (auto simp: w_def)
  have off: "coffset cb = i * ws" using Suc.prems(11) lt by simp
  have "[i..<N] = i # [Suc i..<N]" using iN by (rule upt_conv_Cons)
  with Suc.prems(1) obtain cb1 fb1 md1 where
    w1: "pd_encode_window T sig ws n (cb, fb, md) i = Inr (cb1, fb1, md1)"
    and rest1: "foldR (pd_encode_window T sig ws n) (cb1, fb1, md1) [Suc i..<N] = Inr (cb', fb', md')"
    by (auto simp: bindR_Inr)
  have split: "n - i * ws = w + (n - Suc i * ws)" by (auto simp: w_def)
  have room: "fb_room cp fb (w + ((n - Suc i * ws) + m))" using Suc.prems(8) split by (simp add: add.assoc)
  have "N - i = Suc (N - Suc i)" using iN by simp
  then have room': "fb_room cp' md (?k + 4 + ((N - Suc i) * (?k + 4) + m'))"
    using Suc.prems(10) by (simp add: add.assoc)
  have "i * ws + w \<le> n" using lt by (simp add: w_def)
  then have ow: "coffset cb + w \<le> cap (cdata cb)" using off Suc.prems(12) by linarith
  note spec = pd_encode_window_spec [OF w1 Suc.prems(2) w_def less_imp_le [OF lt] Suc.prems(4,7) room
      Suc.prems(9) room' ow Suc.prems(13), unfolded off]
  then obtain win :: "'a word \<times> byte list" where win: "pd_decode win = slice (region (cdata cb)) (i * ws) w"
    "length (snd win) = w"
    "fb_sink fx cp rest fb1" "fb_room cp fb1 ((n - Suc i * ws) + m)" "fb_written fb1 = fb_written fb @ snd win"
    "fb_sink fx' cp' rest' md1" "fb_room cp' md1 ((N - Suc i) * (?k + 4) + m')"
    "fb_written md1 = fb_written md @ pd_header win" "cb1 = cb\<lparr>coffset := i * ws + w\<rparr>"
    by blast
  have c1: "coffset cb1 = min n (Suc i * ws)" using win(9) lt by (auto simp: w_def)
  have c2: "n \<le> cap (cdata cb1)" "cap (cdata cb1) < 2 ^ 64" and cd: "cdata cb1 = cdata cb"
    using win(9) Suc.prems(12,13) by simp_all
  have d: "d = N - Suc i" using Suc(2) by simp
  note IH = Suc.hyps(1) [OF d rest1 Suc.prems(2-5) Suc_leI [OF iN] win(3,4,6,7) c1 c2, unfolded cd]
  then obtain wins :: "('a word \<times> byte list) list" where wins:
    "concat (map pd_decode wins) = slice (region (cdata cb)) (Suc i * ws) (n - Suc i * ws)"
    "length wins = N - Suc i" "list_all (\<lambda>w. snd w \<noteq> [] \<and> length (snd w) < 2 ^ 32) wins"
    "fb_sink fx cp rest fb'" "fb_room cp fb' m" "fb_written fb' = fb_written fb1 @ concat (map snd wins)"
    "fb_sink fx' cp' rest' md'" "fb_room cp' md' m'"
    "fb_written md' = fb_written md1 @ concat (map pd_header wins)"
    by blast
  have "slice (region (cdata cb)) (i * ws) (n - i * ws)
      = slice (region (cdata cb)) (i * ws) w @ slice (region (cdata cb)) (Suc i * ws) (n - Suc i * ws)"
  proof (cases "ws \<le> n - i * ws")
    case True
    then have "w = ws" by (simp add: w_def)
    then show ?thesis unfolding split by (simp add: slice_def take_add add.commute)
  next
    case False
    then have "n - Suc i * ws = 0" "w = n - i * ws" by (simp_all add: w_def)
    then show ?thesis by (simp add: slice_def)
  qed
  moreover have "snd win \<noteq> []" using win(2) w0(1) by auto
  ultimately show ?case using wins win w0 \<open>N - i = Suc (N - Suc i)\<close>
    by (intro exI [of _ "win # wins"]) simp
qed

text \<open>All parts of the input, and the sizes computed for them.\<close>

definition pd_windows_of :: "nat \<Rightarrow> nat \<Rightarrow> const_buffer \<Rightarrow> nat" where
  "pd_windows_of k mx p =
     (let ws = pd_window_size k mx (csize p) in csize p div ws + (if csize p mod ws = 0 then 0 else 1))"

lemma pd_window_size_0: "0 < pd_window_size k mx n \<Longrightarrow> k \<le> pd_window_size k mx n \<and> pd_window_size k mx n \<le> n"
proof -
  assume "0 < pd_window_size k mx n"
  then have "0 < min n mx div k" by (simp add: pd_window_size_def)
  then have "1 * k \<le> min n mx div k * k" by (intro mult_le_mono1) simp
  moreover have "min n mx div k * k \<le> min n mx" by (rule div_times_less_eq_dividend)
  ultimately show ?thesis by (auto simp: pd_window_size_def)
qed

lemma pd_windows_of_le:
  assumes "0 < pd_window_size k mx (csize p)" and "csize p < 2 ^ 28"
  shows "pd_windows_of k mx p \<le> csize p"
    and "pd_num_windows (csize p) (pd_window_size k mx (csize p)) = pd_windows_of k mx p"
proof -
  let ?ws = "pd_window_size k mx (csize p)"
  have "?ws \<le> csize p" using pd_window_size_0 [OF assms(1)] by simp
  show le: "pd_windows_of k mx p \<le> csize p"
  proof (cases "?ws = 1")
    case True
    then show ?thesis by (simp add: pd_windows_of_def Let_def)
  next
    case False
    then have "2 \<le> ?ws" using assms(1) by simp
    then have "csize p div ?ws * 2 \<le> csize p div ?ws * ?ws" by (rule mult_le_mono2)
    also have "\<dots> \<le> csize p" by (rule div_times_less_eq_dividend)
    finally have "csize p div ?ws * 2 \<le> csize p" .
    moreover have "0 < csize p" using \<open>?ws \<le> csize p\<close> assms(1) by linarith
    ultimately show ?thesis by (auto simp: pd_windows_of_def Let_def)
  qed
  then show "pd_num_windows (csize p) ?ws = pd_windows_of k mx p"
    using assms(2) unfolding pd_num_windows_def pd_windows_of_def Let_def by (intro u32_exact) simp
qed

lemma pd_sizes_spec:
  assumes "foldR (pd_sizes k mx) (u, s, t) parts = Inr (u', s', t')" and "parts_ok parts" and "k \<le> 8"
    and "u + length (concat (map cb_bytes parts)) < 2 ^ 64"
    and "s + 12 * length (concat (map cb_bytes parts)) < 2 ^ 32" and "t + length (concat (map cb_bytes parts)) < 2 ^ 32"
  shows "u' = u + length (concat (map cb_bytes parts))
       \<and> s' = s + sum_list (map (pd_windows_of k mx) parts) * (4 + k)
       \<and> t' = t + sum_list (map (pd_windows_of k mx) parts)
       \<and> list_all (\<lambda>p. 0 < pd_window_size k mx (csize p)) parts
       \<and> sum_list (map (pd_windows_of k mx) parts) \<le> length (concat (map cb_bytes parts))"
  using assms
proof (induction parts arbitrary: u s t)
  case (Cons p ps)
  let ?B = "length (concat (map cb_bytes ps))"
  have p: "csize p \<le> cap (cdata p)" "parts_ok ps" "csize p + ?B < 2 ^ 28" "csize p < 2 ^ 32" "csize p < 2 ^ 28"
    using parts_ok_Cons [OF Cons.prems(2)] by simp_all
  have lp: "length (cb_bytes p) = csize p" using p(1) by (simp add: cb_bytes_def)
  let ?w = "pd_windows_of k mx p"
  have u32p: "u32 (csize p) = csize p" using p(4) by (rule u32_exact)
  have ws: "0 < pd_window_size k mx (csize p)" using Cons.prems(1) u32p by (auto simp: pd_sizes_def Let_def split: if_splits)
  note w = pd_windows_of_le [OF ws p(5)]
  have wk: "?w * (4 + k) \<le> csize p * 12" by (rule mult_le_mono) (use w(1) Cons.prems(3) in simp_all)
  have a: "add64 u (csize p) = u + csize p" using Cons.prems(4) lp by (intro add64_exact) simp
  have b: "u32 (?w * (4 + k)) = ?w * (4 + k)" using wk p(5) by (intro u32_exact) simp
  have c: "u32 (s + ?w * (4 + k)) = s + ?w * (4 + k)" using wk Cons.prems(5) lp by (intro u32_exact) simp
  have d: "u32 (t + ?w) = t + ?w" using w(1) Cons.prems(6) lp by (intro u32_exact) simp
  have step: "foldR (pd_sizes k mx) (u + csize p, s + ?w * (4 + k), t + ?w) ps = Inr (u', s', t')"
    using Cons.prems(1) ws w(2) a b c d u32p by (simp add: pd_sizes_def [of k mx "(u, s, t)" p] Let_def)
  have n1: "u + csize p + ?B < 2 ^ 64" "s + ?w * (4 + k) + 12 * ?B < 2 ^ 32" "t + ?w + ?B < 2 ^ 32"
    using Cons.prems(4-6) lp wk w(1) by simp_all
  from Cons.IH [OF step p(2) Cons.prems(3) n1] show ?case
    using lp ws w(1) by (simp add: add_mult_distrib)
qed simp

abbreviation pd_win :: "'a::len word \<times> byte list \<Rightarrow> bool" where
  "pd_win w \<equiv> snd w \<noteq> [] \<and> length (snd w) < 2 ^ 32"

lemma pd_encode_parts:
  fixes T :: "'a::len itself"
  assumes "foldR (pd_encode_part T sig mx) (fb, md) parts = Inr (fb', md')" and "byte_sized TYPE('a)"
    and "parts_ok parts" and "list_all (\<lambda>p. 0 < pd_window_size (sizeof TYPE('a)) mx (csize p)) parts"
    and "fb_sink fx cp rest fb" and "fb_room cp fb (length (concat (map cb_bytes parts)) + m)"
    and "fb_sink fx' cp' rest' md"
    and "fb_room cp' md (sum_list (map (pd_windows_of (sizeof TYPE('a)) mx) parts) * (sizeof TYPE('a) + 4) + m')"
  shows "\<exists>wins :: ('a word \<times> byte list) list.
       concat (map pd_decode wins) = concat (map cb_bytes parts)
       \<and> length wins = sum_list (map (pd_windows_of (sizeof TYPE('a)) mx) parts) \<and> list_all pd_win wins
       \<and> fb_sink fx cp rest fb' \<and> fb_written fb' = fb_written fb @ concat (map snd wins)
       \<and> fb_sink fx' cp' rest' md' \<and> fb_written md' = fb_written md @ concat (map pd_header wins)"
  using assms
proof (induction parts arbitrary: fb md)
  case Nil
  then show ?case by (intro exI [of _ "[]"]) simp
next
  case (Cons p ps)
  let ?k = "sizeof TYPE('a)" and ?B = "length (concat (map cb_bytes ps))" and ?w = "pd_windows_of (sizeof TYPE('a)) mx p"
  let ?S = "sum_list (map (pd_windows_of ?k mx) ps)" and ?ws = "pd_window_size ?k mx (csize p)"
  have p: "coffset p = 0" "csize p \<le> cap (cdata p)" "cap (cdata p) < 2 ^ 64" "parts_ok ps" "csize p < 2 ^ 32"
    "csize p < 2 ^ 28" using parts_ok_Cons [OF Cons.prems(3)] by simp_all
  have ws: "0 < ?ws" using Cons.prems(4) by simp
  have u32p: "u32 (csize p) = csize p" using p(5) by (rule u32_exact)
  have N: "pd_num_windows (csize p) ?ws = ?w" using pd_windows_of_le(2) [OF ws p(6)] .
  from Cons.prems(1) obtain fb1 md1 where "pd_encode_part T sig mx (fb, md) p = Inr (fb1, md1)"
    and rest1: "foldR (pd_encode_part T sig mx) (fb1, md1) ps = Inr (fb', md')" by (auto simp: bindR_Inr)
  then obtain cb1 where enc: "foldR (pd_encode_window T sig ?ws (csize p)) (p, fb, md) [0..<?w] = Inr (cb1, fb1, md1)"
    using ws u32p N by (auto simp: pd_encode_part_def Let_def bindR_Inr)
  have lp: "length (cb_bytes p) = csize p" using p(2) by (simp add: cb_bytes_def)
  have r1: "fb_room cp fb ((csize p - 0 * ?ws) + (?B + m))" using Cons.prems(6) lp by (simp add: add.assoc)
  have r2: "fb_room cp' md ((?w - 0) * (?k + 4) + (?S * (?k + 4) + m'))"
    using Cons.prems(8) by (simp add: add.assoc add_mult_distrib)
  have Nw: "?w = csize p div ?ws + (if csize p mod ?ws = 0 then 0 else 1)"
    unfolding pd_windows_of_def Let_def ..
  have off: "coffset p = min (csize p) (0 * ?ws)" using p(1) by simp
  note enc_spec = pd_encode_windows [OF enc Cons.prems(2) ws p(5) Nw le0 Cons.prems(5) r1 Cons.prems(7) r2 off p(2,3)]
  then obtain wins :: "('a word \<times> byte list) list" where w:
    "concat (map pd_decode wins) = slice (region (cdata p)) (0 * ?ws) (csize p - 0 * ?ws)" "length wins = ?w - 0"
    "list_all pd_win wins" "fb_sink fx cp rest fb1" "fb_room cp fb1 (?B + m)"
    "fb_written fb1 = fb_written fb @ concat (map snd wins)"
    "fb_sink fx' cp' rest' md1" "fb_room cp' md1 (?S * (?k + 4) + m')"
    "fb_written md1 = fb_written md @ concat (map pd_header wins)" by blast
  have "list_all (\<lambda>p. 0 < pd_window_size ?k mx (csize p)) ps" using Cons.prems(4) by simp
  from Cons.IH [OF rest1 Cons.prems(2) p(4) this w(4,5,7,8)] obtain wins' :: "('a word \<times> byte list) list" where w':
    "concat (map pd_decode wins') = concat (map cb_bytes ps)" "length wins' = ?S" "list_all pd_win wins'"
    "fb_sink fx cp rest fb'" "fb_written fb' = fb_written fb1 @ concat (map snd wins')"
    "fb_sink fx' cp' rest' md'" "fb_written md' = fb_written md1 @ concat (map pd_header wins')" by blast
  have "cb_bytes p = slice (region (cdata p)) 0 (csize p)" by (simp add: cb_bytes_def slice_def)
  then show ?case using w w' by (intro exI [of _ "wins @ wins'"]) simp
qed

section \<open>Decoding\<close>

lemma pd_decode_values:
  fixes v :: "'a::len word"
  assumes "byte_sized TYPE('a)" and "fb_source inp" and "fb_rest inp = enc_cells (ds :: 'a word list) @ ys"
    and "fb_sink fx cp [] fb" and "fb_room cp fb (length ds * sizeof TYPE('a) + m)" and "length js = length ds"
  shows "\<exists>inp' v' fb'. foldR (pd_decode_value (sizeof TYPE('a))) (inp, v, fb) js = Inr (inp', v', fb')
       \<and> fb_source inp' \<and> fb_rest inp' = ys \<and> fbuffers inp' = fbuffers inp
       \<and> fb_sink fx cp [] fb' \<and> fb_room cp fb' m \<and> fb_written fb' = fb_written fb @ enc_cells (undeltas v ds)"
  using assms(2-6)
proof (induction ds arbitrary: inp v fb js)
  case (Cons d ds)
  let ?k = "sizeof TYPE('a)"
  obtain j js' where js: "js = j # js'" "length js' = length ds" using Cons.prems(5) by (cases js) auto
  have "fb_rest inp = le_bytes ?k d @ (enc_cells ds @ ys)" using Cons.prems(2) by simp
  from fsource.get_front [OF Cons.prems(1) this] obtain inp1 where inp1: "fb_read ?k inp = Inr (le_bytes ?k d, inp1)"
    "fb_source inp1" "fb_rest inp1 = enc_cells ds @ ys" by auto
  have "fb_room cp fb (length (le_bytes ?k (v + d)) + (length ds * ?k + m))" using Cons.prems(4) by (simp add: add.assoc)
  from fsink.put_ok [OF Cons.prems(3) this] obtain fb1 where fb1: "fb_write (le_bytes ?k (v + d)) fb = Inr fb1"
    "fb_sink fx cp [] fb1" "fb_written fb1 = fb_written fb @ le_bytes ?k (v + d)" "fb_room cp fb1 (length ds * ?k + m)"
    by blast
  have "pd_decode_value ?k (inp, v, fb) j = Inr (inp1, v + d, fb1)"
    using inp1(1) fb1(1) assms(1) by (simp add: pd_decode_value_def)
  moreover from Cons.IH [OF inp1(2,3) fb1(2,4) js(2), of "v + d"] obtain inp' v' fb' where
    "foldR (pd_decode_value ?k) (inp1, v + d, fb1) js' = Inr (inp', v', fb')" "fb_source inp'" "fb_rest inp' = ys"
    "fbuffers inp' = fbuffers inp1" "fb_sink fx cp [] fb'" "fb_room cp fb' m"
    "fb_written fb' = fb_written fb1 @ enc_cells (undeltas (v + d) ds)" by blast
  ultimately show ?case using js(1) fb1(3) fb_read_frame [OF inp1(1)] by simp
qed simp

lemma pd_decode_windows:
  fixes T :: "'a::len itself" and wins :: "('a word \<times> byte list) list"
  assumes "byte_sized TYPE('a)" and "list_all pd_win wins" and "length is = length wins"
    and "fb_source md" and "fb_rest md = concat (map pd_header wins) @ zs"
    and "fb_source inp" and "length (fbuffers inp) \<le> 1" and "fb_rest inp = concat (map snd wins) @ ys"
    and "fb_sink fx cp [] fb" and "fb_room cp fb (length (concat (map snd wins)) + m)"
  shows "\<exists>md' inp' fb'. foldR (pd_decode_window T (sizeof TYPE('a))) (md, inp, fb) is = Inr (md', inp', fb')
       \<and> fb_source md' \<and> fb_rest md' = zs \<and> fbuffers md' = fbuffers md
       \<and> fb_sink fx cp [] fb' \<and> fb_written fb' = fb_written fb @ concat (map pd_decode wins)"
  using assms(2-)
proof (induction wins arbitrary: "is" md inp fb)
  case Nil
  then show ?case by simp
next
  case (Cons w wins)
  let ?k = "sizeof TYPE('a)"
  obtain v c where w: "w = (v, c)" by (cases w)
  obtain i is' where is': "is = i # is'" "length is' = length wins" using Cons.prems(2) by (cases "is") auto
  have c: "c \<noteq> []" "length c < 2 ^ 32" "list_all pd_win wins" using Cons.prems(1) w by simp_all
  have "fb_rest md = le_bytes ?k v @ (le_bytes 4 (of_nat (length c) :: 32 word) @ concat (map pd_header wins) @ zs)"
    using Cons.prems(4) w by (simp add: pd_header_def [of "(v, c)"])
  from fsource.get_front [OF Cons.prems(3) this] obtain md1 where md1: "fb_read ?k md = Inr (le_bytes ?k v, md1)"
    "fb_source md1" "fb_rest md1 = le_bytes 4 (of_nat (length c) :: 32 word) @ concat (map pd_header wins) @ zs" by auto
  from fsource.get_front [OF md1(2,3), of 4] obtain md2 where
    md2: "fb_read 4 md1 = Inr (le_bytes 4 (of_nat (length c) :: 32 word), md2)"
    "fb_source md2" "fb_rest md2 = concat (map pd_header wins) @ zs" by auto
  have bufs: "fbuffers md2 = fbuffers md" using fb_read_frame [OF md1(1)] fb_read_frame [OF md2(1)] by simp
  have rin: "fb_rest inp = c @ (concat (map snd wins) @ ys)" using Cons.prems(7) w by simp
  have room: "fb_room cp fb (length c + (length (concat (map snd wins)) + m))" using Cons.prems(9) w by (simp add: add.assoc)
  have "\<exists>inp1 fb1. pd_decode_window T ?k (md, inp, fb) i = Inr (md2, inp1, fb1) \<and> fb_source inp1
      \<and> fb_rest inp1 = concat (map snd wins) @ ys \<and> length (fbuffers inp1) \<le> 1
      \<and> fb_sink fx cp [] fb1 \<and> fb_room cp fb1 (length (concat (map snd wins)) + m)
      \<and> fb_written fb1 = fb_written fb @ pd_decode w"
  proof (cases "length c mod ?k = 0")
    case False
    from fb_write_from_spec [OF Cons.prems(5) _ Cons.prems(8) room] rin obtain fb1 where
      "fb_write_from inp (length c) fb = Inr fb1" "fb_sink fx cp [] fb1" "fb_written fb1 = fb_written fb @ c"
      "fb_room cp fb1 (length (concat (map snd wins)) + m)" by auto
    moreover from fb_advance_flat [OF Cons.prems(5,6), of "length c"] rin c(1) obtain inp1 where
      "fb_advance_offset (length c) inp = Inr inp1" "fb_source inp1" "fb_rest inp1 = concat (map snd wins) @ ys"
      "fbuffers inp1 = fbuffers inp" by auto
    ultimately show ?thesis using md1(1) md2(1) of_le_u32 [OF c(2)] False w Cons.prems(6)
      by (simp add: pd_decode_window_def pd_decode_def)
  next
    case True
    let ?ds = "dec_cells c :: 'a word list"
    have enc: "enc_cells ?ds = c" using True by (intro enc_dec_cells [OF assms(1)]) (rule mod_0_imp_dvd)
    have len: "length ?ds * ?k = length c" using mod_0_imp_dvd [OF True] by simp
    have r1: "fb_rest inp = enc_cells ?ds @ (concat (map snd wins) @ ys)" using rin enc by simp
    have r2: "fb_room cp fb (length ?ds * ?k + (length (concat (map snd wins)) + m))" using room len by simp
    obtain inp1 v' fb1 where "foldR (pd_decode_value ?k) (inp, v, fb) [0..<length ?ds] = Inr (inp1, v', fb1)"
      "fb_source inp1" "fb_rest inp1 = concat (map snd wins) @ ys" "fbuffers inp1 = fbuffers inp"
      "fb_sink fx cp [] fb1" "fb_room cp fb1 (length (concat (map snd wins)) + m)"
      "fb_written fb1 = fb_written fb @ enc_cells (undeltas v ?ds)"
      using pd_decode_values [OF assms(1) Cons.prems(5) r1 Cons.prems(8) r2, of "[0..<length ?ds]" v] by auto
    then show ?thesis using md1(1) md2(1) of_le_u32 [OF c(2)] True w Cons.prems(6) assms(1)
      by (simp add: pd_decode_window_def pd_decode_def)
  qed
  then obtain inp1 fb1 where s: "pd_decode_window T ?k (md, inp, fb) i = Inr (md2, inp1, fb1)" "fb_source inp1"
    "fb_rest inp1 = concat (map snd wins) @ ys" "length (fbuffers inp1) \<le> 1" "fb_sink fx cp [] fb1"
    "fb_room cp fb1 (length (concat (map snd wins)) + m)" "fb_written fb1 = fb_written fb @ pd_decode w" by blast
  from Cons.IH [OF c(3) is'(2) md2(2,3) s(2,4,3,5,6)] obtain md' inp' fb' where
    "foldR (pd_decode_window T ?k) (md2, inp1, fb1) is' = Inr (md', inp', fb')" "fb_source md'" "fb_rest md' = zs"
    "fbuffers md' = fbuffers md2" "fb_sink fx cp [] fb'"
    "fb_written fb' = fb_written fb1 @ concat (map pd_decode wins)" by blast
  then show ?case using s(1,7) is'(1) bufs by simp
qed

section \<open>The filter undoes itself\<close>

lemma pd_forward:
  fixes T :: "'a::len itself"
  assumes run: "pd_run_forward_t T sig mx al gb im inp fb_new fb_new = Inr (im1, inp1, om, out)"
    and T: "byte_sized TYPE('a)" "sizeof TYPE('a) \<le> 8" and mem: "small_blocks al" "small_pool gb"
    and im: "md_ok im" and inp: "data_ok inp"
  obtains wins :: "('a word \<times> byte list) list" where
    "fb_bytes out = concat (map snd wins)"
    "fb_bytes om = le_bytes 4 (of_nat (length wins) :: 32 word) @ concat (map pd_header wins) @ fb_bytes im"
    "concat (map pd_decode wins) = fb_bytes inp" "length wins < 2 ^ 32" "list_all pd_win wins"
    "md_done im om" "data_done out"
proof -
  let ?k = "sizeof TYPE('a)" and ?ps = "fb_buffers inp"
  let ?S = "sum_list (map (pd_windows_of (sizeof TYPE('a)) mx) (fb_buffers inp))" and ?B = "length (fb_bytes inp)"
  have ok: "bovs_ok (fbuffers im)" "list_all solid (fbuffers im)" "bovs_ok (fbuffers inp)" "?B < 2 ^ 28"
    using im inp by (simp_all add: md_ok_def data_ok_def fb_start_def)
  note parts = parts_of_input [OF ok(3,4)]
  from run obtain u s t out1 md1 md2 md3 where
    sizes: "foldR (pd_sizes ?k mx) (0, 8, 0) ?ps = Inr (u, s, t)"
    and out1: "fb_prepend_buffer al (gb 0) u fb_new = Inr out1"
    and md1: "fb_append_view im fb_new = Inr md1" and md2: "fb_prepend_buffer al (gb 1) s md1 = Inr md2"
    and md3: "fb_write (le_bytes 4 (of_nat t :: 32 word)) md2 = Inr md3"
    and enc: "foldR (pd_encode_part T sig mx) (out1, md3) ?ps = Inr (out, om)"
    by (auto simp: pd_run_forward_t_def Let_def bindR_Inr split: if_splits)
  have "12 * ?B < 12 * 2 ^ 28" using ok(4) by simp
  then have sz: "u = ?B" "s = 8 + ?S * (4 + ?k)" "t = ?S"
    "list_all (\<lambda>p. 0 < pd_window_size ?k mx (csize p)) ?ps" "?S \<le> ?B"
    using pd_sizes_spec [OF sizes parts(2) T(2)] parts(1) ok(4) by simp_all
  from fb_prepend_small [OF out1 mem] obtain cp where cp: "fb_sink False cp [] out1" "fb_written out1 = []" "u \<le> cp"
    "cp < 2 ^ 28" by (auto simp: fb_new_def)
  from forward_md [OF ok(1)] ok(2) md1 obtain vs where vs: "md1 = fb_new\<lparr>fbuffers := vs\<rparr>" "bovs_bytes vs = fb_bytes im"
    "bovs_ok vs" "list_all solid vs" "length vs \<le> length (fbuffers im)" by auto
  from fb_prepend_small [OF md2 mem] vs obtain cm where cm: "fb_sink False cm vs md2" "fb_written md2 = []" "s \<le> cm"
    "cm < 2 ^ 28" by (auto simp: fb_new_def)
  have p2: "fb_pos md2 = 0" and p1: "fb_pos out1 = 0"
    using fb_written_length(1) [OF cm(1)] cm(2) fb_written_length(1) [OF cp(1)] cp(2) by simp_all
  have "fb_room cm md2 (length (le_bytes 4 (of_nat t :: 32 word)) + (?S * (?k + 4) + 4))"
    using cm(3) sz(2) p2 by (simp add: fb_room_def add.commute)
  from fsink.put_ok [OF cm(1) this] md3 have md3': "fb_sink False cm vs md3"
    "fb_written md3 = le_bytes 4 (of_nat t :: 32 word)" "fb_room cm md3 (?S * (?k + 4) + 4)" using cm(2) by auto
  have "\<exists>wins :: ('a word \<times> byte list) list. concat (map pd_decode wins) = fb_bytes inp \<and> length wins = ?S
      \<and> list_all pd_win wins \<and> fb_sink False cp [] out \<and> fb_written out = concat (map snd wins)
      \<and> fb_sink False cm vs om \<and> fb_written om = fb_written md3 @ concat (map pd_header wins)"
  proof (cases "?B = 0")
    case True
    then have "?ps = []" using sz(4) parts(1) ok(3)
      by (cases "fbuffers inp") (auto simp: fb_buffers_def fb_bytes_def pd_window_size_def cb_new_def
          dest: length_buffer_bytes)
    then show ?thesis using enc True cp(1,2) md3'(1) by (intro exI [of _ "[]"]) simp
  next
    case False
    then have "0 < cp" using cp(3) sz(1) by linarith
    then have "fb_room cp out1 (length (concat (map cb_bytes ?ps)) + 0)"
      using cp(3) sz(1) p1 parts(1) by (simp add: fb_room_def)
    from pd_encode_parts [OF enc T(1) parts(2) sz(4) cp(1) this md3'(1,3)] show ?thesis using parts(1) cp(2) by simp
  qed
  then obtain wins :: "('a word \<times> byte list) list" where w: "concat (map pd_decode wins) = fb_bytes inp" "length wins = ?S"
    "list_all pd_win wins" "fb_sink False cp [] out" "fb_written out = concat (map snd wins)" "fb_sink False cm vs om"
    "fb_written om = fb_written md3 @ concat (map pd_header wins)" by blast
  have bo: "fb_bytes out = concat (map snd wins)" using fb_sink_bytes [OF w(4)] w(5) by simp
  have bm: "fb_bytes om = le_bytes 4 (of_nat (length wins) :: 32 word) @ concat (map pd_header wins) @ fb_bytes im"
    using fb_sink_bytes [OF w(6)] w(2,7) md3'(2) sz(3) vs(2) by simp
  have "length (fb_bytes inp) = length (concat (map snd wins))" using length_pd_decodes [OF T(1), of wins] w(1) by simp
  then have "fb_written out \<noteq> []" using w(5) inp unfolding data_ok_def by (metis length_0_conv)
  then have d: "data_done out" by (rule data_done_sink [OF w(4) cp(4)])
  have "fb_written om \<noteq> []" using w(7) md3'(2) by (simp flip: length_greater_0_conv)
  then have m: "md_done im om"
    using md_done_sink [OF w(6) cm(4) _ vs(3,4,2,5)] im by (simp add: md_ok_def)
  have "length wins < 2 ^ 32" using w(2) sz(5) ok(4) by simp
  then show thesis by (rule that [OF bo bm w(1) _ w(3) m d])
qed

lemma pd_reverse:
  fixes T :: "'a::len itself" and wins :: "('a word \<times> byte list) list"
  assumes T: "byte_sized TYPE('a)" and wins: "length wins < 2 ^ 32" "list_all pd_win wins"
    and im: "flat (le_bytes 4 (of_nat (length wins) :: 32 word) @ concat (map pd_header wins) @ zs) im" "fb_start im"
    and inp: "flat (concat (map snd wins)) inp" "fb_start inp" "length (concat (map snd wins)) < 2 ^ 28"
    and tgt: "fb_target (length (concat (map snd wins))) tgt" and mem: "alloc_total al" "small_pool gb"
  shows "\<exists>im2 inp2 om out. pd_run_reverse_t T (sizeof TYPE('a)) al gb im inp fb_new tgt = Inr (im2, inp2, om, out)
       \<and> flat zs om \<and> \<not> read_only om \<and> flat (concat (map pd_decode wins)) out \<and> \<not> read_only out"
proof -
  let ?k = "sizeof TYPE('a)" and ?n = "length (concat (map snd wins))"
  let ?h = "le_bytes 4 (of_nat (length wins) :: 32 word)"
  have bi: "fb_bytes inp = concat (map snd wins)" "length (fbuffers inp) \<le> 1" "bovs_ok (fbuffers inp)"
    using inp(1) by (simp_all add: flat_def)
  have bm: "fb_bytes im = ?h @ concat (map pd_header wins) @ zs" using im(1) by (simp add: flat_def)
  have "fb_rest im = ?h @ (concat (map pd_header wins) @ zs)" using bm fb_start_rest [OF im(2)] by simp
  from fsource.get_front [OF fb_start_source [OF im(2)] this, of 4] obtain md1 where
    md1: "fb_read 4 im = Inr (?h, md1)" "fb_source md1" "fb_rest md1 = concat (map pd_header wins) @ zs" by auto
  have n62: "?n < 2 ^ 62" using inp(3) by simp
  from fb_prepend_target [OF tgt order_refl n62 small_poolD(1) [OF mem(2)] mem(1), of 0]
  obtain out1 fx cp where out1: "fb_prepend_buffer al (gb 0) ?n tgt = Inr out1" "fb_sink fx cp [] out1"
    "fb_written out1 = []" "?n \<le> cp" "cp < 2 ^ 62" "fx \<longrightarrow> cp = ?n" by blast
  have reset: "fb_reset_offset out1 = out1" by (rule fb_prepend_reset [OF out1(1)])
  have size: "fb_size inp = ?n" using fb_size_bytes [OF bi(3)] bi(1) by simp
  have "\<exists>md2 inp2 out2. foldR (pd_decode_window T ?k) (md1, inp, out1) [0..<length wins] = Inr (md2, inp2, out2)
       \<and> fb_source md2 \<and> fb_rest md2 = zs \<and> fbuffers md2 = fbuffers md1
       \<and> fb_sink fx cp [] out2 \<and> fb_written out2 = concat (map pd_decode wins)"
  proof (cases "wins = []")
    case True
    then show ?thesis using md1 out1(2,3) by simp
  next
    case False
    then have "0 < ?n" using wins(2) by (cases wins) auto
    then have "0 < cp" using out1(4) by linarith
    then have room: "fb_room cp out1 (?n + 0)"
      using out1(3,4) fb_written_length(1) [OF out1(2)] by (simp add: fb_room_def)
    have "fb_rest inp = concat (map snd wins) @ []" using bi(1) fb_start_rest [OF inp(2)] by simp
    from pd_decode_windows [OF T wins(2) _ md1(2,3) fb_start_source [OF inp(2)] bi(2) this out1(2) room, of "[0..<length wins]"]
    show ?thesis using out1(3) by auto
  qed
  then obtain md2 inp2 out2 where r: "foldR (pd_decode_window T ?k) (md1, inp, out1) [0..<length wins] = Inr (md2, inp2, out2)"
    "fb_source md2" "fb_rest md2 = zs" "fbuffers md2 = fbuffers md1" "fb_sink fx cp [] out2"
    "fb_written out2 = concat (map pd_decode wins)" by blast
  have len: "length (concat (map pd_decode wins)) = ?n"
    by (induction wins) (auto simp: length_pd_decode [OF T])
  have md2: "flat (fb_bytes im) md2"
    using im(1) r(4) fb_read_frame [OF md1(1)] by (simp add: flat_def fb_bytes_def)
  have off: "foffset md2 \<le> length (fb_bytes im)" "zs = drop (foffset md2) (fb_bytes im)"
    using fb_source_offset(1) [OF r(2)] md2 r(3) by (simp_all add: flat_def fb_rest_def)
  from flat_rest [OF md2 off(1)] obtain om where om: "flat zs om" "\<not> read_only om"
    "fb_append_view_range md2 (foffset md2) (length (fb_bytes im) - foffset md2) fb_new = Inr om"
    using off(2) by auto
  have sz: "sub64 (fb_size md2) (foffset md2) = length (fb_bytes im) - foffset md2"
    using fb_size_bytes [of md2] md2 fb_source_offset [OF r(2)] by (simp add: flat_def sub64_exact)
  have full: "fx \<Longrightarrow> fb_pos out2 = cp"
    using fb_written_length(1) [OF r(5)] r(6) len out1(6) by simp
  have "flat (concat (map pd_decode wins)) out2"
    using fb_sink_bytes [OF r(5) full] fb_sink_ok [OF r(5)] r(5,6) out1(5)
    by (auto simp: flat_def elim!: fb_sinkE)
  moreover have "\<not> read_only out2" using r(5) by (simp add: fb_sink_def)
  moreover have "pd_run_reverse_t T ?k al gb im inp fb_new tgt = Inr (md2, inp2, om, out2)"
    using md1(1) out1(1) r(1) om(3) sz size reset of_le_u32 [OF wins(1)] by (simp add: pd_run_reverse_t_def Let_def)
  ultimately show ?thesis using om(1,2) by blast
qed

lemma pd_filter_t:
  assumes "byte_sized TYPE('a::len)" and "sizeof TYPE('a) \<le> 8" and "k = sizeof TYPE('a)"
  shows "chunk_filter (pd_run_forward_t TYPE('a) sig mx) (pd_run_reverse_t TYPE('a) k)"
proof
  fix al gb im inp im1 inp1 om out
  assume "pd_run_forward_t TYPE('a) sig mx al gb im inp fb_new fb_new = Inr (im1, inp1, om, out)"
    and "small_blocks al" and "small_pool gb" and "md_ok im" and inp: "data_ok inp"
  from pd_forward [OF this(1) assms(1,2) this(2-5)]
  obtain wins :: "('a word \<times> byte list) list" where w: "fb_bytes out = concat (map snd wins)"
    "fb_bytes om = le_bytes 4 (of_nat (length wins) :: 32 word) @ concat (map pd_header wins) @ fb_bytes im"
    "concat (map pd_decode wins) = fb_bytes inp" "length wins < 2 ^ 32" "list_all pd_win wins"
    and d: "md_done im om" "data_done out" by blast
  show "md_done im om \<and> data_done out" using d ..
  have n: "length (fb_bytes inp) = length (concat (map snd wins))" using length_pd_decodes [OF assms(1), of wins] w(3) by simp
  fix im' inp' tgt al' gb'
  assume "flat (fb_bytes om) im'" and "fb_start im'" and "flat (fb_bytes out) inp'" and "fb_start inp'"
    and "fb_target (length (fb_bytes inp)) tgt" and "alloc_total al'" and "small_pool gb'"
  then show "\<exists>im2 inp2 om' out'. pd_run_reverse_t TYPE('a) k al' gb' im' inp' fb_new tgt = Inr (im2, inp2, om', out')
       \<and> flat (fb_bytes im) om' \<and> \<not> read_only om' \<and> flat (fb_bytes inp) out' \<and> \<not> read_only out'"
    using pd_reverse [OF assms(1) w(4,5), of "fb_bytes im" im' inp' tgt al' gb'] w n inp assms(3)
    by (simp add: data_ok_def)
qed

interpretation pdelta: chunk_filter "pd_run_forward mx t" "pd_run_reverse t" for mx t
  using noop.chunk_filter_axioms
  by (cases t) (auto intro!: pd_filter_t simp: byte_sized_def sizeof_def)

section \<open>When encoding succeeds\<close>

text \<open>A region of whole values in ascending order.\<close>

definition ascending :: "'a::len itself \<Rightarrow> bool \<Rightarrow> byte list \<Rightarrow> bool" where
  "ascending T sig bs \<longleftrightarrow> sizeof TYPE('a) dvd length bs \<and> sorted (map (value_of sig) (dec_cells bs :: 'a word list))"

lemma pd_encode_values_ok:
  fixes prev :: "'a::len word"
  assumes "byte_sized TYPE('a)" and "fb_sink fx cp rest fb" and "fb_room cp fb (length js * sizeof TYPE('a) + m)"
    and "coffset cb + length js * sizeof TYPE('a) \<le> cap (cdata cb)" and "cap (cdata cb) < 2 ^ 64"
    and "sorted (map (value_of sig)
           (prev # dec_cells (slice (region (cdata cb)) (coffset cb) (length js * sizeof TYPE('a)))))"
  shows "\<exists>r. foldR (pd_encode_value sig) (cb, prev, fb) js = Inr r"
  using assms(2-)
proof (induction js arbitrary: cb prev fb)
  case (Cons j js)
  let ?k = "sizeof TYPE('a)" and ?x = "of_le (slice (region (cdata cb)) (coffset cb) (sizeof TYPE('a))) :: 'a word"
  let ?cb = "cb\<lparr>coffset := coffset cb + ?k\<rparr>"
  have val: "cb_value (coffset cb) cb = Inr ?x" by (rule cb_value_region) (use Cons.prems(3) in simp)
  have adv: "cb_advance_offset ?k cb = ?cb"
    using Cons.prems(3,4) by (simp add: cb_advance_offset_def add64_exact)
  have cells: "dec_cells (slice (region (cdata cb)) (coffset cb) (length (j # js) * ?k))
      = ?x # dec_cells (slice (region (cdata cb)) (coffset cb + ?k) (length js * ?k))"
    using dec_cells_slice_Suc [OF assms(1), of "coffset cb" "length js" "region (cdata cb)"] Cons.prems(3) by simp
  have "\<not> less_t sig ?x prev" using Cons.prems(5) cells by (simp add: less_t_def)
  moreover have "fb_room cp fb (length (le_bytes ?k (?x - prev)) + (length js * ?k + m))"
    using Cons.prems(2) by (simp add: add.assoc)
  from fsink.put_ok [OF Cons.prems(1) this] obtain fb1 where fb1: "fb_write (le_bytes ?k (?x - prev)) fb = Inr fb1"
    "fb_sink fx cp rest fb1" "fb_room cp fb1 (length js * ?k + m)" by blast
  ultimately have "pd_encode_value sig (cb, prev, fb) j = Inr (?cb, ?x, fb1)"
    using val adv by (simp add: pd_encode_value_def)
  moreover have "\<exists>r. foldR (pd_encode_value sig) (?cb, ?x, fb1) js = Inr r"
    by (rule Cons.IH [OF fb1(2,3)]) (use Cons.prems(3-5) cells in \<open>simp_all add: add.assoc\<close>)
  ultimately show ?case by simp
qed simp

lemma ascending_slice:
  assumes "ascending TYPE('a::len) sig bs" and "byte_sized TYPE('a)" and "sizeof TYPE('a) dvd i" and "sizeof TYPE('a) dvd w"
    and "i + w \<le> length bs"
  shows "sorted (map (value_of sig) (dec_cells (slice bs i w) :: 'a word list))"
proof -
  let ?k = "sizeof TYPE('a)"
  obtain a b where ab: "i = a * ?k" "w = b * ?k" using assms(3,4) by (auto simp: dvd_def mult.commute)
  have k: "0 < ?k" using assms(2) by (rule sizeof_pos)
  have "(dec_cells (slice bs i w) :: 'a word list) = slice (dec_cells bs) a b"
  proof (rule nth_equalityI)
    have "a + b \<le> length bs div ?k" using assms(5) ab k
      by (metis add_mult_distrib div_le_mono nonzero_mult_div_cancel_right less_not_refl2)
    then show len: "length (dec_cells (slice bs i w) :: 'a word list) = length (slice (dec_cells bs :: 'a word list) a b)"
      using ab k assms(5) by (simp add: length_slice)
    fix j assume "j < length (dec_cells (slice bs i w) :: 'a word list)"
    then have j: "j < b" using ab k assms(5) by (simp add: length_slice)
    have "Suc j * ?k \<le> b * ?k" using j by (intro mult_le_mono1) simp
    then have "slice (slice bs i w) (j * ?k) ?k = slice bs ((a + j) * ?k) ?k"
      using ab by (simp add: slice_def drop_take add_mult_distrib add.commute)
    moreover have "a + j < length bs div ?k" using j \<open>a + b \<le> length bs div ?k\<close> by simp
    ultimately show "dec_cells (slice bs i w) ! j = (slice (dec_cells bs) a b ! j :: 'a word)"
      using j ab k assms(5) by (simp add: dec_cells_def nth_chunks length_slice slice_def [of "map _ _"])
  qed
  then show ?thesis using assms(1) unfolding ascending_def slice_def
    by (simp add: take_map [symmetric] drop_map [symmetric] sorted_wrt_take sorted_wrt_drop)
qed

lemma pd_encode_window_ok:
  fixes T :: "'a::len itself"
  assumes "byte_sized TYPE('a)" and "w = min ws (n - i * ws)" and "i * ws < n" and "n < 2 ^ 32"
    and "sizeof TYPE('a) dvd ws" and "0 < ws" and "ascending TYPE('a) sig (take n (region (cdata cb)))" and "n \<le> cap (cdata cb)"
    and "fb_sink fx cp rest fb" and "fb_room cp fb (w + m)"
    and "fb_sink fx' cp' rest' md" and "fb_room cp' md (sizeof TYPE('a) + 4 + m')"
    and "coffset cb = i * ws" and "cap (cdata cb) < 2 ^ 64"
  shows "\<exists>r. pd_encode_window T sig ws n (cb, fb, md) i = Inr r"
proof -
  let ?k = "sizeof TYPE('a)"
  have w: "min ws (sub32 n (u32 (i * ws))) = w" using assms(2-4) by (simp add: u32_exact sub32_exact)
  have kn: "?k dvd n" using assms(7,8) by (simp add: ascending_def)
  have kw: "?k dvd w" and w0: "0 < w" using assms(2,3,5,6) kn by (auto simp: min_def)
  then have kle: "?k \<le> w" by (simp add: dvd_imp_le)
  have le: "coffset cb + w \<le> n" using assms(2,3,13) by simp
  have "coffset cb + ?k \<le> cap (cdata cb)" using le kle assms(8) by linarith
  then have val: "cb_value (coffset cb) cb = Inr (of_le (slice (region (cdata cb)) (coffset cb) ?k) :: 'a word)" (is "_ = Inr ?v")
    by (rule cb_value_region)
  have "fb_room cp' md (length (le_bytes ?k ?v) + (4 + m'))" using assms(12) by (simp add: add.assoc)
  from fsink.put_ok [OF assms(11) this] obtain md1 where md1: "fb_write (le_bytes ?k ?v) md = Inr md1"
    "fb_sink fx' cp' rest' md1" "fb_room cp' md1 (4 + m')" by blast
  have "fb_room cp' md1 (length (le_bytes 4 (of_nat w :: 32 word)) + m')" using md1(3) by simp
  from fsink.put_ok [OF md1(2) this] obtain md2 where md2: "fb_write (le_bytes 4 (of_nat w :: 32 word)) md1 = Inr md2" by blast
  define e where "e = w div ?k"
  have e: "w = e * ?k" using kw by (simp add: e_def)
  then obtain e' where e': "e = Suc e'" using w0 by (cases e) auto
  have "slice (take n (region (cdata cb))) (coffset cb) w = slice (region (cdata cb)) (coffset cb) w"
    using le by (simp add: slice_def drop_take)
  with ascending_slice [OF assms(7,1), of "coffset cb" w] kw le assms(5,8,13)
  have "sorted (map (value_of sig) (dec_cells (slice (region (cdata cb)) (coffset cb) w) :: 'a word list))" by simp
  then have "sorted (map (value_of sig) (?v # dec_cells (slice (region (cdata cb)) (coffset cb) (length [0..<e] * ?k))))"
    using dec_cells_slice_Suc [OF assms(1), of "coffset cb" e' "region (cdata cb)"] le assms(8) e e' by simp
  then have "\<exists>r. foldR (pd_encode_value sig) (cb, ?v, fb) [0..<e] = Inr r"
    using pd_encode_values_ok [OF assms(1,9), of "[0..<e]" m] assms(8,10,14) le e by simp
  then show ?thesis using val md1(1) md2 w kw by (auto simp: pd_encode_window_def Let_def e_def)
qed

lemma pd_encode_windows_ok:
  fixes T :: "'a::len itself"
  assumes "byte_sized TYPE('a)" and "0 < ws" and "n < 2 ^ 32" and "sizeof TYPE('a) dvd ws"
    and "ascending TYPE('a) sig (take n (region (cdata cb)))"
    and "N = n div ws + (if n mod ws = 0 then 0 else 1)" and "i \<le> N"
    and "fb_sink fx cp rest fb" and "fb_room cp fb ((n - i * ws) + m)"
    and "fb_sink fx' cp' rest' md" and "fb_room cp' md ((N - i) * (sizeof TYPE('a) + 4) + m')"
    and "coffset cb = min n (i * ws)" and "n \<le> cap (cdata cb)" and "cap (cdata cb) < 2 ^ 64"
  shows "\<exists>cb' fb' md'. foldR (pd_encode_window T sig ws n) (cb, fb, md) [i..<N] = Inr (cb', fb', md') \<and> cdata cb' = cdata cb \<and> coffset cb' = n"
  using assms(5-)
proof (induction "N - i" arbitrary: i cb fb md)
  case 0
  then have "i = N" by simp
  moreover have "n - N * ws = 0" using window_last [OF assms(2), of n] 0(3) by simp
  ultimately show ?case using 0 by simp
next
  case (Suc d)
  let ?k = "sizeof TYPE('a)"
  have iN: "i < N" using Suc(2) by simp
  then have lt: "i * ws < n" using window_count [OF assms(2)] Suc.prems(2) by simp
  define w where "w = min ws (n - i * ws)"
  have off: "coffset cb = i * ws" using Suc.prems(8) lt by simp
  have split: "n - i * ws = w + (n - Suc i * ws)" by (auto simp: w_def)
  have room: "fb_room cp fb (w + ((n - Suc i * ws) + m))" using Suc.prems(5) split by (simp add: add.assoc)
  have "N - i = Suc (N - Suc i)" using iN by simp
  then have room': "fb_room cp' md (?k + 4 + ((N - Suc i) * (?k + 4) + m'))"
    using Suc.prems(7) by (simp add: add.assoc)
  have "i * ws + w \<le> n" using lt by (simp add: w_def)
  then have ow: "coffset cb + w \<le> cap (cdata cb)" using off Suc.prems(9) by linarith
  from pd_encode_window_ok [where T = T, OF assms(1) w_def lt assms(3,4,2) Suc.prems(1,9,4) room Suc.prems(6) room' off Suc.prems(10)]
  obtain cb1 fb1 md1 where w1: "pd_encode_window T sig ws n (cb, fb, md) i = Inr (cb1, fb1, md1)" by auto
  from pd_encode_window_spec [OF w1 assms(1) w_def less_imp_le [OF lt] assms(3) Suc.prems(4) room
      Suc.prems(6) room' ow Suc.prems(10)]
  have s: "fb_sink fx cp rest fb1" "fb_room cp fb1 ((n - Suc i * ws) + m)" "fb_sink fx' cp' rest' md1"
    "fb_room cp' md1 ((N - Suc i) * (?k + 4) + m')" and cb1: "cb1 = cb\<lparr>coffset := coffset cb + w\<rparr>" by blast+
  have c1: "coffset cb1 = min n (Suc i * ws)" using cb1 off lt by (auto simp: w_def)
  have d: "d = N - Suc i" using Suc(2) by simp
  have cd: "cdata cb1 = cdata cb" using cb1 by simp
  have "\<exists>cb' fb' md'. foldR (pd_encode_window T sig ws n) (cb1, fb1, md1) [Suc i..<N] = Inr (cb', fb', md')
      \<and> cdata cb' = cdata cb1 \<and> coffset cb' = n"
    by (rule Suc.hyps(1) [OF d _ Suc.prems(2) Suc_leI [OF iN] s c1]) (use cd Suc.prems(1,9,10) in simp_all)
  then show ?case using w1 cd upt_conv_Cons [OF iN] by auto
qed

lemma pd_encode_parts_ok:
  fixes T :: "'a::len itself"
  assumes "byte_sized TYPE('a)" and "parts_ok parts"
    and "list_all (\<lambda>p. 0 < pd_window_size (sizeof TYPE('a)) mx (csize p) \<and> ascending TYPE('a) sig (cb_bytes p)) parts"
    and "fb_sink fx cp rest fb" and "fb_room cp fb (length (concat (map cb_bytes parts)) + m)"
    and "fb_sink fx' cp' rest' md"
    and "fb_room cp' md (sum_list (map (pd_windows_of (sizeof TYPE('a)) mx) parts) * (sizeof TYPE('a) + 4) + m')"
  shows "\<exists>r. foldR (pd_encode_part T sig mx) (fb, md) parts = Inr r"
  using assms(2-)
proof (induction parts arbitrary: fb md)
  case (Cons p ps)
  let ?k = "sizeof TYPE('a)" and ?B = "length (concat (map cb_bytes ps))" and ?w = "pd_windows_of (sizeof TYPE('a)) mx p"
  let ?S = "sum_list (map (pd_windows_of ?k mx) ps)" and ?ws = "pd_window_size ?k mx (csize p)"
  have p: "coffset p = 0" "csize p \<le> cap (cdata p)" "cap (cdata p) < 2 ^ 64" "parts_ok ps" "csize p < 2 ^ 32"
    "csize p < 2 ^ 28" using parts_ok_Cons [OF Cons.prems(1)] by simp_all
  have ws: "0 < ?ws" and asc: "ascending TYPE('a) sig (take (csize p) (region (cdata p)))"
    using Cons.prems(2) by (simp_all add: cb_bytes_def)
  have u32p: "u32 (csize p) = csize p" using p(5) by (rule u32_exact)
  have N: "pd_num_windows (csize p) ?ws = ?w" using pd_windows_of_le(2) [OF ws p(6)] .
  have lp: "length (cb_bytes p) = csize p" using p(2) by (simp add: cb_bytes_def)
  have r1: "fb_room cp fb ((csize p - 0 * ?ws) + (?B + m))" using Cons.prems(4) lp by (simp add: add.assoc)
  have r2: "fb_room cp' md ((?w - 0) * (?k + 4) + (?S * (?k + 4) + m'))"
    using Cons.prems(6) by (simp add: add.assoc add_mult_distrib)
  have Nw: "?w = csize p div ?ws + (if csize p mod ?ws = 0 then 0 else 1)"
    unfolding pd_windows_of_def Let_def ..
  have off: "coffset p = min (csize p) (0 * ?ws)" using p(1) by simp
  have kws: "?k dvd ?ws" by (simp add: pd_window_size_def)
  from pd_encode_windows_ok [where T = T, OF assms(1) ws p(5) kws asc Nw le0 Cons.prems(3) r1 Cons.prems(5) r2 off p(2,3)]
  obtain cb1 fb1 md1 where enc: "foldR (pd_encode_window T sig ?ws (csize p)) (p, fb, md) [0..<?w] = Inr (cb1, fb1, md1)"
    by blast
  from pd_encode_windows [OF enc assms(1) ws p(5) Nw le0 Cons.prems(3) r1 Cons.prems(5) r2 off p(2,3)]
  have s: "fb_sink fx cp rest fb1" "fb_room cp fb1 (?B + m)" "fb_sink fx' cp' rest' md1"
    "fb_room cp' md1 (?S * (?k + 4) + m')" by blast+
  have "list_all (\<lambda>p. 0 < pd_window_size ?k mx (csize p) \<and> ascending TYPE('a) sig (cb_bytes p)) ps" using Cons.prems(2) by simp
  from Cons.IH [OF p(4) this s] show ?case
    using enc ws u32p N by (auto simp: pd_encode_part_def [of T sig mx "(fb, md)" p] Let_def)
qed simp

lemma pd_sizes_ok:
  assumes "list_all (\<lambda>p. 0 < pd_window_size k mx (csize p)) parts" and "list_all (\<lambda>p. csize p < 2 ^ 32) parts"
  shows "\<exists>r. foldR (pd_sizes k mx) s parts = Inr r"
  using assms by (induction parts arbitrary: s) (auto simp: pd_sizes_def u32_exact Let_def split: prod.splits)

text \<open>What the filter does before it encodes the parts succeeds, and there is room for their encoding.\<close>

lemma pd_forward_setup:
  fixes T :: "'a::len itself"
  defines "k \<equiv> sizeof TYPE('a)"
  assumes T: "byte_sized TYPE('a)" "k \<le> 8"
    and inp: "data_ok inp" "12 * length (fb_bytes inp) + 8 < 2 ^ 28" "list_all (\<lambda>p. 0 < pd_window_size k mx (csize p)) (fb_buffers inp)"
    and im: "md_ok im" and mem: "\<forall>n < 2 ^ 28. al n \<noteq> None" "small_pool gb"
  shows "\<exists>out1 md3 cp cm vs. pd_run_forward_t T sig mx al gb im inp fb_new fb_new =
           bindR (foldR (pd_encode_part T sig mx) (out1, md3) (fb_buffers inp)) (\<lambda>(out2, md4). Inr (im, inp, md4, out2))
         \<and> fb_sink False cp [] out1 \<and> fb_room cp out1 (length (concat (map cb_bytes (fb_buffers inp))) + 0) \<and> fb_sink False cm vs md3
         \<and> fb_room cm md3 (sum_list (map (pd_windows_of k mx) (fb_buffers inp)) * (k + 4) + 4)"
proof -
  let ?ps = "fb_buffers inp" and ?S = "sum_list (map (pd_windows_of k mx) (fb_buffers inp))" and ?B = "length (fb_bytes inp)"
  have ok: "bovs_ok (fbuffers im)" "list_all solid (fbuffers im)" "bovs_ok (fbuffers inp)" "?B < 2 ^ 28" "0 < ?B"
    using im inp(1) by (simp_all add: md_ok_def data_ok_def fb_start_def)
  note parts = parts_of_input [OF ok(3,4)]
  have "list_all (\<lambda>p. csize p < 2 ^ 32) ?ps"
    using parts(2) member_le_sum_list [of _ "map (length \<circ> cb_bytes) ?ps"]
    by (fastforce simp: parts_ok_def list_all_iff length_concat cb_bytes_def)
  from pd_sizes_ok [OF inp(3) this, of "(0, 8, 0)"] obtain u s t where sizes: "foldR (pd_sizes k mx) (0, 8, 0) ?ps = Inr (u, s, t)" by auto
  have sz: "u = ?B" "s = 8 + ?S * (4 + k)" "t = ?S" "?S \<le> ?B"
    using pd_sizes_spec [OF sizes parts(2) T(2)] parts(1) ok(4) inp(2) by simp_all
  have "?S * (4 + k) \<le> ?B * 12" by (rule mult_le_mono) (use sz(4) T(2) in simp_all)
  then have s28: "s < 2 ^ 28" "u < 2 ^ 28" using sz inp(2) by simp_all
  from fb_prepend_ok [of fb_new gb al u 0] mem s28(2) obtain out1 cp where
    out1: "fb_prepend_buffer al (gb 0) u fb_new = Inr out1" "fb_sink False cp [] out1" "fb_written out1 = []" "u \<le> cp"
    by (auto simp: fb_new_def)
  from forward_md [OF ok(1)] ok(2) obtain vs where vs: "fb_append_view im fb_new = Inr (fb_new\<lparr>fbuffers := vs\<rparr>)"
    "list_all solid vs" by auto
  from fb_prepend_ok [of "fb_new\<lparr>fbuffers := vs\<rparr>" gb al s 1] mem s28(1) vs(2) obtain md2 cm where
    md2: "fb_prepend_buffer al (gb 1) s (fb_new\<lparr>fbuffers := vs\<rparr>) = Inr md2" "fb_sink False cm vs md2"
      "fb_written md2 = []" "s \<le> cm"
    by (auto simp: fb_new_def)
  have p2: "fb_pos md2 = 0" and p1: "fb_pos out1 = 0"
    using fb_written_length(1) [OF md2(2)] md2(3) fb_written_length(1) [OF out1(2)] out1(3) by simp_all
  have "fb_room cm md2 (length (le_bytes 4 (of_nat t :: 32 word)) + (?S * (k + 4) + 4))"
    using md2(4) sz(2) p2 by (simp add: fb_room_def add.commute)
  from fsink.put_ok [OF md2(2) this] obtain md3 where md3: "fb_write (le_bytes 4 (of_nat t :: 32 word)) md2 = Inr md3"
    "fb_sink False cm vs md3" "fb_room cm md3 (?S * (k + 4) + 4)" by blast
  have room: "fb_room cp out1 (length (concat (map cb_bytes ?ps)) + 0)"
    using out1(4) sz(1) p1 parts(1) less_le_trans [OF ok(5), of cp] by (simp add: fb_room_def)
  have "fb_buffer_ptr 0 out1 = Inr (Some (buffer_reset_offset (bv_buffer (hd (fbuffers out1)))))"
    using out1(2) by (cases "fbuffers out1") (auto simp: fb_buffer_ptr_def fb_sink_def)
  then have "pd_run_forward_t T sig mx al gb im inp fb_new fb_new =
      bindR (foldR (pd_encode_part T sig mx) (out1, md3) ?ps) (\<lambda>(out2, md4). Inr (im, inp, md4, out2))"
    using sizes out1(1) vs(1) md2(1) md3(1) by (simp add: pd_run_forward_t_def Let_def k_def)
  then show ?thesis using out1(2) room md3(2,3) by blast
qed

lemma pd_window_pos: "0 < k \<Longrightarrow> k \<le> mx \<Longrightarrow> k \<le> n \<Longrightarrow> 0 < pd_window_size k mx n"
  by (simp add: pd_window_size_def div_greater_zero_iff)

lemma pd_forward_ok:
  fixes T :: "'a::len itself"
  assumes T: "byte_sized TYPE('a)" "sizeof TYPE('a) \<le> 8" "sizeof TYPE('a) \<le> mx"
    and inp: "data_ok inp" "12 * length (fb_bytes inp) + 8 < 2 ^ 28"
      "list_all (\<lambda>b. solid b \<and> ascending TYPE('a) sig (buffer_bytes (bv_buffer b))) (fbuffers inp)"
    and im: "md_ok im" and mem: "\<forall>n < 2 ^ 28. al n \<noteq> None" "small_pool gb"
  shows "\<exists>om out. pd_run_forward_t T sig mx al gb im inp fb_new fb_new = Inr (im, inp, om, out)"
proof -
  let ?k = "sizeof TYPE('a)" and ?ps = "fb_buffers inp"
  have parts': "list_all (\<lambda>p. 0 < pd_window_size ?k mx (csize p) \<and> ascending TYPE('a) sig (cb_bytes p)) ?ps"
  proof -
    have "0 < pd_window_size ?k mx (bsize (bv_buffer b)) \<and> ascending TYPE('a) sig (cb_bytes (cb_new (bdata (bv_buffer b)) (bsize (bv_buffer b))))"
      if "b \<in> set (fbuffers inp)" for b
    proof -
      have b: "solid b" "ascending TYPE('a) sig (buffer_bytes (bv_buffer b))" using inp(3) that by (simp_all add: list_all_iff)
      then have "?k dvd bsize (bv_buffer b)" "0 < bsize (bv_buffer b)"
        using length_buffer_bytes [of "bv_buffer b"] by (simp_all add: solid_def ascending_def)
      then show ?thesis using b(2) pd_window_pos [OF sizeof_pos [OF T(1)] T(3)]
        by (simp add: cb_bytes_def cb_new_def buffer_bytes_def dvd_imp_le)
    qed
    then show ?thesis by (auto simp: fb_buffers_def list_all_iff cb_new_def)
  qed
  then have "list_all (\<lambda>p. 0 < pd_window_size ?k mx (csize p)) ?ps" by (simp add: list_all_iff)
  from pd_forward_setup [OF T(1,2) inp(1,2) this im mem, of T sig] obtain out1 md3 cp cm vs where
    run: "pd_run_forward_t T sig mx al gb im inp fb_new fb_new =
           bindR (foldR (pd_encode_part T sig mx) (out1, md3) ?ps) (\<lambda>(out2, md4). Inr (im, inp, md4, out2))"
    and s: "fb_sink False cp [] out1" "fb_room cp out1 (length (concat (map cb_bytes ?ps)) + 0)" "fb_sink False cm vs md3"
      "fb_room cm md3 (sum_list (map (pd_windows_of ?k mx) ?ps) * (?k + 4) + 4)" by blast
  have "parts_ok ?ps" using inp(1) by (intro parts_of_input(2)) (simp_all add: data_ok_def fb_start_def)
  from pd_encode_parts_ok [where T = T, OF T(1) this parts' s] show ?thesis unfolding run by auto
qed

text \<open>A part whose last window is shorter than a value.\<close>

lemma pd_window_prefix:
  fixes T :: "'a::len itself"
  assumes "i < q" and "q * ws \<le> n" and "n < 2 ^ 32"
  shows "pd_encode_window T sig ws n s i = pd_encode_window T sig ws (q * ws) s i"
proof -
  have "Suc i * ws \<le> q * ws" using assms(1) by (intro mult_le_mono1) simp
  then have le: "ws + i * ws \<le> q * ws" by simp
  then have "i * ws \<le> q * ws" "q * ws < 2 ^ 32" "i * ws < 2 ^ 32" using assms(2,3) by linarith+
  with le have "min ws (sub32 n (u32 (i * ws))) = ws" "min ws (sub32 (q * ws) (u32 (i * ws))) = ws"
    using assms(2,3) by (simp_all add: u32_exact sub32_exact)
  then show ?thesis unfolding pd_encode_window_def by simp
qed

lemma pd_encode_part_short:
  fixes T :: "'a::len itself"
  defines "k \<equiv> sizeof TYPE('a)"
  assumes T: "byte_sized TYPE('a)" and p: "parts_ok [p]" "cap (cdata p) = csize p"
    and ws: "ws = pd_window_size k mx (csize p)" "0 < ws" "0 < csize p mod ws" "csize p mod ws < k"
    and asc: "ascending TYPE('a) sig (take (csize p div ws * ws) (cb_bytes p))"
    and s: "fb_sink fx cp rest fb" "fb_room cp fb (csize p)" "fb_sink fx' cp' rest' md" "fb_room cp' md (pd_windows_of k mx p * (k + 4) + m')"
  shows "pd_encode_part T sig mx (fb, md) p = Inl UB"
proof -
  define q where "q = csize p div ws"
  have p': "coffset p = 0" "csize p < 2 ^ 28" using parts_ok_Cons [OF p(1)] by simp_all
  have le: "q * ws \<le> csize p" "csize p = q * ws + csize p mod ws" by (simp_all add: q_def)
  have N: "pd_windows_of k mx p = Suc q" "pd_num_windows (csize p) ws = Suc q"
    using ws pd_windows_of_le(2) [of k mx p] p'(2) by (simp_all add: pd_windows_of_def q_def Let_def)
  have a: "ascending TYPE('a) sig (take (q * ws) (region (cdata p)))" using asc le(1) by (simp add: cb_bytes_def q_def)
  have r: "fb_room cp fb ((q * ws - 0 * ws) + 0)" "fb_room cp' md ((q - 0) * (k + 4) + 0)"
    using s(2,4) le(1) N(1) by (simp_all add: fb_room_def)
  have "q = q * ws div ws + (if q * ws mod ws = 0 then 0 else 1)" "sizeof TYPE('a) dvd ws" using ws(1,2) by (simp_all add: pd_window_size_def k_def)
  from pd_encode_windows_ok [where T = T, OF T ws(2) _ this(2) a this(1) le0 s(1) r(1) s(3) r(2) [unfolded k_def]] p' p(2) le(1)
  obtain cb1 fb1 md1 where enc: "foldR (pd_encode_window T sig ws (q * ws)) (p, fb, md) [0..<q] = Inr (cb1, fb1, md1)"
    and cb1: "cdata cb1 = cdata p" "coffset cb1 = q * ws" by auto
  have "foldR (pd_encode_window T sig ws (csize p)) st xs = foldR (pd_encode_window T sig ws (q * ws)) st xs" if "set xs \<subseteq> {..<q}" for st xs
    using that pd_window_prefix [where T = T, OF _ le(1)] p'(2) by (induction xs arbitrary: st) simp_all
  then have "foldR (pd_encode_window T sig ws (csize p)) (p, fb, md) [0..<q] = Inr (cb1, fb1, md1)"
    using enc by (auto simp: atLeast0LessThan)
  moreover have "pd_encode_window T sig ws (csize p) (cb1, fb1, md1) q = Inl UB"
  proof -
    have "mem_read (cdata cb1) (coffset cb1) (sizeof TYPE('a)) = Inl UB"
      unfolding cb1 using p(2) le(2) ws(4) k_def by (cases "cdata p") (auto simp: mem_read_def)
    then show ?thesis by (simp add: pd_encode_window_def Let_def cb_value_def)
  qed
  ultimately have "foldR (pd_encode_window T sig ws (csize p)) (p, fb, md) [0..<Suc q] = Inl UB"
    by (simp add: foldR_append)
  then show ?thesis using N(2) ws(1,2) p'(2) by (simp add: pd_encode_part_def u32_exact k_def Let_def)
qed

section \<open>Properties\<close>

text \<open>
  C6: the positive-delta filter loses nothing. For every integer type, every window size of at least
  one value and every non-empty chunk, in any number of parts, whose parts hold whole values in ascending order,
  filtering succeeds and keeps the size, and the reverse filter, run on the bytes it wrote, restores
  the chunk and hands on the metadata of the filters before it.
\<close>

theorem positive_delta_round_trip:
  fixes T :: "'a::len itself"
  assumes "byte_sized TYPE('a)" and "sizeof TYPE('a) \<le> 8" and "sizeof TYPE('a) \<le> mx"
    and "data_ok inp" and "12 * length (fb_bytes inp) + 8 < 2 ^ 28"
    and "list_all (\<lambda>b. solid b \<and> ascending TYPE('a) sig (buffer_bytes (bv_buffer b))) (fbuffers inp)"
    and "md_ok im" and "al = (\<lambda>n. if n < 2 ^ 28 then Some (f n) else None)" and "small_pool gb"
    and "alloc_total al'" and "small_pool gb'"
  shows "\<exists>om out. pd_run_forward_t T sig mx al gb im inp fb_new fb_new = Inr (im, inp, om, out)
       \<and> length (fb_bytes out) = length (fb_bytes inp)
       \<and> (\<forall>im' inp' tgt. flat (fb_bytes om) im' \<and> fb_start im' \<and> flat (fb_bytes out) inp' \<and> fb_start inp'
            \<and> fb_target (length (fb_bytes inp)) tgt \<longrightarrow>
            (\<exists>im2 inp2 om' out'. pd_run_reverse_t T (sizeof TYPE('a)) al' gb' im' inp' fb_new tgt = Inr (im2, inp2, om', out')
               \<and> fb_bytes om' = fb_bytes im \<and> fb_bytes out' = fb_bytes inp))"
proof -
  have al: "\<forall>n < 2 ^ 28. al n \<noteq> None" "small_blocks al" using assms(8) by (simp_all add: small_blocks_def)
  from pd_forward_ok [OF assms(1-7) al(1) assms(9)] obtain om out where
    run: "pd_run_forward_t T sig mx al gb im inp fb_new fb_new = Inr (im, inp, om, out)" by blast
  from pd_forward [OF run assms(1,2) al(2) assms(9,7,4)]
  obtain wins :: "('a word \<times> byte list) list" where w: "fb_bytes out = concat (map snd wins)"
    "fb_bytes om = le_bytes 4 (of_nat (length wins) :: 32 word) @ concat (map pd_header wins) @ fb_bytes im"
    "concat (map pd_decode wins) = fb_bytes inp" "length wins < 2 ^ 32" "list_all pd_win wins" by blast
  have n: "length (fb_bytes inp) = length (concat (map snd wins))" using length_pd_decodes [OF assms(1), of wins] w(3) by simp
  then have n28: "length (concat (map snd wins)) < 2 ^ 28" using assms(4) by (simp add: data_ok_def)
  have "\<exists>im2 inp2 om' out'. pd_run_reverse_t T (sizeof TYPE('a)) al' gb' im' inp' fb_new tgt = Inr (im2, inp2, om', out')
               \<and> fb_bytes om' = fb_bytes im \<and> fb_bytes out' = fb_bytes inp"
    if "flat (fb_bytes om) im'" "fb_start im'" "flat (fb_bytes out) inp'" "fb_start inp'"
      "fb_target (length (fb_bytes inp)) tgt" for im' inp' tgt
  proof -
    from pd_reverse [where T = T, OF assms(1) w(4,5) that(1) [unfolded w(2)] that(2) that(3) [unfolded w(1)] that(4)
        n28 that(5) [unfolded n] assms(10,11)]
    show ?thesis using w(3) by (auto simp: flat_def)
  qed
  then show ?thesis using run w(1) n by auto
qed

theorem positive_delta_round_trip_witness:
  defines "gb \<equiv> \<lambda>i :: nat. buffer_new"
    and "inp \<equiv> fb_new\<lparr>fbuffers := [bov_new (buffer_wrap (Some [1, 0, 5, 0, 5, 0]) 6)]\<rparr>"
  shows "\<exists>om out. pd_run_forward_t TYPE(16) True 4 (\<lambda>n. if n < 2 ^ 28 then Some [] else None) gb fb_new inp fb_new fb_new
         = Inr (fb_new, inp, om, out)
       \<and> length (fb_bytes out) = length (fb_bytes inp)
       \<and> (\<forall>im' inp' tgt. flat (fb_bytes om) im' \<and> fb_start im' \<and> flat (fb_bytes out) inp' \<and> fb_start inp'
            \<and> fb_target (length (fb_bytes inp)) tgt \<longrightarrow>
            (\<exists>im2 inp2 om' out'. pd_run_reverse_t TYPE(16) (sizeof TYPE(16)) (\<lambda>n. Some []) gb im' inp' fb_new tgt
                 = Inr (im2, inp2, om', out')
               \<and> fb_bytes om' = fb_bytes fb_new \<and> fb_bytes out' = fb_bytes inp))"
proof (rule positive_delta_round_trip)
  have "chunks 2 [1, 0, 5, 0, 5, 0 :: byte] = [[1, 0], [5, 0], [5, 0]]" by (simp add: chunks_def slice_def upt_rec)
  then have "map (value_of True) (dec_cells [1, 0, 5, 0, 5, 0] :: 16 word list) = [1, 5, 5]"
    by (simp add: dec_cells_def sizeof_def value_of_def)
  then show "list_all (\<lambda>b. solid b \<and> ascending TYPE(16) True (buffer_bytes (bv_buffer b))) (fbuffers inp)"
    by (simp add: inp_def solid_def bov_new_def buffer_wrap_def buffer_inv_def buffer_bytes_def ascending_def sizeof_def)
qed (simp_all add: gb_def inp_def byte_sized_def sizeof_def data_ok_def solid_def md_ok_def fb_start_def fb_new_def fb_bytes_def
    bov_new_def buffer_wrap_def buffer_bytes_def buffer_inv_def small_pool_def pool_buffer_def buffer_new_def alloc_total_def)

text \<open>
  C31: A chunk that does not hold whole values is read past its end. For a chunk in one part of at least one value whose
  memory ends with it, whose last window is shorter than a value and whose other windows are in ascending order, filtering it reads
  memory that is not the chunk's, because the header of the last window has the first value of the window. The sizes and
  the allocator are those for which filtering whole values succeeds.
\<close>

theorem positive_delta_overreads:
  fixes T :: "'a::len itself"
  defines "k \<equiv> sizeof TYPE('a)"
  assumes "byte_sized TYPE('a)" and "k \<le> 8" and "k \<le> mx" and "data_ok inp" and "12 * length (fb_bytes inp) + 8 < 2 ^ 28"
    and "md_ok im" and "\<forall>n < 2 ^ 28. al n \<noteq> None" and "small_pool gb"
    and "fbuffers inp = [b]" and "cap (bdata (bv_buffer b)) = bsize (bv_buffer b)" and "k \<le> bsize (bv_buffer b)"
    and "ws = pd_window_size k mx (bsize (bv_buffer b))" and "0 < bsize (bv_buffer b) mod ws" and "bsize (bv_buffer b) mod ws < k"
    and "ascending TYPE('a) sig (take (bsize (bv_buffer b) div ws * ws) (buffer_bytes (bv_buffer b)))"
  shows "pd_run_forward_t T sig mx al gb im inp fb_new fb_new = Inl UB"
proof -
  define p where "p = cb_new (bdata (bv_buffer b)) (bsize (bv_buffer b))"
  have ps: "fb_buffers inp = [p]" "csize p = bsize (bv_buffer b)" "cdata p = bdata (bv_buffer b)" "cb_bytes p = buffer_bytes (bv_buffer b)"
    using assms(10) by (simp_all add: fb_buffers_def p_def cb_new_def cb_bytes_def buffer_bytes_def)
  have ws: "0 < ws" using pd_window_pos [OF sizeof_pos [OF assms(2)]] assms(4,12,13) k_def by simp
  have ok: "parts_ok [p]" using parts_of_input(2) [of inp] assms(5) ps(1) by (simp add: data_ok_def fb_start_def)
  then have lp: "length (cb_bytes p) = csize p" using parts_ok_Cons [of p "[]"] by (simp add: cb_bytes_def)
  have w: "list_all (\<lambda>p. 0 < pd_window_size (sizeof TYPE('a)) mx (csize p)) (fb_buffers inp)" using ps ws assms(13) k_def by simp
  from pd_forward_setup [OF assms(2) assms(3) [unfolded k_def] assms(5,6) w assms(7-9), of T sig] obtain out1 md3 cp cm vs where
    run: "pd_run_forward_t T sig mx al gb im inp fb_new fb_new =
           bindR (foldR (pd_encode_part T sig mx) (out1, md3) (fb_buffers inp)) (\<lambda>(out2, md4). Inr (im, inp, md4, out2))"
    and s: "fb_sink False cp [] out1" "fb_room cp out1 (length (concat (map cb_bytes (fb_buffers inp))) + 0)" "fb_sink False cm vs md3"
      "fb_room cm md3 (sum_list (map (pd_windows_of (sizeof TYPE('a)) mx) (fb_buffers inp)) * (sizeof TYPE('a) + 4) + 4)" by blast
  have "pd_encode_part T sig mx (out1, md3) p = Inl UB"
    by (rule pd_encode_part_short [OF assms(2) ok, of ws mx sig False cp "[]" out1 False cm vs md3 4 T])
      (use assms(11,13-16) ps ws s lp k_def in simp_all)
  then show ?thesis unfolding run ps(1) by simp
qed

theorem positive_delta_overreads_witness:
  "pd_run_forward_t TYPE(16) True 1024 (\<lambda>n. Some []) (\<lambda>i. buffer_new) fb_new
     (fb_new\<lparr>fbuffers := [bov_new (buffer_wrap (Some [1, 0, 7]) 3)]\<rparr>) fb_new fb_new = Inl UB"
  by (rule positive_delta_overreads [where b = "bov_new (buffer_wrap (Some [1, 0, 7]) 3)" and ws = 2])
    (simp_all add: byte_sized_def sizeof_def data_ok_def solid_def md_ok_def fb_start_def fb_new_def fb_bytes_def pd_window_size_def
      bov_new_def buffer_wrap_def buffer_bytes_def buffer_inv_def small_pool_def pool_buffer_def buffer_new_def ascending_def dec_cells_def
      chunks_def slice_def)

end
