(* ===== verification/Filter_Pipeline.thy ===== *)
theory Filter_Pipeline
  imports Filter_Interface Positive_Delta Tdb_Tile
begin

text \<open>
  The filter pipeline (\<open>filter/filter_pipeline.{h,cc}\<close>): a tile is filtered chunk by chunk through a
  list of filters into one buffer, and unfiltered from it. A filter is the pair of its
  \<open>run_forward\<close> and \<open>run_reverse\<close>; the tile that they look at through their pipeline is fixed during
  a run. \<open>gbs\<close> gives the buffers that the storage of a chunk hands out to each filter. The chunks of
  \<open>parallel_for\<close> touch separate memory and are run here in order.
\<close>

type_synonym runs = "filter_run \<times> filter_run"

section \<open>Filtering\<close>

definition stage_input :: "filter_buffer \<Rightarrow> filter_buffer" where
  "stage_input fb = fb_set_read_only True (fb_reset_offset fb)"

definition swap_into :: "filter_buffer \<Rightarrow> filter_buffer \<Rightarrow> (filter_buffer \<times> filter_buffer) result" where
  "swap_into a b = drop_status (fb_swap a b) (a, b)"

type_synonym stage_io = "filter_buffer \<times> filter_buffer \<times> filter_buffer \<times> filter_buffer"

definition stage_forward :: "filter_run \<Rightarrow> allocator \<Rightarrow> (nat \<Rightarrow> buffer) \<Rightarrow> stage_io \<Rightarrow> stage_io result" where
  "stage_forward f al gb io =
     (case io of (input_metadata, input_data, output_metadata, output_data) \<Rightarrow>
        bindR (drop_status (fb_clear output_data) output_data) (\<lambda>out1.
        bindR (drop_status (fb_clear output_metadata) output_metadata) (\<lambda>om1.
        bindR (f al gb (stage_input input_metadata) (stage_input input_data) om1 out1) (\<lambda>(im2, inp2, om2, out2).
        bindR (swap_into (fb_set_read_only False inp2) out2) (\<lambda>(inp3, out3).
        bindR (swap_into (fb_set_read_only False im2) om2) (\<lambda>(im3, om3).
          Inr (im3, inp3, om3, out3)))))))"

fun filters_forward :: "runs list \<Rightarrow> allocator \<Rightarrow> (nat \<Rightarrow> nat \<Rightarrow> buffer) \<Rightarrow> nat \<Rightarrow> stage_io \<Rightarrow> stage_io result" where
  "filters_forward [] al gbs k io = Inr io"
| "filters_forward (f # fs) al gbs k io =
     bindR (stage_forward (fst f) al (gbs k) io) (filters_forward fs al gbs (Suc k))"

text \<open>One chunk; the result is its metadata and its data, saved in \<open>final_stage_io\<close>.\<close>

definition filter_chunk_forward ::
  "runs list \<Rightarrow> allocator \<Rightarrow> (nat \<Rightarrow> nat \<Rightarrow> buffer) \<Rightarrow> chunked_buffer \<Rightarrow> nat \<Rightarrow> (filter_buffer \<times> filter_buffer) result" where
  "filter_chunk_forward fs al gbs input i =
     bindR (chk_internal_buffer i input) (\<lambda>chunk_buffer.
     bindR (chk_internal_buffer_size i input) (\<lambda>chunk_buffer_size.
     bindR (fb_init chunk_buffer chunk_buffer_size fb_new) (\<lambda>input_data.
     bindR (filters_forward fs al gbs 0 (fb_new, input_data, fb_new, fb_new)) (\<lambda>(im, inp, om, out).
     bindR (swap_into fb_new im) (\<lambda>(io_metadata, _).
     bindR (swap_into fb_new inp) (\<lambda>(io_data, _).
       Inr (io_metadata, io_data)))))))"

fun populated :: "chunked_buffer \<Rightarrow> nat list \<Rightarrow> nat result" where
  "populated cb [] = Inr 0"
| "populated cb (i # is) =
     bindR (chk_internal_buffer_size i cb) (\<lambda>n.
       if n = 0 then Inr 0 else bindR (populated cb is) (\<lambda>k. Inr (Suc k)))"

definition populated_nchunks :: "chunked_buffer \<Rightarrow> nat result" where
  "populated_nchunks cb =
     (if cbsize cb \<noteq> ccapacity cb then populated cb [0..<chk_nchunks cb] else Inr (chk_nchunks cb))"

fun mapR :: "('a \<Rightarrow> 'b result) \<Rightarrow> 'a list \<Rightarrow> 'b list result" where
  "mapR f [] = Inr []"
| "mapR f (x # xs) = bindR (f x) (\<lambda>y. bindR (mapR f xs) (\<lambda>ys. Inr (y # ys)))"

text \<open>The space for each chunk; \<open>space_required\<close> is a 32-bit number.\<close>

definition chunk_space :: "nat \<times> nat \<times> nat list \<Rightarrow> filter_buffer \<times> filter_buffer \<Rightarrow> (nat \<times> nat \<times> nat list) result" where
  "chunk_space s io =
     (case s of (total_processed_size, offset, offsets) \<Rightarrow> case io of (metadata, data) \<Rightarrow>
        if fb_size data > 2 ^ 32 - 1 \<or> fb_size metadata > 2 ^ 32 - 1
        then Inl (filter_error ''Filter error; filtered chunk size exceeds uint32_t'')
        else let space_required = u32 (3 * 4 + fb_size data + fb_size metadata) in
          Inr (add64 total_processed_size space_required, add64 offset space_required, offsets @ [offset]))"

definition put32 :: "byte list option \<Rightarrow> nat \<Rightarrow> nat \<Rightarrow> byte list option result" where
  "put32 dest off n = mem_write dest off (le_bytes 4 (of_nat n :: 32 word))"

definition write_chunk ::
  "chunked_buffer \<Rightarrow> byte list option \<Rightarrow> nat \<times> nat \<times> filter_buffer \<times> filter_buffer \<Rightarrow> byte list option result" where
  "write_chunk input dest x =
     (case x of (i, off, metadata, data) \<Rightarrow>
        bindR (chk_internal_buffer_size i input) (\<lambda>orig_chunk_size.
        bindR (put32 dest off orig_chunk_size) (\<lambda>d1.
        bindR (put32 d1 (off + 4) (u32 (fb_size data))) (\<lambda>d2.
        bindR (put32 d2 (off + 8) (u32 (fb_size metadata))) (\<lambda>d3.
        bindR (fb_copy_to d3 (off + 12) metadata) (\<lambda>d4.
          fb_copy_to d4 (off + 12 + u32 (fb_size metadata)) data))))))"

definition filter_chunks_forward ::
  "runs list \<Rightarrow> allocator \<Rightarrow> (nat \<Rightarrow> nat \<Rightarrow> nat \<Rightarrow> buffer) \<Rightarrow> chunked_buffer \<Rightarrow> buffer \<Rightarrow> buffer result" where
  "filter_chunks_forward fs al gbs input output =
     bindR (populated_nchunks input) (\<lambda>n.
     bindR (mapR (\<lambda>i. filter_chunk_forward fs al (gbs i) input i) [0..<n]) (\<lambda>final_stage_io.
     bindR (foldR chunk_space (0, 8, []) final_stage_io) (\<lambda>(total_processed_size, _, offsets).
     bindR (buffer_realloc al (add64 8 total_processed_size) output) (\<lambda>o1.
     bindR (buffer_write al (le_bytes 8 (of_nat n :: 64 word)) o1) (\<lambda>o2.
     bindR (foldR (write_chunk input) (bdata o2) (zip [0..<n] (zip offsets final_stage_io))) (\<lambda>d.
       buffer_advance_size total_processed_size (buffer_advance_offset total_processed_size (o2\<lparr>bdata := d\<rparr>))))))))"

text \<open>\<open>run_forward\<close> frees the chunks, or clears the filtered buffer when filtering fails.\<close>

definition pipeline_run_forward ::
  "runs list \<Rightarrow> allocator \<Rightarrow> (nat \<Rightarrow> nat \<Rightarrow> nat \<Rightarrow> buffer) \<Rightarrow> tile \<Rightarrow> tile result" where
  "pipeline_run_forward fs al gbs t =
     bindR (assert_unfiltered t) (\<lambda>_.
     with_chunked (\<lambda>cb.
       bindR (filter_chunks_forward fs al gbs cb (filtered_buffer t)) (\<lambda>out.
         Inr (t\<lparr>filtered_buffer := out, tchunked := Some (chk_free cb)\<rparr>))) t)"

section \<open>Unfiltering\<close>

text \<open>A chunk in the filtered buffer: the pointer to its metadata, its sizes, and whether to skip it.\<close>

record filtered_chunk =
  fc_metadata :: "byte list option"
  fc_filtered_size :: nat
  fc_orig_size :: nat
  fc_metadata_size :: nat
  fc_skip :: bool

text \<open>The memory of chunk \<open>i\<close> of the output, allocated now if the chunks are discrete.\<close>

definition output_chunk :: "allocator \<Rightarrow> nat \<Rightarrow> chunked_buffer \<Rightarrow> (chunked_buffer \<times> byte list option) result" where
  "output_chunk al i cb =
     (if addressing cb = DISCRETE
      then bindR (chk_alloc_discrete al i cb) (\<lambda>cb1. Inr (cb1, cchunks cb1 ! i))
      else bindR (chk_internal_buffer i cb) (\<lambda>p. Inr (cb, p)))"

text \<open>What the output holds after bytes have been written to the memory of chunk \<open>i\<close>.\<close>

definition chunk_written :: "nat \<Rightarrow> byte list \<Rightarrow> chunked_buffer \<Rightarrow> chunked_buffer result" where
  "chunk_written i bs cb =
     (if addressing cb = DISCRETE
      then Inr (cb\<lparr>cchunks := (cchunks cb)[i := map_option (\<lambda>d. overwrite d 0 bs) (cchunks cb ! i)]\<rparr>)
      else bindR (leading_capacity cb i) (\<lambda>off.
             Inr (cb\<lparr>cbase := map_option (\<lambda>d. overwrite d off bs) (cbase cb)\<rparr>)))"

text \<open>The filters from the last to the first; the first one writes to the memory of the chunk.\<close>

fun filters_reverse ::
  "runs list \<Rightarrow> allocator \<Rightarrow> (nat \<Rightarrow> nat \<Rightarrow> buffer) \<Rightarrow> nat \<Rightarrow> nat \<Rightarrow> nat \<Rightarrow> stage_io \<Rightarrow> chunked_buffer \<Rightarrow> chunked_buffer result" where
  "filters_reverse [] al gbs k i orig io cb = Inr cb"
| "filters_reverse (f # fs) al gbs k i orig (input_metadata, input_data, output_metadata, output_data) cb =
     bindR (drop_status (fb_clear output_data) output_data) (\<lambda>out1.
     bindR (drop_status (fb_clear output_metadata) output_metadata) (\<lambda>om1.
       if fs = []
       then bindR (output_chunk al i cb) (\<lambda>(cb1, p).
            bindR (fb_set_fixed_allocation p orig out1) (\<lambda>out2.
            bindR (snd f al (gbs k) (stage_input input_metadata) (stage_input input_data) om1 out2)
              (\<lambda>(im3, inp3, om3, out3). chunk_written i (fb_bytes out3) cb1)))
       else bindR (snd f al (gbs k) (stage_input input_metadata) (stage_input input_data) om1 out1)
              (\<lambda>(im3, inp3, om3, out3).
            bindR (swap_into (fb_set_read_only False inp3) out3) (\<lambda>(inp4, out4).
            bindR (swap_into (fb_set_read_only False im3) om3) (\<lambda>(im4, om4).
              filters_reverse fs al gbs (Suc k) i orig (im4, inp4, om4, out4) cb)))))"

definition filter_chunk_reverse ::
  "runs list \<Rightarrow> allocator \<Rightarrow> (nat \<Rightarrow> nat \<Rightarrow> nat \<Rightarrow> buffer) \<Rightarrow> bool \<Rightarrow> chunked_buffer \<Rightarrow> nat \<times> filtered_chunk \<Rightarrow> chunked_buffer result" where
  "filter_chunk_reverse fs al gbs unfiltering_all cb x =
     (case x of (i, c) \<Rightarrow>
        if fc_skip c then if unfiltering_all then Inl AssertFail else Inr cb
        else bindR (fb_init (fc_metadata c) (fc_metadata_size c) fb_new) (\<lambda>im.
             bindR (fb_init (map_option (drop (fc_metadata_size c)) (fc_metadata c)) (fc_filtered_size c) fb_new) (\<lambda>inp.
               if fs = []
               then bindR (output_chunk al i cb) (\<lambda>(cb1, p).
                    bindR (fb_copy_to p 0 inp) (\<lambda>d. chunk_written i (region d) cb1))
               else filters_reverse (rev fs) al (gbs i) 0 i (fc_orig_size c) (im, inp, fb_new, fb_new) cb)))"

text \<open>The size that all chunks have, or \<open>-1\<close>.\<close>

definition common_size :: "nat list \<Rightarrow> int" where
  "common_size sizes =
     snd (foldl (\<lambda>(i, chunk_size) s. (Suc i, if i = 0 then int s else if int s \<noteq> chunk_size then -1 else chunk_size))
            (0 :: nat, 0) sizes)"

definition filter_chunks_reverse ::
  "runs list \<Rightarrow> allocator \<Rightarrow> (nat \<Rightarrow> nat \<Rightarrow> nat \<Rightarrow> buffer) \<Rightarrow> filtered_chunk list \<Rightarrow> chunked_buffer \<Rightarrow> bool
   \<Rightarrow> chunked_buffer result" where
  "filter_chunks_reverse fs al gbs input output unfiltering_all =
     (let chunk_sizes = map fc_orig_size input; chunk_size = common_size chunk_sizes;
          total_size = fold add64 chunk_sizes 0;
          adr = (if unfiltering_all then CONTIGUOUS else DISCRETE) in
      bindR (if chunk_size = -1 then chk_init_var_size adr chunk_sizes output
             else chk_init_fixed_size adr total_size (nat chunk_size) output) (\<lambda>o1.
      bindR (if adr = CONTIGUOUS
             then case malloc al total_size of
                    None \<Rightarrow> Inl (filter_error ''malloc() failed'')
                  | Some d \<Rightarrow> drop_status (chk_set_contiguous (Some d) o1) o1
             else Inr o1) (\<lambda>o2.
      bindR (foldR (filter_chunk_reverse fs al gbs unfiltering_all) o2 (zip [0..<length input] input)) (\<lambda>o3.
        chk_set_size (ccapacity o3) o3))))"

text \<open>
  The pass over the filtered buffer. \<open>skip_fn\<close> is a function with a state of its own that decides
  which chunks to skip.
\<close>

definition read32 :: "buffer \<Rightarrow> (nat \<times> buffer) result" where
  "read32 b = bindR (buffer_read 4 b) (\<lambda>(bs, b'). Inr (unat (of_le bs :: 32 word), b'))"

definition read_chunk_info ::
  "(nat \<Rightarrow> 's \<Rightarrow> (bool \<times> 's) result) option \<Rightarrow> buffer \<times> 's \<times> bool \<times> filtered_chunk list \<Rightarrow> nat
   \<Rightarrow> (buffer \<times> 's \<times> bool \<times> filtered_chunk list) result" where
  "read_chunk_info skip_fn st i =
     (case st of (b, s, unfiltering_all, infos) \<Rightarrow>
        bindR (read32 b) (\<lambda>(orig_chunk_size, b1).
        bindR (read32 b1) (\<lambda>(filtered_chunk_size, b2).
        bindR (read32 b2) (\<lambda>(metadata_size, b3).
        bindR (case skip_fn of None \<Rightarrow> Inr (False, s) | Some f \<Rightarrow> f orig_chunk_size s) (\<lambda>(skip, s').
          Inr (buffer_advance_offset (u32 (metadata_size + filtered_chunk_size)) b3, s',
               unfiltering_all \<and> \<not> skip,
               infos @ [\<lparr>fc_metadata = buffer_cur_data b3, fc_filtered_size = filtered_chunk_size,
                         fc_orig_size = orig_chunk_size, fc_metadata_size = metadata_size, fc_skip = skip\<rparr>]))))))"

definition run_reverse_internal ::
  "runs list \<Rightarrow> allocator \<Rightarrow> (nat \<Rightarrow> nat \<Rightarrow> nat \<Rightarrow> buffer) \<Rightarrow> bool \<Rightarrow> (nat \<Rightarrow> 's \<Rightarrow> (bool \<times> 's) result) option \<Rightarrow> 's
   \<Rightarrow> tile \<Rightarrow> tile result" where
  "run_reverse_internal fs al gbs using_compression skip_fn s0 t =
     with_chunked (\<lambda>cb.
       if ccapacity cb \<noteq> 0 then Inl AssertFail
       else bindR (buffer_read 8 (buffer_reset_offset (filtered_buffer t))) (\<lambda>(bs, b).
         let num_chunks = unat (of_le bs :: 64 word) in
         bindR (foldR (read_chunk_info skip_fn) (b, s0, True, []) [0..<num_chunks])
           (\<lambda>(b', _, unfiltering_all, filtered_chunks).
         if boffset b' \<noteq> bsize b' then Inl AssertFail
         else bindR (filter_chunks_reverse fs al gbs filtered_chunks cb unfiltering_all) (\<lambda>cb'.
           let t' = t\<lparr>filtered_buffer := buffer_clear b', tchunked := Some cb'\<rparr> in
           if tile_stores_coords t' \<and> (tformat_version t' > 1 \<or> using_compression)
           then zip_coordinates al t' else Inr t')))) t"

section \<open>Skipping chunks\<close>

text \<open>The ranges that are left to look at, each a first cell and the cell after the last one.\<close>

fun skip_chunk_reversal_common :: "nat \<Rightarrow> nat \<Rightarrow> (nat \<times> nat) list \<Rightarrow> bool \<times> (nat \<times> nat) list" where
  "skip_chunk_reversal_common chunk_cell_start chunk_cell_end [] = (True, [])"
| "skip_chunk_reversal_common chunk_cell_start chunk_cell_end (r # rs) =
     (let cs_start = fst r; cs_end = sub64 (snd r) 1 in
      if chunk_cell_end < cs_start then (True, r # rs)
      else if chunk_cell_start \<le> cs_end then (False, r # rs)
      else skip_chunk_reversal_common chunk_cell_start chunk_cell_end rs)"

definition skip_chunk_reversal_fixed ::
  "bool \<Rightarrow> nat \<Rightarrow> nat \<Rightarrow> nat \<times> (nat \<times> nat) list \<Rightarrow> (bool \<times> nat \<times> (nat \<times> nat) list) result" where
  "skip_chunk_reversal_fixed no_filters csz chunk_length s =
     (case s of (cells_processed, rs) \<Rightarrow>
        if no_filters then Inr (False, s)
        else if csz = 0 then Inl UB
        else if chunk_length mod csz \<noteq> 0 \<or> chunk_length < csz then Inl AssertFail
        else let n = chunk_length div csz;
                 (skip, rs') = skip_chunk_reversal_common cells_processed (sub64 (add64 cells_processed n) 1) rs in
          Inr (skip, add64 cells_processed n, rs'))"

text \<open>The loop that counts the cells of a chunk of variable-sized values.\<close>

function count_cells :: "nat list \<Rightarrow> nat \<Rightarrow> nat \<Rightarrow> nat \<Rightarrow> nat \<Rightarrow> nat \<Rightarrow> (nat \<times> nat) result" where
  "count_cells d_off chunk_length cells_processed cells_size_processed total_cells total_cell_size =
     (if total_cell_size < chunk_length
      then let d_off_idx = cells_processed + 1 + total_cells in
           if d_off_idx = length d_off then Inr (total_cells + 1, chunk_length)
           else if d_off_idx > length d_off then Inl UB
           else count_cells d_off chunk_length cells_processed cells_size_processed (total_cells + 1)
                  (sub64 (d_off ! d_off_idx) cells_size_processed)
      else Inr (total_cells, total_cell_size))"
  by pat_completeness auto
termination by (relation "measure (\<lambda>(d, _, _, _, n, _). length d - n)") auto

definition skip_chunk_reversal_var ::
  "bool \<Rightarrow> nat list \<Rightarrow> nat \<Rightarrow> nat \<times> nat \<times> (nat \<times> nat) list \<Rightarrow> (bool \<times> nat \<times> nat \<times> (nat \<times> nat) list) result" where
  "skip_chunk_reversal_var no_filters d_off chunk_length s =
     (case s of (cells_processed, cells_size_processed, rs) \<Rightarrow>
        if no_filters then Inr (False, s)
        else if cells_processed = length d_off
        then let (skip, rs') = skip_chunk_reversal_common (sub64 cells_processed 1) (sub64 cells_processed 1) rs in
             Inr (skip, cells_processed, cells_size_processed, rs')
        else bindR (count_cells d_off chunk_length cells_processed cells_size_processed 0 0)
          (\<lambda>(total_cells, total_cell_size).
            let overflow = (total_cell_size > chunk_length);
                (skip, rs') = skip_chunk_reversal_common cells_processed
                                (sub64 (add64 cells_processed total_cells) 1) rs in
            Inr (skip, if overflow then sub64 (add64 cells_processed total_cells) 1 else add64 cells_processed total_cells,
                 add64 cells_size_processed chunk_length, rs')))"

definition pipeline_run_reverse ::
  "runs list \<Rightarrow> allocator \<Rightarrow> (nat \<Rightarrow> nat \<Rightarrow> nat \<Rightarrow> buffer) \<Rightarrow> bool \<Rightarrow> (nat \<times> nat) list option \<Rightarrow> tile \<Rightarrow> tile result" where
  "pipeline_run_reverse fs al gbs using_compression result_cell_slab_ranges t =
     bindR (tile_filtered t) (\<lambda>f. if \<not> f then Inl AssertFail else
       case result_cell_slab_ranges of
         None \<Rightarrow> run_reverse_internal fs al gbs using_compression None () t
       | Some rs \<Rightarrow>
           run_reverse_internal fs al gbs using_compression (Some (skip_chunk_reversal_fixed (fs = []) (cell_size t))) (0, rs) t)"

text \<open>
  The variable-sized values of a tile, whose offsets are in the unfiltered tile \<open>t\<close>. The pointer to
  the offsets gives \<open>tile->size() / sizeof(uint64_t)\<close> numbers.
\<close>

definition read_offsets :: "byte list option \<Rightarrow> nat \<Rightarrow> nat list result" where
  "read_offsets p n = bindR (mem_read p 0 (8 * n)) (\<lambda>bs.
     Inr (map (\<lambda>i. unat (of_le (slice bs (8 * i) 8) :: 64 word)) [0..<n]))"

definition pipeline_run_reverse_var ::
  "runs list \<Rightarrow> allocator \<Rightarrow> (nat \<Rightarrow> nat \<Rightarrow> nat \<Rightarrow> buffer) \<Rightarrow> bool \<Rightarrow> (nat \<times> nat) list option \<Rightarrow> tile \<Rightarrow> tile \<Rightarrow> tile result" where
  "pipeline_run_reverse_var fs al gbs using_compression result_cell_slab_ranges t tile_var =
     bindR (assert_unfiltered t) (\<lambda>_.
     bindR (tile_filtered tile_var) (\<lambda>f. if \<not> f then Inl AssertFail else
       case result_cell_slab_ranges of
         None \<Rightarrow> run_reverse_internal fs al gbs using_compression None () tile_var
       | Some rs \<Rightarrow>
           bindR (with_chunked chk_get_contiguous t) (\<lambda>tmp_buffer.
           bindR (tile_size t) (\<lambda>sz.
           bindR (mem_read tmp_buffer 0 8) (\<lambda>first.
             if (of_le first :: 64 word) \<noteq> 0 then Inl AssertFail
             else bindR (read_offsets tmp_buffer (sz div 8)) (\<lambda>d_off.
               run_reverse_internal fs al gbs using_compression
                 (Some (skip_chunk_reversal_var (fs = []) d_off)) (0, 0, rs) tile_var))))))"

section \<open>Stages\<close>

lemma fb_clear_new: "\<not> read_only fb \<Longrightarrow> fb_clear fb = Inr fb_new"
  by (simp add: fb_clear_def fb_new_def)

lemma fb_read_only_simps [simp]:
  "fbuffers (fb_set_read_only r fb) = fbuffers fb" "read_only (fb_set_read_only r fb) = r"
  "fb_bytes (fb_set_read_only r fb) = fb_bytes fb" "fb_bytes (fb\<lparr>current_buffer := c\<rparr>) = fb_bytes fb"
  by (simp_all add: fb_set_read_only_def fb_bytes_def)

lemma stage_input_start:
  assumes "bovs_ok (fbuffers fb)"
  shows "fb_start (stage_input fb)" and "fbuffers (stage_input fb) = fbuffers fb" and "fb_bytes (stage_input fb) = fb_bytes fb"
  using assms by (simp_all add: stage_input_def fb_set_read_only_def fb_reset_offset_def fb_start_def fb_bytes_def)

lemma swap_into_ok:
  assumes "\<not> read_only a" and "\<not> read_only b"
  shows "\<exists>c d. swap_into a b = Inr (b\<lparr>current_buffer := c\<rparr>, a\<lparr>current_buffer := d\<rparr>)"
  using assms by (auto simp: swap_into_def fb_swap_def)

text \<open>The buffers between two stages in the forward direction, after \<open>n\<close> filters.\<close>

definition io_ok :: "nat \<Rightarrow> stage_io \<Rightarrow> bool" where
  "io_ok n io \<longleftrightarrow> (case io of (im, inp, om, out) \<Rightarrow>
     bovs_ok (fbuffers im) \<and> list_all solid (fbuffers im) \<and> \<not> read_only im \<and> length (fb_bytes im) \<le> n * 2 ^ 28 \<and> length (fbuffers im) \<le> n
     \<and> data_done inp \<and> \<not> read_only om \<and> \<not> read_only out)"

definition io_bytes :: "stage_io \<Rightarrow> byte list \<times> byte list" where
  "io_bytes io = (fb_bytes (fst io), fb_bytes (fst (snd io)))"

text \<open>The buffers between two stages in the reverse direction, holding given metadata and data.\<close>

definition rio_ok :: "byte list \<times> byte list \<Rightarrow> stage_io \<Rightarrow> bool" where
  "rio_ok bs io \<longleftrightarrow> (case io of (im, inp, om, out) \<Rightarrow>
     flat (fst bs) im \<and> flat (snd bs) inp \<and> \<not> read_only om \<and> \<not> read_only out)"

lemma stage_forward_run:
  assumes "stage_forward f al gb (im, inp, om, out) = Inr io'" and "io_ok n (im, inp, om, out)"
    and "chunk_filter f r" and "small_blocks al" and "small_pool gb" and "n < 14"
  shows "\<exists>im2 inp2 om2 out2. f al gb (stage_input im) (stage_input inp) fb_new fb_new = Inr (im2, inp2, om2, out2)
      \<and> md_ok (stage_input im) \<and> data_ok (stage_input inp) \<and> io_ok (Suc n) io' \<and> io_bytes io' = (fb_bytes om2, fb_bytes out2)"
proof -
  have io: "bovs_ok (fbuffers im)" "list_all solid (fbuffers im)" "\<not> read_only im" "length (fb_bytes im) \<le> n * 2 ^ 28"
    "data_done inp" "\<not> read_only om" "\<not> read_only out" "length (fbuffers im) \<le> n" using assms(2) by (simp_all add: io_ok_def)
  have inp: "bovs_ok (fbuffers inp)" "length (fb_bytes inp) < 2 ^ 28" "list_all solid (fbuffers inp)" "fb_bytes inp \<noteq> []"
    "length (fbuffers inp) < 2 ^ 20" using io(5) by (simp_all add: data_done_def)
  have ok: "md_ok (stage_input im)" "data_ok (stage_input inp)"
    using stage_input_start [OF io(1)] stage_input_start [OF inp(1)] io(2,4,8) inp(2-5) assms(6)
    by (simp_all add: md_ok_def data_ok_def)
  from assms(1) obtain im2 inp2 om2 out2 where
    run: "f al gb (stage_input im) (stage_input inp) fb_new fb_new = Inr (im2, inp2, om2, out2)"
    and sw: "bindR (swap_into (fb_set_read_only False inp2) out2) (\<lambda>(inp3, out3).
        bindR (swap_into (fb_set_read_only False im2) om2) (\<lambda>(im3, om3). Inr (im3, inp3, om3, out3))) = Inr io'"
    using io(6,7) by (auto simp: stage_forward_def fb_clear_new bindR_Inr)
  note fw = chunk_filter.forward [OF assms(3) run assms(4,5) ok]
  then have ro: "\<not> read_only om2" "\<not> read_only out2" by (simp_all add: md_done_def data_done_def)
  from swap_into_ok [of "fb_set_read_only False inp2" out2] ro obtain c d where
    s1: "swap_into (fb_set_read_only False inp2) out2 = Inr (out2\<lparr>current_buffer := c\<rparr>, fb_set_read_only False inp2\<lparr>current_buffer := d\<rparr>)"
    by auto
  from swap_into_ok [of "fb_set_read_only False im2" om2] ro obtain c' d' where
    s2: "swap_into (fb_set_read_only False im2) om2 = Inr (om2\<lparr>current_buffer := c'\<rparr>, fb_set_read_only False im2\<lparr>current_buffer := d'\<rparr>)"
    by auto
  have io': "io' = (om2\<lparr>current_buffer := c'\<rparr>, out2\<lparr>current_buffer := c\<rparr>, fb_set_read_only False im2\<lparr>current_buffer := d'\<rparr>,
                    fb_set_read_only False inp2\<lparr>current_buffer := d\<rparr>)"
    using sw s1 s2 by simp
  have "length (fb_bytes om2) \<le> Suc n * 2 ^ 28" "length (fbuffers om2) \<le> Suc n"
    using fw io(4,8) stage_input_start(2,3) [OF io(1)] by (simp_all add: md_done_def)
  then have "io_ok (Suc n) io'" using fw by (simp add: io_ok_def io' md_done_def data_done_def)
  moreover have "io_bytes io' = (fb_bytes om2, fb_bytes out2)" by (simp add: io' io_bytes_def)
  ultimately show ?thesis using run ok by blast
qed

text \<open>Undoing one stage.\<close>

lemma stage_undo:
  assumes "stage_forward f al gb io = Inr io'" and "io_ok n io" and "chunk_filter f r" and "small_blocks al"
    and "small_pool gb" and "n < 14" and "rio_ok (io_bytes io') (im, inp, om, out)"
    and "fb_target (length (snd (io_bytes io))) tgt" and "alloc_total al'" and "small_pool gb'"
  shows "\<exists>im2 inp2 om2 out2. r al' gb' (stage_input im) (stage_input inp) fb_new tgt = Inr (im2, inp2, om2, out2)
           \<and> flat (fst (io_bytes io)) om2 \<and> \<not> read_only om2 \<and> flat (snd (io_bytes io)) out2 \<and> \<not> read_only out2"
proof -
  obtain im0 inp0 om0 out0 where io: "io = (im0, inp0, om0, out0)" by (cases io)
  from stage_forward_run [OF assms(1) [unfolded io] assms(2) [unfolded io] assms(3-6)] obtain im2 inp2 om2 out2 where
    run: "f al gb (stage_input im0) (stage_input inp0) fb_new fb_new = Inr (im2, inp2, om2, out2)"
    and ok: "md_ok (stage_input im0)" "data_ok (stage_input inp0)" and bytes: "io_bytes io' = (fb_bytes om2, fb_bytes out2)"
    by blast
  have b: "bovs_ok (fbuffers im0)" "bovs_ok (fbuffers inp0)" using assms(2) by (simp_all add: io io_ok_def data_done_def)
  have bs: "fb_bytes (stage_input im0) = fst (io_bytes io)" "fb_bytes (stage_input inp0) = snd (io_bytes io)"
    using stage_input_start(3) [OF b(1)] stage_input_start(3) [OF b(2)] by (simp_all add: io io_bytes_def)
  have fl: "flat (fb_bytes om2) im" "flat (fb_bytes out2) inp" using assms(7) bytes by (simp_all add: rio_ok_def)
  then have ok2: "bovs_ok (fbuffers im)" "bovs_ok (fbuffers inp)" by (simp_all add: flat_def)
  have "flat (fb_bytes om2) (stage_input im)" "flat (fb_bytes out2) (stage_input inp)"
    using fl stage_input_start [OF ok2(1)] stage_input_start [OF ok2(2)] by (simp_all add: flat_def)
  from chunk_filter.undo [OF assms(3) run assms(4,5) ok this(1) stage_input_start(1) [OF ok2(1)] this(2)
      stage_input_start(1) [OF ok2(2)] _ assms(9,10), unfolded bs, OF assms(8)] show ?thesis by blast
qed

section \<open>A chunk through all filters\<close>

abbreviation all_filters :: "runs list \<Rightarrow> bool" where
  "all_filters fs \<equiv> list_all (\<lambda>f. chunk_filter (fst f) (snd f)) fs"

abbreviation small_pools :: "(nat \<Rightarrow> nat \<Rightarrow> buffer) \<Rightarrow> bool" where
  "small_pools gbs \<equiv> \<forall>k. small_pool (gbs k)"

lemma io_tupleE: obtains im inp om out where "(io :: stage_io) = (im, inp, om, out)"
  by (cases io)

lemma filters_forward_ok:
  assumes "filters_forward fs al gbs k io = Inr io'" and "io_ok n io" and "all_filters fs"
    and "small_blocks al" and "small_pools gbs" and "n + length fs \<le> 14"
  shows "io_ok (n + length fs) io'"
  using assms
proof (induction fs arbitrary: k io n)
  case (Cons f fs)
  obtain im inp om out where io: "io = (im, inp, om, out)" by (rule io_tupleE)
  from Cons.prems(1) obtain io1 where io1: "stage_forward (fst f) al (gbs k) (im, inp, om, out) = Inr io1"
    "filters_forward fs al gbs (Suc k) io1 = Inr io'" by (auto simp: bindR_Inr io)
  have n: "n < 14" "Suc n + length fs \<le> 14" using Cons.prems(6) by simp_all
  have f: "chunk_filter (fst f) (snd f)" "small_pool (gbs k)" using Cons.prems(3,5) by simp_all
  have "io_ok (Suc n) io1"
    using stage_forward_run [OF io1(1) Cons.prems(2) [unfolded io] f(1) Cons.prems(4) f(2) n(1)] by blast
  from Cons.IH [OF io1(2) this _ Cons.prems(4,5) n(2)] Cons.prems(3) show ?case by (simp add: add.assoc)
qed simp

lemma filters_reverse_step:
  assumes "fs \<noteq> []" and "\<not> read_only om" and "\<not> read_only out"
    and "snd f al (gbs k) (stage_input im) (stage_input inp) fb_new fb_new = Inr (im2, inp2, om2, out2)"
    and "\<not> read_only om2" and "\<not> read_only out2" and "flat M om2" and "flat D out2"
  shows "\<exists>io. rio_ok (M, D) io \<and>
           filters_reverse (f # fs) al gbs k i orig (im, inp, om, out) cb = filters_reverse fs al gbs (Suc k) i orig io cb"
proof -
  from swap_into_ok [of "fb_set_read_only False inp2" out2] assms(6) obtain c d where
    s1: "swap_into (fb_set_read_only False inp2) out2 = Inr (out2\<lparr>current_buffer := c\<rparr>, fb_set_read_only False inp2\<lparr>current_buffer := d\<rparr>)"
    by auto
  from swap_into_ok [of "fb_set_read_only False im2" om2] assms(5) obtain c' d' where
    s2: "swap_into (fb_set_read_only False im2) om2 = Inr (om2\<lparr>current_buffer := c'\<rparr>, fb_set_read_only False im2\<lparr>current_buffer := d'\<rparr>)"
    by auto
  let ?io = "(om2\<lparr>current_buffer := c'\<rparr>, out2\<lparr>current_buffer := c\<rparr>, fb_set_read_only False im2\<lparr>current_buffer := d'\<rparr>,
              fb_set_read_only False inp2\<lparr>current_buffer := d\<rparr>)"
  have "rio_ok (M, D) ?io" using assms(7,8) by (simp add: rio_ok_def flat_def)
  moreover have "filters_reverse (f # fs) al gbs k i orig (im, inp, om, out) cb = filters_reverse fs al gbs (Suc k) i orig ?io cb"
    using assms(1-4) s1 s2 by (simp add: fb_clear_new)
  ultimately show ?thesis by blast
qed

text \<open>The filters that are not the first one, undone.\<close>

lemma filters_undo:
  assumes "filters_forward fs al gbs k io = Inr io'" and "io_ok n io" and "all_filters fs"
    and "small_blocks al" and "small_pools gbs" and "n + length fs \<le> 14"
    and "rio_ok (io_bytes io') rio" and "alloc_total al'" and "small_pools gbs'" and "rest \<noteq> []"
  shows "\<exists>rio'. rio_ok (io_bytes io) rio' \<and>
           filters_reverse (rev fs @ rest) al' gbs' k' i orig rio cb = filters_reverse rest al' gbs' (k' + length fs) i orig rio' cb"
  using assms
proof (induction fs arbitrary: k io n rest)
  case Nil
  then show ?case by (intro exI [of _ rio]) simp
next
  case (Cons f fs)
  obtain im inp om out where io: "io = (im, inp, om, out)" by (rule io_tupleE)
  from Cons.prems(1) obtain io1 where io1: "stage_forward (fst f) al (gbs k) io = Inr io1"
    "filters_forward fs al gbs (Suc k) io1 = Inr io'" by (auto simp: bindR_Inr)
  have n: "n < 14" "Suc n + length fs \<le> 14" using Cons.prems(6) by simp_all
  have f: "chunk_filter (fst f) (snd f)" "small_pool (gbs k)" "all_filters fs" using Cons.prems(3,5) by simp_all
  have ok1: "io_ok (Suc n) io1"
    using stage_forward_run [OF io1(1) [unfolded io] Cons.prems(2) [unfolded io] f(1) Cons.prems(4) f(2) n(1)] by blast
  have "f # rest \<noteq> []" by simp
  from Cons.IH [OF io1(2) ok1 f(3) Cons.prems(4,5) n(2) Cons.prems(7-9) this] obtain rio1 where
    rio1: "rio_ok (io_bytes io1) rio1"
      "filters_reverse (rev fs @ f # rest) al' gbs' k' i orig rio cb = filters_reverse (f # rest) al' gbs' (k' + length fs) i orig rio1 cb"
    by blast
  obtain im1 inp1 om1 out1 where r: "rio1 = (im1, inp1, om1, out1)" by (rule io_tupleE)
  have ro: "\<not> read_only om1" "\<not> read_only out1" using rio1(1) r by (simp_all add: rio_ok_def)
  have gb: "small_pool (gbs' (k' + length fs))" and tgt: "fb_target (length (snd (io_bytes io))) fb_new"
    using Cons.prems(9) by (simp_all add: fb_target_def)
  from stage_undo [OF io1(1) Cons.prems(2) f(1) Cons.prems(4) f(2) n(1) rio1(1) [unfolded r] tgt Cons.prems(8) gb]
  obtain im2 inp2 om2 out2 where
    "snd f al' (gbs' (k' + length fs)) (stage_input im1) (stage_input inp1) fb_new fb_new = Inr (im2, inp2, om2, out2)"
    "flat (fst (io_bytes io)) om2" "\<not> read_only om2" "flat (snd (io_bytes io)) out2" "\<not> read_only out2" by blast
  from filters_reverse_step [where gbs = gbs' and k = "k' + length fs", OF Cons.prems(10) ro this(1,3,5,2,4), of i orig cb]
    rio1(2) r show ?case by simp
qed

lemma filters_undo_all:
  assumes "filters_forward fs al gbs k io = Inr io'" and "io_ok n io" and "all_filters fs"
    and "small_blocks al" and "small_pools gbs" and "n + length fs \<le> 14"
    and "rio_ok (io_bytes io') rio" and "alloc_total al'" and "small_pools gbs'" and "fs \<noteq> []"
    and "output_chunk al' i cb = Inr (cb1, Some d)" and "orig = length (snd (io_bytes io))" and "orig \<le> length d" and "length d < 2 ^ 63"
  shows "filters_reverse (rev fs) al' gbs' k' i orig rio cb = chunk_written i (snd (io_bytes io)) cb1"
proof -
  obtain f fs' where fs: "fs = f # fs'" using assms(10) by (cases fs) auto
  obtain im inp om out where io: "io = (im, inp, om, out)" by (rule io_tupleE)
  from assms(1) obtain io1 where io1: "stage_forward (fst f) al (gbs k) io = Inr io1"
    "filters_forward fs' al gbs (Suc k) io1 = Inr io'" by (auto simp: bindR_Inr fs)
  have n: "n < 14" "Suc n + length fs' \<le> 14" using assms(6) by (simp_all add: fs)
  have f: "chunk_filter (fst f) (snd f)" "small_pool (gbs k)" "all_filters fs'" using assms(3,5) by (simp_all add: fs)
  have ok1: "io_ok (Suc n) io1"
    using stage_forward_run [OF io1(1) [unfolded io] assms(2) [unfolded io] f(1) assms(4) f(2) n(1)] by blast
  from filters_undo [OF io1(2) ok1 f(3) assms(4,5) n(2) assms(7-9), of "[f]" k' i orig cb] obtain rio1 where
    rio1: "rio_ok (io_bytes io1) rio1"
      "filters_reverse (rev fs) al' gbs' k' i orig rio cb = filters_reverse [f] al' gbs' (k' + length fs') i orig rio1 cb"
    by (auto simp: fs)
  obtain im1 inp1 om1 out1 where r: "rio1 = (im1, inp1, om1, out1)" by (rule io_tupleE)
  have ro: "\<not> read_only om1" "\<not> read_only out1" using rio1(1) r by (simp_all add: rio_ok_def)
  define tgt where "tgt = fb_new\<lparr>fbuffers := [bov_new (buffer_wrap (Some d) orig)], fixed_allocation := True, fixed_allocation_op_allowed := True\<rparr>"
  have fix_: "fb_set_fixed_allocation (Some d) orig fb_new = Inr tgt"
    by (simp add: fb_set_fixed_allocation_def fb_init_def fb_new_def tgt_def)
  have gb: "small_pool (gbs' (k' + length fs'))" and tgt: "fb_target (length (snd (io_bytes io))) tgt"
    using assms(9,12-14) by (auto simp: fb_target_def tgt_def)
  from stage_undo [OF io1(1) assms(2) f(1) assms(4) f(2) n(1) rio1(1) [unfolded r] tgt assms(8) gb]
  obtain im2 inp2 om2 out2 where
    run: "snd f al' (gbs' (k' + length fs')) (stage_input im1) (stage_input inp1) fb_new tgt = Inr (im2, inp2, om2, out2)"
    "flat (snd (io_bytes io)) out2" by blast
  then have "fb_bytes out2 = snd (io_bytes io)" by (simp add: flat_def)
  then show ?thesis using rio1(2) r ro run(1) assms(11) fix_ by (simp add: fb_clear_new)
qed

end
