(* ===== verification/Pipeline_Round_Trip.thy ===== *)
theory Pipeline_Round_Trip
  imports Filter_Pipeline
begin

text \<open>
  A tile that has been filtered by a pipeline is restored by the same pipeline: the chunks of the
  input, the format of the filtered buffer, and the chunks of the output.
\<close>

section \<open>The chunks of the input\<close>

abbreviation chunk_start :: "chunked_buffer \<Rightarrow> nat \<Rightarrow> nat" where
  "chunk_start cb i \<equiv> sum_list (take i (chunk_caps cb))"

definition chunk_fill :: "chunked_buffer \<Rightarrow> nat \<Rightarrow> nat" where
  "chunk_fill cb i = min (chunk_caps cb ! i) (cbsize cb - chunk_start cb i)"

definition chunk_data :: "chunked_buffer \<Rightarrow> nat \<Rightarrow> byte list" where
  "chunk_data cb i = slice (chk_bytes cb) (chunk_start cb i) (chunk_fill cb i)"

lemma chunk_start_Suc: "i < length (chunk_caps cb) \<Longrightarrow> chunk_start cb (Suc i) = chunk_start cb i + chunk_caps cb ! i"
  by (simp add: take_Suc_conv_app_nth)

lemma internal_buffer_size_fill:
  assumes "chk_inv cb" and "i < length (cchunks cb)"
  shows "chk_internal_buffer_size i cb = Inr (chunk_fill cb i)"
proof -
  have len: "length (chunk_caps cb) = length (cchunks cb)" and cap: "chunk_caps cb ! i < 2 ^ 32"
    and total: "sum_list (chunk_caps cb) < 2 ^ 63"
    using assms by (simp_all add: chk_inv_def list_all_length)
  have "chunk_start cb (Suc i) \<le> sum_list (chunk_caps cb)" by (rule sum_take_le)
  then have "chunk_start cb i + chunk_caps cb ! i < 2 ^ 64"
    using chunk_start_Suc [of i cb] assms(2) len total by simp
  then have "get_chunk_size cb i = Inr (chunk_fill cb i)"
    using assms(2) get_chunk_capacity_caps [OF assms] leading_capacity_caps [OF assms(1), of i] cap
    by (auto simp: get_chunk_size_def chunk_fill_def add64_exact u32_exact sub64_exact)
  then show ?thesis using assms(2) by (simp add: chk_internal_buffer_size_def)
qed

lemma padded_chunk:
  assumes "list_all2 chunk_fits chs cs" and "filled m chs cs" and "i < length cs" and "sum_list (take i cs) < m"
  shows "\<exists>d. chs ! i = Some d \<and> length d = cs ! i \<and> (\<forall>k \<le> cs ! i. slice (padded chs cs) (sum_list (take i cs)) k = take k d)"
proof -
  have len: "length chs = length cs" using assms(1) by (rule list_all2_lengthD)
  have sp: "chs = take i chs @ chs ! i # drop (Suc i) chs" "cs = take i cs @ cs ! i # drop (Suc i) cs"
    using assms(3) len by (simp_all add: id_take_nth_drop)
  have lt: "length (take i chs) = length (take i cs)" using len by simp
  have p: "padded chs cs = padded (take i chs) (take i cs) @ padded (chs ! i # drop (Suc i) chs) (cs ! i # drop (Suc i) cs)"
    using padded_append [OF lt] sp by metis
  have "filled m (take i chs @ chs ! i # drop (Suc i) chs) (take i cs @ cs ! i # drop (Suc i) cs)"
    using assms(2) sp by simp
  then have "chs ! i \<noteq> None" using filled_append [OF lt] assms(4) by simp
  then obtain d where d: "chs ! i = Some d" by blast
  have ld: "length d = cs ! i" using list_all2_nthD2 [OF assms(1,3)] d by (simp add: chunk_fits_def)
  have "length (padded (take i chs) (take i cs)) = sum_list (take i cs)"
    by (rule length_padded [OF list_all2_takeI [OF assms(1)]])
  then have "slice (padded chs cs) (sum_list (take i cs)) k = take k d" if "k \<le> cs ! i" for k
    using that d ld by (simp add: p slice_def)
  then show ?thesis using d ld by blast
qed

lemma internal_buffer_data:
  assumes "chk_inv cb" and "chk_filled cb" and "i < length (cchunks cb)" and "chunk_start cb i < cbsize cb"
  shows "\<exists>d. chk_internal_buffer i cb = Inr (Some d) \<and> chunk_fill cb i \<le> length d \<and> take (chunk_fill cb i) d = chunk_data cb i"
proof -
  have len: "length (chunk_caps cb) = length (cchunks cb)" using assms(1) by (simp add: chk_inv_def)
  have fits: "chunk_start cb i + chunk_fill cb i \<le> cbsize cb" using assms(4) by (simp add: chunk_fill_def)
  have cd: "chunk_data cb i = slice (chk_memory cb) (chunk_start cb i) (chunk_fill cb i)"
    using fits by (simp add: chunk_data_def chk_bytes_def slice_take)
  show ?thesis
  proof (cases "addressing cb")
    case CONTIGUOUS
    then obtain d where d: "cbase cb = Some d" "ccapacity cb \<le> length d"
      using assms(1,2,4) by (auto simp: chk_filled_def chk_inv_def)
    have "cbsize cb \<le> ccapacity cb" using assms(1) by (simp add: chk_inv_def)
    then show ?thesis using d CONTIGUOUS assms(3) fits cd leading_capacity_caps [OF assms(1), of i]
      by (simp add: chk_internal_buffer_def chk_memory_def slice_def)
  next
    case DISCRETE
    then have "list_all2 chunk_fits (cchunks cb) (chunk_caps cb)" "filled (cbsize cb) (cchunks cb) (chunk_caps cb)"
      using assms(1,2) by (simp_all add: chk_inv_def chk_filled_def)
    from padded_chunk [OF this _ assms(4)] assms(3) len obtain d where
      d: "cchunks cb ! i = Some d" "length d = chunk_caps cb ! i"
        "\<forall>k \<le> chunk_caps cb ! i. slice (padded (cchunks cb) (chunk_caps cb)) (chunk_start cb i) k = take k d" by auto
    have "chunk_fill cb i \<le> chunk_caps cb ! i" by (simp add: chunk_fill_def)
    then show ?thesis using d DISCRETE assms(3) cd by (simp add: chk_internal_buffer_def chk_memory_def)
  qed
qed

lemma populated_spec:
  assumes "chk_inv cb" and "k \<le> length (cchunks cb)"
  shows "\<exists>m. populated cb [k..<length (cchunks cb)] = Inr m \<and> k + m \<le> length (cchunks cb)
           \<and> (\<forall>i. k \<le> i \<longrightarrow> i < k + m \<longrightarrow> chunk_start cb i < cbsize cb)
           \<and> (k + m = length (cchunks cb) \<or> cbsize cb \<le> chunk_start cb (k + m))"
  using assms(2)
proof (induction "length (cchunks cb) - k" arbitrary: k)
  case 0
  then show ?case by simp
next
  case (Suc x)
  let ?n = "length (cchunks cb)"
  have k: "k < ?n" using Suc.hyps(2) by simp
  then have upt: "[k..<?n] = k # [Suc k..<?n]" by (rule upt_conv_Cons)
  have sz: "chk_internal_buffer_size k cb = Inr (chunk_fill cb k)" by (rule internal_buffer_size_fill [OF assms(1) k])
  have "chunk_caps cb ! k \<in> set (chunk_caps cb)" using k assms(1) by (simp add: chk_inv_def)
  then have pos: "0 < chunk_caps cb ! k" using assms(1) by (metis chk_inv_def neq0_conv)
  show ?case
  proof (cases "chunk_start cb k < cbsize cb")
    case True
    then have fill: "chunk_fill cb k \<noteq> 0" using pos by (simp add: chunk_fill_def)
    have "x = ?n - Suc k" "Suc k \<le> ?n" using Suc.hyps(2) k by simp_all
    from Suc.hyps(1) [OF this] obtain m where m: "populated cb [Suc k..<?n] = Inr m" "Suc k + m \<le> ?n"
      "\<forall>i. Suc k \<le> i \<longrightarrow> i < Suc k + m \<longrightarrow> chunk_start cb i < cbsize cb"
      "Suc k + m = ?n \<or> cbsize cb \<le> chunk_start cb (Suc k + m)" by blast
    have "chunk_start cb i < cbsize cb" if "k \<le> i" "i < k + Suc m" for i
      using that True m(3) by (cases "i = k") auto
    then show ?thesis using m fill sz upt by (intro exI [of _ "Suc m"]) simp
  next
    case False
    then have "chunk_fill cb k = 0" by (simp add: chunk_fill_def)
    then show ?thesis using False sz upt k by (intro exI [of _ 0]) simp
  qed
qed

lemma chunk_data_concat:
  assumes "chk_inv cb" and "m \<le> length (cchunks cb)"
  shows "concat (map (chunk_data cb) [0..<m]) = take (chunk_start cb m) (chk_bytes cb)"
  using assms(2)
proof (induction m)
  case (Suc m)
  have len: "length (chunk_caps cb) = length (cchunks cb)" using assms(1) by (simp add: chk_inv_def)
  have "chunk_data cb m = take (chunk_caps cb ! m) (drop (chunk_start cb m) (chk_bytes cb))"
    by (auto simp: chunk_data_def chunk_fill_def slice_def chk_bytes_def drop_take min_def)
  then show ?case using Suc chunk_start_Suc [of m cb] len by (simp add: take_add)
qed simp

lemma populated_nchunks_spec:
  assumes "chk_inv cb"
  shows "\<exists>m. populated_nchunks cb = Inr m \<and> m \<le> length (cchunks cb) \<and> (\<forall>i < m. chunk_start cb i < cbsize cb)
           \<and> concat (map (chunk_data cb) [0..<m]) = chk_bytes cb"
proof -
  let ?n = "length (cchunks cb)"
  have len: "length (chunk_caps cb) = ?n" and cap: "ccapacity cb = sum_list (chunk_caps cb)" "cbsize cb \<le> ccapacity cb"
    using assms by (simp_all add: chk_inv_def)
  obtain m where m: "populated_nchunks cb = Inr m" "m \<le> ?n" "\<forall>i < m. chunk_start cb i < cbsize cb"
    "m = ?n \<or> cbsize cb \<le> chunk_start cb m"
  proof (cases "cbsize cb = ccapacity cb")
    case False
    then show thesis using that populated_spec [OF assms, of 0] by (auto simp: populated_nchunks_def chk_nchunks_def)
  next
    case True
    have "chunk_start cb i < cbsize cb" if "i < ?n" for i
    proof -
      have "chunk_caps cb ! i \<in> set (chunk_caps cb)" using that len by simp
      then have "0 < chunk_caps cb ! i" using assms by (metis chk_inv_def neq0_conv)
      then have "chunk_start cb i < chunk_start cb (Suc i)" using chunk_start_Suc [of i cb] that len by simp
      also have "\<dots> \<le> ccapacity cb" unfolding cap by (rule sum_take_le)
      finally show ?thesis using True by simp
    qed
    then show thesis using that [of ?n] True by (simp add: populated_nchunks_def chk_nchunks_def)
  qed
  have "cbsize cb \<le> chunk_start cb m" using m(4) cap len by auto
  then show ?thesis using m chunk_data_concat [OF assms m(2)] by (auto simp: chk_bytes_def)
qed

section \<open>Filtering one chunk\<close>

text \<open>A chunked buffer to filter: fewer than \<open>2\<^sup>31\<close> chunks, each below 256 MiB, and a contiguous
  block below \<open>2\<^sup>63\<close> bytes.\<close>

definition chunk_source :: "chunked_buffer \<Rightarrow> bool" where
  "chunk_source cb \<longleftrightarrow> chk_inv cb \<and> chk_filled cb \<and> cap (cbase cb) < 2 ^ 63 \<and> length (cchunks cb) < 2 ^ 31
     \<and> list_all (\<lambda>c. c < 2 ^ 28) (chunk_caps cb)"

lemma internal_buffer_bound:
  assumes "chk_inv cb" and "cap (cbase cb) < 2 ^ 63" and "chk_internal_buffer i cb = Inr (Some d)"
  shows "length d < 2 ^ 63"
proof (cases "addressing cb")
  case CONTIGUOUS
  then obtain off d0 where "cbase cb = Some d0" "d = drop off d0"
    using assms(3) by (auto simp: chk_internal_buffer_def bindR_Inr split: if_splits)
  then show ?thesis using assms(2) by simp
next
  case DISCRETE
  then have i: "i < length (cchunks cb)" "cchunks cb ! i = Some d"
    using assms(3) by (auto simp: chk_internal_buffer_def split: if_splits)
  then have "chunk_fits (Some d) (chunk_caps cb ! i)" "chunk_caps cb ! i < 2 ^ 32"
    using assms(1) DISCRETE list_all2_nthD [of chunk_fits "cchunks cb" "chunk_caps cb" i]
    by (auto simp: chk_inv_def list_all_length)
  then show ?thesis by (simp add: chunk_fits_def)
qed

text \<open>The buffers before the first filter.\<close>

abbreviation chunk_io :: "filter_buffer \<Rightarrow> stage_io" where
  "chunk_io inp \<equiv> (fb_new, inp, fb_new, fb_new)"

lemma wrap_bytes:
  assumes "n \<le> length d" and "length d < 2 ^ 63" and "fb = fb_new\<lparr>fbuffers := [bov_new (buffer_wrap (Some d) n)]\<rparr>"
  shows "bovs_ok (fbuffers fb)" and "fb_bytes fb = take n d" and "\<not> read_only fb"
  using assms by (simp_all add: bov_new_def buffer_wrap_def buffer_inv_def fb_bytes_def buffer_bytes_def fb_new_def)

lemma fb_init_new: "fb_init (Some d) n fb_new = Inr (fb_new\<lparr>fbuffers := [bov_new (buffer_wrap (Some d) n)]\<rparr>)"
  by (simp add: fb_init_def fb_new_def)

lemma filter_chunk_forward_spec:
  assumes "filter_chunk_forward fs al gbs cb i = Inr (md, data)" and "chunk_source cb" and "i < length (cchunks cb)"
    and "chunk_start cb i < cbsize cb" and "all_filters fs" and "small_blocks al" and "small_pools gbs" and "length fs \<le> 14"
  shows "\<exists>inp io. filters_forward fs al gbs 0 (chunk_io inp) = Inr io \<and> io_ok 0 (chunk_io inp)
      \<and> io_bytes (chunk_io inp) = ([], chunk_data cb i) \<and> io_bytes io = (fb_bytes md, fb_bytes data)
      \<and> bovs_ok (fbuffers md) \<and> bovs_ok (fbuffers data) \<and> length (fb_bytes md) \<le> 14 * 2 ^ 28 \<and> length (fb_bytes data) < 2 ^ 28"
proof -
  have "length (chunk_caps cb) = length (cchunks cb)" using assms(2) by (simp add: chunk_source_def chk_inv_def)
  then have src: "chk_inv cb" "chk_filled cb" "cap (cbase cb) < 2 ^ 63" "chunk_caps cb ! i < 2 ^ 28"
    using assms(2,3) by (simp_all add: chunk_source_def list_all_length)
  obtain d where d: "chk_internal_buffer i cb = Inr (Some d)" "chunk_fill cb i \<le> length d"
    "take (chunk_fill cb i) d = chunk_data cb i" using internal_buffer_data [OF src(1,2) assms(3,4)] by blast
  define inp where "inp = fb_new\<lparr>fbuffers := [bov_new (buffer_wrap (Some d) (chunk_fill cb i))]\<rparr>"
  note w = wrap_bytes [OF d(2) internal_buffer_bound [OF src(1,3) d(1)] inp_def]
  have "chunk_caps cb ! i \<in> set (chunk_caps cb)" using assms(3) \<open>length (chunk_caps cb) = length (cchunks cb)\<close> by simp
  then have "chunk_caps cb ! i \<noteq> 0" using src(1) by (metis chk_inv_def)
  then have fill: "0 < chunk_fill cb i" "chunk_fill cb i < 2 ^ 28" using src(4) assms(4) by (simp_all add: chunk_fill_def)
  then have "length (fb_bytes inp) < 2 ^ 28" "fb_bytes inp \<noteq> []" using w(2) d(2) by auto
  moreover have "list_all solid (fbuffers inp)"
    using w(1) fill(1) by (simp add: inp_def solid_def bov_new_def buffer_wrap_def)
  moreover have "length (fbuffers inp) < 2 ^ 20" by (simp add: inp_def)
  ultimately have ok: "io_ok 0 (chunk_io inp)" using w by (simp add: io_ok_def data_done_def fb_new_def fb_bytes_def)
  have b: "io_bytes (chunk_io inp) = ([], chunk_data cb i)"
    using w(2) d(3) by (simp add: io_bytes_def fb_bytes_def fb_new_def)
  from assms(1) d(1) internal_buffer_size_fill [OF src(1) assms(3)] obtain im' inp' om' out' where
    fw: "filters_forward fs al gbs 0 (chunk_io inp) = Inr (im', inp', om', out')"
    and sw: "bindR (swap_into fb_new im') (\<lambda>(io_metadata, _). bindR (swap_into fb_new inp') (\<lambda>(io_data, _).
               Inr (io_metadata, io_data))) = Inr (md, data)"
    by (auto simp: filter_chunk_forward_def fb_init_new inp_def bindR_Inr)
  have n: "0 + length fs \<le> 14" using assms(8) by simp
  note ok' = filters_forward_ok [OF fw ok assms(5-7) n]
  then have ro: "\<not> read_only im'" "\<not> read_only inp'" by (simp_all add: io_ok_def data_done_def)
  have new: "\<not> read_only fb_new" by (simp add: fb_new_def)
  from swap_into_ok [OF new ro(1)] swap_into_ok [OF new ro(2)] sw obtain c c' where
    r: "md = im'\<lparr>current_buffer := c\<rparr>" "data = inp'\<lparr>current_buffer := c'\<rparr>" by auto
  have "length (fb_bytes im') \<le> length fs * 2 ^ 28" using ok' by (simp add: io_ok_def)
  also have "\<dots> \<le> 14 * 2 ^ 28" using assms(8) by simp
  finally have l: "length (fb_bytes im') \<le> 14 * 2 ^ 28" .
  show ?thesis
    by (rule exI [of _ inp], rule exI [of _ "(im', inp', om', out')"])
      (use fw ok b ok' l in \<open>simp add: r io_bytes_def io_ok_def data_done_def\<close>)
qed

section \<open>The format of the filtered buffer\<close>

lemma overwrite_overwrite:
  assumes "off + length a + length b \<le> length d"
  shows "overwrite (overwrite d off a) (off + length a) b = overwrite d off (a @ b)"
  using assms by (simp add: overwrite_def add.commute add.left_commute)

lemma mem_write_Some: "off + length bs \<le> length d \<Longrightarrow> mem_write (Some d) off bs = Inr (Some (overwrite d off bs))"
  by (simp add: mem_write_def)

lemma copy_to_loop:
  assumes "bovs_ok bs" and "off + o' + length (bovs_bytes bs) \<le> length d" and "length d < 2 ^ 64"
  shows "foldR (\<lambda>(d, dest_offset) b.
         bindR (mem_read (bdata (bv_buffer b)) 0 (bsize (bv_buffer b))) (\<lambda>bs.
         bindR (mem_write d (off + dest_offset) bs) (\<lambda>d'.
           Inr (d', add64 dest_offset (bsize (bv_buffer b)))))) (Some d, o') bs
       = Inr (Some (overwrite d (off + o') (bovs_bytes bs)), o' + length (bovs_bytes bs))"
  using assms
proof (induction bs arbitrary: d o')
  case (Cons b bs)
  let ?b = "bv_buffer b"
  have b: "buffer_inv ?b" "bovs_ok bs" using Cons.prems(1) by simp_all
  have len: "length (buffer_bytes ?b) = bsize ?b" by (rule length_buffer_bytes [OF b(1)])
  have "mem_read (bdata ?b) 0 (bsize ?b) = Inr (buffer_bytes ?b)"
    using b(1) by (simp add: mem_read_region buffer_inv_def buffer_bytes_def slice_def)
  moreover have fit: "off + o' + length (buffer_bytes ?b) + length (bovs_bytes bs) \<le> length d" using Cons.prems(2) by simp
  then have "mem_write (Some d) (off + o') (buffer_bytes ?b) = Inr (Some (overwrite d (off + o') (buffer_bytes ?b)))"
    by (intro mem_write_Some) simp
  moreover have "add64 o' (bsize ?b) = o' + bsize ?b" using fit len Cons.prems(3) by (simp add: add64_exact)
  moreover have ld: "length (overwrite d (off + o') (buffer_bytes ?b)) = length d"
    using fit by (simp add: length_overwrite)
  ultimately show ?case
    using Cons.IH [of "o' + bsize ?b" "overwrite d (off + o') (buffer_bytes ?b)", OF b(2)] fit len Cons.prems(3)
      overwrite_overwrite [of "off + o'" "buffer_bytes ?b" "bovs_bytes bs" d] by (simp add: add.assoc)
qed simp

lemma fb_copy_to_bytes:
  assumes "bovs_ok (fbuffers fb)" and "off + length (fb_bytes fb) \<le> length d" and "length d < 2 ^ 64"
  shows "fb_copy_to (Some d) off fb = Inr (Some (overwrite d off (fb_bytes fb)))"
  using copy_to_loop [OF assms(1), of off 0 d] assms(2,3) by (simp add: fb_copy_to_def fb_bytes_def)

abbreviation le32 :: "nat \<Rightarrow> byte list" where
  "le32 n \<equiv> le_bytes 4 (of_nat n :: 32 word)"

definition chunk_enc :: "nat \<times> byte list \<times> byte list \<Rightarrow> byte list" where
  "chunk_enc c = (case c of (orig, md, data) \<Rightarrow> le32 orig @ le32 (length data) @ le32 (length md) @ md @ data)"

lemma length_chunk_enc: "length (chunk_enc (orig, md, data)) = 12 + length data + length md"
  by (simp add: chunk_enc_def)

lemma write_chunk_spec:
  assumes "chk_internal_buffer_size i cb = Inr orig" and "bovs_ok (fbuffers md)" and "bovs_ok (fbuffers data)"
    and "length (fb_bytes md) < 2 ^ 32" and "length (fb_bytes data) < 2 ^ 32"
    and "off + length (chunk_enc (orig, fb_bytes md, fb_bytes data)) \<le> length d" and "length d < 2 ^ 64"
  shows "write_chunk cb (Some d) (i, off, md, data)
       = Inr (Some (overwrite d off (chunk_enc (orig, fb_bytes md, fb_bytes data))))"
proof -
  let ?m = "fb_bytes md" and ?x = "fb_bytes data"
  have sz: "u32 (fb_size md) = length ?m" "u32 (fb_size data) = length ?x"
    using fb_size_bytes [OF assms(2)] fb_size_bytes [OF assms(3)] assms(4,5) by (simp_all add: u32_exact)
  have fit: "off + 12 + length ?m + length ?x \<le> length d" using assms(6) by (simp add: length_chunk_enc)
  define a where "a = le32 orig @ le32 (length ?x) @ le32 (length ?m)"
  have la: "length a = 12" by (simp add: a_def)
  have "put32 (Some d) off orig = Inr (Some (overwrite d off (le32 orig)))"
    unfolding put32_def using fit by (intro mem_write_Some) simp
  moreover have "put32 (Some (overwrite d off (le32 orig))) (off + 4) (length ?x)
      = Inr (Some (overwrite d off (le32 orig @ le32 (length ?x))))"
    unfolding put32_def using fit overwrite_overwrite [of off "le32 orig" "le32 (length ?x)" d]
    by (subst mem_write_Some) (simp_all add: length_overwrite)
  moreover have "put32 (Some (overwrite d off (le32 orig @ le32 (length ?x)))) (off + 8) (length ?m) = Inr (Some (overwrite d off a))"
    unfolding put32_def a_def using fit overwrite_overwrite [of off "le32 orig @ le32 (length ?x)" "le32 (length ?m)" d]
    by (subst mem_write_Some) (simp_all add: length_overwrite)
  moreover have "fb_copy_to (Some (overwrite d off a)) (off + 12) md = Inr (Some (overwrite d off (a @ ?m)))"
    using fit la overwrite_overwrite [of off a ?m d] assms(2,7)
    by (subst fb_copy_to_bytes) (simp_all add: length_overwrite)
  moreover have "fb_copy_to (Some (overwrite d off (a @ ?m))) (off + 12 + length ?m) data
      = Inr (Some (overwrite d off ((a @ ?m) @ ?x)))"
    using fit la overwrite_overwrite [of off "a @ ?m" ?x d] assms(3,7)
    by (subst fb_copy_to_bytes) (simp_all add: length_overwrite add.assoc)
  ultimately show ?thesis using assms(1) by (simp add: write_chunk_def sz chunk_enc_def a_def)
qed

lemma mapR_Inr: "mapR f xs = Inr ys \<Longrightarrow> length ys = length xs \<and> (\<forall>i < length xs. f (xs ! i) = Inr (ys ! i))"
proof (induction xs arbitrary: ys)
  case (Cons x xs)
  then obtain y zs where "f x = Inr y" "mapR f xs = Inr zs" "ys = y # zs" by (auto simp: bindR_Inr)
  then show ?case using Cons.IH [of zs] by (auto simp: nth_Cons split: nat.splits)
qed simp

definition io_small :: "filter_buffer \<times> filter_buffer \<Rightarrow> bool" where
  "io_small io \<longleftrightarrow> bovs_ok (fbuffers (fst io)) \<and> bovs_ok (fbuffers (snd io))
     \<and> length (fb_bytes (fst io)) \<le> 14 * 2 ^ 28 \<and> length (fb_bytes (snd io)) < 2 ^ 28"

definition io_len :: "filter_buffer \<times> filter_buffer \<Rightarrow> nat" where
  "io_len io = 12 + length (fb_bytes (snd io)) + length (fb_bytes (fst io))"

fun offsets_from :: "nat \<Rightarrow> nat list \<Rightarrow> nat list" where
  "offsets_from off [] = []"
| "offsets_from off (n # ns) = off # offsets_from (off + n) ns"

lemma io_len_bound: "io_small io \<Longrightarrow> io_len io < 2 ^ 32"
  by (simp add: io_small_def io_len_def)

lemma chunk_space_fold:
  assumes "list_all io_small ios" and "t + sum_list (map io_len ios) < 2 ^ 64" and "off + sum_list (map io_len ios) < 2 ^ 64"
  shows "foldR chunk_space (t, off, offs) ios
       = Inr (t + sum_list (map io_len ios), off + sum_list (map io_len ios), offs @ offsets_from off (map io_len ios))"
  using assms
proof (induction ios arbitrary: t off offs)
  case (Cons io ios)
  obtain md data where io: "io = (md, data)" by (cases io)
  have small: "io_small (md, data)" using Cons.prems(1) io by simp
  then have sz: "fb_size md = length (fb_bytes md)" "fb_size data = length (fb_bytes data)"
    by (simp_all add: io_small_def fb_size_bytes)
  have "u32 (3 * 4 + fb_size data + fb_size md) = io_len io"
    using io_len_bound [OF small] by (simp add: sz io io_len_def u32_exact)
  moreover have "\<not> fb_size data > 2 ^ 32 - 1" "\<not> fb_size md > 2 ^ 32 - 1"
    using small by (simp_all add: sz io_small_def)
  moreover have "add64 t (io_len io) = t + io_len io" "add64 off (io_len io) = off + io_len io"
    using Cons.prems(2,3) by (simp_all add: add64_exact)
  ultimately have "chunk_space (t, off, offs) io = Inr (t + io_len io, off + io_len io, offs @ [off])"
    by (simp only: chunk_space_def io prod.case Let_def simp_thms if_False)
  then show ?case using Cons.IH [of "t + io_len io" "off + io_len io" "offs @ [off]"] Cons.prems by (simp add: add.assoc)
qed simp

definition io_enc :: "chunked_buffer \<Rightarrow> nat \<times> filter_buffer \<times> filter_buffer \<Rightarrow> byte list" where
  "io_enc cb x = chunk_enc (chunk_fill cb (fst x), fb_bytes (fst (snd x)), fb_bytes (snd (snd x)))"

lemma length_io_enc: "length (io_enc cb (i, io)) = io_len io"
  by (simp add: io_enc_def io_len_def length_chunk_enc)

lemma write_chunks_fold:
  assumes "list_all io_small ios" and "chk_inv cb" and "k + length ios \<le> length (cchunks cb)"
    and "off + sum_list (map io_len ios) \<le> length d" and "length d < 2 ^ 64"
  shows "foldR (write_chunk cb) (Some d) (zip [k..<k + length ios] (zip (offsets_from off (map io_len ios)) ios))
       = Inr (Some (overwrite d off (concat (map (io_enc cb) (zip [k..<k + length ios] ios)))))"
  using assms
proof (induction ios arbitrary: k off d)
  case (Cons io ios)
  obtain md data where io: "io = (md, data)" by (cases io)
  have small: "io_small (md, data)" "list_all io_small ios" using Cons.prems(1) io by simp_all
  have k: "k < length (cchunks cb)" using Cons.prems(3) by simp
  have upt: "[k..<k + length (io # ios)] = k # [Suc k..<Suc k + length ios]"
    using upt_conv_Cons [of k "k + length (io # ios)"] by (simp del: upt_Suc)
  let ?e = "io_enc cb (k, io)"
  have le: "length ?e = io_len io" by (rule length_io_enc)
  have fit: "off + io_len io + sum_list (map io_len ios) \<le> length d" using Cons.prems(4) by simp
  have w: "write_chunk cb (Some d) (k, off, md, data) = Inr (Some (overwrite d off ?e))"
    unfolding io_enc_def io fst_conv snd_conv
    by (rule write_chunk_spec [OF internal_buffer_size_fill [OF Cons.prems(2) k]])
      (use small fit le Cons.prems(5) in \<open>simp_all add: io_small_def io_len_def io_enc_def io\<close>)
  have ld: "length (overwrite d off ?e) = length d" using fit le by (simp add: length_overwrite)
  have "foldR (write_chunk cb) (Some (overwrite d off ?e))
          (zip [Suc k..<Suc k + length ios] (zip (offsets_from (off + io_len io) (map io_len ios)) ios))
      = Inr (Some (overwrite (overwrite d off ?e) (off + io_len io) (concat (map (io_enc cb) (zip [Suc k..<Suc k + length ios] ios)))))"
    by (rule Cons.IH [OF small(2) Cons.prems(2)]) (use Cons.prems(3,5) fit ld in simp_all)
  moreover have "length (concat (map (io_enc cb) (zip [Suc k..<Suc k + length ios] ios))) = sum_list (map io_len ios)"
  proof -
    have "map length (map (io_enc cb) (zip [Suc k..<Suc k + length ios] ios)) = map io_len ios"
      by (rule nth_equalityI) (simp_all add: length_io_enc del: upt_Suc)
    then show ?thesis by (simp add: length_concat del: upt_Suc map_map)
  qed
  ultimately show ?case using w upt fit le
      overwrite_overwrite [of off ?e "concat (map (io_enc cb) (zip [Suc k..<Suc k + length ios] ios))" d]
    by (simp add: io del: upt_Suc)
qed simp

lemma buffer_realloc_frame:
  "buffer_realloc al n b = Inr b' \<Longrightarrow> boffset b' = boffset b \<and> bsize b' = bsize b"
  by (auto simp: buffer_realloc_def split: if_splits option.splits)

text \<open>The buffer of a tile that has not been filtered: owned and empty.\<close>

definition fresh_buffer :: "buffer \<Rightarrow> bool" where
  "fresh_buffer b \<longleftrightarrow> buffer_inv b \<and> owns_data b \<and> boffset b = 0 \<and> bsize b = 0 \<and> alloced_size b = 0"

abbreviation le64 :: "nat \<Rightarrow> byte list" where
  "le64 n \<equiv> le_bytes 8 (of_nat n :: 64 word)"

lemma sum_io_len:
  assumes "list_all io_small ios"
  shows "sum_list (map io_len ios) \<le> length ios * 2 ^ 32"
  using assms
proof (induction ios)
  case (Cons io ios)
  then show ?case using io_len_bound [of io] by simp
qed simp

lemma write_prefix:
  assumes "buffer_inv b" and "owns_data b" and "boffset b = 0" and "8 + k \<le> alloced_size b" and "alloced_size b < 2 ^ 28"
  shows "\<exists>d. bdata b = Some d \<and> length d = alloced_size b
           \<and> buffer_write al (le64 n) b = Inr (b\<lparr>bdata := Some (overwrite d 0 (le64 n)), boffset := 8, bsize := 8\<rparr>)"
proof -
  have cap: "cap (bdata b) = alloced_size b" using assms(1,2) by (simp add: buffer_inv_def)
  then obtain d where d: "bdata b = Some d" "length d = alloced_size b" using assms(4) by (cases "bdata b") auto
  have "mem_write (Some d) 0 (le64 n) = Inr (Some (overwrite d 0 (le64 n)))"
    by (rule mem_write_Some) (use d assms(4) in simp)
  then show ?thesis using d assms(2-4) by (simp add: buffer_write_def ensure_alloced_size_def add64_def)
qed

definition chunk_ios :: "runs list \<Rightarrow> allocator \<Rightarrow> (nat \<Rightarrow> nat \<Rightarrow> nat \<Rightarrow> buffer) \<Rightarrow> chunked_buffer \<Rightarrow> nat
    \<Rightarrow> (filter_buffer \<times> filter_buffer) list \<Rightarrow> bool" where
  "chunk_ios fs al gbs cb m ios \<longleftrightarrow> length ios = m \<and> m \<le> length (cchunks cb) \<and> (\<forall>i < m. chunk_start cb i < cbsize cb)
     \<and> concat (map (chunk_data cb) [0..<m]) = chk_bytes cb
     \<and> (\<forall>i < m. filter_chunk_forward fs al (gbs i) cb i = Inr (ios ! i)) \<and> list_all io_small ios"

lemma filter_chunks_forward_bytes:
  assumes "filter_chunks_forward fs al gbs cb b = Inr b'" and "chunk_source cb" and "fresh_buffer b"
    and "all_filters fs" and "small_blocks al" and "\<forall>i. small_pools (gbs i)" and "length fs \<le> 14"
  shows "\<exists>m ios. chunk_ios fs al gbs cb m ios \<and> buffer_inv b' \<and> owns_data b' \<and> bsize b' < 2 ^ 28 \<and> 0 < alloced_size b' \<and> alloced_size b' < 2 ^ 28
           \<and> buffer_bytes b' = le64 m @ concat (map (io_enc cb) (zip [0..<m] ios))"
proof -
  have src: "chk_inv cb" "length (cchunks cb) < 2 ^ 31" using assms(2) by (simp_all add: chunk_source_def)
  obtain m where m: "populated_nchunks cb = Inr m" "m \<le> length (cchunks cb)" "\<forall>i < m. chunk_start cb i < cbsize cb"
    "concat (map (chunk_data cb) [0..<m]) = chk_bytes cb" using populated_nchunks_spec [OF src(1)] by blast
  from assms(1) m(1) obtain ios t off offs o1 o2 d where
    ios: "mapR (\<lambda>i. filter_chunk_forward fs al (gbs i) cb i) [0..<m] = Inr ios"
    and sp: "foldR chunk_space (0, 8, []) ios = Inr (t, off, offs)"
    and o1: "buffer_realloc al (add64 8 t) b = Inr o1" and o2: "buffer_write al (le64 m) o1 = Inr o2"
    and d: "foldR (write_chunk cb) (bdata o2) (zip [0..<m] (zip offs ios)) = Inr d"
    and b': "buffer_advance_size t (buffer_advance_offset t (o2\<lparr>bdata := d\<rparr>)) = Inr b'"
    by (auto simp: filter_chunks_forward_def bindR_Inr)
  have len: "length ios = m" and fw: "\<forall>i < m. filter_chunk_forward fs al (gbs i) cb i = Inr (ios ! i)"
    using mapR_Inr [OF ios] by simp_all
  have "io_small (ios ! i)" if "i < m" for i
    using filter_chunk_forward_spec [of fs al "gbs i" cb i "fst (ios ! i)" "snd (ios ! i)"] that fw m(2,3) assms(2,4-7)
    by (auto simp: io_small_def)
  then have small: "list_all io_small ios" using len by (simp add: list_all_length)
  let ?L = "sum_list (map io_len ios)"
  have "?L \<le> m * 2 ^ 32" using sum_io_len [OF small] len by simp
  also have "\<dots> \<le> (2 ^ 31 - 1) * 2 ^ 32" using m(2) src(2) by (intro mult_le_mono1) linarith
  finally have L: "?L < 2 ^ 63" by simp
  then have t: "t = ?L" "offs = offsets_from 8 (map io_len ios)"
    using chunk_space_fold [OF small, of 0 8 "[]"] sp by simp_all
  have pb: "pool_buffer b" "alloced_size b < 2 ^ 28" using assms(3) by (simp_all add: fresh_buffer_def pool_buffer_def)
  have add: "add64 8 t = 8 + t" using L t(1) by (simp add: add64_exact)
  note r = buffer_realloc_small [OF o1 assms(5) pb, unfolded add] buffer_realloc_frame [OF o1]
  have off0: "boffset o1 = 0" using r(2) assms(3) by (simp add: fresh_buffer_def)
  from write_prefix [of o1 t al m] r off0 o2 obtain d1 where
    d1: "bdata o1 = Some d1" "length d1 = alloced_size o1"
      "o2 = o1\<lparr>bdata := Some (overwrite d1 0 (le64 m)), boffset := 8, bsize := 8\<rparr>" by auto
  let ?E = "concat (map (io_enc cb) (zip [0..<m] ios))"
  have fit: "8 + t \<le> length d1" "length d1 < 2 ^ 28" using d1(2) r(1) by simp_all
  have lo: "length (overwrite d1 0 (le64 m)) = length d1" using fit by (simp add: length_overwrite)
  have wf: "foldR (write_chunk cb) (Some (overwrite d1 0 (le64 m))) (zip [0..<m] (zip (offsets_from 8 (map io_len ios)) ios))
      = Inr (Some (overwrite (overwrite d1 0 (le64 m)) 8 ?E))"
    using write_chunks_fold [OF small src(1), of 0 8 "overwrite d1 0 (le64 m)"] len m(2) fit lo t(1) by simp
  have lE: "length ?E = t"
  proof -
    have "map length (map (io_enc cb) (zip [0..<m] ios)) = map io_len ios"
      by (rule nth_equalityI) (simp_all add: length_io_enc len del: upt_Suc)
    then show ?thesis by (simp add: length_concat t(1) del: map_map)
  qed
  have "overwrite (overwrite d1 0 (le64 m)) 8 ?E = overwrite d1 0 (le64 m @ ?E)"
    using overwrite_overwrite [of 0 "le64 m" ?E d1] fit lE by simp
  then have dd: "d = Some (overwrite d1 0 (le64 m @ ?E))" using d wf t(2) d1(3) by simp
  have "b' = o1\<lparr>bdata := d, boffset := 8 + t, bsize := 8 + t\<rparr>"
    using b' d1(3) r(1) L t(1) by (simp add: buffer_advance_size_def buffer_advance_offset_def add64_exact)
  moreover have "length (overwrite d1 0 (le64 m @ ?E)) = length d1" using fit lE by (simp add: length_overwrite)
  moreover have "take (8 + t) (overwrite d1 0 (le64 m @ ?E)) = le64 m @ ?E" using lE by (simp add: overwrite_def)
  ultimately have "buffer_inv b' \<and> owns_data b' \<and> bsize b' < 2 ^ 28 \<and> 0 < alloced_size b' \<and> alloced_size b' < 2 ^ 28 \<and> buffer_bytes b' = le64 m @ ?E"
    using r(1) d1(2) fit dd by (simp add: buffer_inv_def buffer_bytes_def)
  then show ?thesis using len m fw small by (intro exI [of _ m] exI [of _ ios]) (simp add: chunk_ios_def)
qed

section \<open>Reading the filtered buffer\<close>

lemma read32_at:
  assumes "buffer_inv b" and "bsize b < 2 ^ 63" and "buffer_bytes b = pre @ le32 n @ post" and "n < 2 ^ 32"
  shows "read32 (b\<lparr>boffset := length pre\<rparr>) = Inr (n, b\<lparr>boffset := length pre + 4\<rparr>)"
proof -
  let ?b = "b\<lparr>boffset := length pre\<rparr>"
  have len: "bsize b = length pre + 4 + length post" using assms(1,3) length_buffer_bytes [of b] by simp
  have "buffer_source ?b" using assms(1,2) len by (simp add: buffer_source_def buffer_inv_def)
  moreover have "buffer_rest ?b = le32 n @ post" using assms(3) by (simp add: buffer_rest_def)
  ultimately obtain b' where rd: "buffer_read 4 ?b = Inr (le32 n, b')" using bsource.get_front [of ?b "le32 n" post 4] by auto
  then have "b' = buffer_advance_offset 4 ?b" by (auto simp: buffer_read_def bindR_Inr split: if_splits)
  moreover have "add64 (length pre) 4 = length pre + 4" using len assms(2) by (simp add: add64_exact)
  moreover have "unat (of_le (le32 n) :: 32 word) = n" using assms(4) by (simp add: of_le_le_bytes unat_of_nat take_bit_nat_eq_self_iff)
  ultimately show ?thesis using rd by (simp add: read32_def buffer_advance_offset_def)
qed

text \<open>The decisions of the skip function for chunks of the given sizes.\<close>

fun run_skips :: "(nat \<Rightarrow> 's \<Rightarrow> (bool \<times> 's) result) option \<Rightarrow> 's \<Rightarrow> nat list \<Rightarrow> bool list result" where
  "run_skips skip_fn s [] = Inr []"
| "run_skips skip_fn s (n # ns) =
     bindR (case skip_fn of None \<Rightarrow> Inr (False, s) | Some f \<Rightarrow> f n s) (\<lambda>(skip, s').
     bindR (run_skips skip_fn s' ns) (\<lambda>skips. Inr (skip # skips)))"

lemma run_skips_None: "run_skips None s ns = Inr (replicate (length ns) False)"
  by (induction ns) simp_all

type_synonym chunk_rec = "nat \<times> byte list \<times> byte list"

definition chunk_small :: "chunk_rec \<Rightarrow> bool" where
  "chunk_small c \<longleftrightarrow> fst c < 2 ^ 28 \<and> length (fst (snd c)) \<le> 14 * 2 ^ 28 \<and> length (snd (snd c)) < 2 ^ 28"

definition info_of :: "chunk_rec \<Rightarrow> bool \<Rightarrow> filtered_chunk \<Rightarrow> bool" where
  "info_of c skip i \<longleftrightarrow> fc_orig_size i = fst c \<and> fc_metadata_size i = length (fst (snd c))
     \<and> fc_filtered_size i = length (snd (snd c)) \<and> fc_skip i = skip
     \<and> (\<exists>x. fc_metadata i = Some (fst (snd c) @ snd (snd c) @ x) \<and> length (fst (snd c) @ snd (snd c) @ x) < 2 ^ 63)"

lemma read_chunk_info_at:
  assumes "buffer_inv b" and "bsize b < 2 ^ 63" and "cap (bdata b) < 2 ^ 63" and "buffer_bytes b = pre @ chunk_enc c @ post"
    and "chunk_small c" and "(case skip_fn of None \<Rightarrow> Inr (False, s) | Some f \<Rightarrow> f (fst c) s) = Inr (skip, s')"
  shows "\<exists>i. read_chunk_info skip_fn (b\<lparr>boffset := length pre\<rparr>, s, all, infos) j
           = Inr (b\<lparr>boffset := length pre + length (chunk_enc c)\<rparr>, s', all \<and> \<not> skip, infos @ [i]) \<and> info_of c skip i"
proof -
  obtain orig md data where c: "c = (orig, md, data)" by (cases c)
  let ?a = "le32 orig" and ?b = "le32 (length data)" and ?c = "le32 (length md)"
  have bytes: "buffer_bytes b = pre @ ?a @ ?b @ ?c @ md @ data @ post" using assms(4) by (simp add: c chunk_enc_def)
  have small: "orig < 2 ^ 32" "length data < 2 ^ 32" "length md < 2 ^ 32" "length md + length data < 2 ^ 32"
    using assms(5) by (simp_all add: c chunk_small_def)
  have r1: "read32 (b\<lparr>boffset := length pre\<rparr>) = Inr (orig, b\<lparr>boffset := length pre + 4\<rparr>)"
    using read32_at [OF assms(1,2) bytes small(1)] .
  have r2: "read32 (b\<lparr>boffset := length pre + 4\<rparr>) = Inr (length data, b\<lparr>boffset := length pre + 8\<rparr>)"
    using read32_at [OF assms(1,2), of "pre @ ?a" "length data"] bytes small(2) by (simp add: add.assoc)
  have r3: "read32 (b\<lparr>boffset := length pre + 8\<rparr>) = Inr (length md, b\<lparr>boffset := length pre + 12\<rparr>)"
    using read32_at [OF assms(1,2), of "pre @ ?a @ ?b" "length md"] bytes small(3) by (simp add: add.assoc)
  have len: "bsize b = length pre + 12 + length md + length data + length post"
    using length_buffer_bytes [OF assms(1)] bytes by simp
  have "0 < cap (bdata b)" using assms(1) len by (simp add: buffer_inv_def)
  then obtain d where d: "bdata b = Some d" by (cases "bdata b") auto
  have "take (bsize b) d = (pre @ ?a @ ?b @ ?c) @ md @ data @ post" using bytes d by (simp add: buffer_bytes_def)
  then obtain x where sp: "d = (pre @ ?a @ ?b @ ?c) @ md @ data @ post @ x"
    by (metis append_take_drop_id append.assoc)
  then have dr: "drop (length pre + 12) d = md @ data @ post @ x" by (simp add: add.assoc)
  then have cur: "buffer_cur_data (b\<lparr>boffset := length pre + 12\<rparr>) = Some (md @ data @ post @ x)"
    using d by (simp add: buffer_cur_data_def buffer_data_at_def)
  have "length (drop (length pre + 12) d) < 2 ^ 63" using assms(3) d by simp
  then have lt: "length (md @ data @ post @ x) < 2 ^ 63" unfolding dr .
  let ?i = "\<lparr>fc_metadata = Some (md @ data @ post @ x), fc_filtered_size = length data,
             fc_orig_size = orig, fc_metadata_size = length md, fc_skip = skip\<rparr>"
  have "info_of c skip ?i" using lt by (simp add: info_of_def c)
  moreover have "buffer_advance_offset (u32 (length md + length data)) (b\<lparr>boffset := length pre + 12\<rparr>)
      = b\<lparr>boffset := length pre + length (chunk_enc c)\<rparr>"
    using small(4) len assms(2) by (simp add: buffer_advance_offset_def u32_exact add64_exact c length_chunk_enc add.assoc add.commute)
  ultimately show ?thesis using r1 r2 r3 cur assms(6) [unfolded c fst_conv]
    by (intro exI [of _ ?i]) (simp add: read_chunk_info_def c)
qed

lemma read_chunk_infos:
  assumes "buffer_inv b" and "bsize b < 2 ^ 63" and "cap (bdata b) < 2 ^ 63"
    and "buffer_bytes b = pre @ concat (map chunk_enc cs)" and "list_all chunk_small cs"
    and "run_skips skip_fn s (map fst cs) = Inr skips"
  shows "\<exists>is s'. foldR (read_chunk_info skip_fn) (b\<lparr>boffset := length pre\<rparr>, s, all, infos) [k..<k + length cs]
           = Inr (b\<lparr>boffset := bsize b\<rparr>, s', all \<and> True \<notin> set skips, infos @ is)
         \<and> length is = length cs \<and> length skips = length cs \<and> (\<forall>j < length cs. info_of (cs ! j) (skips ! j) (is ! j))"
  using assms
proof (induction cs arbitrary: pre s skips all infos k)
  case Nil
  then have "bsize b = length pre" using length_buffer_bytes [of b] by simp
  then show ?case using Nil.prems(6) by simp
next
  case (Cons c cs)
  from Cons.prems(6) obtain sk s1 sks where
    sk: "(case skip_fn of None \<Rightarrow> Inr (False, s) | Some f \<Rightarrow> f (fst c) s) = Inr (sk, s1)"
    and sks: "run_skips skip_fn s1 (map fst cs) = Inr sks" "skips = sk # sks" by (auto simp: bindR_Inr)
  have bytes: "buffer_bytes b = pre @ chunk_enc c @ concat (map chunk_enc cs)" using Cons.prems(4) by simp
  have small: "chunk_small c" "list_all chunk_small cs" using Cons.prems(5) by simp_all
  from read_chunk_info_at [OF Cons.prems(1-3) bytes small(1) sk, of all infos k] obtain i where
    i: "read_chunk_info skip_fn (b\<lparr>boffset := length pre\<rparr>, s, all, infos) k
          = Inr (b\<lparr>boffset := length pre + length (chunk_enc c)\<rparr>, s1, all \<and> \<not> sk, infos @ [i])" "info_of c sk i" by blast
  have bytes': "buffer_bytes b = (pre @ chunk_enc c) @ concat (map chunk_enc cs)" using bytes by simp
  from Cons.IH [OF Cons.prems(1-3) bytes' small(2) sks(1), of "all \<and> \<not> sk" "infos @ [i]" "Suc k"] obtain "is" s' where
    r: "foldR (read_chunk_info skip_fn) (b\<lparr>boffset := length (pre @ chunk_enc c)\<rparr>, s1, all \<and> \<not> sk, infos @ [i]) [Suc k..<Suc k + length cs]
           = Inr (b\<lparr>boffset := bsize b\<rparr>, s', (all \<and> \<not> sk) \<and> True \<notin> set sks, (infos @ [i]) @ is)"
       "length is = length cs" "length sks = length cs" "\<forall>j < length cs. info_of (cs ! j) (sks ! j) (is ! j)" by blast
  have upt: "[k..<k + length (c # cs)] = k # [Suc k..<Suc k + length cs]"
    using upt_conv_Cons [of k "k + length (c # cs)"] by (simp del: upt_Suc)
  have "foldR (read_chunk_info skip_fn) (b\<lparr>boffset := length pre\<rparr>, s, all, infos) [k..<k + length (c # cs)]
      = Inr (b\<lparr>boffset := bsize b\<rparr>, s', all \<and> True \<notin> set skips, infos @ i # is)"
    using i(1) r(1) upt sks(2) by (auto simp del: upt_Suc)
  moreover have "\<forall>j < length (c # cs). info_of ((c # cs) ! j) (skips ! j) ((i # is) ! j)"
    using r(4) i(2) sks(2) by (auto simp: nth_Cons split: nat.splits)
  ultimately show ?case using r(2,3) sks(2) by (intro exI [of _ "i # is"] exI [of _ s']) simp
qed

section \<open>The chunks of the output\<close>

lemma common_size_loop:
  "foldl (\<lambda>(i, chunk_size) s. (Suc i, if i = 0 then int s else if int s \<noteq> chunk_size then -1 else chunk_size)) (Suc i, c) sizes
   = (Suc i + length sizes, if c \<noteq> -1 \<and> list_all (\<lambda>s. int s = c) sizes then c else -1)"
  by (induction sizes arbitrary: i c) auto

lemma common_size_eq:
  "common_size (s # sizes) = (if list_all (\<lambda>x. x = s) sizes then int s else -1)"
  by (simp add: common_size_def common_size_loop)

lemma fold_add64:
  "a + sum_list sizes < 2 ^ 64 \<Longrightarrow> fold add64 sizes a = a + sum_list sizes"
proof (induction sizes arbitrary: a)
  case (Cons s sizes)
  then have "add64 s a = a + s" by (simp add: add64_exact add.commute)
  then show ?case using Cons.IH [of "a + s"] Cons.prems by (simp add: add.assoc)
qed simp

lemma all_equal_replicate: "list_all (\<lambda>x. x = s) xs \<Longrightarrow> xs = replicate (length xs) s"
  by (induction xs) auto

text \<open>The output as it is set up for chunks of given sizes.\<close>

definition chunk_target :: "BufferAddressing \<Rightarrow> nat list \<Rightarrow> chunked_buffer \<Rightarrow> bool" where
  "chunk_target adr sizes cb \<longleftrightarrow> chk_inv cb \<and> chunk_caps cb = sizes \<and> addressing cb = adr \<and> cbsize cb = 0"

lemma init_chunks:
  assumes "sizes \<noteq> []" and "0 \<notin> set sizes" and "list_all (\<lambda>c. c < 2 ^ 28) sizes" and "sum_list sizes < 2 ^ 63"
    and "cchunks cb = []" and "cb = chk_clear cb0"
  shows "\<exists>o1. (if common_size sizes = -1 then chk_init_var_size adr sizes cb
               else chk_init_fixed_size adr (fold add64 sizes 0) (nat (common_size sizes)) cb) = Inr o1
           \<and> chunk_target adr sizes o1 \<and> cbase o1 = None \<and> cchunks o1 = replicate (length sizes) None"
proof -
  obtain s ss where ss: "sizes = s # ss" using assms(1) by (cases sizes) auto
  have total: "fold add64 sizes 0 = sum_list sizes" using fold_add64 [of 0 sizes] assms(4) by simp
  have lt32: "list_all (\<lambda>c. c < 2 ^ 32) sizes" using assms(3) by (rule list.pred_mono_strong) simp
  have nones: "list_all2 chunk_fits (replicate (length sizes) None) sizes" by (rule chunk_fits_Nones)
  show ?thesis
  proof (cases "list_all (\<lambda>x. x = s) ss")
    case False
    then have cs: "common_size sizes = -1" by (simp add: ss common_size_eq)
    let ?o = "cb\<lparr>addressing := adr, var_chunk_sizes := sizes, cchunks := replicate (length sizes) None, cbase := None,
                ccapacity := fold add64 sizes 0\<rparr>"
    have "chk_init_var_size adr sizes cb = Inr ?o" using assms(1,2,5) by (simp add: chk_init_var_size_def)
    moreover have caps: "chunk_caps ?o = sizes" "\<not> fixed_chunk_sizes ?o"
      using assms(1) by (simp_all add: chunk_caps_def fixed_chunk_sizes_def)
    moreover have "chk_inv ?o"
      using caps assms(1,2,4,6) lt32 nones total by (simp add: chk_inv_def chk_clear_def)
    ultimately show ?thesis using cs assms(6) by (simp add: chunk_target_def chk_clear_def)
  next
    case True
    have rep: "sizes = replicate (Suc (length ss)) s" using all_equal_replicate [OF True] ss by simp
    have cs: "common_size sizes = int s" using True by (simp add: ss common_size_eq)
    have s: "0 < s" "s < 2 ^ 28" using assms(2,3) ss by (auto intro: Nat.gr0I)
    have sum: "sum_list sizes = Suc (length ss) * s" by (subst rep) (simp only: sum_list_replicate_nat)
    have lo: "last_of (sum_list sizes) s = s" "chunks_of (sum_list sizes) s = Suc (length ss)"
      using s(1) by (simp_all only: sum last_of_def chunks_of_def) (simp_all add: s(1))
    have "add64 (mul64 s (Suc (length ss) - 1)) s = sum_list sizes"
      using sum assms(4) by (simp add: add64_exact mul64_exact mult.commute add.commute)
    then have init: "chk_init_fixed_size adr (sum_list sizes) s cb
        = Inr (cb\<lparr>addressing := adr, chunk_size := s, last_chunk_size := s,
                cchunks := replicate (Suc (length ss)) None, cbase := None, ccapacity := sum_list sizes\<rparr>)"
      using assms(5) s(1) sum lo by (simp add: chk_init_fixed_size_def Let_def)
    let ?o = "cb\<lparr>addressing := adr, chunk_size := s, last_chunk_size := s,
                cchunks := replicate (Suc (length ss)) None, cbase := None, ccapacity := sum_list sizes\<rparr>"
    have caps: "chunk_caps ?o = sizes" "fixed_chunk_sizes ?o"
      using rep assms(6) by (simp_all add: chunk_caps_def fixed_chunk_sizes_def chk_clear_def replicate_append_same)
    have "chk_inv ?o"
      using caps assms(1,2,4,6) lt32 nones s ss by (simp add: chk_inv_def chk_clear_def)
    then show ?thesis using cs init total caps assms(6) ss by (simp add: chunk_target_def chk_clear_def)
  qed
qed

section \<open>Unfiltering one chunk\<close>

text \<open>
  Unfiltering chunk \<open>i\<close>, whose record in the filtered buffer is \<open>c\<close>, writes the bytes \<open>bs\<close> to the memory
  of the chunk (all of that memory when there is no filter and the bytes are copied).
\<close>

definition chunk_undo :: "runs list \<Rightarrow> allocator \<Rightarrow> (nat \<Rightarrow> nat \<Rightarrow> nat \<Rightarrow> buffer) \<Rightarrow> nat \<Rightarrow> byte list \<Rightarrow> chunk_rec \<Rightarrow> bool" where
  "chunk_undo fs al gbs i bs c \<longleftrightarrow> (\<forall>info all cb cb1 d. info_of c False info \<longrightarrow> output_chunk al i cb = Inr (cb1, Some d) \<longrightarrow>
     length bs \<le> length d \<longrightarrow> length d < 2 ^ 63 \<longrightarrow>
     (\<exists>xs. (xs = bs \<or> xs = overwrite d 0 bs) \<and> filter_chunk_reverse fs al gbs all cb (i, info) = chunk_written i xs cb1))"

lemma wrapped_input:
  assumes "info_of (orig, md, data) False info"
  shows "\<exists>im inp. fb_init (fc_metadata info) (fc_metadata_size info) fb_new = Inr im
      \<and> fb_init (map_option (drop (fc_metadata_size info)) (fc_metadata info)) (fc_filtered_size info) fb_new = Inr inp
      \<and> flat md im \<and> flat data inp"
proof -
  from assms obtain x where i: "fc_metadata info = Some (md @ data @ x)" "length (md @ data @ x) < 2 ^ 63"
    "fc_metadata_size info = length md" "fc_filtered_size info = length data" by (auto simp: info_of_def)
  let ?im = "fb_new\<lparr>fbuffers := [bov_new (buffer_wrap (Some (md @ data @ x)) (length md))]\<rparr>"
  let ?inp = "fb_new\<lparr>fbuffers := [bov_new (buffer_wrap (Some (data @ x)) (length data))]\<rparr>"
  have "flat md ?im" using wrap_bytes [OF _ i(2) refl, of "length md"]
    by (simp add: flat_def bov_new_def buffer_wrap_def)
  moreover have "length (data @ x) < 2 ^ 63" using i(2) by simp
  from wrap_bytes [OF _ this refl, of "length data"] have "flat data ?inp" by (simp add: flat_def)
  ultimately show ?thesis using i by (simp add: fb_init_new)
qed

lemma chunk_undo_forward:
  assumes "filters_forward fs al gbs 0 (chunk_io inp) = Inr io" and "io_ok 0 (chunk_io inp)"
    and "io_bytes (chunk_io inp) = ([], bs)" and "io_bytes io = (md, data)"
    and "all_filters fs" and "small_blocks al" and "small_pools gbs" and "length fs \<le> 14"
    and "alloc_total al'" and "\<forall>i. small_pools (gbs' i)"
  shows "chunk_undo fs al' gbs' i bs (length bs, md, data)"
  unfolding chunk_undo_def
proof (intro allI impI)
  fix info all cb cb1 d
  assume info: "info_of (length bs, md, data) False info" and out: "output_chunk al' i cb = Inr (cb1, Some d)"
    and d: "length bs \<le> length d" "length d < 2 ^ 63"
  obtain im inp' where im: "fb_init (fc_metadata info) (fc_metadata_size info) fb_new = Inr im"
    "fb_init (map_option (drop (fc_metadata_size info)) (fc_metadata info)) (fc_filtered_size info) fb_new = Inr inp'"
    "flat md im" "flat data inp'" using wrapped_input [OF info] by blast
  have sk: "\<not> fc_skip info" "fc_orig_size info = length bs" using info by (simp_all add: info_of_def)
  show "\<exists>xs. (xs = bs \<or> xs = overwrite d 0 bs) \<and> filter_chunk_reverse fs al' gbs' all cb (i, info) = chunk_written i xs cb1"
  proof (cases "fs = []")
    case True
    then have "data = bs" using assms(1,3,4) by simp
    then have "fb_copy_to (Some d) 0 inp' = Inr (Some (overwrite d 0 bs))"
      using fb_copy_to_bytes [of inp' 0 d] im(4) d by (simp add: flat_def)
    then show ?thesis using True im(1,2) sk out by (auto simp: filter_chunk_reverse_def)
  next
    case False
    have rio: "rio_ok (io_bytes io) (im, inp', fb_new, fb_new)" using im(3,4) assms(4) by (simp add: rio_ok_def fb_new_def)
    have n: "0 + length fs \<le> 14" using assms(8) by simp
    have pools: "small_pools (gbs' i)" using assms(10) by blast
    have orig: "length bs = length (snd (io_bytes (chunk_io inp)))" using assms(3) by simp
    from filters_undo_all [OF assms(1,2,5,6,7) n rio assms(9) pools False out orig d, of 0]
    have "filters_reverse (rev fs) al' (gbs' i) 0 i (length bs) (im, inp', fb_new, fb_new) cb = chunk_written i bs cb1"
      using assms(3) by simp
    then show ?thesis using False im(1,2) sk by (auto simp: filter_chunk_reverse_def)
  qed
qed

section \<open>Unfiltering all chunks\<close>

lemma chunk_written_contiguous:
  assumes "chunk_target CONTIGUOUS sizes cb" and "cbase cb = Some D" and "length D = sum_list sizes"
    and "i < length sizes" and "length bs = sizes ! i"
  defines "off \<equiv> sum_list (take i sizes)"
  shows "output_chunk al i cb = Inr (cb, Some (drop off D))"
    and "length bs \<le> length (drop off D)"
    and "xs = bs \<or> xs = overwrite (drop off D) 0 bs \<Longrightarrow>
         chunk_written i xs cb = Inr (cb\<lparr>cbase := Some (overwrite D off bs)\<rparr>)"
proof -
  have inv: "chk_inv cb" "chunk_caps cb = sizes" "addressing cb = CONTIGUOUS" and len: "length (cchunks cb) = length sizes"
    using assms(1) by (auto simp: chunk_target_def chk_inv_def)
  have lead: "leading_capacity cb i = Inr off"
    using leading_capacity_caps [OF inv(1), of i] assms(4) len inv(2) by (simp add: off_def)
  show "output_chunk al i cb = Inr (cb, Some (drop off D))"
    using inv(3) lead assms(2,4) len by (simp add: output_chunk_def chk_internal_buffer_def)
  have "off + sizes ! i = sum_list (take (Suc i) sizes)" using assms(4) by (simp add: off_def take_Suc_conv_app_nth)
  also have "\<dots> \<le> sum_list sizes" by (rule sum_take_le)
  finally have fit: "off + length bs \<le> length D" using assms(3,5) by simp
  then show "length bs \<le> length (drop off D)" by simp
  assume "xs = bs \<or> xs = overwrite (drop off D) 0 bs"
  moreover have "overwrite D off (overwrite (drop off D) 0 bs) = overwrite D off bs"
    using fit by (simp add: overwrite_def add.commute)
  ultimately show "chunk_written i xs cb = Inr (cb\<lparr>cbase := Some (overwrite D off bs)\<rparr>)"
    using inv(3) lead assms(2) by (auto simp: chunk_written_def)
qed

lemma chunk_written_discrete:
  assumes "chunk_target DISCRETE sizes cb" and "i < length sizes" and "length bs = sizes ! i" and "alloc_total al"
  shows "\<exists>d. output_chunk al i cb = Inr (cb\<lparr>cchunks := (cchunks cb)[i := Some d]\<rparr>, Some d) \<and> length d = length bs
    \<and> (\<forall>xs. xs = bs \<or> xs = overwrite d 0 bs \<longrightarrow>
         chunk_written i xs (cb\<lparr>cchunks := (cchunks cb)[i := Some d]\<rparr>) = Inr (cb\<lparr>cchunks := (cchunks cb)[i := Some bs]\<rparr>))"
proof -
  have inv: "chk_inv cb" "chunk_caps cb = sizes" "addressing cb = DISCRETE" and len: "length (cchunks cb) = length sizes"
    using assms(1) by (auto simp: chunk_target_def chk_inv_def)
  obtain d where d: "malloc al (sizes ! i) = Some d" "length d = sizes ! i" using alloc_total_malloc [OF assms(4)] by blast
  have "output_chunk al i cb = Inr (cb\<lparr>cchunks := (cchunks cb)[i := Some d]\<rparr>, Some d)"
    using inv(2,3) get_chunk_capacity_caps [OF inv(1), of i] assms(2) len d(1)
    by (simp add: output_chunk_def chk_alloc_discrete_def)
  then show ?thesis using d(2) assms(2,3) inv(3) len by (auto simp: chunk_written_def overwrite_def)
qed

lemma unfilter_contiguous:
  assumes "chunk_target CONTIGUOUS sizes cb" and "cbase cb = Some D" and "length D = sum_list sizes" and "length D < 2 ^ 63"
    and "length datas = length sizes" and "length cs = length sizes" and "length infos = length sizes"
    and "\<forall>i < length sizes. length (datas ! i) = sizes ! i \<and> chunk_undo fs al gbs i (datas ! i) (cs ! i) \<and> info_of (cs ! i) False (infos ! i)"
    and "m \<le> length sizes"
  shows "foldR (filter_chunk_reverse fs al gbs True) cb (zip [0..<m] (take m infos))
       = Inr (cb\<lparr>cbase := Some (overwrite D 0 (concat (take m datas)))\<rparr>)"
  using assms(9)
proof (induction m)
  case 0
  then show ?case using assms(2) by simp
next
  case (Suc m)
  have m: "m < length sizes" using Suc.prems by simp
  have lc: "length (concat (take m datas)) = sum_list (take m sizes)"
  proof -
    have "map length (take m datas) = take m sizes"
      by (rule nth_equalityI) (use assms(5,8) m in auto)
    then show ?thesis by (simp add: length_concat)
  qed
  let ?E = "overwrite D 0 (concat (take m datas))" and ?off = "sum_list (take m sizes)"
  let ?cb = "cb\<lparr>cbase := Some ?E\<rparr>"
  have "?off + sizes ! m = sum_list (take (Suc m) sizes)" using m by (simp add: take_Suc_conv_app_nth)
  also have "\<dots> \<le> length D" unfolding assms(3) by (rule sum_take_le)
  finally have fit: "?off + sizes ! m \<le> length D" .
  then have lE: "length ?E = length D" using lc by (simp add: length_overwrite)
  have tgt: "chunk_target CONTIGUOUS sizes ?cb"
    using assms(1,2,3) lE by (auto simp: chunk_target_def chk_inv_def)
  have bm: "length (datas ! m) = sizes ! m" and un: "chunk_undo fs al gbs m (datas ! m) (cs ! m)" and inf: "info_of (cs ! m) False (infos ! m)"
    using assms(8) m by simp_all
  have lE': "length ?E = sum_list sizes" using lE assms(3) by simp
  have base: "cbase ?cb = Some ?E" by simp
  note cw = chunk_written_contiguous [OF tgt base lE' m bm]
  have lt: "length (drop ?off ?E) < 2 ^ 63" using lE assms(4) by simp
  from un [unfolded chunk_undo_def, rule_format, OF inf cw(1) cw(2) lt] obtain xs where "xs = datas ! m \<or> xs = overwrite (drop ?off ?E) 0 (datas ! m)"
    "filter_chunk_reverse fs al gbs True ?cb (m, infos ! m) = chunk_written m xs ?cb" by blast
  then have step: "filter_chunk_reverse fs al gbs True ?cb (m, infos ! m) = Inr (cb\<lparr>cbase := Some (overwrite ?E ?off (datas ! m))\<rparr>)"
    using cw(3) by simp
  have "overwrite ?E ?off (datas ! m) = overwrite D 0 (concat (take m datas) @ datas ! m)"
    using overwrite_overwrite [of 0 "concat (take m datas)" "datas ! m" D] lc bm fit by simp
  moreover have "take (Suc m) datas = take m datas @ [datas ! m]" "take (Suc m) infos = take m infos @ [infos ! m]"
    using m assms(5,7) by (simp_all add: take_Suc_conv_app_nth)
  ultimately show ?case using Suc step m assms(7) by (simp add: foldR_append)
qed

text \<open>The chunked buffer that holds the chunks that are not skipped.\<close>

lemma unfilter_discrete:
  assumes "chunk_target DISCRETE sizes cb" and "cchunks cb = replicate (length sizes) None" and "alloc_total al"
    and "length datas = length sizes" and "length cs = length sizes" and "length infos = length sizes"
    and "\<forall>i < length sizes. length (datas ! i) = sizes ! i \<and> chunk_undo fs al gbs i (datas ! i) (cs ! i) \<and> info_of (cs ! i) (skips ! i) (infos ! i)"
    and "m \<le> length sizes"
  shows "\<exists>chs. foldR (filter_chunk_reverse fs al gbs False) cb (zip [0..<m] (take m infos)) = Inr (cb\<lparr>cchunks := chs\<rparr>)
       \<and> length chs = length sizes \<and> (\<forall>i < length sizes. chs ! i = (if m \<le> i \<or> skips ! i then None else Some (datas ! i)))"
  using assms(8)
proof (induction m)
  case 0
  then show ?case using assms(2) by (intro exI [of _ "cchunks cb"]) simp
next
  case (Suc m)
  have m: "m < length sizes" using Suc.prems by simp
  from Suc obtain chs where chs: "foldR (filter_chunk_reverse fs al gbs False) cb (zip [0..<m] (take m infos)) = Inr (cb\<lparr>cchunks := chs\<rparr>)"
    "length chs = length sizes" "\<forall>i < length sizes. chs ! i = (if m \<le> i \<or> skips ! i then None else Some (datas ! i))" by auto
  have bm: "length (datas ! m) = sizes ! m" and un: "chunk_undo fs al gbs m (datas ! m) (cs ! m)" and inf: "info_of (cs ! m) (skips ! m) (infos ! m)"
    using assms(7) m by simp_all
  have ti: "take (Suc m) infos = take m infos @ [infos ! m]" using m assms(6) by (simp add: take_Suc_conv_app_nth)
  have inv: "chk_inv cb" "chunk_caps cb = sizes" using assms(1) by (simp_all add: chunk_target_def)
  let ?cb = "cb\<lparr>cchunks := chs\<rparr>"
  have lc: "length (cchunks cb) = length chs" using chs(2) assms(2) by simp
  have caps: "chunk_caps ?cb = sizes" using inv(2) lc by (auto simp: chunk_caps_def split: if_splits)
  have "list_all2 chunk_fits chs sizes"
    using chs(2,3) assms(7) by (auto simp: list_all2_conv_all_nth chunk_fits_def)
  then have tgt: "chunk_target DISCRETE sizes ?cb"
    using assms(1) inv caps lc by (auto simp: chunk_target_def chk_inv_def)
  show ?case
  proof (cases "skips ! m")
    case True
    then have "filter_chunk_reverse fs al gbs False ?cb (m, infos ! m) = Inr ?cb"
      using inf by (simp add: filter_chunk_reverse_def info_of_def)
    then show ?thesis using chs True m ti assms(6)
      by (intro exI [of _ chs]) (auto simp: foldR_append not_less_eq_eq le_Suc_eq)
  next
    case False
    from chunk_written_discrete [OF tgt m bm assms(3)] obtain d where
      d: "output_chunk al m ?cb = Inr (?cb\<lparr>cchunks := chs[m := Some d]\<rparr>, Some d)" "length d = length (datas ! m)"
        "\<forall>xs. xs = datas ! m \<or> xs = overwrite d 0 (datas ! m) \<longrightarrow>
           chunk_written m xs (?cb\<lparr>cchunks := chs[m := Some d]\<rparr>) = Inr (?cb\<lparr>cchunks := chs[m := Some (datas ! m)]\<rparr>)" by auto
    have "sizes ! m < 2 ^ 32" using inv m by (auto simp: chk_inv_def list_all_length)
    then have lt: "length (datas ! m) \<le> length d" "length d < 2 ^ 63" using d(2) bm by simp_all
    have inf': "info_of (cs ! m) False (infos ! m)" using inf False by simp
    from un [unfolded chunk_undo_def, rule_format, OF inf' d(1) lt] obtain xs where "xs = datas ! m \<or> xs = overwrite d 0 (datas ! m)"
      "filter_chunk_reverse fs al gbs False ?cb (m, infos ! m) = chunk_written m xs (?cb\<lparr>cchunks := chs[m := Some d]\<rparr>)" by blast
    then have "filter_chunk_reverse fs al gbs False ?cb (m, infos ! m) = Inr (cb\<lparr>cchunks := chs[m := Some (datas ! m)]\<rparr>)"
      using d(3) by auto
    then show ?thesis using chs False m ti assms(6)
      by (intro exI [of _ "chs[m := Some (datas ! m)]"]) (auto simp: foldR_append nth_list_update not_less_eq_eq le_Suc_eq)
  qed
qed

end
