(* ===== verification/Pipeline_Tiles.thy ===== *)
theory Pipeline_Tiles
  imports Pipeline_Round_Trip
begin

text \<open>
  Whole tiles through the filter pipeline: filtering followed by unfiltering restores the tile, and
  unfiltering for some ranges of cells restores every cell of these ranges.
\<close>

section \<open>The restored chunks\<close>

text \<open>
  The chunks hold the data they had before filtering: in one block when nothing was skipped, and in
  separate blocks without memory for the skipped ones otherwise.
\<close>

definition restored :: "byte list list \<Rightarrow> bool list \<Rightarrow> chunked_buffer \<Rightarrow> bool" where
  "restored datas skips cb \<longleftrightarrow> chk_inv cb \<and> chunk_caps cb = map length datas \<and> cbsize cb = ccapacity cb
     \<and> (if True \<in> set skips
        then addressing cb = DISCRETE \<and> (\<forall>i < length datas. cchunks cb ! i = (if skips ! i then None else Some (datas ! i)))
        else addressing cb = CONTIGUOUS \<and> cbase cb = Some (concat datas))"

definition undo_all :: "runs list \<Rightarrow> allocator \<Rightarrow> (nat \<Rightarrow> nat \<Rightarrow> nat \<Rightarrow> buffer) \<Rightarrow> byte list list \<Rightarrow> chunk_rec list \<Rightarrow> bool" where
  "undo_all fs al gbs datas cs \<longleftrightarrow> length cs = length datas
     \<and> (\<forall>i < length datas. fst (cs ! i) = length (datas ! i) \<and> chunk_undo fs al gbs i (datas ! i) (cs ! i))"

lemma caps_set_size [simp]: "chunk_caps (cb\<lparr>cbsize := n\<rparr>) = chunk_caps cb"
  by (simp add: chunk_caps_def fixed_chunk_sizes_def)

lemma caps_cchunks: "length chs = length (cchunks cb) \<Longrightarrow> chunk_caps (cb\<lparr>cchunks := chs\<rparr>) = chunk_caps cb"
  by (simp add: chunk_caps_def fixed_chunk_sizes_def)

lemma filter_chunks_reverse_restored:
  assumes "undo_all fs al gbs datas cs" and "datas \<noteq> []" and "[] \<notin> set datas"
    and "list_all (\<lambda>d. length d < 2 ^ 28) datas" and "length (concat datas) < 2 ^ 63" and "alloc_total al"
    and "length infos = length datas" and "length skips = length datas"
    and "\<forall>i < length datas. info_of (cs ! i) (skips ! i) (infos ! i)"
  shows "\<exists>cb'. filter_chunks_reverse fs al gbs infos (chk_free cb0) (True \<notin> set skips) = Inr cb' \<and> restored datas skips cb'"
proof -
  let ?s = "map length datas" and ?adr = "if True \<notin> set skips then CONTIGUOUS else DISCRETE"
  have cs: "length cs = length datas" "\<forall>i < length datas. fst (cs ! i) = length (datas ! i) \<and> chunk_undo fs al gbs i (datas ! i) (cs ! i)"
    using assms(1) by (simp_all add: undo_all_def)
  have sizes: "map fc_orig_size infos = ?s"
    by (rule nth_equalityI) (use assms(7,9) cs(2) in \<open>simp_all add: info_of_def\<close>)
  have s: "?s \<noteq> []" "0 \<notin> set ?s" "list_all (\<lambda>c. c < 2 ^ 28) ?s" "sum_list ?s < 2 ^ 63"
    using assms(2-5) by (auto simp: list_all_iff length_concat)
  have total: "fold add64 ?s 0 = sum_list ?s" using fold_add64 [of 0 ?s] s(4) by simp
  have fr: "cchunks (chk_free cb0) = []" by (simp add: chk_free_def chk_clear_def)
  from init_chunks [OF s fr, of cb0 ?adr] obtain o1 where
    o1: "(if common_size ?s = -1 then chk_init_var_size ?adr ?s (chk_free cb0)
          else chk_init_fixed_size ?adr (fold add64 ?s 0) (nat (common_size ?s)) (chk_free cb0)) = Inr o1"
      "chunk_target ?adr ?s o1" "cbase o1 = None" "cchunks o1 = replicate (length ?s) None" by (auto simp: chk_free_def)
  have caps: "ccapacity o1 = sum_list ?s" "chk_inv o1" "chunk_caps o1 = ?s" "addressing o1 = ?adr" "cbsize o1 = 0"
    using o1(2) by (auto simp: chunk_target_def chk_inv_def)
  show ?thesis
  proof (cases "True \<in> set skips")
    case False
    then have adr: "?adr = CONTIGUOUS" by simp
    obtain D where D: "malloc al (sum_list ?s) = Some D" "length D = sum_list ?s" using alloc_total_malloc [OF assms(6)] by blast
    let ?o2 = "o1\<lparr>cbase := Some D\<rparr>"
    have o2: "chk_set_contiguous (Some D) o1 = Inr ?o2" using caps(4) False o1(4) assms(2) by (simp add: chk_set_contiguous_def)
    have tgt: "chunk_target CONTIGUOUS ?s ?o2"
      using caps False D(2) by (simp add: chunk_target_def chk_inv_def)
    have sk: "\<not> skips ! i" if "i < length datas" for i using False that assms(8) by (metis nth_mem)
    have all: "\<forall>i < length ?s. length (datas ! i) = ?s ! i \<and> chunk_undo fs al gbs i (datas ! i) (cs ! i) \<and> info_of (cs ! i) False (infos ! i)"
      using assms(9) cs(2) sk by auto
    have base: "cbase ?o2 = Some D" and lD: "length D < 2 ^ 63" using D(2) s(4) by simp_all
    have "foldR (filter_chunk_reverse fs al gbs True) ?o2 (zip [0..<length infos] infos)
        = Inr (?o2\<lparr>cbase := Some (overwrite D 0 (concat datas))\<rparr>)"
      using unfilter_contiguous [OF tgt base D(2) lD _ _ _ all, of "length datas"] cs(1) assms(7) by simp
    moreover have "overwrite D 0 (concat datas) = concat datas" using D(2) by (simp add: overwrite_def length_concat)
    ultimately have "filter_chunks_reverse fs al gbs infos (chk_free cb0) (True \<notin> set skips)
        = chk_set_size (ccapacity o1) (o1\<lparr>cbase := Some (concat datas)\<rparr>)"
      unfolding filter_chunks_reverse_def Let_def sizes adr o1(1) [unfolded adr]
      using o2 D(1) total False by simp
    then have "filter_chunks_reverse fs al gbs infos (chk_free cb0) (True \<notin> set skips)
        = Inr (o1\<lparr>cbase := Some (concat datas), cbsize := ccapacity o1\<rparr>)" by (simp add: chk_set_size_def)
    moreover have "restored datas skips (o1\<lparr>cbase := Some (concat datas), cbsize := ccapacity o1\<rparr>)"
      using caps False by (simp add: restored_def chk_inv_def length_concat)
    ultimately show ?thesis by blast
  next
    case True
    then have adr: "?adr = DISCRETE" by simp
    have all: "\<forall>i < length ?s. length (datas ! i) = ?s ! i \<and> chunk_undo fs al gbs i (datas ! i) (cs ! i) \<and> info_of (cs ! i) (skips ! i) (infos ! i)"
      using assms(9) cs(2) by auto
    have tgt: "chunk_target DISCRETE ?s o1" using o1(2) True by simp
    from unfilter_discrete [OF tgt o1(4) assms(6) _ _ _ all, of "length datas"] cs(1) assms(7) obtain chs where
      chs: "foldR (filter_chunk_reverse fs al gbs False) o1 (zip [0..<length infos] infos) = Inr (o1\<lparr>cchunks := chs\<rparr>)"
        "length chs = length datas" "\<forall>i < length datas. chs ! i = (if skips ! i then None else Some (datas ! i))" by auto
    have "filter_chunks_reverse fs al gbs infos (chk_free cb0) (True \<notin> set skips)
        = chk_set_size (ccapacity o1) (o1\<lparr>cchunks := chs\<rparr>)"
      unfolding filter_chunks_reverse_def Let_def sizes adr o1(1) [unfolded adr]
      using chs(1) True by simp
    then have "filter_chunks_reverse fs al gbs infos (chk_free cb0) (True \<notin> set skips)
        = Inr (o1\<lparr>cchunks := chs, cbsize := ccapacity o1\<rparr>)" by (simp add: chk_set_size_def)
    moreover have "list_all2 chunk_fits chs ?s" using chs(2,3) by (auto simp: list_all2_conv_all_nth chunk_fits_def)
    then have "restored datas skips (o1\<lparr>cchunks := chs, cbsize := ccapacity o1\<rparr>)"
      using caps True chs(2,3) assms(2) caps_cchunks [of chs o1] o1(4)
      by (auto simp: restored_def chk_inv_def)
    ultimately show ?thesis by blast
  qed
qed

section \<open>Unfiltering a tile\<close>

text \<open>A filtered buffer with one record for each chunk of the given data.\<close>

definition filtered_as :: "runs list \<Rightarrow> allocator \<Rightarrow> (nat \<Rightarrow> nat \<Rightarrow> nat \<Rightarrow> buffer) \<Rightarrow> byte list list \<Rightarrow> buffer \<Rightarrow> bool" where
  "filtered_as fs al gbs datas b \<longleftrightarrow> buffer_inv b \<and> bsize b < 2 ^ 63 \<and> cap (bdata b) < 2 ^ 63 \<and> 0 < alloced_size b
     \<and> (\<exists>cs. buffer_bytes b = le64 (length datas) @ concat (map chunk_enc cs) \<and> list_all chunk_small cs \<and> undo_all fs al gbs datas cs)
     \<and> datas \<noteq> [] \<and> [] \<notin> set datas \<and> length datas < 2 ^ 31
     \<and> list_all (\<lambda>d. length d < 2 ^ 28) datas \<and> length (concat datas) < 2 ^ 63"

lemma read64_front:
  assumes "buffer_inv b" and "bsize b < 2 ^ 63" and "buffer_bytes b = le64 n @ post" and "n < 2 ^ 31"
  shows "buffer_read 8 (buffer_reset_offset b) = Inr (le64 n, b\<lparr>boffset := 8\<rparr>)" and "unat (of_le (le64 n) :: 64 word) = n"
proof -
  let ?b = "b\<lparr>boffset := 0\<rparr>"
  have len: "bsize b = 8 + length post" using assms(1,3) length_buffer_bytes [of b] by simp
  have "buffer_source ?b" using assms(1,2) len by (simp add: buffer_source_def buffer_inv_def)
  moreover have "buffer_rest ?b = le64 n @ post" using assms(3) by (simp add: buffer_rest_def)
  ultimately obtain b' where rd: "buffer_read 8 ?b = Inr (le64 n, b')" using bsource.get_front [of ?b "le64 n" post 8] by auto
  then have "b' = buffer_advance_offset 8 ?b" by (auto simp: buffer_read_def bindR_Inr split: if_splits)
  then show "buffer_read 8 (buffer_reset_offset b) = Inr (le64 n, b\<lparr>boffset := 8\<rparr>)"
    using rd len by (simp add: buffer_advance_offset_def buffer_reset_offset_def add64_def)
  show "unat (of_le (le64 n) :: 64 word) = n" using assms(4) by (simp add: of_le_le_bytes unat_of_nat take_bit_nat_eq_self_iff)
qed

lemma run_reverse_restored:
  assumes "filtered_as fs al gbs datas (filtered_buffer t)" and "alloc_total al" and "tchunked t = Some (chk_free cb0)"
    and "dim_num t = 0" and "run_skips skip_fn s0 (map length datas) = Inr skips"
  shows "\<exists>b cb. run_reverse_internal fs al gbs uc skip_fn s0 t = Inr (t\<lparr>filtered_buffer := b, tchunked := Some cb\<rparr>)
           \<and> restored datas skips cb \<and> alloced_size b = 0"
proof -
  let ?b = "filtered_buffer t"
  from assms(1) obtain cs where
    b: "buffer_inv ?b" "bsize ?b < 2 ^ 63" "cap (bdata ?b) < 2 ^ 63" "buffer_bytes ?b = le64 (length datas) @ concat (map chunk_enc cs)"
    and cs: "list_all chunk_small cs" "undo_all fs al gbs datas cs"
    and ds: "datas \<noteq> []" "[] \<notin> set datas" "length datas < 2 ^ 31" "list_all (\<lambda>d. length d < 2 ^ 28) datas" "length (concat datas) < 2 ^ 63"
    by (auto simp: filtered_as_def)
  have len: "length cs = length datas" using cs(2) by (simp add: undo_all_def)
  have "map fst cs = map length datas"
    by (rule nth_equalityI) (use cs(2) in \<open>simp_all add: undo_all_def\<close>)
  then have sk: "run_skips skip_fn s0 (map fst cs) = Inr skips" using assms(5) by simp
  note rd = read64_front [OF b(1,2,4) ds(3)]
  from read_chunk_infos [OF b(1-4) cs(1) sk, of True "[]" 0] obtain infos s' where
    r: "foldR (read_chunk_info skip_fn) (?b\<lparr>boffset := 8\<rparr>, s0, True, []) [0..<length datas]
          = Inr (?b\<lparr>boffset := bsize ?b\<rparr>, s', True \<notin> set skips, infos)"
      "length infos = length datas" "length skips = length datas" "\<forall>j < length datas. info_of (cs ! j) (skips ! j) (infos ! j)"
    by (auto simp: len)
  from filter_chunks_reverse_restored [OF cs(2) ds(1,2,4,5) assms(2) r(2,3,4), of cb0] obtain cb where
    cb: "filter_chunks_reverse fs al gbs infos (chk_free cb0) (True \<notin> set skips) = Inr cb" "restored datas skips cb" by blast
  have "run_reverse_internal fs al gbs uc skip_fn s0 t
      = Inr (t\<lparr>filtered_buffer := buffer_clear (?b\<lparr>boffset := bsize ?b\<rparr>), tchunked := Some cb\<rparr>)"
    using assms(3,4) rd r(1) cb(1)
    by (simp add: run_reverse_internal_def with_chunked_def chk_free_def chk_clear_def Let_def tile_stores_coords_def)
  moreover have "alloced_size (buffer_clear (?b\<lparr>boffset := bsize ?b\<rparr>)) = 0" by (simp add: buffer_clear_def)
  ultimately show ?thesis using cb(2) by blast
qed

lemma filtered_as_forward:
  assumes "filter_chunks_forward fs al gbs cb b = Inr b'" and "chunk_source cb" and "fresh_buffer b" and "0 < cbsize cb"
    and "all_filters fs" and "small_blocks al" and "\<forall>i. small_pools (gbs i)" and "length fs \<le> 14"
    and "alloc_total al'" and "\<forall>i. small_pools (gbs' i)"
  shows "\<exists>m. m \<le> length (cchunks cb) \<and> concat (map (chunk_data cb) [0..<m]) = chk_bytes cb
           \<and> filtered_as fs al' gbs' (map (chunk_data cb) [0..<m]) b'"
proof -
  have inv: "chk_inv cb" "chk_filled cb" "length (cchunks cb) < 2 ^ 31" "list_all (\<lambda>c. c < 2 ^ 28) (chunk_caps cb)"
    using assms(2) by (simp_all add: chunk_source_def)
  from filter_chunks_forward_bytes [OF assms(1-3,5-8)] obtain m ios where
    io: "chunk_ios fs al gbs cb m ios" and b': "buffer_inv b'" "owns_data b'" "bsize b' < 2 ^ 28" "0 < alloced_size b'" "alloced_size b' < 2 ^ 28"
      "buffer_bytes b' = le64 m @ concat (map (io_enc cb) (zip [0..<m] ios))" by blast
  let ?d = "map (chunk_data cb) [0..<m]"
  define cs where "cs = map (\<lambda>i. (chunk_fill cb i, fb_bytes (fst (ios ! i)), fb_bytes (snd (ios ! i)))) [0..<m]"
  have io': "length ios = m" "m \<le> length (cchunks cb)" "\<forall>i < m. chunk_start cb i < cbsize cb" "concat ?d = chk_bytes cb"
    "\<forall>i < m. filter_chunk_forward fs al (gbs i) cb i = Inr (ios ! i)" "list_all io_small ios" using io by (simp_all add: chunk_ios_def)
  have lb: "length (chk_bytes cb) = cbsize cb" by (rule length_chk_bytes [OF inv(1,2)])
  have fill: "0 < chunk_fill cb i \<and> chunk_fill cb i < 2 ^ 28 \<and> length (chunk_data cb i) = chunk_fill cb i" if "i < m" for i
  proof -
    have i: "i < length (chunk_caps cb)" "chunk_start cb i < cbsize cb" using that io'(2,3) inv(1) by (auto simp: chk_inv_def)
    then have "chunk_caps cb ! i \<noteq> 0" using inv(1) by (metis chk_inv_def nth_mem)
    moreover have "chunk_caps cb ! i < 2 ^ 28" using inv(4) i(1) by (simp add: list_all_length)
    ultimately show ?thesis using i(2) lb by (auto simp: chunk_fill_def chunk_data_def slice_def)
  qed
  have undo: "chunk_undo fs al' gbs' i (chunk_data cb i) (chunk_fill cb i, fb_bytes (fst (ios ! i)), fb_bytes (snd (ios ! i)))" if "i < m" for i
  proof -
    have fw: "filter_chunk_forward fs al (gbs i) cb i = Inr (fst (ios ! i), snd (ios ! i))" using io'(5) that by simp
    have i: "i < length (cchunks cb)" "chunk_start cb i < cbsize cb" "small_pools (gbs i)" using that io'(2,3) assms(7) by auto
    from filter_chunk_forward_spec [OF fw assms(2) i(1,2) assms(5,6) i(3) assms(8)] obtain inp io where
      "filters_forward fs al (gbs i) 0 (chunk_io inp) = Inr io" "io_ok 0 (chunk_io inp)"
      "io_bytes (chunk_io inp) = ([], chunk_data cb i)" "io_bytes io = (fb_bytes (fst (ios ! i)), fb_bytes (snd (ios ! i)))" by blast
    from chunk_undo_forward [OF this assms(5,6) i(3) assms(8-10)] show ?thesis using fill [OF that] by simp
  qed
  have "map (io_enc cb) (zip [0..<m] ios) = map chunk_enc cs"
    by (rule nth_equalityI) (use io'(1) in \<open>simp_all add: cs_def io_enc_def\<close>)
  moreover have "list_all chunk_small cs"
    using io'(1,6) fill by (auto simp: list_all_length cs_def chunk_small_def io_small_def)
  moreover have "undo_all fs al' gbs' ?d cs" using undo fill by (simp add: undo_all_def cs_def)
  moreover have "m \<noteq> 0" using io'(4) lb assms(4) by (cases m) auto
  moreover have "cap (bdata b') = alloced_size b'" "alloced_size b' < 2 ^ 63" using b'(1,2,5) by (simp_all add: buffer_inv_def)
  moreover have "[] \<notin> set ?d" using fill by (force simp: image_iff)
  moreover have "cbsize cb < 2 ^ 63" using inv(1) by (simp add: chk_inv_def)
  ultimately have "filtered_as fs al' gbs' ?d b'"
    using b' io' inv(3) fill lb by (auto simp: filtered_as_def list_all_length)
  then show ?thesis using io'(2,4) by blast
qed

end
