(* ===== verification/Pipeline_Skips.thy ===== *)
theory Pipeline_Skips
  imports Pipeline_Tiles
begin

text \<open>
  Unfiltering for some ranges of cells only: which chunks \<open>skip_chunk_reversal_fixed\<close> and
  \<open>skip_chunk_reversal_var\<close> skip, and what can be read from the chunks that are left.
\<close>

section \<open>Reading from restored chunks\<close>

lemma sum_take_mono: "i \<le> j \<Longrightarrow> sum_list (take i xs) \<le> sum_list (take j (xs :: nat list))"
  using sum_take_le [of i "take j xs"] by (simp add: min_def)

lemma position_unique:
  fixes cs :: "nat list"
  assumes "sum_list (take i cs) + r = sum_list (take j cs) + r'" and "i < length cs" and "j < length cs"
    and "r < cs ! i" and "r' < cs ! j"
  shows "i = j" and "r = r'"
proof -
  have before: "sum_list (take a cs) + x < sum_list (take b cs)" if "a < b" "a < length cs" "x < cs ! a" for a b x
  proof -
    have "sum_list (take a cs) + cs ! a = sum_list (take (Suc a) cs)" using that(2) by (simp add: take_Suc_conv_app_nth)
    also have "\<dots> \<le> sum_list (take b cs)" using that(1) by (intro sum_take_mono) simp
    finally show ?thesis using that(3) by simp
  qed
  show "i = j" using before [of i j r] before [of j i r'] assms by (cases i j rule: linorder_cases) auto
  then show "r = r'" using assms(1) by simp
qed

lemma slice_concat:
  assumes "i < length ds" and "r + n \<le> length (ds ! i)"
  shows "slice (concat ds) (sum_list (take i (map length ds)) + r) n = slice (ds ! i) r n"
proof -
  have "ds = take i ds @ ds ! i # drop (Suc i) ds" using assms(1) by (rule id_take_nth_drop)
  then have "concat ds = concat (take i ds) @ ds ! i @ concat (drop (Suc i) ds)"
    by (metis concat.simps(2) concat_append)
  moreover have "length (concat (take i ds)) = sum_list (take i (map length ds))" by (simp add: length_concat take_map)
  ultimately show ?thesis using assms(2) by (simp add: slice_def add.commute)
qed

lemma restored_read:
  assumes "restored datas skips cb" and "i < length datas" and "length skips = length datas" and "\<not> skips ! i"
    and "0 < n" and "r + n \<le> length (datas ! i)"
  shows "chk_read n (sum_list (take i (map length datas)) + r) cb = Inr (slice (datas ! i) r n)"
proof -
  let ?off = "sum_list (take i (map length datas)) + r"
  have inv: "chk_inv cb" "chunk_caps cb = map length datas" "cbsize cb = ccapacity cb" "ccapacity cb = sum_list (map length datas)"
    "ccapacity cb < 2 ^ 63" "length (cchunks cb) = length datas"
    using assms(1) by (auto simp: restored_def chk_inv_def)
  have "sum_list (take i (map length datas)) + length (datas ! i) = sum_list (take (Suc i) (map length datas))"
    using assms(2) by (simp add: take_Suc_conv_app_nth)
  also have "\<dots> \<le> ccapacity cb" unfolding inv(4) by (rule sum_take_le)
  finally have fit: "?off + n \<le> ccapacity cb" "length (datas ! i) \<le> ccapacity cb" using assms(6) by simp_all
  show ?thesis
  proof (cases "True \<in> set skips")
    case False
    then have c: "addressing cb = CONTIGUOUS" "cbase cb = Some (concat datas)" using assms(1) by (simp_all add: restored_def)
    have "chk_read n ?off cb = Inr (slice (chk_bytes cb) ?off n)"
      by (rule chk_read_spec [OF inv(1)]) (use c fit inv(3) assms(5) in \<open>simp_all add: chk_filled_def\<close>)
    moreover have "chk_bytes cb = concat datas" using c inv(3,4) by (simp add: chk_bytes_def chk_memory_def length_concat)
    ultimately show ?thesis using slice_concat [OF assms(2,6)] by simp
  next
    case True
    then have c: "addressing cb = DISCRETE" "cchunks cb ! i = Some (datas ! i)" using assms(1,2,4) by (simp_all add: restored_def)
    obtain j r' where t: "translate_logical_offset ?off cb = Inr (j, r')" "j < length (cchunks cb)"
      "sum_list (take j (chunk_caps cb)) + r' = ?off" "r' < chunk_caps cb ! j"
      using translate_spec [OF inv(1), of ?off] fit assms(5) by auto
    have "j = i" "r' = r" using position_unique [of j "map length datas" r' i r] t inv(2,6) assms(2,5,6) by simp_all
    then have tr: "translate_logical_offset ?off cb = Inr (i, r)" using t(1) by simp
    have dr: "drop i (cchunks cb) = Some (datas ! i) # drop (Suc i) (cchunks cb)"
      using assms(2) inv(6) c(2) by (metis Cons_nth_drop_Suc)
    have gc: "get_chunk_capacity cb i = Inr (length (datas ! i))"
      using get_chunk_capacity_caps [OF inv(1)] inv(2,6) assms(2) by simp
    have mn: "min n (length (datas ! i) - r) = n" using assms(6) by simp
    have sb: "sub64 (length (datas ! i)) r = length (datas ! i) - r" using assms(6) fit inv(5) by (intro sub64_exact) simp_all
    have "chk_read_loop cb (Suc i) 0 0 (drop (Suc i) (cchunks cb)) = Inr []"
      by (cases "drop (Suc i) (cchunks cb)") simp_all
    then have "chk_read_loop cb i r n (drop i (cchunks cb)) = Inr (slice (datas ! i) r n)"
      using assms(5,6) dr gc mn sb by (simp add: mem_read_exact)
    moreover have "add64 ?off n = ?off + n" using fit inv(5) by (intro add64_exact) simp
    ultimately show ?thesis using tr c(1) fit inv(3) by (simp add: chk_read_def)
  qed
qed

section \<open>Chunks of cells of one size\<close>

text \<open>
  The ranges are what the interface asks for: each has a cell, none meets another, and they ascend. A
  range meets a chunk of the cells from \<open>a\<close> up to \<open>b\<close> when they share a cell.
\<close>

definition ranges_ok :: "(nat \<times> nat) list \<Rightarrow> bool" where
  "ranges_ok rs \<longleftrightarrow> sorted_wrt (\<lambda>r r'. snd r \<le> fst r') rs \<and> list_all (\<lambda>r. fst r < snd r \<and> snd r < 2 ^ 64) rs"

definition meets :: "nat \<Rightarrow> nat \<Rightarrow> (nat \<times> nat) list \<Rightarrow> bool" where
  "meets a b rs \<longleftrightarrow> list_ex (\<lambda>r. fst r < b \<and> a < snd r) rs"

lemma ranges_ok_Cons:
  "ranges_ok (r # rs) \<longleftrightarrow> fst r < snd r \<and> snd r < 2 ^ 64 \<and> list_all (\<lambda>r'. snd r \<le> fst r') rs \<and> ranges_ok rs"
  by (auto simp: ranges_ok_def list_all_iff)

lemma skip_common_spec:
  assumes "ranges_ok rs" and "a < b"
  shows "\<exists>rs'. skip_chunk_reversal_common a (b - 1) rs = (\<not> meets a b rs, rs') \<and> ranges_ok rs'
           \<and> (\<forall>x y. a \<le> x \<longrightarrow> meets x y rs' = meets x y rs)"
  using assms(1)
proof (induction rs)
  case Nil
  then show ?case by (simp add: meets_def)
next
  case (Cons r rs)
  have r: "fst r < snd r" "snd r < 2 ^ 64" "ranges_ok rs" "\<And>r'. r' \<in> set rs \<Longrightarrow> snd r \<le> fst r'"
    using Cons.prems by (auto simp: ranges_ok_Cons list_all_iff)
  have sub: "sub64 (snd r) 1 = snd r - 1" using r(1,2) by (intro sub64_exact) simp_all
  consider "b - 1 < fst r" | "\<not> b - 1 < fst r" "a \<le> snd r - 1" | "\<not> b - 1 < fst r" "\<not> a \<le> snd r - 1" by blast
  then show ?case
  proof cases
    case 1
    have "b \<le> fst r'" if "r' \<in> set rs" for r' using r(1) r(4) [OF that] 1 assms(2) by linarith
    then have "\<not> meets a b (r # rs)" using 1 assms(2) by (force simp: meets_def list_ex_iff)
    then show ?thesis using 1 Cons.prems sub by simp
  next
    case 2
    then have "meets a b (r # rs)" using r(1) assms(2) by (auto simp: meets_def)
    then show ?thesis using 2 Cons.prems sub by simp
  next
    case 3
    then have "meets x y (r # rs) = meets x y rs" if "a \<le> x" for x y using that r(1) by (auto simp: meets_def)
    then show ?thesis using 3 sub Cons.IH [OF r(3)] assms(2) by auto
  qed
qed

text \<open>
  The decisions for all chunks: \<open>cell_start\<close> is the first cell of a chunk, in a tile whose chunks have
  the given sizes in bytes.
\<close>

definition cell_start :: "nat \<Rightarrow> nat list \<Rightarrow> nat \<Rightarrow> nat" where
  "cell_start csz sizes i = sum_list (take i sizes) div csz"

definition whole_cells :: "nat \<Rightarrow> nat list \<Rightarrow> bool" where
  "whole_cells csz sizes \<longleftrightarrow> 0 < csz \<and> list_all (\<lambda>s. 0 < s \<and> csz dvd s) sizes \<and> sum_list sizes < 2 ^ 63"

lemma skips_loop:
  assumes "whole_cells csz sizes" and "ranges_ok rs" and "c + sum_list sizes < 2 ^ 64"
  shows "\<exists>skips. run_skips (Some (skip_chunk_reversal_fixed False csz)) (c, rs) sizes = Inr skips \<and> length skips = length sizes
           \<and> (\<forall>i < length sizes. skips ! i \<longleftrightarrow> \<not> meets (c + cell_start csz sizes i) (c + cell_start csz sizes (Suc i)) rs)"
  using assms
proof (induction sizes arbitrary: c rs)
  case (Cons s sizes)
  have s: "0 < csz" "0 < s" "csz dvd s" "whole_cells csz sizes" using Cons.prems(1) by (auto simp: whole_cells_def)
  define n where "n = s div csz"
  have n: "n \<le> s" "s = n * csz" using s(3) by (simp_all add: n_def)
  then have n0: "0 < n" using s(2) by (cases n) simp_all
  have "add64 c n = c + n" using n(1) Cons.prems(3) by (intro add64_exact) simp
  moreover have "sub64 (c + n) 1 = c + n - 1" using n0 n(1) Cons.prems(3) by (intro sub64_exact) simp_all
  moreover obtain rs' where rs': "skip_chunk_reversal_common c (c + n - 1) rs = (\<not> meets c (c + n) rs, rs')" "ranges_ok rs'"
    "\<And>x y. c \<le> x \<Longrightarrow> meets x y rs' = meets x y rs"
    using skip_common_spec [OF Cons.prems(2), of c "c + n"] n0 by auto
  moreover have "s mod csz = 0" "\<not> s < csz" using s(2,3) by (auto dest: dvd_imp_le)
  ultimately have step: "skip_chunk_reversal_fixed False csz s (c, rs) = Inr (\<not> meets c (c + n) rs, c + n, rs')"
    using s(1) by (simp add: skip_chunk_reversal_fixed_def n_def Let_def)
  have "c + n + sum_list sizes < 2 ^ 64" using Cons.prems(3) n(1) by simp
  from Cons.IH [OF s(4) rs'(2) this] obtain skips where
    sk: "run_skips (Some (skip_chunk_reversal_fixed False csz)) (c + n, rs') sizes = Inr skips" "length skips = length sizes"
      "\<forall>i < length sizes. skips ! i \<longleftrightarrow> \<not> meets (c + n + cell_start csz sizes i) (c + n + cell_start csz sizes (Suc i)) rs'"
    by blast
  have cs: "cell_start csz (s # sizes) (Suc i) = n + cell_start csz sizes i" for i
    using s(1) n(2) by (simp add: cell_start_def add.commute)
  have "cell_start csz (s # sizes) 0 = 0" by (simp add: cell_start_def)
  moreover have "cell_start csz (s # sizes) (Suc 0) = n" using cs [of 0] by (simp add: cell_start_def)
  ultimately have "\<forall>i < length (s # sizes). ((\<not> meets c (c + n) rs) # skips) ! i
      \<longleftrightarrow> \<not> meets (c + cell_start csz (s # sizes) i) (c + cell_start csz (s # sizes) (Suc i)) rs"
    using sk(3) rs'(3) by (auto simp: nth_Cons cs add.assoc split: nat.splits)
  then show ?case using step sk by (intro exI [of _ "(\<not> meets c (c + n) rs) # skips"]) simp
qed simp

section \<open>Chunks of cells of variable size\<close>

text \<open>The offsets of the cells, and the cell that a byte belongs to.\<close>

definition offsets_ok :: "nat list \<Rightarrow> bool" where
  "offsets_ok d \<longleftrightarrow> d \<noteq> [] \<and> hd d = 0 \<and> sorted d \<and> list_all (\<lambda>x. x < 2 ^ 63) d \<and> length d < 2 ^ 63"

definition in_cell :: "nat list \<Rightarrow> nat \<Rightarrow> nat \<Rightarrow> bool" where
  "in_cell d k b \<longleftrightarrow> k < length d \<and> d ! k \<le> b \<and> (Suc k < length d \<longrightarrow> b < d ! Suc k)"

text \<open>The cells counted so far and the bytes of the chunks so far.\<close>

definition counted :: "nat list \<Rightarrow> nat \<Rightarrow> nat \<Rightarrow> bool" where
  "counted d p S \<longleftrightarrow> (if p < length d then d ! p \<le> S \<and> (Suc p < length d \<longrightarrow> S \<le> d ! Suc p)
                      else p = length d \<and> d ! (p - 1) \<le> S)"

declare count_cells.simps [simp del]

lemma count_cells_spec:
  assumes "offsets_ok d" and "counted d p S" and "p + t < length d" and "0 < L"
    and "t = 0 \<and> z = 0 \<or> t \<noteq> 0 \<and> z = d ! (p + t) - S"
  shows "\<exists>t' z'. count_cells d L p S t z = Inr (t', z') \<and> t \<le> t' \<and> 0 < t' \<and> p + t' \<le> length d
           \<and> (if p + t' < length d then S + L \<le> d ! (p + t') \<and> z' = d ! (p + t') - S else z' = L)
           \<and> (t' = t \<or> d ! (p + t' - 1) < S + L)"
  using assms
proof (induction d L p S t z rule: count_cells.induct)
  case (1 d L p S t z)
  have srt: "sorted d" "\<And>i. i < length d \<Longrightarrow> d ! i < 2 ^ 63" using "1.prems"(1) by (auto simp: offsets_ok_def list_all_length)
  show ?case
  proof (cases "z < L")
    case False
    then have "t \<noteq> 0" "z = d ! (p + t) - S" using "1.prems"(4,5) by auto
    then have "count_cells d L p S t z = Inr (t, z)" "S + L \<le> d ! (p + t)"
      using False "1.prems"(4) by (simp add: count_cells.simps, linarith)
    then show ?thesis using \<open>t \<noteq> 0\<close> \<open>z = d ! (p + t) - S\<close> "1.prems"(3)
      by - (rule exI [of _ t], rule exI [of _ z], simp)
  next
    case True
    have prev: "d ! (p + t) < S + L"
      using "1.prems"(2,3,5) True by (auto simp: counted_def split: if_splits)
    show ?thesis
    proof (cases "p + 1 + t = length d")
      case True
      then have "count_cells d L p S t z = Inr (t + 1, L)" using \<open>z < L\<close> by (simp add: count_cells.simps)
      moreover have "length d - Suc 0 = p + t" using True by simp
      ultimately show ?thesis using True prev by - (rule exI [of _ "t + 1"], rule exI [of _ L], simp)
    next
      case False
      then have lt: "p + 1 + t < length d" using "1.prems"(3) by simp
      have "S \<le> d ! (p + 1)" using "1.prems"(2) lt by (auto simp: counted_def split: if_splits)
      also have "\<dots> \<le> d ! (p + 1 + t)" using srt(1) lt by (intro sorted_nth_mono) simp_all
      finally have "sub64 (d ! (p + 1 + t)) S = d ! (p + 1 + t) - S" using srt(2) [OF lt] by (intro sub64_exact) simp_all
      then have rec: "count_cells d L p S t z = count_cells d L p S (t + 1) (d ! (p + (t + 1)) - S)"
        using True lt by (subst count_cells.simps) (simp add: Let_def add.commute add.left_commute)
      from "1.IH" [OF True refl False] lt \<open>sub64 _ _ = _\<close> "1.prems"(1,2,4)
      obtain t' z' where "count_cells d L p S (t + 1) (d ! (p + (t + 1)) - S) = Inr (t', z')" "t + 1 \<le> t'" "p + t' \<le> length d"
        "if p + t' < length d then S + L \<le> d ! (p + t') \<and> z' = d ! (p + t') - S else z' = L"
        "t' = t + 1 \<or> d ! (p + t' - 1) < S + L" by (auto simp: add.commute add.left_commute)
      moreover from this have "d ! (p + t' - 1) < S + L" using prev by auto
      ultimately show ?thesis using rec by - (rule exI [of _ t'], rule exI [of _ z'], simp)
    qed
  qed
qed

lemma in_cell_after:
  assumes "offsets_ok d" and "in_cell d k b" and "p < length d" and "d ! p \<le> b"
  shows "p \<le> k"
proof (rule ccontr)
  assume "\<not> p \<le> k"
  then have k: "Suc k \<le> p" by simp
  then have "b < d ! Suc k" using assms(2,3) by (simp add: in_cell_def)
  also have "\<dots> \<le> d ! p" using assms(1,3) k by (intro sorted_nth_mono) (simp_all add: offsets_ok_def)
  finally show False using assms(4) by simp
qed

lemma in_cell_before:
  assumes "offsets_ok d" and "in_cell d k b" and "p < length d" and "b < d ! p"
  shows "k < p"
proof (rule ccontr)
  assume "\<not> k < p"
  then have "d ! p \<le> d ! k" using assms(1,2) by (intro sorted_nth_mono) (simp_all add: offsets_ok_def in_cell_def)
  then show False using assms(2,4) by (simp add: in_cell_def)
qed

text \<open>
  One chunk that starts at byte \<open>B\<close>: the cells looked up are all that have a byte in it. After the last
  offset the code no longer counts the bytes.
\<close>

definition var_state :: "nat list \<Rightarrow> nat \<Rightarrow> nat \<times> nat \<times> (nat \<times> nat) list \<Rightarrow> bool" where
  "var_state d B st \<longleftrightarrow> (case st of (p, S, rs) \<Rightarrow> counted d p B \<and> ranges_ok rs \<and> (p < length d \<longrightarrow> S = B))"

abbreviation first_cell :: "nat list \<Rightarrow> nat \<Rightarrow> nat" where
  "first_cell d p \<equiv> min p (length d - 1)"

lemma meets_cell: "meets k (Suc k) rs \<Longrightarrow> a \<le> k \<Longrightarrow> k < b \<Longrightarrow> meets a b rs"
  by (force simp: meets_def list_ex_iff less_Suc_eq_le)

lemma skip_var_last:
  assumes "offsets_ok d" and "var_state d B (p, S, rs)" and "\<not> p < length d"
  shows "\<exists>rs'. skip_chunk_reversal_var False d L (p, S, rs) = Inr (\<not> meets (p - 1) p rs, p, S, rs')
           \<and> var_state d (B + L) (p, S, rs') \<and> (\<forall>x y. p - 1 \<le> x \<longrightarrow> meets x y rs' = meets x y rs)
           \<and> (\<forall>b k. B \<le> b \<longrightarrow> in_cell d k b \<longrightarrow> k = p - 1)"
proof -
  have n: "0 < length d" "length d < 2 ^ 63" using assms(1) by (simp_all add: offsets_ok_def)
  have p: "p = length d" "d ! (p - 1) \<le> B" and rs: "ranges_ok rs"
    using assms(2,3) by (auto simp: var_state_def counted_def)
  have sub: "sub64 p 1 = p - 1" using p(1) n by (intro sub64_exact) (auto simp: Suc_le_eq)
  obtain rs' where rs': "skip_chunk_reversal_common (p - 1) (p - 1) rs = (\<not> meets (p - 1) p rs, rs')" "ranges_ok rs'"
    "\<forall>x y. p - 1 \<le> x \<longrightarrow> meets x y rs' = meets x y rs" using skip_common_spec [OF rs, of "p - 1" p] p(1) n by auto
  have "k = p - 1" if "B \<le> b" "in_cell d k b" for b k
  proof -
    have "p - 1 \<le> k" using in_cell_after [OF assms(1) that(2), of "p - 1"] that(1) p n by simp
    moreover have "k < p" using that(2) p(1) by (simp add: in_cell_def)
    ultimately show ?thesis by linarith
  qed
  moreover have "var_state d (B + L) (p, S, rs')" using p rs'(2) by (simp add: var_state_def counted_def)
  moreover have "skip_chunk_reversal_var False d L (p, S, rs) = Inr (\<not> meets (p - 1) p rs, p, S, rs')"
    using p(1) sub rs'(1) by (simp add: skip_chunk_reversal_var_def)
  ultimately show ?thesis using rs'(3) by blast
qed

lemma skip_var_more:
  assumes "offsets_ok d" and "var_state d B (p, S, rs)" and "p < length d" and "0 < L" and "B + L < 2 ^ 63"
  shows "\<exists>t p' rs'. skip_chunk_reversal_var False d L (p, S, rs) = Inr (\<not> meets p (p + t) rs, p', B + L, rs')
           \<and> var_state d (B + L) (p', B + L, rs') \<and> p \<le> p' \<and> (\<forall>x y. p \<le> x \<longrightarrow> meets x y rs' = meets x y rs)
           \<and> (\<forall>b k. B \<le> b \<longrightarrow> b < B + L \<longrightarrow> in_cell d k b \<longrightarrow> p \<le> k \<and> k < p + t)"
proof -
  have n: "length d < 2 ^ 63" using assms(1) by (simp add: offsets_ok_def)
  have c: "counted d p B" and S: "S = B" and rs: "ranges_ok rs" using assms(2,3) by (simp_all add: var_state_def)
  from count_cells_spec [OF assms(1) c _ assms(4), of 0 0] assms(3) obtain t z where
    t: "count_cells d L p B 0 0 = Inr (t, z)" "0 < t" "p + t \<le> length d"
      "if p + t < length d then B + L \<le> d ! (p + t) \<and> z = d ! (p + t) - B else z = L" "d ! (p + t - 1) < B + L"
    by auto
  have add: "add64 p t = p + t" "add64 B L = B + L" using t(3) n assms(5) by (simp_all add: add64_exact)
  have sub: "sub64 (p + t) 1 = p + t - 1" using t(2,3) n by (intro sub64_exact) simp_all
  obtain rs' where rs': "skip_chunk_reversal_common p (p + t - 1) rs = (\<not> meets p (p + t) rs, rs')" "ranges_ok rs'"
    "\<forall>x y. p \<le> x \<longrightarrow> meets x y rs' = meets x y rs" using skip_common_spec [OF rs, of p "p + t"] t(2) by auto
  define p' where "p' = (if z > L then p + t - 1 else p + t)"
  have "skip_chunk_reversal_var False d L (p, S, rs) = Inr (\<not> meets p (p + t) rs, p', B + L, rs')"
    using assms(3) t(1) S add sub rs'(1) by (simp add: skip_chunk_reversal_var_def p'_def Let_def)
  moreover have "counted d p' (B + L)"
  proof (cases "p + t < length d")
    case True
    then have z: "B + L \<le> d ! (p + t)" "z = d ! (p + t) - B" using t(4) by simp_all
    show ?thesis
    proof (cases "z > L")
      case True
      moreover have "Suc (p + t - 1) = p + t" using t(2) by simp
      ultimately show ?thesis using t(5) z \<open>p + t < length d\<close> by (simp add: counted_def p'_def)
    next
      case False
      then have "d ! (p + t) = B + L" using z by linarith
      moreover have "d ! (p + t) \<le> d ! Suc (p + t)" if "Suc (p + t) < length d"
        using assms(1) that by (intro sorted_nth_mono) (simp_all add: offsets_ok_def)
      ultimately show ?thesis using False True by (simp add: counted_def p'_def)
    qed
  next
    case False
    then show ?thesis using t(3-5) by (simp add: counted_def p'_def)
  qed
  then have "var_state d (B + L) (p', B + L, rs')" using rs'(2) by (simp add: var_state_def)
  moreover have "p \<le> p'" using t(2) by (auto simp: p'_def)
  moreover have "p \<le> k \<and> k < p + t" if "B \<le> b" "b < B + L" "in_cell d k b" for b k
  proof
    have "d ! p \<le> B" using c assms(3) by (simp add: counted_def)
    then show "p \<le> k" using in_cell_after [OF assms(1) that(3) assms(3)] that(1) by simp
    show "k < p + t"
      using in_cell_before [OF assms(1) that(3), of "p + t"] that t(3,4) by (cases "p + t < length d") (auto simp: in_cell_def)
  qed
  ultimately show ?thesis using rs'(3) by blast
qed

text \<open>All chunks: a chunk that holds a byte of a requested cell is not skipped.\<close>

lemma skip_var_step:
  assumes "offsets_ok d" and "var_state d B st" and "0 < L" and "B + L < 2 ^ 63"
  shows "\<exists>skip st'. skip_chunk_reversal_var False d L st = Inr (skip, st') \<and> var_state d (B + L) st'
           \<and> first_cell d (fst st) \<le> first_cell d (fst st')
           \<and> (\<forall>x y. first_cell d (fst st) \<le> x \<longrightarrow> meets x y (snd (snd st')) = meets x y (snd (snd st)))
           \<and> (\<forall>b k. B \<le> b \<longrightarrow> b < B + L \<longrightarrow> in_cell d k b \<longrightarrow> first_cell d (fst st) \<le> k \<and> (skip \<longrightarrow> \<not> meets k (Suc k) (snd (snd st))))"
proof -
  obtain p S rs where st: "st = (p, S, rs)" by (cases st)
  show ?thesis
  proof (cases "p < length d")
    case False
    have p: "first_cell d p = p - 1" "p - 1 < p" "p - Suc 0 \<le> length d - Suc 0" using False assms(1,2) by (auto simp: st var_state_def counted_def offsets_ok_def)
    from skip_var_last [OF assms(1) assms(2) [unfolded st] False, of L] obtain rs' where
      "skip_chunk_reversal_var False d L (p, S, rs) = Inr (\<not> meets (p - 1) p rs, p, S, rs')" "var_state d (B + L) (p, S, rs')"
      "\<forall>x y. p - 1 \<le> x \<longrightarrow> meets x y rs' = meets x y rs" "\<forall>b k. B \<le> b \<longrightarrow> in_cell d k b \<longrightarrow> k = p - 1" by blast
    moreover have "Suc (p - 1) = p" using p(2) by simp
    ultimately show ?thesis unfolding st fst_conv snd_conv p(1) using p(3)
      by - (rule exI [of _ "\<not> meets (p - 1) p rs"], rule exI [of _ "(p, S, rs')"], auto simp: p(1))
  next
    case True
    then have p: "first_cell d p = p" by simp
    from skip_var_more [OF assms(1) assms(2) [unfolded st] True assms(3,4)] obtain t p' rs' where
      "skip_chunk_reversal_var False d L (p, S, rs) = Inr (\<not> meets p (p + t) rs, p', B + L, rs')"
      "var_state d (B + L) (p', B + L, rs')" "p \<le> p'" "\<forall>x y. p \<le> x \<longrightarrow> meets x y rs' = meets x y rs"
      "\<forall>b k. B \<le> b \<longrightarrow> b < B + L \<longrightarrow> in_cell d k b \<longrightarrow> p \<le> k \<and> k < p + t" by blast
    moreover from this(5) have "\<forall>b k. B \<le> b \<longrightarrow> b < B + L \<longrightarrow> in_cell d k b \<longrightarrow>
        p \<le> k \<and> (\<not> meets p (p + t) rs \<longrightarrow> \<not> meets k (Suc k) rs)" using meets_cell by blast
    ultimately show ?thesis unfolding st fst_conv snd_conv p
      using True by - (rule exI [of _ "\<not> meets p (p + t) rs"], rule exI [of _ "(p', B + L, rs')"], simp)
  qed
qed

lemma skips_var_loop:
  assumes "offsets_ok d" and "var_state d B st" and "0 \<notin> set sizes" and "B + sum_list sizes < 2 ^ 63"
  shows "\<exists>skips. run_skips (Some (skip_chunk_reversal_var False d)) st sizes = Inr skips \<and> length skips = length sizes
           \<and> (\<forall>i b k. i < length sizes \<longrightarrow> B + sum_list (take i sizes) \<le> b \<longrightarrow> b < B + sum_list (take (Suc i) sizes) \<longrightarrow>
                in_cell d k b \<longrightarrow> first_cell d (fst st) \<le> k \<and> (skips ! i \<longrightarrow> \<not> meets k (Suc k) (snd (snd st))))"
  using assms
proof (induction sizes arbitrary: B st)
  case (Cons L sizes)
  have L: "0 < L" "B + L < 2 ^ 63" "0 \<notin> set sizes" "B + L + sum_list sizes < 2 ^ 63"
    using Cons.prems(3,4) by (auto intro: Nat.gr0I)
  from skip_var_step [OF Cons.prems(1,2) L(1,2)] obtain skip st' where
    st: "skip_chunk_reversal_var False d L st = Inr (skip, st')" "var_state d (B + L) st'"
      "first_cell d (fst st) \<le> first_cell d (fst st')"
      "\<forall>x y. first_cell d (fst st) \<le> x \<longrightarrow> meets x y (snd (snd st')) = meets x y (snd (snd st))"
      "\<forall>b k. B \<le> b \<longrightarrow> b < B + L \<longrightarrow> in_cell d k b \<longrightarrow> first_cell d (fst st) \<le> k \<and> (skip \<longrightarrow> \<not> meets k (Suc k) (snd (snd st)))"
    by blast
  from Cons.IH [OF Cons.prems(1) st(2) L(3,4)] obtain skips where
    sk: "run_skips (Some (skip_chunk_reversal_var False d)) st' sizes = Inr skips" "length skips = length sizes"
      "\<forall>i b k. i < length sizes \<longrightarrow> B + L + sum_list (take i sizes) \<le> b \<longrightarrow> b < B + L + sum_list (take (Suc i) sizes) \<longrightarrow>
         in_cell d k b \<longrightarrow> first_cell d (fst st') \<le> k \<and> (skips ! i \<longrightarrow> \<not> meets k (Suc k) (snd (snd st')))" by blast
  have "first_cell d (fst st) \<le> k \<and> ((skip # skips) ! i \<longrightarrow> \<not> meets k (Suc k) (snd (snd st)))"
    if h: "i < length (L # sizes)" "B + sum_list (take i (L # sizes)) \<le> b" "b < B + sum_list (take (Suc i) (L # sizes))" "in_cell d k b" for i b k
  proof (cases i)
    case 0
    then show ?thesis using st(5) h by simp
  next
    case (Suc j)
    then have "first_cell d (fst st') \<le> k \<and> (skips ! j \<longrightarrow> \<not> meets k (Suc k) (snd (snd st')))"
      using sk(3) [rule_format, of j b k] h by (simp add: add.assoc)
    moreover from this have "first_cell d (fst st) \<le> k" using st(3) by linarith
    ultimately show ?thesis using st(4) Suc by simp
  qed
  then show ?case using st(1) sk(1,2) by (intro exI [of _ "skip # skips"]) simp
qed simp

section \<open>Tiles\<close>

text \<open>
  A tile to filter: unfiltered, with at least one byte, no coordinates, and chunks within the bounds of
  \<open>chunk_source\<close>.
\<close>

definition tile_to_filter :: "tile \<Rightarrow> bool" where
  "tile_to_filter t \<longleftrightarrow> (\<exists>cb. tchunked t = Some cb \<and> chunk_source cb \<and> 0 < cbsize cb) \<and> fresh_buffer (filtered_buffer t) \<and> dim_num t = 0"

definition pools_ok :: "(nat \<Rightarrow> nat \<Rightarrow> nat \<Rightarrow> buffer) \<Rightarrow> bool" where
  "pools_ok gbs \<longleftrightarrow> (\<forall>i. small_pools (gbs i))"

definition tile_chunks :: "tile \<Rightarrow> byte list list" where
  "tile_chunks t = (case tchunked t of None \<Rightarrow> []
     | Some cb \<Rightarrow> filter (\<lambda>d. d \<noteq> []) (map (chunk_data cb) [0..<length (cchunks cb)]))"

lemma chunk_data_past:
  assumes "concat (map (chunk_data cb) [0..<m]) = chk_bytes cb" and "m \<le> i" and "i < length (cchunks cb)" and "chk_inv cb"
  shows "chunk_data cb i = []"
proof -
  have "concat (map (chunk_data cb) [0..<i]) = take (chunk_start cb i) (chk_bytes cb)"
    and "concat (map (chunk_data cb) [0..<m]) = take (chunk_start cb m) (chk_bytes cb)"
    using chunk_data_concat [OF assms(4)] assms(2,3) by simp_all
  moreover have "chunk_start cb m \<le> chunk_start cb i" by (rule sum_take_mono [OF assms(2)])
  ultimately have "length (chk_bytes cb) \<le> chunk_start cb i"
    using assms(1) by (metis le_trans nle_le take_all_iff)
  then show ?thesis by (simp add: chunk_data_def slice_def)
qed

lemma pipeline_forward_filtered:
  assumes "pipeline_run_forward fs al gbs t = Inr t1" and "tile_to_filter t" and "all_filters fs" and "length fs \<le> 14"
    and "small_blocks al" and "pools_ok gbs" and "alloc_total al'" and "pools_ok gbs'"
  shows "filtered_as fs al' gbs' (tile_chunks t) (filtered_buffer t1) \<and> concat (tile_chunks t) = tile_bytes t
    \<and> (\<exists>cb. tchunked t1 = Some (chk_free cb)) \<and> dim_num t1 = 0 \<and> tile_filtered t1 = Inr True \<and> cell_size t1 = cell_size t"
proof -
  from assms(2) obtain cb where cb: "tchunked t = Some cb" "chunk_source cb" "0 < cbsize cb"
    and b: "fresh_buffer (filtered_buffer t)" "dim_num t = 0" by (auto simp: tile_to_filter_def)
  from assms(1) cb(1) obtain b' where
    b': "filter_chunks_forward fs al gbs cb (filtered_buffer t) = Inr b'"
      "t1 = t\<lparr>filtered_buffer := b', tchunked := Some (chk_free cb)\<rparr>"
    by (auto simp: pipeline_run_forward_def with_chunked_def bindR_Inr)
  have pools: "\<forall>i. small_pools (gbs i)" "\<forall>i. small_pools (gbs' i)" using assms(6,8) by (simp_all add: pools_ok_def)
  from filtered_as_forward [OF b'(1) cb(2) b(1) cb(3) assms(3,5) pools(1) assms(4,7) pools(2)] obtain m where
    m: "m \<le> length (cchunks cb)" "concat (map (chunk_data cb) [0..<m]) = chk_bytes cb"
      "filtered_as fs al' gbs' (map (chunk_data cb) [0..<m]) b'" by blast
  have inv: "chk_inv cb" using cb(2) by (simp add: chunk_source_def)
  have "filter (\<lambda>d. d \<noteq> []) (map (chunk_data cb) [m..<length (cchunks cb)]) = []"
    using chunk_data_past [OF m(2) _ _ inv] by (auto simp: filter_empty_conv)
  moreover have "filter (\<lambda>d. d \<noteq> []) (map (chunk_data cb) [0..<m]) = map (chunk_data cb) [0..<m]"
    using m(3) by (auto simp: filtered_as_def image_iff filter_id_conv)
  moreover have "[0..<length (cchunks cb)] = [0..<m] @ [m..<length (cchunks cb)]" using m(1) by (metis le0 le_Suc_ex upt_add_eq_append)
  ultimately have "tile_chunks t = map (chunk_data cb) [0..<m]" using cb(1) by (simp add: tile_chunks_def)
  then show ?thesis using m(2,3) b' cb(1) b(2)
    by (auto simp: tile_bytes_def tile_filtered_def filtered_as_def chk_free_def chk_clear_def)
qed

lemma restored_bytes:
  assumes "restored datas (replicate (length datas) False) cb"
  shows "chk_bytes cb = concat datas"
proof -
  have c: "addressing cb = CONTIGUOUS" "cbase cb = Some (concat datas)" "cbsize cb = ccapacity cb" "ccapacity cb = sum_list (map length datas)"
    using assms by (simp_all add: restored_def chk_inv_def)
  then show ?thesis by (simp add: chk_bytes_def chk_memory_def length_concat)
qed

lemma pipeline_restores:
  assumes "pipeline_run_forward fs al gbs t = Inr t1" and "tile_to_filter t" and "all_filters fs" and "length fs \<le> 14"
    and "small_blocks al" and "pools_ok gbs" and "alloc_total al'" and "pools_ok gbs'"
  shows "\<exists>t2. pipeline_run_reverse fs al' gbs' uc None t1 = Inr t2 \<and> tile_bytes t2 = tile_bytes t \<and> tile_filtered t2 = Inr False"
proof -
  from pipeline_forward_filtered [OF assms] obtain cb where
    f: "filtered_as fs al' gbs' (tile_chunks t) (filtered_buffer t1)" "concat (tile_chunks t) = tile_bytes t"
      "tchunked t1 = Some (chk_free cb)" "dim_num t1 = 0" "tile_filtered t1 = Inr True" by blast
  have "run_skips None () (map length (tile_chunks t)) = Inr (replicate (length (tile_chunks t)) False)"
    using run_skips_None [of "()" "map length (tile_chunks t)"] by simp
  from run_reverse_restored [OF f(1) assms(7) f(3,4) this, of uc] obtain b cb' where
    r: "run_reverse_internal fs al' gbs' uc None () t1 = Inr (t1\<lparr>filtered_buffer := b, tchunked := Some cb'\<rparr>)"
      "restored (tile_chunks t) (replicate (length (tile_chunks t)) False) cb'" "alloced_size b = 0" by blast
  let ?t = "t1\<lparr>filtered_buffer := b, tchunked := Some cb'\<rparr>"
  have "pipeline_run_reverse fs al' gbs' uc None t1 = Inr ?t" using f(5) r(1) by (simp add: pipeline_run_reverse_def)
  moreover have "tile_bytes ?t = tile_bytes t" using restored_bytes [OF r(2)] f(2) by (simp add: tile_bytes_def)
  moreover have "tile_filtered ?t = Inr False" using r(3) by (simp add: tile_filtered_def)
  ultimately show ?thesis by blast
qed

lemma run_skips_no_filters:
  assumes "\<And>n s. f n s = Inr (False, s)"
  shows "run_skips (Some f) s ns = Inr (replicate (length ns) False)"
  by (induction ns) (simp_all add: assms)

text \<open>The chunk that a byte is in.\<close>

lemma byte_chunk:
  fixes cs :: "nat list"
  assumes "b < sum_list cs"
  shows "\<exists>i < length cs. sum_list (take i cs) \<le> b \<and> b < sum_list (take (Suc i) cs)"
  using assms
proof (induction cs arbitrary: b)
  case (Cons c cs)
  show ?case
  proof (cases "b < c")
    case True
    then show ?thesis by (intro exI [of _ 0]) simp
  next
    case False
    then have "b - c < sum_list cs" using Cons.prems by simp
    from Cons.IH [OF this] obtain i where "i < length cs" "sum_list (take i cs) \<le> b - c" "b - c < sum_list (take (Suc i) cs)"
      by blast
    then show ?thesis using False by (intro exI [of _ "Suc i"]) auto
  qed
qed simp

lemma read_unskipped:
  assumes "restored datas skips cb" and "length skips = length datas" and "i < length datas" and "\<not> skips ! i" and "0 < n"
    and "sum_list (take i (map length datas)) \<le> off" and "off + n \<le> sum_list (take (Suc i) (map length datas))"
  shows "chk_read n off cb = Inr (slice (concat datas) off n)"
proof -
  let ?s = "sum_list (take i (map length datas))"
  have fit: "off - ?s + n \<le> length (datas ! i)" and off: "?s + (off - ?s) = off"
    using assms(3,6,7) by (simp_all add: take_Suc_conv_app_nth)
  show ?thesis using restored_read [OF assms(1,3,2,4,5) fit] slice_concat [OF assms(3) fit] unfolding off by simp
qed

text \<open>With chunks of whole cells, a cell lies in one chunk.\<close>

lemma dvd_sum_take: "list_all (\<lambda>s. 0 < s \<and> csz dvd s) sizes \<Longrightarrow> csz dvd sum_list (take j sizes)" for csz :: nat
proof (induction sizes arbitrary: j)
  case (Cons s sizes)
  then show ?case by (cases j) auto
qed simp

lemma cell_chunk:
  assumes "whole_cells csz sizes" and "Suc c * csz \<le> sum_list sizes"
  shows "\<exists>i < length sizes. sum_list (take i sizes) \<le> c * csz \<and> c * csz + csz \<le> sum_list (take (Suc i) sizes)
           \<and> cell_start csz sizes i \<le> c \<and> c < cell_start csz sizes (Suc i)"
proof -
  have csz: "0 < csz" and dv: "csz dvd sum_list (take j sizes)" for j
    using assms(1) dvd_sum_take by (auto simp: whole_cells_def)
  have "c * csz < sum_list sizes" using assms(2) csz by simp
  from byte_chunk [OF this] obtain i where
    i: "i < length sizes" "sum_list (take i sizes) \<le> c * csz" "c * csz < sum_list (take (Suc i) sizes)" by blast
  obtain a b where ab: "sum_list (take i sizes) = csz * a" "sum_list (take (Suc i) sizes) = csz * b"
    using dv by (meson dvdE)
  have "a \<le> c" "c < b" using i(2,3) ab csz by (simp_all add: mult.commute)
  moreover from this have "csz * Suc c \<le> csz * b" by (intro mult_le_mono2) simp
  ultimately show ?thesis using i ab csz by (intro exI [of _ i]) (simp add: cell_start_def algebra_simps)
qed

text \<open>The chunks that were skipped, and only these, have no memory.\<close>

lemma restored_no_memory:
  assumes "restored ds skips cb" and "length skips = length ds" and "i < length ds"
  shows "chk_internal_buffer i cb = Inr None \<longleftrightarrow> skips ! i"
proof (cases "True \<in> set skips")
  case True
  have "length (cchunks cb) = length ds" using assms(1) by (auto simp: restored_def chk_inv_def)
  then show ?thesis using True assms by (simp add: restored_def chk_internal_buffer_def)
next
  case False
  then have "\<not> skips ! i" using assms(2,3) by (metis nth_mem)
  moreover have "addressing cb = CONTIGUOUS" "cbase cb = Some (concat ds)" using False assms(1) by (simp_all add: restored_def)
  ultimately show ?thesis by (simp add: chk_internal_buffer_def bindR_Inr)
qed

lemma pipeline_restores_ranges:
  assumes "pipeline_run_forward fs al gbs t = Inr t1" and "tile_to_filter t" and "all_filters fs" and "length fs \<le> 14"
    and "small_blocks al" and "pools_ok gbs" and "alloc_total al'" and "pools_ok gbs'"
    and "whole_cells (cell_size t) (map length (tile_chunks t))" and "ranges_ok rs"
  shows "\<exists>t2. pipeline_run_reverse fs al' gbs' uc (Some rs) t1 = Inr t2 \<and>
           (\<forall>c. meets c (Suc c) rs \<longrightarrow> Suc c * cell_size t \<le> length (tile_bytes t) \<longrightarrow>
              tile_read_at (cell_size t) (c * cell_size t) t2 = Inr (slice (tile_bytes t) (c * cell_size t) (cell_size t))) \<and>
           (\<forall>i < length (tile_chunks t). with_chunked (chk_internal_buffer i) t2 = Inr None \<longleftrightarrow> fs \<noteq> [] \<and>
              \<not> meets (cell_start (cell_size t) (map length (tile_chunks t)) i)
                      (cell_start (cell_size t) (map length (tile_chunks t)) (Suc i)) rs)"
proof -
  let ?ds = "tile_chunks t" and ?csz = "cell_size t"
  from pipeline_forward_filtered [OF assms(1-8)] obtain cb where
    f: "filtered_as fs al' gbs' ?ds (filtered_buffer t1)" "concat ?ds = tile_bytes t"
      "tchunked t1 = Some (chk_free cb)" "dim_num t1 = 0" "tile_filtered t1 = Inr True" "cell_size t1 = ?csz" by blast
  let ?sk = "skip_chunk_reversal_fixed (fs = []) ?csz"
  obtain skips where skips: "run_skips (Some ?sk) (0, rs) (map length ?ds) = Inr skips" "length skips = length ?ds"
    "\<forall>i < length ?ds. skips ! i \<longleftrightarrow> fs \<noteq> [] \<and> \<not> meets (cell_start ?csz (map length ?ds) i) (cell_start ?csz (map length ?ds) (Suc i)) rs"
  proof (cases "fs = []")
    case True
    then show thesis using that [of "replicate (length ?ds) False"] run_skips_no_filters [of ?sk "(0, rs)" "map length ?ds"]
      by (auto simp: skip_chunk_reversal_fixed_def)
  next
    case False
    have "0 + sum_list (map length ?ds) < 2 ^ 64" using assms(9) by (simp add: whole_cells_def)
    from skips_loop [OF assms(9,10) this] show thesis using that False by auto
  qed
  from run_reverse_restored [OF f(1) assms(7) f(3,4) skips(1), of uc] obtain b cb' where
    r: "run_reverse_internal fs al' gbs' uc (Some ?sk) (0, rs) t1 = Inr (t1\<lparr>filtered_buffer := b, tchunked := Some cb'\<rparr>)"
      "restored ?ds skips cb'" "alloced_size b = 0" by blast
  let ?t = "t1\<lparr>filtered_buffer := b, tchunked := Some cb'\<rparr>"
  have "tile_read_at ?csz (c * ?csz) ?t = Inr (slice (tile_bytes t) (c * ?csz) ?csz)"
    if "meets c (Suc c) rs" "Suc c * ?csz \<le> length (tile_bytes t)" for c
  proof -
    have "Suc c * ?csz \<le> sum_list (map length ?ds)" using that(2) f(2) by (metis length_concat)
    from cell_chunk [OF assms(9) this] obtain i where
      i: "i < length ?ds" "sum_list (take i (map length ?ds)) \<le> c * ?csz" "c * ?csz + ?csz \<le> sum_list (take (Suc i) (map length ?ds))"
        "cell_start ?csz (map length ?ds) i \<le> c" "c < cell_start ?csz (map length ?ds) (Suc i)" by auto
    have "\<not> skips ! i" using skips(3) i(1) meets_cell [OF that(1) i(4,5)] by blast
    moreover have "0 < ?csz" using assms(9) by (simp add: whole_cells_def)
    ultimately have "chk_read ?csz (c * ?csz) cb' = Inr (slice (concat ?ds) (c * ?csz) ?csz)"
      using read_unskipped [OF r(2) skips(2) i(1) _ _ i(2,3)] by simp
    then show ?thesis using f(2) r(3) by (simp add: tile_read_at_def assert_unfiltered_def tile_filtered_def with_chunked_def)
  qed
  moreover have "pipeline_run_reverse fs al' gbs' uc (Some rs) t1 = Inr ?t" using f(5,6) r(1) by (simp add: pipeline_run_reverse_def)
  moreover have "with_chunked (chk_internal_buffer i) ?t = Inr None \<longleftrightarrow> skips ! i" if "i < length ?ds" for i
    using restored_no_memory [OF r(2) skips(2) that] by (simp add: with_chunked_def)
  ultimately show ?thesis using skips(3) by blast
qed

text \<open>The offsets of the cells of a tile of variable-sized values, in one block.\<close>

definition offsets_tile :: "nat list \<Rightarrow> tile \<Rightarrow> bool" where
  "offsets_tile d t \<longleftrightarrow> alloced_size (filtered_buffer t) = 0
     \<and> (\<exists>cb. tchunked t = Some cb \<and> addressing cb = CONTIGUOUS \<and> chk_inv cb \<and> chk_filled cb)
     \<and> tile_bytes t = concat (map le64 d)"

lemma blocks_slice:
  assumes "i < length d" and "list_all (\<lambda>x. x < 2 ^ 63) d"
  shows "unat (of_le (slice (concat (map le64 d)) (8 * i) 8) :: 64 word) = d ! i"
proof -
  have "sum_list (take i (map length (map le64 d))) = 8 * i"
    using assms(1) by (simp add: comp_def map_replicate_const sum_list_replicate_nat)
  then have "slice (concat (map le64 d)) (8 * i) 8 = le64 (d ! i)"
    using slice_concat [of i "map le64 d" 0 8] assms(1) by (simp add: slice_def)
  moreover have "d ! i < 2 ^ 63" using assms by (simp add: list_all_length)
  ultimately show ?thesis by (simp add: of_le_le_bytes unat_of_nat take_bit_nat_eq_self_iff)
qed

lemma read_offsets_tile:
  assumes "offsets_tile d t" and "offsets_ok d"
  shows "\<exists>p. with_chunked chk_get_contiguous t = Inr p \<and> tile_size t = Inr (8 * length d)
           \<and> mem_read p 0 8 = Inr (le64 0) \<and> read_offsets p (length d) = Inr d"
proof -
  from assms(1) obtain cb where cb: "tchunked t = Some cb" "addressing cb = CONTIGUOUS" "chk_inv cb" "chk_filled cb"
    and t: "alloced_size (filtered_buffer t) = 0" "tile_bytes t = concat (map le64 d)" by (auto simp: offsets_tile_def)
  have d: "d \<noteq> []" "hd d = 0" "list_all (\<lambda>x. x < 2 ^ 63) d" using assms(2) by (simp_all add: offsets_ok_def)
  have bytes: "chk_bytes cb = concat (map le64 d)" using t(2) cb(1) by (simp add: tile_bytes_def)
  have len: "length (concat (map le64 d)) = 8 * length d"
    by (simp add: length_concat comp_def map_replicate_const sum_list_replicate_nat)
  have sz: "cbsize cb = 8 * length d" using length_chk_bytes [OF cb(3,4)] bytes len by simp
  then obtain D where D: "cbase cb = Some D" "take (8 * length d) D = concat (map le64 d)"
    using cb(2,4) d(1) bytes by (auto simp: chk_filled_def chk_bytes_def chk_memory_def)
  have "length (take (8 * length d) D) = 8 * length d" unfolding D(2) by (rule len)
  then have lD: "8 * length d \<le> length D" by simp
  have p: "with_chunked chk_get_contiguous t = Inr (Some D)"
    using cb D(1) chk_get_contiguous_base [of cb] by (simp add: with_chunked_def chk_inv_def)
  have rd: "mem_read (Some D) 0 (8 * length d) = Inr (concat (map le64 d))" using lD D(2) by (simp add: mem_read_def slice_def)
  have "8 \<le> 8 * length d" using d(1) by (cases d) simp_all
  then have "take 8 D = take 8 (take (8 * length d) D)" by simp
  also have "\<dots> = le64 0" unfolding D(2) using d(1,2) by (cases d) simp_all
  finally have first: "mem_read (Some D) 0 8 = Inr (le64 0)"
    using lD \<open>8 \<le> 8 * length d\<close> by (simp add: mem_read_def slice_def)
  have "map (\<lambda>i. unat (of_le (slice (concat (map le64 d)) (8 * i) 8) :: 64 word)) [0..<length d] = d"
    by (rule nth_equalityI) (use blocks_slice [OF _ d(3)] in simp_all)
  then have "read_offsets (Some D) (length d) = Inr d" using rd by (simp add: read_offsets_def)
  then show ?thesis using p first sz cb(1) t(1)
    by (simp add: tile_size_def assert_unfiltered_def tile_filtered_def)
qed

lemma pipeline_restores_var_ranges:
  assumes "pipeline_run_forward fs al gbs t = Inr t1" and "tile_to_filter t" and "all_filters fs" and "length fs \<le> 14"
    and "small_blocks al" and "pools_ok gbs" and "alloc_total al'" and "pools_ok gbs'"
    and "offsets_tile d toff" and "offsets_ok d" and "ranges_ok rs"
  shows "\<exists>t2. pipeline_run_reverse_var fs al' gbs' uc (Some rs) toff t1 = Inr t2 \<and>
           (\<forall>k b. meets k (Suc k) rs \<longrightarrow> in_cell d k b \<longrightarrow> b < length (tile_bytes t) \<longrightarrow> tile_read_at 1 b t2 = Inr [tile_bytes t ! b])"
proof -
  let ?ds = "tile_chunks t" and ?sk = "skip_chunk_reversal_var (fs = []) d"
  from pipeline_forward_filtered [OF assms(1-8)] obtain cb where
    f: "filtered_as fs al' gbs' ?ds (filtered_buffer t1)" "concat ?ds = tile_bytes t"
      "tchunked t1 = Some (chk_free cb)" "dim_num t1 = 0" "tile_filtered t1 = Inr True" by blast
  have d: "0 < length d" "d ! 0 = 0" using assms(10) by (auto simp: offsets_ok_def hd_conv_nth)
  have ds: "0 \<notin> set (map length ?ds)" "0 + sum_list (map length ?ds) < 2 ^ 63"
    using f(1) by (auto simp: filtered_as_def length_concat)
  obtain skips where skips: "run_skips (Some ?sk) (0, 0, rs) (map length ?ds) = Inr skips" "length skips = length ?ds"
    "\<forall>i b k. i < length ?ds \<longrightarrow> sum_list (take i (map length ?ds)) \<le> b \<longrightarrow> b < sum_list (take (Suc i) (map length ?ds)) \<longrightarrow>
       in_cell d k b \<longrightarrow> skips ! i \<longrightarrow> \<not> meets k (Suc k) rs"
  proof (cases "fs = []")
    case True
    then show thesis using that [of "replicate (length ?ds) False"] run_skips_no_filters [of ?sk "(0, 0, rs)" "map length ?ds"]
      by (auto simp: skip_chunk_reversal_var_def)
  next
    case False
    have "var_state d 0 (0, 0, rs)" using d assms(11) by (simp add: var_state_def counted_def)
    from skips_var_loop [OF assms(10) this ds] show thesis using that False by auto
  qed
  from run_reverse_restored [OF f(1) assms(7) f(3,4) skips(1), of uc] obtain b cb' where
    r: "run_reverse_internal fs al' gbs' uc (Some ?sk) (0, 0, rs) t1 = Inr (t1\<lparr>filtered_buffer := b, tchunked := Some cb'\<rparr>)"
      "restored ?ds skips cb'" "alloced_size b = 0" by blast
  let ?t = "t1\<lparr>filtered_buffer := b, tchunked := Some cb'\<rparr>"
  have "tile_read_at 1 x ?t = Inr [tile_bytes t ! x]"
    if "meets k (Suc k) rs" "in_cell d k x" "x < length (tile_bytes t)" for k x
  proof -
    have "x < sum_list (map length ?ds)" using that(3) f(2) by (metis length_concat)
    from byte_chunk [OF this] obtain i where
      i: "i < length ?ds" "sum_list (take i (map length ?ds)) \<le> x" "x < sum_list (take (Suc i) (map length ?ds))" by auto
    have "\<not> skips ! i" using skips(3) i that(1,2) by blast
    then have "chk_read 1 x cb' = Inr (slice (concat ?ds) x 1)"
      using read_unskipped [OF r(2) skips(2) i(1), of 1 x] i(2,3) by simp
    moreover have "slice (tile_bytes t) x 1 = [tile_bytes t ! x]" using that(3) by (simp add: slice_def take_Suc hd_drop_conv_nth)
    ultimately show ?thesis using f(2) r(3)
      by (simp add: tile_read_at_def assert_unfiltered_def tile_filtered_def with_chunked_def)
  qed
  moreover obtain p where p: "with_chunked chk_get_contiguous toff = Inr p" "tile_size toff = Inr (8 * length d)"
    "mem_read p 0 8 = Inr (le64 0)" "read_offsets p (length d) = Inr d" using read_offsets_tile [OF assms(9,10)] by blast
  have "assert_unfiltered toff = Inr ()" using assms(9) by (simp add: offsets_tile_def assert_unfiltered_def tile_filtered_def)
  then have "pipeline_run_reverse_var fs al' gbs' uc (Some rs) toff t1 = Inr ?t"
    using f(5) r(1) p by (simp add: pipeline_run_reverse_var_def of_le_le_bytes)
  ultimately show ?thesis by blast
qed

end
