(* ===== verification/Byteshuffle.thy ===== *)
theory Byteshuffle
  imports Filter_Parts
begin

text \<open>
  The byte-shuffle filter (\<open>filter/byteshuffle_filter.cc\<close>) and the portable shuffle it calls
  (\<open>external/src/blosc/shuffle-generic.cc\<close>): the bytes of the values of each part are regrouped by their
  position in the value. The output is written through a pointer to the memory of the output buffer.
\<close>

section \<open>Shuffling\<close>

definition shuffle_generic :: "nat \<Rightarrow> byte list \<Rightarrow> byte list \<Rightarrow> byte list" where
  "shuffle_generic type_size src dest =
     (let neblock_quot = length src div type_size; neblock_rem = length src mod type_size;
          d = fold (\<lambda>(j, i) d. d[j * neblock_quot + i := src ! (i * type_size + j)])
                (List.product [0..<type_size] [0..<neblock_quot]) dest in
      overwrite d (length src - neblock_rem) (slice src (length src - neblock_rem) neblock_rem))"

definition unshuffle_generic :: "nat \<Rightarrow> byte list \<Rightarrow> byte list \<Rightarrow> byte list" where
  "unshuffle_generic type_size src dest =
     (let neblock_quot = length src div type_size; neblock_rem = length src mod type_size;
          d = fold (\<lambda>(i, j) d. d[i * type_size + j := src ! (j * neblock_quot + i)])
                (List.product [0..<neblock_quot] [0..<type_size]) dest in
      overwrite d (length src - neblock_rem) (slice src (length src - neblock_rem) neblock_rem))"

section \<open>The filter\<close>

definition shuffle_part :: "Datatype \<Rightarrow> part_fun" where
  "shuffle_part tile_type al part output = transform_part (shuffle_generic (datatype_size tile_type)) part output"

definition unshuffle_part :: "Datatype \<Rightarrow> part_fun" where
  "unshuffle_part tile_type al part output = transform_part (unshuffle_generic (datatype_size tile_type)) part output"

definition byteshuffle_run_forward :: "Datatype \<Rightarrow> filter_run" where
  "byteshuffle_run_forward tile_type = code_forward fb_buffers (shuffle_part tile_type)"

definition byteshuffle_run_reverse :: "Datatype \<Rightarrow> filter_run" where
  "byteshuffle_run_reverse tile_type = code_reverse (unshuffle_part tile_type)"

section \<open>Shuffling is undone\<close>

lemma fold_update:
  assumes "distinct (map ix ps)" and "\<forall>p \<in> set ps. ix p < length d"
  shows "length (fold (\<lambda>p d. d[ix p := v p]) ps d) = length d"
    and "\<forall>p \<in> set ps. fold (\<lambda>p d. d[ix p := v p]) ps d ! ix p = v p"
    and "\<forall>k. k \<notin> ix ` set ps \<longrightarrow> fold (\<lambda>p d. d[ix p := v p]) ps d ! k = d ! k"
  using assms
proof (induction ps arbitrary: d)
  case (Cons p ps)
  {
    case 1
    then show ?case using Cons.IH(1) [of "d[ix p := v p]"] by simp
  next
    case 2
    then have "fold (\<lambda>p d. d[ix p := v p]) ps (d[ix p := v p]) ! ix p = d[ix p := v p] ! ix p"
      using Cons.IH(3) [of "d[ix p := v p]"] by (simp add: image_iff)
    then show ?case using 2 Cons.IH(2) [of "d[ix p := v p]"] by auto
  next
    case 3
    then show ?case using Cons.IH(3) [of "d[ix p := v p]"] by simp
  }
qed simp_all

lemma grid_distinct: "distinct (map (\<lambda>(j, i). j * n + i) (List.product [0..<m] [0..<n :: nat]))"
proof -
  have "inj_on (\<lambda>(j, i). j * n + i) (set (List.product [0..<m] [0..<n]))"
  proof (intro inj_onI, clarsimp)
    fix j i j' i' :: nat
    assume i: "i < n" "i' < n" and eq: "j * n + i = j' * n + i'"
    have "(j * n + i) div n = (j' * n + i') div n" using eq by simp
    then have "j = j'" using i by simp
    then show "j = j' \<and> i = i'" using eq by simp
  qed
  then show ?thesis by (simp add: distinct_map distinct_product)
qed

lemma grid_bound: "j < m \<Longrightarrow> i < n \<Longrightarrow> j * n + i < m * (n :: nat)"
proof -
  assume "j < m" "i < n"
  then have "j * n + i < Suc j * n" by simp
  also have "\<dots> \<le> m * n" using \<open>j < m\<close> by (intro mult_le_mono1) simp
  finally show ?thesis .
qed

lemma grid_fold:
  fixes d :: "'a list" and v :: "nat \<Rightarrow> nat \<Rightarrow> 'a"
  assumes "m * n \<le> length d"
  defines "r \<equiv> fold (\<lambda>(j, i) d. d[j * n + i := v j i]) (List.product [0..<m] [0..<n]) d"
  shows "length r = length d" and "j < m \<Longrightarrow> i < n \<Longrightarrow> r ! (j * n + i) = v j i"
proof -
  let ?ps = "List.product [0..<m] [0..<n]" and ?ix = "\<lambda>(j, i). j * n + i" and ?v = "\<lambda>(j, i). v j i"
  have b: "\<forall>p \<in> set ?ps. ?ix p < length d" using grid_bound [of _ m _ n] assms(1) by fastforce
  have r: "r = fold (\<lambda>p d. d[?ix p := ?v p]) ?ps d" unfolding r_def by (rule arg_cong [of _ _ "\<lambda>f. fold f ?ps d"]) auto
  note f = fold_update [OF grid_distinct b, of ?v]
  show "length r = length d" unfolding r by (rule f(1))
  assume "j < m" "i < n"
  then have "(j, i) \<in> set ?ps" by simp
  then show "r ! (j * n + i) = v j i" using f(2) unfolding r by fastforce
qed

lemma quot_rem: "(n :: nat) - n mod k = n div k * k" "n div k * k \<le> n"
  by (simp_all add: minus_mod_eq_div_mult)

lemma shuffle_generic_spec:
  fixes ts :: nat
  assumes "length dest = length src"
  defines "r \<equiv> shuffle_generic ts src dest" and "q \<equiv> length src div ts"
  shows "length r = length src" and "j < ts \<Longrightarrow> i < q \<Longrightarrow> r ! (j * q + i) = src ! (i * ts + j)"
    and "q * ts \<le> k \<Longrightarrow> k < length src \<Longrightarrow> r ! k = src ! k"
proof -
  let ?d = "fold (\<lambda>(j, i) d. d[j * q + i := src ! (i * ts + j)]) (List.product [0..<ts] [0..<q]) dest"
  have le: "ts * q \<le> length dest" using quot_rem(2) [of "length src" ts] assms(1) by (simp add: q_def mult.commute)
  note g = grid_fold [OF le, where v = "\<lambda>j i. src ! (i * ts + j)"]
  have r: "r = take (q * ts) ?d @ drop (q * ts) src"
    using g(1) assms(1) quot_rem [of "length src" ts]
    by (simp add: r_def shuffle_generic_def Let_def q_def overwrite_def slice_def)
  show len: "length r = length src" using g(1) assms(1) quot_rem(2) [of "length src" ts] by (simp add: r q_def)
  have lt: "length (take (q * ts) ?d) = q * ts" using g(1) le by (simp add: mult.commute)
  show "r ! (j * q + i) = src ! (i * ts + j)" if "j < ts" "i < q"
    using g(2) [OF that] grid_bound [OF that] lt unfolding r by (simp add: nth_append mult.commute)
  show "r ! k = src ! k" if "q * ts \<le> k" "k < length src"
    using that lt quot_rem(2) [of "length src" ts] unfolding r by (simp add: nth_append q_def)
qed

lemma unshuffle_generic_spec:
  fixes ts :: nat
  assumes "length dest = length src"
  defines "r \<equiv> unshuffle_generic ts src dest" and "q \<equiv> length src div ts"
  shows "length r = length src" and "j < ts \<Longrightarrow> i < q \<Longrightarrow> r ! (i * ts + j) = src ! (j * q + i)"
    and "q * ts \<le> k \<Longrightarrow> k < length src \<Longrightarrow> r ! k = src ! k"
proof -
  let ?d = "fold (\<lambda>(i, j) d. d[i * ts + j := src ! (j * q + i)]) (List.product [0..<q] [0..<ts]) dest"
  have le: "q * ts \<le> length dest" using quot_rem(2) [of "length src" ts] assms(1) by (simp add: q_def)
  note g = grid_fold [OF le, where v = "\<lambda>i j. src ! (j * q + i)"]
  have r: "r = take (q * ts) ?d @ drop (q * ts) src"
    using g(1) assms(1) quot_rem [of "length src" ts]
    by (simp add: r_def unshuffle_generic_def Let_def q_def overwrite_def slice_def)
  show len: "length r = length src" using g(1) assms(1) quot_rem(2) [of "length src" ts] by (simp add: r q_def)
  have lt: "length (take (q * ts) ?d) = q * ts" using g(1) le by simp
  show "r ! (i * ts + j) = src ! (j * q + i)" if "j < ts" "i < q"
    using g(2) [OF that(2,1)] grid_bound [OF that(2,1)] lt unfolding r by (simp add: nth_append)
  show "r ! k = src ! k" if "q * ts \<le> k" "k < length src"
    using that lt quot_rem(2) [of "length src" ts] unfolding r by (simp add: nth_append q_def)
qed

lemma unshuffle_shuffle:
  assumes "0 < ts" and "length d1 = length src" and "length d2 = length src"
  shows "unshuffle_generic ts (shuffle_generic ts src d1) d2 = src"
proof (rule nth_equalityI)
  let ?s = "shuffle_generic ts src d1" and ?q = "length src div ts"
  note s = shuffle_generic_spec [OF assms(2), where ts = ts]
  have d2: "length d2 = length ?s" using assms(3) s(1) by simp
  note u = unshuffle_generic_spec [OF d2, where ts = ts, unfolded s(1)]
  show "length (unshuffle_generic ts ?s d2) = length src" by (rule u(1))
  fix k
  assume "k < length (unshuffle_generic ts ?s d2)"
  then have k: "k < length src" using u(1) by simp
  show "unshuffle_generic ts ?s d2 ! k = src ! k"
  proof (cases "k < ?q * ts")
    case True
    have ij: "k div ts < ?q" "k mod ts < ts" "k div ts * ts + k mod ts = k"
      using True assms(1) by (simp_all add: less_mult_imp_div_less)
    then show ?thesis using u(2) [OF ij(2,1)] s(2) [OF ij(2,1)] by simp
  next
    case False
    then show ?thesis using u(3) [of k] s(3) [of k] k by simp
  qed
qed

text \<open>What was in the output before does not matter.\<close>

lemma shuffle_generic_any:
  assumes "length dest = length src"
  shows "shuffle_generic ts src dest = shuffle_generic ts src src"
proof (rule nth_equalityI)
  let ?q = "length src div ts"
  note s = shuffle_generic_spec [OF assms, where ts = ts] and t = shuffle_generic_spec [where dest = src and src = src and ts = ts, OF refl]
  show "length (shuffle_generic ts src dest) = length (shuffle_generic ts src src)" using s(1) t(1) by simp
  fix k
  assume "k < length (shuffle_generic ts src dest)"
  then have k: "k < length src" using s(1) by simp
  show "shuffle_generic ts src dest ! k = shuffle_generic ts src src ! k"
  proof (cases "k < ts * ?q")
    case True
    then have q: "0 < ?q" by (cases ?q) auto
    have ij: "k div ?q < ts" "k mod ?q < ?q" using True q by (simp_all add: less_mult_imp_div_less)
    have "k div ?q * ?q + k mod ?q = k" by (rule div_mult_mod_eq)
    then show ?thesis using s(2) [OF ij] t(2) [OF ij] by simp
  next
    case False
    then show ?thesis using s(3) [of k] t(3) [of k] k by (simp add: mult.commute)
  qed
qed

lemma datatype_size_pos: "0 < datatype_size t"
  by (cases t) simp_all

interpretation byteshuffle: part_coder fb_buffers "shuffle_part t" "unshuffle_part t"
    "\<lambda>x. shuffle_generic (datatype_size t) x x" for t
proof unfold_locales
  fix inp :: filter_buffer
  assume "data_ok inp"
  from parts_of_data [OF this] show "parts_ok (fb_buffers inp) \<and> concat (map cb_bytes (fb_buffers inp)) = fb_bytes inp
      \<and> length (fb_buffers inp) < 2 ^ 29 \<and> cb_bytes (last (fb_buffers inp)) \<noteq> []"
    by (auto simp: list_all_iff)
next
  fix al :: allocator and part b b1 fx cp ws
  assume sh: "shuffle_part t al part b = Inr b1" and p: "raw_sink fx cp ws b" "csize part \<le> cap (cdata part)" "length ws + csize part \<le> cp"
  have n: "length (cb_bytes part) = csize part" using p(2) by (simp add: cb_bytes_def)
  have "length (shuffle_generic (datatype_size t) (cb_bytes part) d) = csize part" if "length d = csize part" for d
    using shuffle_generic_spec(1) [where dest = d and src = "cb_bytes part"] that n by simp
  from transform_part_ok [where f = "shuffle_generic (datatype_size t)", OF p this] obtain d b2 b' where
    r: "transform_part (shuffle_generic (datatype_size t)) part b = Inr b2" "advance_output (csize part) b2 = Inr b'"
      "length d = csize part" "raw_sink fx cp (ws @ shuffle_generic (datatype_size t) (cb_bytes part) d) b'" by auto
  have "length d = length (cb_bytes part)" using r(3) n by simp
  from r(4) [unfolded shuffle_generic_any [OF this]] r(1,2) sh
  show "\<exists>b'. advance_output (csize part) b1 = Inr b'
      \<and> raw_sink fx cp (ws @ shuffle_generic (datatype_size t) (cb_bytes part) (cb_bytes part)) b'"
    by (simp add: shuffle_part_def)
next
  fix al :: allocator and fx cp ws b part x
  let ?f = "unshuffle_generic (datatype_size t)"
  assume p: "raw_sink fx cp ws b" "csize part \<le> cap (cdata part)" "length ws + csize part \<le> cp"
    and x: "cb_bytes part = shuffle_generic (datatype_size t) x x"
  have n: "length (cb_bytes part) = csize part" using p(2) by (simp add: cb_bytes_def)
  have nx: "length x = csize part" using n x shuffle_generic_spec(1) [where dest = x and src = x and ts = "datatype_size t"] by simp
  have "length (?f (cb_bytes part) d) = csize part" if "length d = csize part" for d
    using unshuffle_generic_spec(1) [where dest = d and src = "cb_bytes part"] that n by simp
  from transform_part_ok [where f = ?f, OF p this] obtain d b1 b' where r: "transform_part ?f part b = Inr b1"
    "advance_output (csize part) b1 = Inr b'" "length d = csize part" "raw_sink fx cp (ws @ ?f (cb_bytes part) d) b'" by auto
  moreover have "?f (cb_bytes part) d = x"
    using unshuffle_shuffle [OF datatype_size_pos refl, of d x t] r(3) nx x by simp
  ultimately show "\<exists>b1 b'. unshuffle_part t al part b = Inr b1 \<and> advance_output (csize part) b1 = Inr b'
      \<and> raw_sink fx cp (ws @ x) b'" by (auto simp: unshuffle_part_def)
next
  show "length (shuffle_generic (datatype_size t) x x) = length x" for x by (rule shuffle_generic_spec(1) [OF refl])
qed

lemma byteshuffle_filter: "chunk_filter (byteshuffle_run_forward t) (byteshuffle_run_reverse t)"
  unfolding byteshuffle_run_forward_def byteshuffle_run_reverse_def by (rule byteshuffle.coder.chunk_filter_axioms)

end
