(* ===== verification/Checksum_Filter.thy ===== *)
theory Checksum_Filter
  imports Filter_Parts Tdb_Uri
begin

text \<open>
  The checksum filters (\<open>filter/checksum_md5_filter.cc\<close>, \<open>filter/checksum_sha256_filter.cc\<close>) and the
  digests of \<open>crypto/crypto_openssl.cc\<close>. The two filters differ in the digest, its length and the name
  in their message, which are arguments; the digest itself is computed by OpenSSL. The data is passed
  on as it is, and the metadata gets the size and the digest of every part of the metadata and the data.
\<close>

section \<open>Digests\<close>

type_synonym digest = "byte list \<Rightarrow> byte list"

text \<open>What OpenSSL documents: a digest has a fixed length, whatever the input.\<close>

definition digest_ok :: "nat \<Rightarrow> digest \<Rightarrow> bool" where
  "digest_ok dlen dg \<longleftrightarrow> 0 < dlen \<and> dlen \<le> 32 \<and> (\<forall>x. length (dg x) = dlen)"

definition openssl_digest :: "nat \<Rightarrow> digest \<Rightarrow> allocator \<Rightarrow> byte list option \<Rightarrow> nat \<Rightarrow> buffer \<Rightarrow> buffer result" where
  "openssl_digest required_space dg al input input_read_size output =
     bindR (if owns_data output
            then bindR (buffer_free_space output) (\<lambda>free.
              if free < required_space then buffer_realloc al (add64 (alloced_size output) required_space) output
              else Inr output)
            else if bsize output < required_space
            then Inl (Err SC_ChecksumError ''OpenSSL error; cannot checksum: output buffer too small.'')
            else Inr output) (\<lambda>out1.
     bindR (mem_read input 0 input_read_size) (\<lambda>bs.
     bindR (mem_write (bdata out1) 0 (dg bs)) (\<lambda>d. Inr (out1\<lparr>bdata := d\<rparr>))))"

text \<open>A new buffer of a given size; the status of \<open>realloc\<close> is not looked at.\<close>

definition sized_buffer :: "allocator \<Rightarrow> nat \<Rightarrow> buffer result" where
  "sized_buffer al n = drop_status (buffer_realloc al n buffer_new) buffer_new"

section \<open>The filter\<close>

definition checksum_part :: "nat \<Rightarrow> digest \<Rightarrow> allocator \<Rightarrow> filter_buffer \<Rightarrow> const_buffer \<Rightarrow> filter_buffer result" where
  "checksum_part dlen dg al output_metadata part =
     bindR (sized_buffer al dlen) (\<lambda>h.
     bindR (openssl_digest dlen dg al (cdata part) (csize part) h) (\<lambda>computed_hash.
     bindR (fb_write (le_bytes 8 (of_nat (csize part) :: 64 word)) output_metadata) (\<lambda>md.
     bindR (mem_read (bdata computed_hash) 0 (alloced_size computed_hash)) (\<lambda>bs. fb_write bs md))))"

definition checksum_run_forward :: "nat \<Rightarrow> digest \<Rightarrow> filter_run" where
  "checksum_run_forward dlen dg al gb input_metadata input output_metadata output =
     bindR (fb_append_view input output) (\<lambda>out1.
     bindR (drop_status (fb_append_view input_metadata output_metadata) output_metadata) (\<lambda>md1.
     let data_parts = fb_buffers input; metadata_parts = fb_buffers input_metadata;
         num_data_parts = u32 (length data_parts); num_metadata_parts = u32 (length metadata_parts);
         total_num_parts = u32 (num_data_parts + num_metadata_parts);
         metadata_size = u32 (total_num_parts * u32 (dlen + 8) + 2 * 4) in
     bindR (fb_prepend_buffer al (gb 0) metadata_size md1) (\<lambda>md2.
     bindR (fb_write (le_bytes 4 (of_nat num_metadata_parts :: 32 word)) md2) (\<lambda>md3.
     bindR (fb_write (le_bytes 4 (of_nat num_data_parts :: 32 word)) md3) (\<lambda>md4.
     bindR (foldR (checksum_part dlen dg al) md4 metadata_parts) (\<lambda>md5.
     bindR (foldR (checksum_part dlen dg al) md5 data_parts) (\<lambda>md6.
       Inr (input_metadata, input, md6, out1))))))))"

definition read_checksum :: "nat \<Rightarrow> bool \<Rightarrow> allocator \<Rightarrow> filter_buffer \<times> (nat \<times> buffer) list \<Rightarrow> nat
    \<Rightarrow> (filter_buffer \<times> (nat \<times> buffer) list) result" where
  "read_checksum dlen skip_validation al s i =
     (case s of (input_metadata, checksums) \<Rightarrow>
        bindR (fb_read 8 input_metadata) (\<lambda>(bs, md1).
        let checksummed_bytes = unat (of_le bs :: 64 word) in
        if \<not> skip_validation then
          bindR (sized_buffer al dlen) (\<lambda>buff.
          bindR (fb_read dlen md1) (\<lambda>(ck, md2).
          bindR (mem_write (bdata buff) 0 ck) (\<lambda>d.
          bindR (buffer_copy al (buff\<lparr>bdata := d\<rparr>)) (\<lambda>c.
            Inr (md2, checksums @ [(checksummed_bytes, c)])))))
        else bindR (fb_advance_offset dlen md1) (\<lambda>md2. Inr (md2, checksums))))"

definition hex_string :: "byte list \<Rightarrow> string" where
  "hex_string bs = concat (map (\<lambda>b. hex_str 2 (unat b)) bs)"

definition compare_checksum_part ::
  "string \<Rightarrow> nat \<Rightarrow> digest \<Rightarrow> allocator \<Rightarrow> filter_buffer \<Rightarrow> nat \<times> buffer \<Rightarrow> filter_buffer result" where
  "compare_checksum_part name dlen dg al part details =
     (case details of (bytes_to_compare, checksum) \<Rightarrow>
        bindR (case fb_get_const_buffer bytes_to_compare part of
            Inl (Err _ _) \<Rightarrow>
              bindR (sized_buffer al bytes_to_compare) (\<lambda>bb.
              bindR (fb_read bytes_to_compare part) (\<lambda>(bs, part').
              bindR (mem_write (bdata bb) 0 bs) (\<lambda>d. Inr (d, part'))))
          | Inl e \<Rightarrow> Inl e
          | Inr cb \<Rightarrow> bindR (fb_advance_offset bytes_to_compare part) (\<lambda>part'. Inr (cdata cb, part')))
          (\<lambda>(data, part').
        bindR (sized_buffer al dlen) (\<lambda>h.
        bindR (openssl_digest dlen dg al data bytes_to_compare h) (\<lambda>computed_hash.
        bindR (mem_read (bdata checksum) 0 dlen) (\<lambda>existing.
        bindR (mem_read (bdata computed_hash) 0 dlen) (\<lambda>computed.
        if existing \<noteq> computed
        then bindR (mem_read (bdata computed_hash) 0 (alloced_size computed_hash)) (\<lambda>all.
          Inl (Err SC_ChecksumError (''Checksum mismatch for '' @ name @ '' filter, expect '' @ hex_string existing
                 @ '' got '' @ hex_string all)))
        else Inr part'))))))"

definition validate_checksums :: "string \<Rightarrow> nat \<Rightarrow> digest \<Rightarrow> allocator \<Rightarrow> (nat \<times> buffer) list \<Rightarrow> (nat \<times> buffer) list
    \<Rightarrow> filter_buffer \<Rightarrow> filter_buffer \<Rightarrow> (filter_buffer \<times> filter_buffer) result" where
  "validate_checksums name dlen dg al metadata_checksums data_checksums input_metadata input =
     bindR (foldR (compare_checksum_part name dlen dg al) input_metadata metadata_checksums) (\<lambda>md.
     bindR (if foffset md \<noteq> foffset input_metadata then fb_set_offset (foffset input_metadata) md else Inr md) (\<lambda>md'.
     bindR (foldR (compare_checksum_part name dlen dg al) input data_checksums) (\<lambda>inp. Inr (md', inp))))"

text \<open>The configuration parameter \<open>sm.skip_checksum_validation\<close>, or the error of reading it, is an argument.\<close>

definition checksum_run_reverse :: "string \<Rightarrow> nat \<Rightarrow> digest \<Rightarrow> bool result \<Rightarrow> filter_run" where
  "checksum_run_reverse name dlen dg config al gb input_metadata input output_metadata output =
     bindR config (\<lambda>skip_validation.
     bindR (fb_append_view input output) (\<lambda>out1.
     bindR (fb_read 4 input_metadata) (\<lambda>(bm, md1).
     bindR (fb_read 4 md1) (\<lambda>(bd, md2).
     bindR (foldR (read_checksum dlen skip_validation al) (md2, []) [0..<unat (of_le bm :: 32 word)]) (\<lambda>(md3, metadata_checksums).
     bindR (foldR (read_checksum dlen skip_validation al) (md3, []) [0..<unat (of_le bd :: 32 word)]) (\<lambda>(md4, data_checksums).
     bindR (if \<not> skip_validation then validate_checksums name dlen dg al metadata_checksums data_checksums md4 input
            else Inr (md4, input)) (\<lambda>(md7, inp1).
     bindR (fb_append_view_range md7 (foffset md7) (sub64 (fb_size md7) (foffset md7)) output_metadata) (\<lambda>om.
       Inr (md7, inp1, om, out1)))))))))"

text \<open>The two filters: \<open>Crypto::MD5_DIGEST_BYTES\<close> is 16, \<open>Crypto::SHA256_DIGEST_BYTES\<close> is 32.\<close>

definition md5_run_forward :: "digest \<Rightarrow> filter_run" where
  "md5_run_forward md5 = checksum_run_forward 16 md5"

definition md5_run_reverse :: "digest \<Rightarrow> bool result \<Rightarrow> filter_run" where
  "md5_run_reverse md5 config = checksum_run_reverse ''md5'' 16 md5 config"

definition sha256_run_forward :: "digest \<Rightarrow> filter_run" where
  "sha256_run_forward sha256 = checksum_run_forward 32 sha256"

definition sha256_run_reverse :: "digest \<Rightarrow> bool result \<Rightarrow> filter_run" where
  "sha256_run_reverse sha256 config = checksum_run_reverse ''sha256'' 32 sha256 config"

section \<open>Computing a digest\<close>

definition digest_buffer :: "byte list \<Rightarrow> buffer \<Rightarrow> bool" where
  "digest_buffer x h \<longleftrightarrow> bdata h = Some x \<and> alloced_size h = length x \<and> owns_data h"

lemma digest_buffer_read:
  "digest_buffer x h \<Longrightarrow> mem_read (bdata h) 0 (alloced_size h) = Inr x \<and> mem_read (bdata h) 0 (length x) = Inr x"
  by (simp add: digest_buffer_def mem_read_def slice_def)

lemma sized_buffer_cases:
  assumes "sized_buffer al n = Inr h"
  obtains "h = buffer_new" | d where "length d = n" "h = buffer_new\<lparr>bdata := Some d, alloced_size := n\<rparr>"
proof (cases "malloc al n")
  case None
  then have "h = buffer_new" using assms
    by (simp add: sized_buffer_def drop_status_def buffer_realloc_def buffer_new_def buffer_wrap_def)
  then show thesis by (rule that(1))
next
  case (Some d)
  then have "h = buffer_new\<lparr>bdata := Some d, alloced_size := n\<rparr>" using assms
    by (simp add: sized_buffer_def drop_status_def buffer_realloc_def buffer_new_def buffer_wrap_def)
  then show thesis using that(2) length_malloc [OF Some] by simp
qed

lemma sized_buffer_ok:
  assumes "alloc_total al"
  shows "\<exists>d. length d = n \<and> sized_buffer al n = Inr (buffer_new\<lparr>bdata := Some d, alloced_size := n\<rparr>)"
proof -
  obtain d where "malloc al n = Some d" "length d = n" using alloc_total_malloc [OF assms] by blast
  then show ?thesis
    by (simp add: sized_buffer_def drop_status_def buffer_realloc_def buffer_new_def buffer_wrap_def)
qed

lemma openssl_digest_sized:
  assumes "digest_ok dlen dg" and "length d = dlen"
  shows "openssl_digest dlen dg al data n (buffer_new\<lparr>bdata := Some d, alloced_size := dlen\<rparr>)
       = bindR (mem_read data 0 n) (\<lambda>bs. Inr (buffer_new\<lparr>bdata := Some (dg bs), alloced_size := dlen\<rparr>))"
proof -
  have dg: "length (dg x) = dlen" "dg x \<noteq> []" "dlen < 2 ^ 64" for x
    using assms(1) by (auto simp: digest_ok_def simp flip: length_greater_0_conv)
  have "mem_write (Some d) 0 (dg x) = Inr (Some (dg x))" for x
    using dg(1,2) [of x] assms(2) by (simp add: mem_write_def overwrite_def)
  then show ?thesis using dg(3)
    by (simp add: openssl_digest_def buffer_free_space_def buffer_new_def buffer_wrap_def sub64_exact)
qed

lemma openssl_digest_spec:
  assumes "digest_ok dlen dg" and "sized_buffer al dlen = Inr h" and "openssl_digest dlen dg al data n h = Inr h'"
  shows "\<exists>bs. mem_read data 0 n = Inr bs \<and> digest_buffer (dg bs) h'"
proof -
  have dg: "length (dg x) = dlen" "0 < dlen" "add64 0 dlen = dlen" for x
    using assms(1) by (simp_all add: digest_ok_def add64_exact)
  have "\<exists>d. length d = dlen \<and> openssl_digest dlen dg al data n (buffer_new\<lparr>bdata := Some d, alloced_size := dlen\<rparr>) = Inr h'"
    using assms(2)
  proof (cases rule: sized_buffer_cases)
    case 1
    have "openssl_digest dlen dg al data n buffer_new = bindR (buffer_realloc al dlen buffer_new) (\<lambda>out1.
        bindR (mem_read data 0 n) (\<lambda>bs. bindR (mem_write (bdata out1) 0 (dg bs)) (\<lambda>d. Inr (out1\<lparr>bdata := d\<rparr>))))"
      using dg(2,3) by (simp add: openssl_digest_def buffer_free_space_def buffer_new_def buffer_wrap_def sub64_def)
    with assms(3) 1 obtain out1 where
      r: "buffer_realloc al dlen buffer_new = Inr out1" "bindR (mem_read data 0 n) (\<lambda>bs.
          bindR (mem_write (bdata out1) 0 (dg bs)) (\<lambda>d. Inr (out1\<lparr>bdata := d\<rparr>))) = Inr h'" by (auto simp: bindR_Inr)
    from r(1) obtain d where d: "malloc al dlen = Some d" "out1 = buffer_new\<lparr>bdata := Some d, alloced_size := dlen\<rparr>"
      by (auto simp: buffer_realloc_def buffer_new_def buffer_wrap_def split: option.splits)
    have "openssl_digest dlen dg al data n out1 = Inr h'"
      using r(2) d(2) dg(2) assms(1)
      by (simp add: openssl_digest_def buffer_free_space_def buffer_new_def buffer_wrap_def sub64_exact digest_ok_def)
    then show ?thesis using d length_malloc [OF d(1)] by blast
  next
    case (2 d)
    then show ?thesis using assms(3) by blast
  qed
  then show ?thesis using openssl_digest_sized [OF assms(1)] dg(1)
    by (auto simp: bindR_Inr digest_buffer_def buffer_new_def buffer_wrap_def)
qed

section \<open>The metadata of the filter\<close>

definition checksum_of :: "digest \<Rightarrow> byte list \<Rightarrow> byte list" where
  "checksum_of dg x = le_bytes 8 (of_nat (length x) :: 64 word) @ dg x"

lemma checksum_parts:
  assumes "foldR (checksum_part dlen dg al) md ps = Inr md'" and "digest_ok dlen dg"
    and "list_all (\<lambda>p. csize p \<le> cap (cdata p)) ps"
    and "fb_sink False cm vs md" and "fb_room cm md ((8 + dlen) * length ps + m)"
  shows "fb_sink False cm vs md' \<and> fb_room cm md' m
       \<and> fb_written md' = fb_written md @ concat (map (\<lambda>p. checksum_of dg (cb_bytes p)) ps)"
  using assms(1,3-)
proof (induction ps arbitrary: md)
  case (Cons p ps)
  let ?h = "le_bytes 8 (of_nat (csize p) :: 64 word)"
  from Cons.prems(1) obtain h h' md1 bs md2 where s: "sized_buffer al dlen = Inr h"
    "openssl_digest dlen dg al (cdata p) (csize p) h = Inr h'" "fb_write ?h md = Inr md1"
    "mem_read (bdata h') 0 (alloced_size h') = Inr bs" "fb_write bs md1 = Inr md2"
    "foldR (checksum_part dlen dg al) md2 ps = Inr md'"
    by (auto simp: checksum_part_def [of _ _ _ _ p] bindR_Inr)
  have p: "mem_read (cdata p) 0 (csize p) = Inr (cb_bytes p)" "length (cb_bytes p) = csize p"
    using Cons.prems(2) by (simp_all add: mem_read_region cb_bytes_def slice_def)
  have dg: "length (dg x) = dlen" for x using assms(2) by (simp add: digest_ok_def)
  have bs: "bs = dg (cb_bytes p)"
    using openssl_digest_spec [OF assms(2) s(1,2)] p(1) s(4) digest_buffer_read by fastforce
  have "fb_room cm md (length ?h + (length bs + ((8 + dlen) * length ps + m)))"
    using Cons.prems(4) bs dg by (simp add: algebra_simps)
  from fsink.put_ok [OF Cons.prems(3) this] s(3) have md1: "fb_sink False cm vs md1" "fb_written md1 = fb_written md @ ?h"
    "fb_room cm md1 (length bs + ((8 + dlen) * length ps + m))" by auto
  from fsink.put_ok [OF md1(1,3)] s(5) have md2: "fb_sink False cm vs md2" "fb_written md2 = fb_written md1 @ bs"
    "fb_room cm md2 ((8 + dlen) * length ps + m)" by auto
  show ?case using Cons.IH [OF s(6) _ md2(1,3)] Cons.prems(2) md1(2) md2(2) bs p(2) by (simp add: checksum_of_def)
qed simp

lemma checksum_forward:
  assumes run: "checksum_run_forward dlen dg al gb im inp fb_new fb_new = Inr (im1, inp1, om, out)"
    and dg: "digest_ok dlen dg" and mem: "small_blocks al" "small_pool gb" and im: "md_ok im" and inp: "data_ok inp"
  defines "ms \<equiv> map cb_bytes (fb_buffers im)" and "xs \<equiv> map cb_bytes (fb_buffers inp)"
  shows "fb_bytes out = fb_bytes inp"
    and "fb_bytes om = le_bytes 4 (of_nat (length ms) :: 32 word) @ le_bytes 4 (of_nat (length xs) :: 32 word)
           @ concat (map (checksum_of dg) ms) @ concat (map (checksum_of dg) xs) @ fb_bytes im" (is ?meta)
    and "md_done im om" and "data_done out"
proof -
  let ?M = "length (fb_buffers im)" and ?D = "length (fb_buffers inp)"
  have ok: "bovs_ok (fbuffers im)" "list_all solid (fbuffers im)" "bovs_ok (fbuffers inp)" "list_all solid (fbuffers inp)"
    "length (fbuffers im) < 2 ^ 20" "length (fbuffers inp) < 2 ^ 20"
    using im inp by (simp_all add: md_ok_def data_ok_def fb_start_def)
  note mp = md_parts [OF ok(1)] and dp = md_parts [OF ok(3)]
  have dl: "dlen \<le> 32" using dg by (simp add: digest_ok_def)
  have le: "(?D + ?M) * (dlen + 8) \<le> 2 ^ 21 * 40" using mp(3) dp(3) ok(5,6) dl by (intro mult_le_mono) simp_all
  then have u: "u32 ?M = ?M" "u32 ?D = ?D" "u32 (?D + ?M) = ?D + ?M" "u32 (dlen + 8) = dlen + 8"
    "u32 ((?D + ?M) * (dlen + 8) + 8) = (?D + ?M) * (dlen + 8) + 8"
    using mp(3) dp(3) ok(5,6) dl by (simp_all add: u32_def)
  from forward_md [OF ok(1)] ok(2) obtain vs where vs: "fb_append_view im fb_new = Inr (fb_new\<lparr>fbuffers := vs\<rparr>)"
    "bovs_bytes vs = fb_bytes im" "bovs_ok vs" "list_all solid vs" "length vs \<le> length (fbuffers im)" by blast
  from forward_md [OF ok(3)] ok(4) obtain us where us: "fb_append_view inp fb_new = Inr (fb_new\<lparr>fbuffers := us\<rparr>)"
    "bovs_bytes us = fb_bytes inp" "bovs_ok us" "list_all solid us" "length us \<le> length (fbuffers inp)" by blast
  let ?h1 = "le_bytes 4 (of_nat ?M :: 32 word)" and ?h2 = "le_bytes 4 (of_nat ?D :: 32 word)"
  from run obtain md2 md3 md4 md5 where
    md2: "fb_prepend_buffer al (gb 0) ((?D + ?M) * (dlen + 8) + 8) (fb_new\<lparr>fbuffers := vs\<rparr>) = Inr md2"
    and md3: "fb_write ?h1 md2 = Inr md3" and md4: "fb_write ?h2 md3 = Inr md4"
    and md5: "foldR (checksum_part dlen dg al) md4 (fb_buffers im) = Inr md5"
    and om: "foldR (checksum_part dlen dg al) md5 (fb_buffers inp) = Inr om" and out: "out = fb_new\<lparr>fbuffers := us\<rparr>"
    using vs(1) us(1) by (auto simp: checksum_run_forward_def Let_def bindR_Inr u)
  show "fb_bytes out = fb_bytes inp" using us(2) by (simp add: out fb_bytes_def)
  show "data_done out" using us inp by (simp add: out data_done_def data_ok_def fb_bytes_def fb_new_def)
  from fb_prepend_small [OF md2 mem] vs(4) obtain cm where cm: "fb_sink False cm vs md2" "fb_written md2 = []"
    "(?D + ?M) * (dlen + 8) + 8 \<le> cm" "cm < 2 ^ 28" by (auto simp: fb_new_def)
  have "fb_room cm md2 (length ?h1 + (length ?h2 + ((8 + dlen) * ?M + ((8 + dlen) * ?D + 0))))"
    using cm(3) fb_written_length(1) [OF cm(1)] cm(2) by (simp add: fb_room_def algebra_simps)
  from fsink.put_ok [OF cm(1) this] md3 cm(2) have md3': "fb_sink False cm vs md3" "fb_written md3 = ?h1"
    "fb_room cm md3 (length ?h2 + ((8 + dlen) * ?M + ((8 + dlen) * ?D + 0)))" by auto
  from fsink.put_ok [OF this(1,3)] md4 md3'(2) have md4': "fb_sink False cm vs md4" "fb_written md4 = ?h1 @ ?h2"
    "fb_room cm md4 ((8 + dlen) * ?M + ((8 + dlen) * ?D + 0))" by auto
  from checksum_parts [OF md5 dg mp(2) md4'(1,3)] have md5': "fb_sink False cm vs md5"
    "fb_written md5 = ?h1 @ ?h2 @ concat (map (checksum_of dg) ms)" "fb_room cm md5 ((8 + dlen) * ?D + 0)"
    using md4'(2) by (simp_all add: ms_def comp_def)
  from checksum_parts [OF om dg dp(2) md5'(1,3)] have om': "fb_sink False cm vs om"
    "fb_written om = ?h1 @ ?h2 @ concat (map (checksum_of dg) ms) @ concat (map (checksum_of dg) xs)"
    using md5'(2) by (simp_all add: xs_def comp_def)
  show ?meta using fb_sink_bytes [OF om'(1)] om'(2) vs(2) by (simp add: ms_def xs_def)
  have "fb_written om \<noteq> []" using om'(2) by (simp flip: length_greater_0_conv)
  then show "md_done im om" using md_done_sink [OF om'(1) cm(4) _ vs(3,4,2,5)] im by (simp add: md_ok_def)
qed

section \<open>Checking\<close>

definition checks_of :: "digest \<Rightarrow> byte list list \<Rightarrow> (nat \<times> buffer) list \<Rightarrow> bool" where
  "checks_of dg xs cs \<longleftrightarrow> list_all2 (\<lambda>x c. fst c = length x \<and> digest_buffer (dg x) (snd c)) xs cs"

lemma read_checksums:
  assumes "digest_ok dlen dg" and "alloc_total al" and "length js = length xs" and "list_all (\<lambda>x. length x < 2 ^ 64) xs"
    and "fb_source md" and "length (fbuffers md) \<le> 1" and "fb_rest md = concat (map (checksum_of dg) xs) @ zs"
  shows "\<exists>md' cs. foldR (read_checksum dlen skip al) (md, cs0) js = Inr (md', cs0 @ cs) \<and> (\<not> skip \<longrightarrow> checks_of dg xs cs)
       \<and> fb_source md' \<and> fb_rest md' = zs \<and> fbuffers md' = fbuffers md"
  using assms(3-)
proof (induction xs arbitrary: js md cs0)
  case (Cons x xs)
  from Cons.prems(1) obtain j js' where js: "js = j # js'" "length js' = length xs" by (cases js) auto
  let ?h = "le_bytes 8 (of_nat (length x) :: 64 word)"
  have dg: "length (dg x) = dlen" "dg x \<noteq> []" using assms(1) by (auto simp: digest_ok_def simp flip: length_greater_0_conv)
  have x: "unat (of_le ?h :: 64 word) = length x" using Cons.prems(2) by (simp add: of_le_le_bytes unat_of_nat)
  have "fb_rest md = ?h @ (dg x @ concat (map (checksum_of dg) xs) @ zs)" 
    using Cons.prems(5) by (simp add: checksum_of_def [of dg x])
  from fsource.get_front [OF Cons.prems(3) this, of 8] obtain md1 where
    md1: "fb_read 8 md = Inr (?h, md1)" "fb_source md1" "fb_rest md1 = dg x @ (concat (map (checksum_of dg) xs) @ zs)" by auto
  have bufs: "fbuffers md1 = fbuffers md" using fb_read_frame [OF md1(1)] by simp
  have "\<exists>md2 c. read_checksum dlen skip al (md, cs0) j = Inr (md2, cs0 @ c) \<and> (\<not> skip \<longrightarrow> checks_of dg [x] c)
      \<and> fb_source md2 \<and> fb_rest md2 = concat (map (checksum_of dg) xs) @ zs \<and> fbuffers md2 = fbuffers md"
  proof (cases skip)
    case True
    from fb_advance_skip [OF md1(2) _ md1(3) dg(2)] Cons.prems(4) bufs obtain md2 where
      "fb_advance_offset dlen md1 = Inr md2" "fb_source md2" "fb_rest md2 = concat (map (checksum_of dg) xs) @ zs"
      "fbuffers md2 = fbuffers md" using dg(1) by auto
    then show ?thesis using True md1(1) x by (intro exI [of _ md2] exI [of _ "[]"]) (simp add: read_checksum_def)
  next
    case False
    obtain md2 where md2: "fb_read dlen md1 = Inr (dg x, md2)" "fb_source md2" "fb_rest md2 = concat (map (checksum_of dg) xs) @ zs"
      using fsource.get_front [OF md1(2,3), of dlen] dg(1) by auto
    obtain d where d: "length d = dlen" "sized_buffer al dlen = Inr (buffer_new\<lparr>bdata := Some d, alloced_size := dlen\<rparr>)"
      using sized_buffer_ok [OF assms(2), of dlen] by blast
    have wr: "mem_write (Some d) 0 (dg x) = Inr (Some (dg x))" using d(1) dg by (simp add: mem_write_def overwrite_def)
    obtain c where "buffer_copy al (buffer_new\<lparr>bdata := Some (dg x), alloced_size := dlen\<rparr>) = Inr c" "digest_buffer (dg x) c"
    proof -
      obtain m where m: "malloc al dlen = Some m" "length m = dlen" using alloc_total_malloc [OF assms(2)] by blast
      have "mem_read (Some (dg x)) 0 dlen = Inr (dg x)" "mem_write (Some m) 0 (dg x) = Inr (Some (dg x))"
        using dg m(2) by (auto simp: mem_read_def mem_write_def slice_def overwrite_def)
      then show thesis using that m(1) dg(1)
        by (simp add: buffer_copy_def buffer_new_def buffer_wrap_def digest_buffer_def)
    qed
    then show ?thesis using False md1(1) x md2 d(2) wr bufs fb_read_frame [OF md2(1)]
      by (intro exI [of _ md2] exI [of _ "[(length x, c)]"]) (simp add: read_checksum_def checks_of_def Let_def buffer_new_def buffer_wrap_def)
  qed
  then obtain md2 c where c: "read_checksum dlen skip al (md, cs0) j = Inr (md2, cs0 @ c)" "\<not> skip \<longrightarrow> checks_of dg [x] c"
      "fb_source md2" "fb_rest md2 = concat (map (checksum_of dg) xs) @ zs" "fbuffers md2 = fbuffers md" by blast
  have "list_all (\<lambda>x. length x < 2 ^ 64) xs" "length (fbuffers md2) \<le> 1" using Cons.prems(2,4) c(5) by simp_all
  from Cons.IH [OF js(2) this(1) c(3) this(2) c(4), of "cs0 @ c"] obtain md' cs where
    r: "foldR (read_checksum dlen skip al) (md2, cs0 @ c) js' = Inr (md', (cs0 @ c) @ cs)" "\<not> skip \<longrightarrow> checks_of dg xs cs"
      "fb_source md'" "fb_rest md' = zs" "fbuffers md' = fbuffers md2" by blast
  then have "\<not> skip \<longrightarrow> checks_of dg (x # xs) (c @ cs)" using c(2) by (auto simp: checks_of_def list_all2_Cons1)
  then show ?case using js(1) c r by (intro exI [of _ md'] exI [of _ "c @ cs"]) simp
qed (simp add: checks_of_def)

lemma compare_part:
  assumes "digest_ok dlen dg" and "alloc_total al" and "fb_source fb" and "length (fbuffers fb) \<le> 1"
    and "fb_rest fb = y @ r" and "y \<noteq> []" and "fst c = length y" and "digest_buffer h (snd c)" and "length h = dlen"
  shows "\<exists>fb'. fb_source fb' \<and> fb_rest fb' = r \<and> fbuffers fb' = fbuffers fb \<and>
      compare_checksum_part name dlen dg al fb c =
        (if h = dg y then Inr fb'
         else Inl (Err SC_ChecksumError (''Checksum mismatch for '' @ name @ '' filter, expect '' @ hex_string h
                     @ '' got '' @ hex_string (dg y))))"
proof -
  from fb_get_part [OF assms(3-5)] assms(5,6) obtain part where part: "fb_get_const_buffer (length y) fb = Inr part"
    "csize part = length y" "cb_bytes part = y" "length y \<le> cap (cdata part)" by auto
  then have rd: "mem_read (cdata part) 0 (length y) = Inr y"
    using mem_read_region [of 0 "length y" "cdata part"] by (simp add: cb_bytes_def slice_def)
  from fb_advance_skip [OF assms(3-6)] obtain fb' where fb': "fb_advance_offset (length y) fb = Inr fb'"
    "fb_source fb'" "fb_rest fb' = r" "fbuffers fb' = fbuffers fb" by blast
  from sized_buffer_ok [OF assms(2), of dlen] obtain d where
    d: "length d = dlen" "sized_buffer al dlen = Inr (buffer_new\<lparr>bdata := Some d, alloced_size := dlen\<rparr>)" by blast
  let ?h = "buffer_new\<lparr>bdata := Some (dg y), alloced_size := dlen\<rparr>"
  have dl: "length (dg y) = dlen" using assms(1) by (simp add: digest_ok_def)
  have "digest_buffer (dg y) ?h" using dl by (simp add: digest_buffer_def buffer_new_def buffer_wrap_def)
  from digest_buffer_read [OF this] dl have hh: "mem_read (Some (dg y)) 0 dlen = Inr (dg y)" by simp
  have cc: "mem_read (bdata (snd c)) 0 dlen = Inr h" using digest_buffer_read [OF assms(8)] assms(9) by simp
  have "compare_checksum_part name dlen dg al fb c =
        (if h = dg y then Inr fb'
         else Inl (Err SC_ChecksumError (''Checksum mismatch for '' @ name @ '' filter, expect '' @ hex_string h
                     @ '' got '' @ hex_string (dg y))))"
    using part(1) rd fb'(1) d(2) openssl_digest_sized [OF assms(1) d(1)] hh cc assms(7)
    by (cases c) (simp add: compare_checksum_part_def)
  then show ?thesis using fb'(2-4) by blast
qed

text \<open>Fewer bytes are left than were checksummed.\<close>

lemma fb_get_short:
  assumes "fb_source fb" and "length (fbuffers fb) \<le> 1" and "length (fb_rest fb) < n"
  shows "\<exists>code msg. fb_get_const_buffer n fb = Inl (Err code msg)"
proof -
  from assms(1) obtain c where c: "current_buffer fb = Some c" "c \<le> length (fbuffers fb)" "bovs_ok (drop c (fbuffers fb))"
    "pos_in (current_relative fb) (drop c (fbuffers fb))" "fb_rest fb = drop (current_relative fb) (bovs_bytes (drop c (fbuffers fb)))"
    by (rule fb_sourceE)
  show ?thesis
  proof (cases "c = length (fbuffers fb)")
    case True
    then show ?thesis using c(1) by (simp add: fb_get_const_buffer_def filter_error_def)
  next
    case False
    with c(2) assms(2) obtain b where b: "fbuffers fb = [b]" "c = 0" by (cases "fbuffers fb") auto
    have "current_relative fb \<le> bsize (bv_buffer b)" "bsize (bv_buffer b) < 2 ^ 63" "bsize (bv_buffer b) - current_relative fb < n"
      using c(3-5) b assms(3) by (auto simp: length_buffer_bytes)
    then show ?thesis using c(1) b by (simp add: fb_get_const_buffer_def filter_error_def sub64_exact Let_def)
  qed
qed

lemma compare_part_short:
  assumes "alloc_total al" and "fb_source fb" and "length (fbuffers fb) \<le> 1" and "length (fb_rest fb) < fst c" and "fst c \<le> 2 ^ 63"
  shows "\<exists>code msg. compare_checksum_part name dlen dg al fb c = Inl (Err code msg)"
proof -
  from fsource.get_fail [OF assms(2,4,5)] obtain code msg where rd: "fb_read (fst c) fb = Inl (Err code msg)" by blast
  obtain code' msg' where "fb_get_const_buffer (fst c) fb = Inl (Err code' msg')"
    using fb_get_short [OF assms(2-4)] by blast
  then show ?thesis using rd sized_buffer_ok [OF assms(1), of "fst c"] by (cases c) (auto simp: compare_checksum_part_def)
qed

text \<open>
  What the filter compares: the data begins with pieces of the sizes of the checksummed parts, with the same
  digests.
\<close>

fun pieces_ok :: "digest \<Rightarrow> byte list list \<Rightarrow> byte list \<Rightarrow> bool" where
  "pieces_ok dg [] bs = True"
| "pieces_ok dg (x # xs) bs = (length x \<le> length bs \<and> dg (take (length x) bs) = dg x \<and> pieces_ok dg xs (drop (length x) bs))"

lemma pieces_ok_concat: "pieces_ok dg xs (concat xs @ zs)"
  by (induction xs) simp_all

lemma compare_parts:
  assumes "digest_ok dlen dg" and "alloc_total al" and "checks_of dg xs cs" and "list_all (\<lambda>x. x \<noteq> [] \<and> length x \<le> 2 ^ 63) xs"
    and "fb_source fb" and "length (fbuffers fb) \<le> 1"
  shows "if pieces_ok dg xs (fb_rest fb)
      then \<exists>fb'. foldR (compare_checksum_part name dlen dg al) fb cs = Inr fb' \<and> fb_source fb' \<and> fbuffers fb' = fbuffers fb
      else \<exists>code msg. foldR (compare_checksum_part name dlen dg al) fb cs = Inl (Err code msg)
             \<and> (length (concat xs) \<le> length (fb_rest fb) \<longrightarrow> code = SC_ChecksumError)"
  using assms(3-)
proof (induction xs arbitrary: cs fb)
  case (Cons x xs)
  then obtain c cs' where c: "cs = c # cs'" "fst c = length x" "digest_buffer (dg x) (snd c)" "checks_of dg xs cs'"
    by (auto simp: checks_of_def list_all2_Cons1)
  have dl: "length (dg x) = dlen" using assms(1) by (simp add: digest_ok_def)
  let ?y = "take (length x) (fb_rest fb)" and ?r = "drop (length x) (fb_rest fb)"
  show ?case
  proof (cases "length x \<le> length (fb_rest fb)")
    case False
    then have "length (fb_rest fb) < fst c" "fst c \<le> 2 ^ 63" using c(2) Cons.prems(2) by simp_all
    then obtain code msg where "compare_checksum_part name dlen dg al fb c = Inl (Err code msg)"
      using compare_part_short [OF assms(2) Cons.prems(3,4)] by blast
    then show ?thesis using False c(1) by simp
  next
    case True
    then have y: "fb_rest fb = ?y @ ?r" "?y \<noteq> []" "fst c = length ?y" using Cons.prems(2) c(2) by auto
    from compare_part [OF assms(1,2) Cons.prems(3,4) y c(3) dl, of name] obtain fb1 where
      fb1: "fb_source fb1" "fb_rest fb1 = ?r" "fbuffers fb1 = fbuffers fb"
        "compare_checksum_part name dlen dg al fb c = (if dg x = dg ?y then Inr fb1
         else Inl (Err SC_ChecksumError (''Checksum mismatch for '' @ name @ '' filter, expect '' @ hex_string (dg x)
                     @ '' got '' @ hex_string (dg ?y))))" by blast
    show ?thesis
    proof (cases "dg x = dg ?y")
      case False
      then show ?thesis using fb1(4) c(1) by auto
    next
      case same: True
      then have f: "foldR (compare_checksum_part name dlen dg al) fb cs = foldR (compare_checksum_part name dlen dg al) fb1 cs'"
        using fb1(4) c(1) by simp
      have eqs: "pieces_ok dg (x # xs) (fb_rest fb) = pieces_ok dg xs (fb_rest fb1)"
        "length (concat (x # xs)) \<le> length (fb_rest fb) \<longleftrightarrow> length (concat xs) \<le> length (fb_rest fb1)"
        using True same fb1(2) by auto
      have "list_all (\<lambda>x. x \<noteq> [] \<and> length x \<le> 2 ^ 63) xs" "length (fbuffers fb1) \<le> 1" using Cons.prems(2,4) fb1(3) by simp_all
      from Cons.IH [OF c(4) this(1) fb1(1) this(2)] show ?thesis unfolding f eqs fb1(3) .
    qed
  qed
qed (simp add: checks_of_def)

text \<open>Going back to a position of a buffer in one piece.\<close>

lemma fb_set_offset_back:
  assumes "fb_source fb" and "length (fbuffers fb) \<le> 1" and "off < length (fb_bytes fb)"
  shows "\<exists>fb'. fb_set_offset off fb = Inr fb' \<and> fb_source fb' \<and> foffset fb' = off \<and> fbuffers fb' = fbuffers fb"
proof -
  have ok: "bovs_ok (fbuffers fb)" using assms(1) by (simp add: fb_source_def)
  from relative_offset_single [OF ok assms(2), of off 0] assms(3) obtain b where
    b: "fbuffers fb = [b]" "off < bsize (bv_buffer b)" "relative_offset off 0 (fbuffers fb) = Inr (0, off)"
    by (auto simp: fb_bytes_def)
  let ?fb = "fb\<lparr>foffset := off, current_buffer := Some 0, current_relative := off\<rparr>"
  have "fb_set_offset off fb = Inr ?fb" using b(3) by (simp add: fb_set_offset_def fb_reset_offset_def get_relative_offset_def)
  moreover have "fb_source ?fb" using assms(1) b(1,2) by (auto simp: fb_source_def fb_bytes_def)
  ultimately show ?thesis by (intro exI [of _ ?fb]) simp
qed

lemma compare_metadata:
  assumes "digest_ok dlen dg" and "alloc_total al" and "checks_of dg ms mcs" and "list_all (\<lambda>x. x \<noteq> [] \<and> length x \<le> 2 ^ 63) ms"
    and "fb_source md" and "length (fbuffers md) \<le> 1" and "fb_rest md = concat ms"
  shows "\<exists>md'. (\<forall>inp dcs. validate_checksums name dlen dg al mcs dcs md inp =
            bindR (foldR (compare_checksum_part name dlen dg al) inp dcs) (\<lambda>inp. Inr (md', inp)))
      \<and> fb_source md' \<and> foffset md' = foffset md \<and> fbuffers md' = fbuffers md"
proof -
  have "pieces_ok dg ms (fb_rest md)" using assms(7) pieces_ok_concat [of dg ms "[]"] by simp
  with compare_parts [OF assms(1-6), of name] obtain md5 where
    md5: "foldR (compare_checksum_part name dlen dg al) md mcs = Inr md5" "fb_source md5" "fbuffers md5 = fbuffers md" by auto
  have "\<exists>md6. (if foffset md5 \<noteq> foffset md then fb_set_offset (foffset md) md5 else Inr md5) = Inr md6
      \<and> fb_source md6 \<and> foffset md6 = foffset md \<and> fbuffers md6 = fbuffers md"
  proof (cases "foffset md5 = foffset md")
    case False
    have "foffset md \<noteq> length (fb_bytes md)"
    proof
      assume "foffset md = length (fb_bytes md)"
      then have "ms = []" using assms(4,7) by (cases ms) (auto simp: fb_rest_def)
      then have "md5 = md" using md5(1) assms(3) by (simp add: checks_of_def)
      then show False using False by simp
    qed
    then have "foffset md < length (fb_bytes md5)"
      using fb_source_offset(1) [OF assms(5)] md5(3) by (simp add: fb_bytes_def)
    from fb_set_offset_back [OF md5(2) _ this] md5(3) assms(6) False show ?thesis by auto
  qed (use md5 in simp)
  then show ?thesis using md5(1) by (auto simp: validate_checksums_def)
qed

text \<open>The metadata of the filter read back.\<close>

definition checksum_md :: "digest \<Rightarrow> byte list list \<Rightarrow> byte list list \<Rightarrow> byte list" where
  "checksum_md dg ms xs = le_bytes 4 (of_nat (length ms) :: 32 word) @ le_bytes 4 (of_nat (length xs) :: 32 word)
     @ concat (map (checksum_of dg) ms) @ concat (map (checksum_of dg) xs) @ concat ms"

lemma checksum_read_back:
  assumes "digest_ok dlen dg" and "length ms < 2 ^ 32" and "length xs < 2 ^ 32" and "length (concat xs) < 2 ^ 63"
    and "flat (checksum_md dg ms xs) im" and "fb_start im" and "alloc_total al"
    and "fb_append_view inp tgt = Inr out"
  shows "\<exists>md mcs dcs. fb_source md \<and> fb_rest md = concat ms \<and> fbuffers md = fbuffers im
       \<and> (\<not> skip \<longrightarrow> checks_of dg ms mcs \<and> checks_of dg xs dcs)
       \<and> checksum_run_reverse name dlen dg (Inr skip) al gb im inp fb_new tgt =
           bindR (if \<not> skip then validate_checksums name dlen dg al mcs dcs md inp else Inr (md, inp)) (\<lambda>(md7, inp1).
           bindR (fb_append_view_range md7 (foffset md7) (sub64 (fb_size md7) (foffset md7)) fb_new) (\<lambda>om.
             Inr (md7, inp1, om, out)))"
proof -
  let ?h1 = "le_bytes 4 (of_nat (length ms) :: 32 word)" and ?h2 = "le_bytes 4 (of_nat (length xs) :: 32 word)"
  have bi: "length (fbuffers im) \<le> 1" using assms(5) by (simp add: flat_def)
  have "fb_rest im = ?h1 @ (?h2 @ concat (map (checksum_of dg) ms) @ concat (map (checksum_of dg) xs) @ concat ms)"
    using assms(5,6) by (simp add: flat_def fb_start_rest checksum_md_def)
  from fsource.get_front [OF fb_start_source [OF assms(6)] this, of 4] obtain md1 where
    md1: "fb_read 4 im = Inr (?h1, md1)" "fb_source md1"
      "fb_rest md1 = ?h2 @ (concat (map (checksum_of dg) ms) @ concat (map (checksum_of dg) xs) @ concat ms)" by auto
  from fsource.get_front [OF md1(2,3), of 4] obtain md2 where md2: "fb_read 4 md1 = Inr (?h2, md2)" "fb_source md2"
      "fb_rest md2 = concat (map (checksum_of dg) ms) @ (concat (map (checksum_of dg) xs) @ concat ms)" by auto
  have bufs2: "fbuffers md2 = fbuffers im" using fb_read_frame [OF md1(1)] fb_read_frame [OF md2(1)] by simp
  have "length (concat ms) < 2 ^ 63" using flat_length [OF assms(5)] by (simp add: checksum_md_def)
  then have small: "list_all (\<lambda>x. length x < 2 ^ 64) ms" "list_all (\<lambda>x. length x < 2 ^ 64) xs"
    using part_length [of _ ms] part_length [of _ xs] assms(4) by (fastforce simp: list_all_iff)+
  from read_checksums [OF assms(1,7) _ small(1) md2(2) _ md2(3), of "[0..<length ms]" skip "[]"] bi bufs2 obtain md3 mcs where
    md3: "foldR (read_checksum dlen skip al) (md2, []) [0..<length ms] = Inr (md3, mcs)" "\<not> skip \<longrightarrow> checks_of dg ms mcs"
      "fb_source md3" "fb_rest md3 = concat (map (checksum_of dg) xs) @ concat ms" "fbuffers md3 = fbuffers im" by auto
  from read_checksums [OF assms(1,7) _ small(2) md3(3) _ md3(4), of "[0..<length xs]" skip "[]"] bi md3(5) obtain md4 dcs where
    md4: "foldR (read_checksum dlen skip al) (md3, []) [0..<length xs] = Inr (md4, dcs)" "\<not> skip \<longrightarrow> checks_of dg xs dcs"
      "fb_source md4" "fb_rest md4 = concat ms" "fbuffers md4 = fbuffers im" by auto
  have "checksum_run_reverse name dlen dg (Inr skip) al gb im inp fb_new tgt =
      bindR (if \<not> skip then validate_checksums name dlen dg al mcs dcs md4 inp else Inr (md4, inp)) (\<lambda>(md7, inp1).
      bindR (fb_append_view_range md7 (foffset md7) (sub64 (fb_size md7) (foffset md7)) fb_new) (\<lambda>om.
        Inr (md7, inp1, om, out)))"
    using assms(8) md1(1) md2(1) md3(1) md4(1) of_le_u32 [OF assms(2)] of_le_u32 [OF assms(3)]
    by (simp add: checksum_run_reverse_def)
  then show ?thesis using md3(2) md4(2-5) by blast
qed

lemma checksum_metadata_left:
  assumes "flat bs im" and "fb_source md" and "fbuffers md = fbuffers im" and "foffset md = foffset md0" and "fbuffers md0 = fbuffers im"
    and "fb_rest md0 = rest"
  shows "\<exists>om. flat rest om \<and> \<not> read_only om \<and> fb_append_view_range md (foffset md) (sub64 (fb_size md) (foffset md)) fb_new = Inr om"
proof -
  have fl: "flat (fb_bytes im) md" using assms(1,3) by (simp add: flat_def fb_bytes_def)
  have off: "foffset md \<le> length (fb_bytes im)" "rest = drop (foffset md) (fb_bytes im)"
    using fb_source_offset(1) [OF assms(2)] fl assms(3-6) by (simp_all add: flat_def fb_rest_def fb_bytes_def)
  have "sub64 (fb_size md) (foffset md) = length (fb_bytes im) - foffset md"
    using fb_size_bytes [of md] fl fb_source_offset [OF assms(2)] by (simp add: flat_def sub64_exact)
  with flat_rest [OF fl off(1)] off(2) show ?thesis by auto
qed

lemma checksum_reverse_cases:
  assumes dg: "digest_ok dlen dg" and ms: "length ms < 2 ^ 32" "list_all (\<lambda>x. x \<noteq> []) ms"
    and xs: "length xs < 2 ^ 32" "list_all (\<lambda>x. x \<noteq> []) xs" "length (concat xs) < 2 ^ 63"
    and im: "flat (checksum_md dg ms xs) im" "fb_start im" and inp: "flat bytes inp" "fb_start inp"
    and tgt: "fb_target (length bytes) tgt" and mem: "alloc_total al"
  shows "if skip \<or> pieces_ok dg xs bytes
       then \<exists>im2 inp2 om out. checksum_run_reverse name dlen dg (Inr skip) al gb im inp fb_new tgt = Inr (im2, inp2, om, out)
         \<and> flat (concat ms) om \<and> \<not> read_only om \<and> flat bytes out \<and> \<not> read_only out
       else \<exists>code msg. checksum_run_reverse name dlen dg (Inr skip) al gb im inp fb_new tgt = Inl (Err code msg)
         \<and> (length (concat xs) \<le> length bytes \<longrightarrow> code = SC_ChecksumError)"
proof -
  have bi: "fb_bytes inp = bytes" "length (fbuffers inp) \<le> 1" "bovs_ok (fbuffers inp)" "length (fbuffers im) \<le> 1"
    using inp(1) im(1) by (simp_all add: flat_def)
  have small: "list_all (\<lambda>x. x \<noteq> [] \<and> length x \<le> 2 ^ 63) ms" "list_all (\<lambda>x. x \<noteq> [] \<and> length x \<le> 2 ^ 63) xs"
    using part_length [of _ ms] part_length [of _ xs] xs(2,3) ms(2) flat_length [OF im(1)]
    by (fastforce simp: list_all_iff checksum_md_def)+
  obtain out where out: "fb_append_view inp tgt = Inr out" "flat bytes out" "\<not> read_only out"
    using fb_append_view_target [of inp tgt] tgt bi by (auto simp: flat_def)
  from checksum_read_back [OF dg ms(1) xs(1,3) im mem out(1), of skip name gb] obtain md mcs dcs where
    md: "fb_source md" "fb_rest md = concat ms" "fbuffers md = fbuffers im"
    and cs: "\<not> skip \<longrightarrow> checks_of dg ms mcs" "\<not> skip \<longrightarrow> checks_of dg xs dcs"
    and run: "checksum_run_reverse name dlen dg (Inr skip) al gb im inp fb_new tgt =
           bindR (if \<not> skip then validate_checksums name dlen dg al mcs dcs md inp else Inr (md, inp)) (\<lambda>(md7, inp1).
           bindR (fb_append_view_range md7 (foffset md7) (sub64 (fb_size md7) (foffset md7)) fb_new) (\<lambda>om.
             Inr (md7, inp1, om, out)))" by blast
  show ?thesis
  proof (cases skip)
    case True
    from checksum_metadata_left [OF im(1) md(1,3) refl md(3,2)] show ?thesis using True run out(2,3) by auto
  next
    case False
    from compare_metadata [OF dg mem _ small(1) md(1) _ md(2), of mcs name] cs(1) False bi(4) md(3) obtain md' where
      md': "validate_checksums name dlen dg al mcs dcs md inp =
            bindR (foldR (compare_checksum_part name dlen dg al) inp dcs) (\<lambda>inp. Inr (md', inp))"
        "fb_source md'" "foffset md' = foffset md" "fbuffers md' = fbuffers im" by auto
    from checksum_metadata_left [OF im(1) md'(2,4,3) md(3,2)] obtain om where
      om: "flat (concat ms) om" "\<not> read_only om"
        "fb_append_view_range md' (foffset md') (sub64 (fb_size md') (foffset md')) fb_new = Inr om" by blast
    have "fb_rest inp = bytes" using bi(1) fb_start_rest [OF inp(2)] by simp
    with compare_parts [OF dg mem _ small(2) fb_start_source [OF inp(2)] bi(2), of dcs name] cs(2) False
    have c: "if pieces_ok dg xs bytes then \<exists>inp1. foldR (compare_checksum_part name dlen dg al) inp dcs = Inr inp1
      else \<exists>code msg. foldR (compare_checksum_part name dlen dg al) inp dcs = Inl (Err code msg)
             \<and> (length (concat xs) \<le> length bytes \<longrightarrow> code = SC_ChecksumError)" by (auto split: if_splits)
    show ?thesis using c om out(2,3) False unfolding run by (cases "pieces_ok dg xs bytes") (auto simp: md'(1))
  qed
qed

lemma checksum_reverse:
  assumes dg: "digest_ok dlen dg" and ms: "length ms < 2 ^ 32" "list_all (\<lambda>x. x \<noteq> []) ms"
    and xs: "length xs < 2 ^ 32" "list_all (\<lambda>x. x \<noteq> []) xs"
    and im: "flat (checksum_md dg ms xs) im" "fb_start im" and inp: "flat (concat xs) inp" "fb_start inp"
    and tgt: "fb_target (length (concat xs)) tgt" and mem: "alloc_total al"
  shows "\<exists>im2 inp2 om out. checksum_run_reverse name dlen dg (Inr skip) al gb im inp fb_new tgt = Inr (im2, inp2, om, out)
       \<and> flat (concat ms) om \<and> \<not> read_only om \<and> flat (concat xs) out \<and> \<not> read_only out"
  using checksum_reverse_cases [OF dg ms xs flat_length [OF inp(1)] im inp tgt mem, of skip name gb] pieces_ok_concat [of dg xs "[]"]
  by simp

section \<open>The filter undoes itself, and finds what was changed\<close>

lemma checksum_filter:
  assumes dg: "digest_ok dlen dg"
  shows "chunk_filter (checksum_run_forward dlen dg) (checksum_run_reverse name dlen dg (Inr skip))"
proof
  fix al gb im inp im1 inp1 om out
  assume run: "checksum_run_forward dlen dg al gb im inp fb_new fb_new = Inr (im1, inp1, om, out)"
    and mem: "small_blocks al" "small_pool gb" and im: "md_ok im" and inp: "data_ok inp"
  note fw = checksum_forward [OF run dg mem im inp]
  show "md_done im om \<and> data_done out" using fw(3,4) ..
  have ok: "bovs_ok (fbuffers im)" "list_all solid (fbuffers im)" "bovs_ok (fbuffers inp)" "list_all solid (fbuffers inp)"
    "length (fbuffers im) < 2 ^ 20" "length (fbuffers inp) < 2 ^ 20"
    using im inp by (simp_all add: md_ok_def data_ok_def fb_start_def)
  note mp = md_parts [OF ok(1)] and dp = md_parts [OF ok(3)]
  let ?ms = "map cb_bytes (fb_buffers im)" and ?xs = "map cb_bytes (fb_buffers inp)"
  have lists: "length ?ms < 2 ^ 32" "list_all (\<lambda>x. x \<noteq> []) ?ms" "length ?xs < 2 ^ 32" "list_all (\<lambda>x. x \<noteq> []) ?xs"
    using mp(3,4) dp(3,4) ok by (simp_all add: list.pred_map comp_def)
  fix im' inp' tgt al' gb'
  assume "flat (fb_bytes om) im'" and "fb_start im'" and "flat (fb_bytes out) inp'" and "fb_start inp'"
    and "fb_target (length (fb_bytes inp)) tgt" and "alloc_total al'" and "small_pool gb'"
  then show "\<exists>im2 inp2 om' out'. checksum_run_reverse name dlen dg (Inr skip) al' gb' im' inp' fb_new tgt = Inr (im2, inp2, om', out')
       \<and> flat (fb_bytes im) om' \<and> \<not> read_only om' \<and> flat (fb_bytes inp) out' \<and> \<not> read_only out'"
    using checksum_reverse [OF dg lists, of im' inp' tgt al' name skip gb'] fw(1,2) mp(1) dp(1) by (simp add: checksum_md_def)
qed

text \<open>The definitions that a run on concrete buffers evaluates.\<close>

lemmas checksum_eval = checksum_run_forward_def fb_append_view_def fb_append_view_range_def fb_size_def fb_new_def
  bov_new_def buffer_wrap_def add64_def get_relative_offset_def capacity_def fb_reset_offset_def Let_def get_view_def
  sub64_def buffer_data_at_def buffer_new_def fb_buffers_def cb_new_def u32_def fb_prepend_buffer_def buffer_realloc_def
  malloc_def buffer_reset_size_def buffer_reset_offset_def fb_write_def store_def mem_write_def overwrite_def
  checksum_part_def sized_buffer_def openssl_digest_def buffer_free_space_def mem_read_def slice_def le_bytes_ne

text \<open>C34: What validation accepts, for any number of parts. With the metadata that was written and validation switched on, data
  is accepted exactly when it begins with pieces of the sizes of the parts that were written, with the digests that were written;
  it is then passed on unchanged. Bytes after the last of these pieces are not checked.
  Otherwise the reverse run ends with an error, which is a checksum error unless the data is shorter than what was written.
  The written data and metadata are within the sizes for which the filter is shown to undo itself (blocks below \<open>2 ^ 28\<close> bytes), reading does not
  run out of memory, and the digest has a fixed length of at most 32 bytes.\<close>

theorem checksum_detects_change:
  assumes "digest_ok dlen dg" and "checksum_run_forward dlen dg al gb im inp fb_new fb_new = Inr (im1, inp1, om, out)"
    and "small_blocks al" and "small_pool gb" and "md_ok im" and "data_ok inp"
    and "flat (fb_bytes om) im'" and "fb_start im'" and "flat bytes inp'" and "fb_start inp'"
    and "fb_target (length bytes) tgt" and "alloc_total al'"
  shows "if pieces_ok dg (map cb_bytes (fb_buffers inp)) bytes
       then \<exists>im2 inp2 om' out'. checksum_run_reverse name dlen dg (Inr False) al' gb' im' inp' fb_new tgt = Inr (im2, inp2, om', out')
         \<and> fb_bytes om' = fb_bytes im \<and> fb_bytes out' = bytes
       else \<exists>code msg. checksum_run_reverse name dlen dg (Inr False) al' gb' im' inp' fb_new tgt = Inl (Err code msg)
         \<and> (length (fb_bytes inp) \<le> length bytes \<longrightarrow> code = SC_ChecksumError)"
proof -
  note fw = checksum_forward [OF assms(2,1,3-6)]
  have ok: "bovs_ok (fbuffers im)" "bovs_ok (fbuffers inp)" "length (fbuffers im) < 2 ^ 20" "length (fbuffers inp) < 2 ^ 20"
    "list_all solid (fbuffers im)" "list_all solid (fbuffers inp)" "length (fb_bytes inp) < 2 ^ 63"
    using assms(5,6) by (simp_all add: md_ok_def data_ok_def fb_start_def)
  note mp = md_parts [OF ok(1)] and dp = md_parts [OF ok(2)]
  let ?ms = "map cb_bytes (fb_buffers im)" and ?xs = "map cb_bytes (fb_buffers inp)"
  have lists: "length ?ms < 2 ^ 32" "list_all (\<lambda>x. x \<noteq> []) ?ms" "length ?xs < 2 ^ 32" "list_all (\<lambda>x. x \<noteq> []) ?xs" "length (concat ?xs) < 2 ^ 63"
    using mp(3,4) dp(1,3,4) ok by (simp_all add: list.pred_map comp_def)
  have "flat (checksum_md dg ?ms ?xs) im'" using assms(7) fw(2) mp(1) by (simp add: checksum_md_def)
  from checksum_reverse_cases [OF assms(1) lists this assms(8-12), of False name gb'] show ?thesis
    unfolding mp(1) dp(1) by (auto simp: flat_def split: if_splits)
qed

theorem checksum_detects_change_witness:
  "\<exists>msg. checksum_run_reverse ''md5'' 16 (\<lambda>x. replicate 16 (sum_list x)) (Inr False) (\<lambda>n. Some []) (\<lambda>i. buffer_new)
     (fb_new\<lparr>fbuffers := [bov_new (buffer_wrap (Some (le_bytes 4 (0 :: 32 word) @ le_bytes 4 (1 :: 32 word)
        @ le_bytes 8 (3 :: 64 word) @ replicate 16 6)) 32)]\<rparr>)
     (fb_new\<lparr>fbuffers := [bov_new (buffer_wrap (Some [1, 2, 4]) 3)]\<rparr>) fb_new fb_new = Inl (Err SC_ChecksumError msg)"
proof -
  define al :: allocator where "al = (\<lambda>n. if n < 2 ^ 28 then Some [] else None)"
  define gb :: "nat \<Rightarrow> buffer" where "gb = (\<lambda>i. buffer_new)"
  define dg :: digest where "dg = (\<lambda>x. replicate 16 (sum_list x))"
  define inp where "inp = fb_new\<lparr>fbuffers := [bov_new (buffer_wrap (Some [1, 2, 3 :: byte]) 3)]\<rparr>"
  let ?md = "le_bytes 4 (0 :: 32 word) @ le_bytes 4 (1 :: 32 word) @ le_bytes 8 (3 :: 64 word) @ replicate 16 6"
  have "\<exists>im1 inp1 om out. checksum_run_forward 16 dg al gb fb_new inp fb_new fb_new = Inr (im1, inp1, om, out) \<and> fb_bytes om = ?md"
    unfolding al_def gb_def dg_def inp_def by (simp add: checksum_eval fb_bytes_def buffer_bytes_def)
  then obtain im1 inp1 om out where r: "checksum_run_forward 16 dg al gb fb_new inp fb_new fb_new = Inr (im1, inp1, om, out)"
    and om: "fb_bytes om = ?md" by blast
  have neg: "\<not> pieces_ok dg (map cb_bytes (fb_buffers inp)) [1, 2, 4]" "length (fb_bytes inp) \<le> length [1, 2, 4 :: byte]"
    by (simp_all add: dg_def inp_def fb_buffers_def cb_new_def cb_bytes_def bov_new_def buffer_wrap_def fb_bytes_def buffer_bytes_def)
  have h: "digest_ok 16 dg" "small_blocks al" "small_pool gb" "md_ok fb_new" "data_ok inp"
    "flat (fb_bytes om) (fb_new\<lparr>fbuffers := [bov_new (buffer_wrap (Some ?md) 32)]\<rparr>)"
    "fb_start (fb_new\<lparr>fbuffers := [bov_new (buffer_wrap (Some ?md) 32)]\<rparr>)"
    "flat [1, 2, 4] (fb_new\<lparr>fbuffers := [bov_new (buffer_wrap (Some [1, 2, 4]) 3)]\<rparr>)"
    "fb_start (fb_new\<lparr>fbuffers := [bov_new (buffer_wrap (Some [1, 2, 4]) 3)]\<rparr>)"
    "fb_target (length [1, 2, 4 :: byte]) fb_new" "alloc_total (\<lambda>n. Some [])"
    by (simp_all add: dg_def al_def gb_def inp_def om [unfolded fb_bytes_def] digest_ok_def small_blocks_def small_pool_def pool_buffer_def buffer_new_def
        buffer_wrap_def buffer_inv_def md_ok_def data_ok_def fb_start_def fb_new_def fb_bytes_def bov_new_def solid_def
        flat_def buffer_bytes_def fb_target_def alloc_total_def)
  from checksum_detects_change [OF h(1) r h(2-11), of "''md5''" "\<lambda>i. buffer_new"] neg show ?thesis
    unfolding dg_def [symmetric] by (simp only: if_False) blast
qed

end
