(* ===== verification/Rle_Compressor.thy ===== *)
theory Rle_Compressor
  imports Tdb_Cells
begin

text \<open>
  The run-length codec of \<open>compressors/rle_compressor.cc\<close>. A run is a value of
  \<open>value_size\<close> bytes followed by its length in two bytes, the high one first.
\<close>

section \<open>The code\<close>

definition rle_save :: "allocator \<Rightarrow> byte list \<Rightarrow> nat \<Rightarrow> buffer \<Rightarrow> buffer result" where
  "rle_save al prev cur_run_len out =
     bindR (buffer_write al prev out) (\<lambda>o1.
     bindR (buffer_write al [of_nat (cur_run_len div 256)] o1) (\<lambda>o2.
       buffer_write al [of_nat (cur_run_len mod 256)] o2))"

function rle_make_runs ::
  "allocator \<Rightarrow> nat \<Rightarrow> byte list option \<Rightarrow> nat \<Rightarrow> nat \<Rightarrow> nat \<Rightarrow> buffer \<Rightarrow> (nat \<times> buffer) result" where
  "rle_make_runs al value_size d value_num i cur_run_len out =
     (if i < value_num then
        bindR (mem_read d (i * value_size) value_size) (\<lambda>input_cur.
        bindR (mem_read d ((i - 1) * value_size) value_size) (\<lambda>input_prev.
          if input_cur = input_prev \<and> cur_run_len < 65535
          then rle_make_runs al value_size d value_num (Suc i) (Suc cur_run_len) out
          else bindR (rle_save al input_prev cur_run_len out) (\<lambda>out'.
                 rle_make_runs al value_size d value_num (Suc i) 1 out')))
      else Inr (cur_run_len, out))"
  by pat_completeness auto
termination
  by (relation "measure (\<lambda>(_, _, _, n, i, _, _). n - i)") auto

declare rle_make_runs.simps [simp del]

definition rle_compress :: "allocator \<Rightarrow> nat \<Rightarrow> const_buffer \<Rightarrow> buffer \<Rightarrow> buffer result" where
  "rle_compress al value_size input out =
     (if cdata input = None
      then Inl (Err SC_Compression ''Failed compressing with RLE; null input buffer'')
      else if value_size = 0 then Inl UB
      else let value_num = csize input div value_size in
        if value_num = 0 then Inr out
        else if csize input mod value_size \<noteq> 0
        then Inl (Err SC_Compression ''Failed compressing with RLE; invalid input buffer format'')
        else bindR (rle_make_runs al value_size (cdata input) value_num 1 1 out)
               (\<lambda>(cur_run_len, out').
             bindR (mem_read (cdata input) ((value_num - 1) * value_size) value_size) (\<lambda>input_prev.
               rle_save al input_prev cur_run_len out')))"

definition rle_decompress_run ::
  "nat \<Rightarrow> byte list option \<Rightarrow> nat \<Rightarrow> prealloc_buffer \<Rightarrow> prealloc_buffer result" where
  "rle_decompress_run value_size d input_cur out =
     bindR (mem_read d (input_cur + value_size) 1) (\<lambda>hi.
     bindR (mem_read d (input_cur + value_size + 1) 1) (\<lambda>lo.
       let run_len = unat (hd hi) * 256 + unat (hd lo) in
       foldR (\<lambda>out _. bindR (mem_read d input_cur value_size) (\<lambda>v. pb_write v out)) out [0..<run_len]))"

definition rle_decompress :: "nat \<Rightarrow> const_buffer \<Rightarrow> prealloc_buffer \<Rightarrow> prealloc_buffer result" where
  "rle_decompress value_size input out =
     (if cdata input = None
      then Inl (Err SC_Compression ''Failed decompressing with RLE; null input buffer'')
      else let run_size = add64 value_size 2 in
        if run_size = 0 then Inl UB
        else let run_num = csize input div run_size in
          if run_num = 0 then Inr out
          else if csize input mod run_size \<noteq> 0
          then Inl (Err SC_Compression ''Failed decompressing with RLE; invalid input buffer format'')
          else foldR (\<lambda>out i. rle_decompress_run value_size (cdata input) (i * run_size) out)
                 out [0..<run_num])"

definition rle_overhead :: "nat \<Rightarrow> nat \<Rightarrow> nat result" where
  "rle_overhead nbytes value_size =
     (if value_size = 0 then Inl UB else Inr (mul64 (nbytes div value_size) 2))"

section \<open>The reference: a list of runs\<close>

fun runs :: "'a \<Rightarrow> nat \<Rightarrow> 'a list \<Rightarrow> ('a \<times> nat) list" where
  "runs prev len [] = [(prev, len)]"
| "runs prev len (v # vs) =
     (if v = prev \<and> len < 65535 then runs prev (Suc len) vs else (prev, len) # runs v 1 vs)"

definition expand :: "('a \<times> nat) list \<Rightarrow> 'a list" where
  "expand rs = concat (map (\<lambda>(v, n). replicate n v) rs)"

definition enc_run :: "byte list \<times> nat \<Rightarrow> byte list" where
  "enc_run r = fst r @ [of_nat (snd r div 256), of_nat (snd r mod 256)]"

lemma expand_simps [simp]: "expand [] = []" "expand ((v, n) # rs) = replicate n v @ expand rs"
  by (simp_all add: expand_def)

lemma expand_runs: "expand (runs prev len vs) = replicate len prev @ vs"
proof (induction vs arbitrary: prev len)
  case (Cons v vs)
  have "replicate len prev @ prev # vs = replicate (Suc len) prev @ vs"
    by (simp add: replicate_app_Cons_same)
  then show ?case using Cons.IH by simp
qed simp

lemma runs_bound: "0 < len \<Longrightarrow> len \<le> 65535 \<Longrightarrow> \<forall>r \<in> set (runs prev len vs). 0 < snd r \<and> snd r \<le> 65535"
proof (induction vs arbitrary: prev len)
  case (Cons v vs)
  then show ?case using Cons.IH [of "Suc len" prev] Cons.IH [of 1 v] by simp
qed simp

lemma runs_values: "\<forall>r \<in> set (runs prev len vs). fst r \<in> set (prev # vs)"
proof (induction vs arbitrary: prev len)
  case (Cons v vs)
  then show ?case using Cons.IH [of prev "Suc len"] Cons.IH [of v 1] by auto
qed simp

lemma length_runs: "length (runs prev len vs) \<le> Suc (length vs)"
  by (induction vs arbitrary: prev len) (auto intro: le_SucI)

lemma unat_run_len:
  "n \<le> 65535 \<Longrightarrow> unat (of_nat (n div 256) :: byte) * 256 + unat (of_nat (n mod 256) :: byte) = n"
proof -
  assume "n \<le> 65535"
  then have "n div 256 < 256" by simp
  then show ?thesis by (simp add: unat_of_nat)
qed

section \<open>Compression implements the reference\<close>

lemma rle_save_spec:
  assumes "buffer_sink out" and "buffer_room al out (length prev + 2 + n)"
  shows "\<exists>out'. rle_save al prev len out = Inr out' \<and> buffer_sink out'
                \<and> buffer_bytes out' = buffer_bytes out @ enc_run (prev, len) \<and> buffer_room al out' n"
proof -
  have r: "buffer_room al out (length prev + (2 + n))" using assms(2) by (simp add: add.assoc)
  from bsink.put_ok [OF assms(1) r] obtain o1 where o1: "buffer_write al prev out = Inr o1" "buffer_sink o1"
    "buffer_bytes o1 = buffer_bytes out @ prev" "buffer_room al o1 (1 + (1 + n))"
    by (auto simp: numeral_2_eq_2)
  from bsink.put_ok [OF o1(2), of al "[of_nat (len div 256)]" "1 + n"] o1(4) obtain o2 where o2:
    "buffer_write al [of_nat (len div 256)] o1 = Inr o2" "buffer_sink o2"
    "buffer_bytes o2 = buffer_bytes o1 @ [of_nat (len div 256)]" "buffer_room al o2 (1 + n)"
    by auto
  from bsink.put_ok [OF o2(2), of al "[of_nat (len mod 256)]" n] o2(4) obtain o3 where o3:
    "buffer_write al [of_nat (len mod 256)] o2 = Inr o3" "buffer_sink o3"
    "buffer_bytes o3 = buffer_bytes o2 @ [of_nat (len mod 256)]" "buffer_room al o3 n"
    by auto
  show ?thesis using o1 o2 o3 by (simp add: rle_save_def enc_run_def)
qed

lemma concat_nth:
  assumes "\<forall>v \<in> set vs. length v = k" and "i < length vs"
  shows "slice (concat vs) (i * k) k = vs ! i"
proof -
  have "vs = take i vs @ vs ! i # drop (Suc i) vs" using assms(2) by (rule id_take_nth_drop)
  then have "concat vs = concat (take i vs) @ vs ! i @ concat (drop (Suc i) vs)"
    by (metis concat.simps(2) concat_append)
  moreover have "length (concat (take i vs)) = i * k"
  proof -
    have "map length (take i vs) = replicate i k"
      using assms by (intro nth_equalityI) auto
    then show ?thesis by (simp add: length_concat sum_list_replicate)
  qed
  ultimately show ?thesis using assms by (simp add: slice_def)
qed

lemma mem_read_concat:
  assumes "\<forall>v \<in> set vs. length v = k" and "i < length vs" and "region d = concat vs @ ys"
  shows "mem_read d (i * k) k = Inr (vs ! i)"
proof -
  have "\<forall>v \<in> set vs. length v = k \<Longrightarrow> length (concat vs) = length vs * k" for vs :: "byte list list"
    by (induction vs) auto
  then have len: "length (concat vs) = length vs * k" using assms(1) by blast
  have le: "i * k + k \<le> length vs * k"
    using assms(2) by (metis Suc_leI add.commute mult_Suc mult_le_mono1)
  then have "i * k + k \<le> cap d" using arg_cong [OF assms(3), of length] len by simp
  moreover have "slice (concat vs @ ys) (i * k) k = slice (concat vs) (i * k) k"
    using le len by (simp add: slice_def)
  ultimately show ?thesis using concat_nth [OF assms(1,2)] assms(3) by (simp add: mem_read_region)
qed

lemma rle_make_runs_spec:
  assumes "\<forall>v \<in> set vs. length v = k" and "region d = concat vs @ ys"
    and "0 < i" and "i \<le> length vs" and "buffer_sink out"
    and "buffer_room al out ((length vs + 1 - i) * (k + 2))"
  shows "\<exists>len out'. rle_make_runs al k d (length vs) i run out = Inr (len, out') \<and> buffer_sink out'
           \<and> buffer_room al out' (k + 2)
           \<and> buffer_bytes out' @ enc_run (last vs, len)
             = buffer_bytes out @ concat (map enc_run (runs (vs ! (i - 1)) run (drop i vs)))"
  using assms(3-6)
proof (induction "length vs - i" arbitrary: i run out)
  case 0
  then have i: "i = length vs" by simp
  then have "last vs = vs ! (i - 1)" using 0 by (simp add: last_conv_nth)
  then show ?case using 0 i by (subst rle_make_runs.simps) simp
next
  case (Suc n)
  then have i: "i < length vs" by simp
  have cur: "mem_read d (i * k) k = Inr (vs ! i)"
    by (rule mem_read_concat [OF assms(1) i assms(2)])
  have prev: "mem_read d ((i - 1) * k) k = Inr (vs ! (i - 1))"
    by (rule mem_read_concat [OF assms(1) _ assms(2)]) (use i in simp)
  have split: "drop i vs = vs ! i # drop (Suc i) vs" using i by (rule Cons_nth_drop_Suc [symmetric])
  have "length vs + 1 - i = Suc (length vs + 1 - Suc i)" using i by simp
  then have left: "(length vs + 1 - i) * (k + 2) = (k + 2) + (length vs + 1 - Suc i) * (k + 2)"
    by (simp only: mult_Suc)
  show ?case
  proof (cases "vs ! i = vs ! (i - 1) \<and> run < 65535")
    case True
    have r: "buffer_room al out ((length vs + 1 - Suc i) * (k + 2))"
    proof (rule bsink.room_less)
      show "buffer_room al out ((length vs + 1 - Suc i) * (k + 2) + (k + 2))"
        using Suc.prems(4) left by (simp only: add.commute)
    qed
    have "n = length vs - Suc i" using Suc.hyps(2) by simp
    from Suc.hyps(1) [OF this _ _ Suc.prems(3) r, of "Suc run"] i True cur prev split
    show ?thesis by (subst rle_make_runs.simps) simp
  next
    case False
    have k: "length (vs ! (i - 1)) = k" using assms(1) i by simp
    have "buffer_room al out (length (vs ! (i - 1)) + 2 + (length vs + 1 - Suc i) * (k + 2))"
      using Suc.prems(4) by (simp only: left k)
    from rle_save_spec [OF Suc.prems(3) this, of run] obtain o1 where o1:
      "rle_save al (vs ! (i - 1)) run out = Inr o1" "buffer_sink o1"
      "buffer_bytes o1 = buffer_bytes out @ enc_run (vs ! (i - 1), run)"
      "buffer_room al o1 ((length vs + 1 - Suc i) * (k + 2))" by blast
    have "n = length vs - Suc i" using Suc.hyps(2) by simp
    from Suc.hyps(1) [OF this _ _ o1(2,4), of 1] i obtain len o2 where o2:
      "rle_make_runs al k d (length vs) (Suc i) 1 o1 = Inr (len, o2)" "buffer_sink o2"
      "buffer_room al o2 (k + 2)"
      "buffer_bytes o2 @ enc_run (last vs, len) =
       buffer_bytes o1 @ concat (map enc_run (runs (vs ! i) 1 (drop (Suc i) vs)))"
      by auto
    show ?thesis using i cur prev False split o1 o2 by (subst rle_make_runs.simps) auto
  qed
qed


section \<open>Decompression implements the reference\<close>

lemma pb_write_replicate:
  assumes "pb_inv p" and "pb_room p (n * length v + m)" and "mem_read d off (length v) = Inr v"
  shows "\<exists>p'. foldR (\<lambda>out _. bindR (mem_read d off (length v)) (\<lambda>v. pb_write v out)) p [0..<n] = Inr p'
              \<and> pb_inv p' \<and> pb_written p' = pb_written p @ concat (replicate n v) \<and> pb_room p' m"
proof -
  have fold: "foldR (\<lambda>out _. bindR (mem_read d off (length v)) (\<lambda>v. pb_write v out)) p xs
      = foldR (\<lambda>s bs. pb_write bs s) p (replicate (length xs) v)" for xs :: "nat list" and p
    by (induction xs arbitrary: p) (simp_all add: assms(3))
  have len: "length (concat (replicate n v)) = n * length v"
    by (induction n) simp_all
  show ?thesis
    using psink.put_all [OF assms(1), of "replicate n v" m] assms(2) len fold [of p "[0..<n]"] by simp
qed

lemma rle_decompress_run_spec:
  assumes "pb_inv p" and "pb_room p (n * length v + m)" and "n \<le> 65535"
    and "region d = pre @ enc_run (v, n) @ ys" and "off = length pre"
  shows "\<exists>p'. rle_decompress_run (length v) d off p = Inr p' \<and> pb_inv p'
              \<and> pb_written p' = pb_written p @ concat (replicate n v) \<and> pb_room p' m"
proof -
  have cap: "cap d = off + length v + 2 + length ys"
    using arg_cong [OF assms(4), of length] assms(5) by (simp add: enc_run_def)
  have "mem_read d (off + length v) 1 = Inr [of_nat (n div 256)]"
    "mem_read d (off + length v + 1) 1 = Inr [of_nat (n mod 256)]"
    "mem_read d off (length v) = Inr v"
    using cap assms(4,5) by (simp_all add: mem_read_region slice_def enc_run_def)
  then show ?thesis
    using pb_write_replicate [OF assms(1,2), of d off] unat_run_len [OF assms(3)]
    by (simp add: rle_decompress_run_def)
qed

definition rs_value_size :: "(byte list \<times> nat) list \<Rightarrow> nat \<Rightarrow> bool" where
  "rs_value_size rs k \<longleftrightarrow> (\<forall>r \<in> set rs. length (fst r) = k \<and> snd r \<le> 65535)"

lemma rle_decompress_runs_spec:
  assumes "rs_value_size rs k" and "pb_inv p" and "pb_room p (length (concat (expand rs)) + m)"
    and "region d = pre @ concat (map enc_run rs) @ ys" and "length pre = i * (k + 2)"
  shows "\<exists>p'. foldR (\<lambda>out i. rle_decompress_run k d (i * (k + 2)) out) p [i..<i + length rs] = Inr p'
              \<and> pb_inv p' \<and> pb_written p' = pb_written p @ concat (expand rs)"
  using assms
proof (induction rs arbitrary: p pre i)
  case (Cons r rs)
  obtain v n where r: "r = (v, n)" by (cases r)
  have k: "length v = k" "n \<le> 65535" using Cons.prems(1) r by (simp_all add: rs_value_size_def)
  have len: "length (concat (replicate n v)) = n * length v" by (induction n) simp_all
  have room: "pb_room p (n * length v + (length (concat (expand rs)) + m))"
    using Cons.prems(3) r len by (simp add: add.assoc)
  have reg: "region d = pre @ enc_run (v, n) @ (concat (map enc_run rs) @ ys)"
    using Cons.prems(4) r by simp
  from rle_decompress_run_spec [OF Cons.prems(2) room k(2) reg Cons.prems(5) [symmetric]] k(1)
  obtain p1 where p1: "rle_decompress_run k d (i * (k + 2)) p = Inr p1" "pb_inv p1"
    "pb_written p1 = pb_written p @ concat (replicate n v)" "pb_room p1 (length (concat (expand rs)) + m)"
    by blast
  have reg2: "region d = (pre @ enc_run r) @ concat (map enc_run rs) @ ys" using Cons.prems(4) by simp
  have len2: "length (pre @ enc_run r) = Suc i * (k + 2)"
    using Cons.prems(5) k r by (simp add: enc_run_def)
  have "rs_value_size rs k" using Cons.prems(1) by (simp add: rs_value_size_def)
  from Cons.IH [OF this p1(2,4) reg2 len2] obtain p2 where p2:
    "foldR (\<lambda>out i. rle_decompress_run k d (i * (k + 2)) out) p1 [Suc i..<Suc i + length rs] = Inr p2"
    "pb_inv p2" "pb_written p2 = pb_written p1 @ concat (expand rs)"
    by blast
  have "[i..<i + length (r # rs)] = i # [Suc i..<Suc i + length rs]"
    by (simp add: upt_conv_Cons del: upt_Suc)
  then show ?case using p1 p2 r by simp
qed simp

lemma length_concat_enc_run:
  "rs_value_size rs k \<Longrightarrow> length (concat (map enc_run rs)) = length rs * (k + 2)"
  by (induction rs) (auto simp: rs_value_size_def enc_run_def)

lemma rle_compress_spec:
  assumes "\<forall>v \<in> set vs. length v = k" and "0 < k" and "vs \<noteq> []" and "cb_inv cb"
    and "cb_bytes cb = concat vs" and "buffer_sink out" and "buffer_room al out (length vs * (k + 2))"
  shows "\<exists>out'. rle_compress al k cb out = Inr out' \<and> buffer_sink out'
           \<and> buffer_bytes out' = buffer_bytes out @ concat (map enc_run (runs (hd vs) 1 (tl vs)))"
proof -
  have cat: "length (concat vs) = length vs * k" using assms(1) by (induction vs) auto
  then have size: "csize cb = length vs * k" using length_cb_bytes [OF assms(4)] assms(5) by simp
  obtain d where d: "cdata cb = Some d"
    using assms(2,3,4) size by (cases "cdata cb") (auto simp: cb_inv_def)
  obtain ys where reg: "region (cdata cb) = concat vs @ ys"
    using assms(5) by (metis append_take_drop_id cb_bytes_def)
  have room: "buffer_room al out ((length vs + 1 - 1) * (k + 2))" using assms(7) by simp
  have "1 \<le> length vs" using assms(3) by (cases vs) simp_all
  from rle_make_runs_spec [OF assms(1) reg _ this assms(6) room, of 1] obtain len o1 where o1:
    "rle_make_runs al k (cdata cb) (length vs) 1 1 out = Inr (len, o1)" "buffer_sink o1"
    "buffer_room al o1 (k + 2)"
    "buffer_bytes o1 @ enc_run (last vs, len) = buffer_bytes out @ concat (map enc_run (runs (vs ! 0) 1 (drop 1 vs)))"
    by auto
  have lst: "mem_read (cdata cb) ((length vs - 1) * k) k = Inr (last vs)"
    using mem_read_concat [OF assms(1) _ reg, of "length vs - 1"] assms(3) by (simp add: last_conv_nth)
  have "length (last vs) = k" using assms(1,3) by simp
  from rle_save_spec [OF o1(2), of al "last vs" 0 len] this o1(3) obtain o2 where o2:
    "rle_save al (last vs) len o1 = Inr o2" "buffer_sink o2"
    "buffer_bytes o2 = buffer_bytes o1 @ enc_run (last vs, len)" by auto
  have "rle_compress al k cb out = Inr o2"
    using d assms(2,3) size o1(1) lst o2(1) by (simp add: rle_compress_def Let_def)
  moreover have "vs ! 0 = hd vs" "drop 1 vs = tl vs" using assms(3) by (simp_all add: hd_conv_nth drop_Suc)
  ultimately show ?thesis using o1(4) o2 by auto
qed

lemma runs_value_size:
  assumes "\<forall>v \<in> set vs. length v = k" and "vs \<noteq> []"
  shows "rs_value_size (runs (hd vs) 1 (tl vs)) k"
proof -
  have "set (hd vs # tl vs) = set vs" using assms(2) by simp
  then show ?thesis
    using runs_values [of "hd vs" 1 "tl vs"] runs_bound [of 1 "hd vs" "tl vs"] assms(1)
    by (auto simp: rs_value_size_def)
qed

lemma rle_decompress_spec:
  assumes "rs_value_size rs k" and "rs \<noteq> []" and "k < 2 ^ 63" and "cb_inv cb"
    and "cb_bytes cb = concat (map enc_run rs)" and "pb_inv p" and "pb_room p (length (concat (expand rs)))"
  shows "\<exists>p'. rle_decompress k cb p = Inr p' \<and> pb_inv p' \<and> pb_written p' = pb_written p @ concat (expand rs)"
proof -
  have size: "csize cb = length rs * (k + 2)"
    using length_cb_bytes [OF assms(4)] assms(5) length_concat_enc_run [OF assms(1)] by simp
  obtain d where d: "cdata cb = Some d"
    using assms(2,4) size by (cases "cdata cb") (auto simp: cb_inv_def)
  obtain ys where reg: "region (cdata cb) = [] @ concat (map enc_run rs) @ ys"
    using assms(5) by (metis append_Nil append_take_drop_id cb_bytes_def)
  have add: "add64 k 2 = k + 2" using assms(3) by (simp add: add64_exact)
  from rle_decompress_runs_spec [OF assms(1,6) _ reg, of 0 0] assms(7) show ?thesis
    using d size add assms(2) by (simp add: rle_decompress_def Let_def del: mult_Suc_right add_2_eq_Suc')
qed

text \<open>An output buffer after some writes to it: what had been written stays.\<close>

definition pb_extends :: "prealloc_buffer \<Rightarrow> prealloc_buffer \<Rightarrow> bool" where
  "pb_extends p p' \<longleftrightarrow> pb_inv p' \<and> psize p' = psize p \<and> (\<exists>bs. pb_written p' = pb_written p @ bs)"

lemma pb_write_safe:
  assumes "pb_extends q p" and "length v < 2 ^ 62"
  shows "returns (pb_extends q) (pb_write v p)"
proof (cases "poffset p + length v \<le> psize p")
  case True
  have "pb_inv p" using assms(1) by (simp add: pb_extends_def)
  from pb_write_spec [OF this True] show ?thesis using assms(1) by (auto simp: pb_extends_def)
next
  case False
  then show ?thesis using assms by (auto simp: pb_write_def add64_exact pb_inv_def pb_extends_def)
qed

lemma rle_decompress_run_safe:
  assumes "cb_inv cb" and "k < 2 ^ 62" and "pb_extends q p" and "i < csize cb div (k + 2)"
  shows "returns (pb_extends q) (rle_decompress_run k (cdata cb) (i * (k + 2)) p)"
proof -
  let ?d = "cdata cb" and ?o = "i * (k + 2)"
  have "?o + (k + 2) \<le> cap ?d"
    using chunk_bound [OF assms(4)] assms(1) by (simp add: cb_inv_def)
  then have "mem_read ?d (?o + k) 1 = Inr (slice (region ?d) (?o + k) 1)"
    "mem_read ?d (?o + k + 1) 1 = Inr (slice (region ?d) (?o + k + 1) 1)"
    "mem_read ?d ?o k = Inr (slice (region ?d) ?o k)"
    and len: "length (slice (region ?d) ?o k) = k"
    by (simp_all add: mem_read_region length_slice)
  moreover have "returns (pb_extends q) (foldR (\<lambda>out _. pb_write (slice (region ?d) ?o k) out) p xs)"
    for xs :: "nat list"
    by (rule returns_foldR [of "pb_extends q", OF assms(3)]) (use pb_write_safe len assms(2) in simp)
  ultimately show ?thesis by (simp add: rle_decompress_run_def Let_def)
qed

section \<open>Properties\<close>

text \<open>
  C12: run-length coding loses nothing and respects its overhead bound. For every non-empty input
  that consists of whole values, compression into a fresh buffer succeeds, the result is at
  most \<open>overhead\<close> bytes longer than the input, and decompressing it into a buffer of the input's
  size restores the input.
\<close>

theorem rle_round_trip:
  assumes "0 < k" and "k dvd csize cb" and "0 < csize cb" and "cb_inv cb" and "csize cb < 2 ^ 61"
    and "alloc_total al" and "pb_inv p" and "poffset p = 0" and "csize cb \<le> psize p"
  shows "\<exists>out h p'. rle_compress al k cb buffer_new = Inr out \<and> buffer_inv out
           \<and> rle_overhead (csize cb) k = Inr h \<and> bsize out \<le> csize cb + h
           \<and> rle_decompress k (cb_of_buffer out) p = Inr p' \<and> pb_written p' = cb_bytes cb"
proof -
  define vs where "vs = chunks k (cb_bytes cb)"
  define rs where "rs = runs (hd vs) 1 (tl vs)"
  have len: "length (cb_bytes cb) = csize cb" by (rule length_cb_bytes [OF assms(4)])
  have vs: "\<forall>v \<in> set vs. length v = k" "concat vs = cb_bytes cb" "length vs = csize cb div k"
    using chunks_lengths concat_chunks [of k "cb_bytes cb"] assms(1,2) len by (auto simp: vs_def)
  have n: "length vs * k = csize cb" "0 < length vs"
    using vs(3) assms(1-3) by (auto simp: div_greater_zero_iff dvd_imp_le)
  then have ne: "vs \<noteq> []" by auto
  have "length vs \<le> length vs * k" using assms(1) by simp
  then have small: "length vs * (k + 2) \<le> 3 * csize cb" using n by (simp add: distrib_left)
  have sink: "buffer_sink buffer_new" "buffer_room al buffer_new (length vs * (k + 2))"
    using small assms(5,6)
    by (simp_all add: buffer_sink_def buffer_inv_def buffer_room_def buffer_new_def buffer_wrap_def)
  from rle_compress_spec [OF vs(1) assms(1) ne assms(4) vs(2) [symmetric] sink] obtain out where out:
    "rle_compress al k cb buffer_new = Inr out" "buffer_sink out"
    "buffer_bytes out = concat (map enc_run rs)"
    by (auto simp: rs_def buffer_bytes_def buffer_new_def buffer_wrap_def)
  have rsk: "rs_value_size rs k" unfolding rs_def by (rule runs_value_size [OF vs(1) ne])
  have "length rs \<le> length vs" using length_runs [of "hd vs" 1 "tl vs"] n by (simp add: rs_def)
  then have "length rs * (k + 2) \<le> length vs * (k + 2)" by (rule mult_le_mono1)
  moreover have "bsize out = length rs * (k + 2)"
    using out length_buffer_bytes [of out] length_concat_enc_run [OF rsk] by (simp add: buffer_sink_def)
  ultimately have bs: "bsize out \<le> length vs * (k + 2)" by (simp only:)
  have h: "rle_overhead (csize cb) k = Inr (length vs * 2)"
  proof -
    have "csize cb div k < 2 ^ 61" by (rule order.strict_trans1 [OF div_le_dividend assms(5)])
    then show ?thesis using assms(1) vs(3) by (simp add: rle_overhead_def mul64_exact)
  qed
  have ex: "expand rs = vs" using ne by (simp add: rs_def expand_runs)
  have rne: "rs \<noteq> []" using ex ne by auto
  have cb': "cb_inv (cb_of_buffer out)" "cb_bytes (cb_of_buffer out) = concat (map enc_run rs)"
    using out bs small assms(5)
    by (simp_all add: cb_of_buffer_def cb_new_def cb_inv_def cb_bytes_def buffer_sink_def buffer_inv_def
        buffer_bytes_def)
  have room: "pb_room p (length (concat (expand rs)))"
    using ex vs(2) len assms(8,9) by (simp add: pb_room_def)
  have "k < 2 ^ 63" using n assms(5) by (cases "length vs") auto
  from rle_decompress_spec [OF rsk rne this cb' assms(7) room] obtain p' where
    "rle_decompress k (cb_of_buffer out) p = Inr p'" "pb_written p' = pb_written p @ concat (expand rs)"
    by blast
  then show ?thesis
    using out(1,2) h bs ex vs(2) n assms(8) by (simp add: buffer_sink_def pb_written_def distrib_left)
qed

theorem rle_round_trip_witness:
  "\<exists>out h p'. rle_compress (\<lambda>n. Some []) 2 (cb_new (Some [1, 0, 1, 0, 2, 0]) 6) buffer_new = Inr out
     \<and> buffer_inv out
     \<and> rle_overhead (csize (cb_new (Some [1, 0, 1, 0, 2, 0]) 6)) 2 = Inr h
     \<and> bsize out \<le> csize (cb_new (Some [1, 0, 1, 0, 2, 0]) 6) + h
     \<and> rle_decompress 2 (cb_of_buffer out) (pb_new (Some (replicate 6 0)) 6) = Inr p'
     \<and> pb_written p' = cb_bytes (cb_new (Some [1, 0, 1, 0, 2, 0]) 6)"
  by (rule rle_round_trip) (simp_all add: cb_new_def cb_inv_def alloc_total_def pb_inv_def pb_new_def)

text \<open>
  C20: decompression of arbitrary input never leaves the buffers: for every input and every output
  buffer it returns, with success or with a status, and on success the bytes that were already in
  the output are still there.
\<close>

theorem rle_decompress_safe:
  assumes "cb_inv cb" and "pb_inv p" and "k < 2 ^ 62"
  shows "returns (pb_extends p) (rle_decompress k cb p)"
proof -
  have add: "add64 k 2 = k + 2" using assms(3) by (simp add: add64_exact)
  have p: "pb_extends p p" using assms(2) by (simp add: pb_extends_def)
  have "returns (pb_extends p) (foldR (\<lambda>out i. rle_decompress_run k (cdata cb) (i * (k + 2)) out) p
      [0..<csize cb div (k + 2)])"
    by (rule returns_foldR [of "pb_extends p", OF p]) (use rle_decompress_run_safe [OF assms(1,3)] in auto)
  then show ?thesis using p add by (auto simp: rle_decompress_def Let_def)
qed

theorem rle_decompress_safe_witness:
  "returns (pb_extends (pb_new (Some [0]) 1))
     (rle_decompress 1 (cb_new (Some [9, 255, 255]) 3) (pb_new (Some [0]) 1))"
  by (rule rle_decompress_safe) (simp_all add: cb_new_def cb_inv_def pb_inv_def pb_new_def)

end
