(* ===== verification/Dd_Compressor.thy ===== *)
theory Dd_Compressor
  imports Tdb_Cells Tdb_Enums
begin

text \<open>
  The double-delta codec of \<open>compressors/dd_compressor.cc\<close>. The template parameter is the word
  type \<open>'a\<close> together with its signedness; differences are taken in \<open>int64_t\<close>, whose values are
  words of 64 bits read by \<open>sint\<close>. A shift by a count outside \<open>0..63\<close> is undefined.

  C++ leaves the overflow of a difference of two \<open>int64_t\<close>, and \<open>std::abs\<close> of the least one, undefined. The code
  counts on the wrap-around of the machine: its test for a double delta out of bounds looks at the sign of a difference that has
  already overflowed. The model therefore takes these operations as the two's complement machine does, in
  \<open>dd_max_loop\<close>, \<open>dd_write_all\<close>, \<open>abs64\<close> and in decompression, and the results on 64-bit types are about
  compilers that do the same. Values of at most 32 bits never overflow (\<open>dd_narrow\<close>), so the results on these do not depend on it.

  The bits of the double deltas are collected in 64-bit chunks from the leftmost bit on;
  \<open>bit_in_chunk\<close> is the next position, \<open>- 1\<close> when the chunk is used up.
\<close>

section \<open>The code\<close>

definition to_i64 :: "bool \<Rightarrow> 'a::len word \<Rightarrow> 64 word" where
  "to_i64 sig w = (if sig then scast w else ucast w)"

definition shl64 :: "64 word \<Rightarrow> int \<Rightarrow> 64 word result" where
  "shl64 w n = (if 0 \<le> n \<and> n < 64 then Inr (push_bit (nat n) w) else Inl UB)"

definition shr64 :: "64 word \<Rightarrow> int \<Rightarrow> 64 word result" where
  "shr64 w n = (if 0 \<le> n \<and> n < 64 then Inr (drop_bit (nat n) w) else Inl UB)"

text \<open>\<open>std::abs\<close>; the least \<open>int64_t\<close> is its own absolute value, as on a two's complement machine.\<close>

definition abs64 :: "64 word \<Rightarrow> 64 word" where
  "abs64 x = (if sint x < 0 then - x else x)"

definition dd_overhead :: nat where
  "dd_overhead = 17"

fun num_bits :: "nat \<Rightarrow> nat" where
  "num_bits m = (if m div 2 = 0 then 1 else Suc (num_bits (m div 2)))"

declare num_bits.simps [simp del]

text \<open>The loop over \<open>i\<close>: \<open>prev\<close> is \<open>in[i - 1]\<close>. The differences wrap around, which the test for \<open>oob\<close> relies on.\<close>

fun dd_max_loop ::
  "bool \<Rightarrow> 'a::len word \<Rightarrow> 64 word \<Rightarrow> 64 word \<Rightarrow> bool \<Rightarrow> 'a word list \<Rightarrow> 64 word \<times> bool" where
  "dd_max_loop sig prev prev_delta mx oob [] = (mx, oob)"
| "dd_max_loop sig prev prev_delta mx oob (x # xs) =
     (let cur_delta = to_i64 sig x - to_i64 sig prev;
          dd = cur_delta - prev_delta;
          oob' = (oob \<or> (sint cur_delta < 0 \<and> 0 < sint prev_delta \<and> 0 < sint dd)
                      \<or> (0 < sint cur_delta \<and> sint prev_delta < 0 \<and> sint dd < 0));
          mx' = (if sint mx < sint (abs64 dd) then abs64 dd else mx)
      in dd_max_loop sig x cur_delta mx' oob' xs)"

definition compute_bitsize :: "bool \<Rightarrow> 'a::len word list \<Rightarrow> nat result" where
  "compute_bitsize sig xs =
     (if length xs \<le> 2 then Inr 0
      else let (mx, delta_out_of_bounds) =
                 dd_max_loop sig (xs ! 1) (to_i64 sig (xs ! 1) - to_i64 sig (xs ! 0)) 0 False (drop 2 xs)
           in if delta_out_of_bounds
              then Inl (Err SC_Compression (''Cannot compress with DoubleDelta; Some ''
                     @ ''negative double delta is out of bounds''))
              else Inr (num_bits (unat mx)))"

function dd_write_loop ::
  "allocator \<Rightarrow> 64 word \<Rightarrow> int \<Rightarrow> int \<Rightarrow> int \<Rightarrow> 64 word \<Rightarrow> int \<Rightarrow> buffer
     \<Rightarrow> (64 word \<times> int \<times> buffer) result" where
  "dd_write_loop al abs_dd bits_left fill bit_in_dd chunk bit_in_chunk buff =
     (if 0 < bits_left then
        bindR (if 0 < fill
               then bindR (shl64 abs_dd (63 - bit_in_dd)) (\<lambda>t1.
                    bindR (shr64 t1 (63 - bit_in_chunk)) (\<lambda>t2.
                      Inr (or chunk t2, bit_in_chunk - fill, bit_in_dd - fill, bits_left - fill)))
               else Inr (chunk, bit_in_chunk, bit_in_dd, bits_left))
          (\<lambda>(chunk', b', d', left').
             if b' < 0
             then bindR (buffer_write al (le_bytes 8 chunk') buff) (\<lambda>buff'.
                    dd_write_loop al abs_dd left' (min 64 left') d' 0 63 buff')
             else if 0 < fill then dd_write_loop al abs_dd left' fill d' chunk' b' buff
             else Inl Diverges)
      else Inr (chunk, bit_in_chunk, buff))"
  by pat_completeness auto
termination
  by (relation "measures [\<lambda>(_, _, left, _). nat left, \<lambda>(_, _, _, fill, _). if 0 < fill then 0 else 1]")
     (auto split: if_splits simp: bindR_Inr)

declare dd_write_loop.simps [simp del]

definition write_double_delta ::
  "allocator \<Rightarrow> 64 word \<Rightarrow> nat \<Rightarrow> 64 word \<times> int \<times> buffer \<Rightarrow> (64 word \<times> int \<times> buffer) result" where
  "write_double_delta al dd bitsize st =
     (case st of (chunk, bit_in_chunk, buff) \<Rightarrow>
        bindR (shl64 (if sint dd < 0 then 1 else 0) bit_in_chunk) (\<lambda>to_or.
        bindR (if bit_in_chunk - 1 < 0
               then bindR (buffer_write al (le_bytes 8 (or chunk to_or)) buff) (\<lambda>buff'. Inr (0, 63, buff'))
               else Inr (or chunk to_or, bit_in_chunk - 1, buff))
          (\<lambda>(chunk', b', buff').
             dd_write_loop al (abs64 dd) (int bitsize) (min (b' + 1) (int bitsize)) (int bitsize - 1)
               chunk' b' buff')))"

fun dd_write_all ::
  "allocator \<Rightarrow> bool \<Rightarrow> nat \<Rightarrow> 'a::len word \<Rightarrow> 64 word \<Rightarrow> 64 word \<times> int \<times> buffer \<Rightarrow> 'a word list
     \<Rightarrow> (64 word \<times> int \<times> buffer) result" where
  "dd_write_all al sig bitsize prev prev_delta st [] = Inr st"
| "dd_write_all al sig bitsize prev prev_delta st (x # xs) =
     (let cur_delta = to_i64 sig x - to_i64 sig prev in
      bindR (write_double_delta al (cur_delta - prev_delta) bitsize st) (\<lambda>st'.
        dd_write_all al sig bitsize x cur_delta st' xs))"

definition dd_compress_t ::
  "allocator \<Rightarrow> 'a::len itself \<Rightarrow> bool \<Rightarrow> const_buffer \<Rightarrow> buffer \<Rightarrow> buffer result" where
  "dd_compress_t al ty sig input out =
     (let value_size = sizeof TYPE('a); num = csize input div value_size in
      if \<not> (0 < num \<and> csize input mod value_size = 0) then Inl AssertFail
      else bindR (mem_read (cdata input) 0 (csize input)) (\<lambda>bytes.
           let xs = (dec_cells bytes :: 'a word list) in
           bindR (compute_bitsize sig xs) (\<lambda>bitsize.
           bindR (buffer_write al [of_nat bitsize] out) (\<lambda>o1.
           bindR (buffer_write al (le_bytes 8 (of_nat num :: 64 word)) o1) (\<lambda>o2.
           if value_size * 8 - 1 \<le> bitsize then buffer_write al bytes o2
           else bindR (buffer_write al (le_bytes value_size (xs ! 0)) o2) (\<lambda>o3.
                if num = 1 then Inr o3
                else bindR (buffer_write al (le_bytes value_size (xs ! 1)) o3) (\<lambda>o4.
                     if num = 2 then Inr o4
                     else bindR (dd_write_all al sig bitsize (xs ! 1) (to_i64 sig (xs ! 1) - to_i64 sig (xs ! 0))
                                   (0, 63, o4) (drop 2 xs)) (\<lambda>(chunk, bit_in_chunk, o5).
                          if bit_in_chunk < 63 then buffer_write al (le_bytes 8 chunk) o5 else Inr o5))))))))"

function dd_read_loop ::
  "int \<Rightarrow> int \<Rightarrow> int \<Rightarrow> 64 word \<Rightarrow> 64 word \<Rightarrow> int \<Rightarrow> const_buffer
     \<Rightarrow> (64 word \<times> 64 word \<times> int \<times> const_buffer) result" where
  "dd_read_loop bits_left k bit_in_dd dd chunk bit_in_chunk buff =
     (if 0 < bits_left then
        bindR (if 0 < k
               then bindR (shl64 chunk (63 - bit_in_chunk)) (\<lambda>t1.
                    bindR (shr64 t1 (63 - bit_in_dd)) (\<lambda>t2.
                      Inr (or dd t2, bit_in_dd - k, bit_in_chunk - k, bits_left - k)))
               else Inr (dd, bit_in_dd, bit_in_chunk, bits_left))
          (\<lambda>(dd', d', b', left').
             if b' < 0 \<and> coffset buff \<noteq> csize buff
             then bindR (cb_read 8 buff) (\<lambda>(bs, buff').
                    dd_read_loop left' (min 64 left') d' dd' (of_le bs) 63 buff')
             else if 0 < k then dd_read_loop left' k d' dd' chunk b' buff
             else Inl Diverges)
      else Inr (dd, chunk, bit_in_chunk, buff))"
  by pat_completeness auto
termination
  by (relation "measures [\<lambda>(left, _). nat left, \<lambda>(_, k, _). if 0 < k then 0 else 1]")
     (auto split: if_splits simp: bindR_Inr)

declare dd_read_loop.simps [simp del]

definition read_double_delta ::
  "nat \<Rightarrow> 64 word \<times> int \<times> const_buffer \<Rightarrow> (64 word \<times> 64 word \<times> int \<times> const_buffer) result" where
  "read_double_delta bitsize st =
     (case st of (chunk, bit_in_chunk, buff) \<Rightarrow>
        bindR (shl64 1 bit_in_chunk) (\<lambda>to_and.
          let neg = (and chunk to_and \<noteq> 0) in
          bindR (if bit_in_chunk - 1 < 0
                 then bindR (cb_read 8 buff) (\<lambda>(bs, buff'). Inr (of_le bs, 63, buff'))
                 else Inr (chunk, bit_in_chunk - 1, buff)) (\<lambda>(chunk', b', buff').
          bindR (dd_read_loop (int bitsize) (min (b' + 1) (int bitsize)) (int bitsize - 1) 0 chunk' b' buff')
            (\<lambda>(dd, rest). Inr (if neg then - dd else dd, rest)))))"

function dd_read_all ::
  "'a::len itself \<Rightarrow> bool \<Rightarrow> nat \<Rightarrow> nat \<Rightarrow> nat \<Rightarrow> nat \<Rightarrow> 64 word \<times> int \<times> const_buffer \<Rightarrow> prealloc_buffer
     \<Rightarrow> prealloc_buffer result" where
  "dd_read_all ty sig bitsize base num i st out =
     (if i < num then
        bindR (read_double_delta bitsize st) (\<lambda>(dd, st').
        bindR (cell_at (pdata out) base (i - 1)) (\<lambda>v1.
        bindR (cell_at (pdata out) base (i - 2)) (\<lambda>v2.
        bindR (pb_write (le_bytes (sizeof TYPE('a))
                 (ucast (dd + 2 * to_i64 sig (v1 :: 'a word) - to_i64 sig (v2 :: 'a word)) :: 'a word)) out)
          (\<lambda>out'. dd_read_all ty sig bitsize base num (Suc i) st' out'))))
      else Inr out)"
  by pat_completeness auto
termination
  by (relation "measure (\<lambda>(_, _, _, _, num, i, _, _). num - i)") auto

declare dd_read_all.simps [simp del]

definition dd_decompress_t ::
  "'a::len itself \<Rightarrow> bool \<Rightarrow> const_buffer \<Rightarrow> prealloc_buffer \<Rightarrow> prealloc_buffer result" where
  "dd_decompress_t ty sig input out =
     (let value_size = sizeof TYPE('a) in
      bindR (cb_read 1 input) (\<lambda>(b, in1).
      bindR (cb_read 8 in1) (\<lambda>(n, in2).
        let bitsize = unat (hd b); num = unat (of_le n :: 64 word) in
        if value_size * 8 - 1 \<le> bitsize
        then bindR (mem_read (cb_cur_data in2) 0 (cb_nbytes_left_to_read in2)) (\<lambda>bs. pb_write bs out)
        else bindR (cb_read value_size in2) (\<lambda>(v0, in3).
             bindR (pb_write v0 out) (\<lambda>o1.
             if num = 1 then Inr o1
             else bindR (cb_read value_size in3) (\<lambda>(v1, in4).
                  bindR (pb_write v1 o1) (\<lambda>o2.
                  if num = 2 then Inr o2
                  else bindR (cb_read 8 in4) (\<lambda>(c, in5).
                       dd_read_all ty sig bitsize (poffset out) num 2 (of_le c, 63, in5) o2))))))))"

definition dd_compress :: "allocator \<Rightarrow> Datatype \<Rightarrow> const_buffer \<Rightarrow> buffer \<Rightarrow> buffer result" where
  "dd_compress al type input out =
     (case type of
        INT8 \<Rightarrow> dd_compress_t al TYPE(8) True input out
      | UINT8 \<Rightarrow> dd_compress_t al TYPE(8) False input out
      | INT16 \<Rightarrow> dd_compress_t al TYPE(16) True input out
      | UINT16 \<Rightarrow> dd_compress_t al TYPE(16) False input out
      | INT32 \<Rightarrow> dd_compress_t al TYPE(32) True input out
      | UINT32 \<Rightarrow> dd_compress_t al TYPE(32) False input out
      | INT64 \<Rightarrow> dd_compress_t al TYPE(64) True input out
      | UINT64 \<Rightarrow> dd_compress_t al TYPE(64) False input out
      | CHAR_T \<Rightarrow> dd_compress_t al TYPE(8) True input out
      | FLOAT32 \<Rightarrow> Inl (Err SC_TileIO (''Cannot compress tile with DoubleDelta; Float ''
                       @ ''datatypes are not supported''))
      | FLOAT64 \<Rightarrow> Inl (Err SC_TileIO (''Cannot compress tile with DoubleDelta; Float ''
                       @ ''datatypes are not supported''))
      | _ \<Rightarrow> if datatype_is_datetime type then dd_compress_t al TYPE(64) True input out
            else dd_compress_t al TYPE(8) False input out)"

definition dd_decompress :: "Datatype \<Rightarrow> const_buffer \<Rightarrow> prealloc_buffer \<Rightarrow> prealloc_buffer result" where
  "dd_decompress type input out =
     (case type of
        INT8 \<Rightarrow> dd_decompress_t TYPE(8) True input out
      | UINT8 \<Rightarrow> dd_decompress_t TYPE(8) False input out
      | INT16 \<Rightarrow> dd_decompress_t TYPE(16) True input out
      | UINT16 \<Rightarrow> dd_decompress_t TYPE(16) False input out
      | INT32 \<Rightarrow> dd_decompress_t TYPE(32) True input out
      | UINT32 \<Rightarrow> dd_decompress_t TYPE(32) False input out
      | INT64 \<Rightarrow> dd_decompress_t TYPE(64) True input out
      | UINT64 \<Rightarrow> dd_decompress_t TYPE(64) False input out
      | CHAR_T \<Rightarrow> dd_decompress_t TYPE(8) True input out
      | FLOAT32 \<Rightarrow> Inl (Err SC_TileIO (''Cannot decompress tile with DoubleDelta; Float ''
                       @ ''datatypes are not supported''))
      | FLOAT64 \<Rightarrow> Inl (Err SC_TileIO (''Cannot decompress tile with DoubleDelta; Float ''
                       @ ''datatypes are not supported''))
      | _ \<Rightarrow> if datatype_is_datetime type then dd_decompress_t TYPE(64) True input out
            else dd_decompress_t TYPE(8) False input out)"


section \<open>Bits of a word, the leftmost first\<close>

definition dd_bits :: "nat \<Rightarrow> 64 word \<Rightarrow> bool list" where
  "dd_bits n x = map (bit x) (rev [0..<n])"

definition high_bits :: "nat \<Rightarrow> 64 word \<Rightarrow> bool list" where
  "high_bits r c = map (bit c) (rev [r..<64])"

lemma length_dd_bits [simp]: "length (dd_bits n x) = n"
  by (simp add: dd_bits_def)

lemma high_bits_0 [simp]: "high_bits 0 c = dd_bits 64 c"
  by (simp add: high_bits_def dd_bits_def)

lemma high_bits_64 [simp]: "high_bits 64 c = []"
  by (simp add: high_bits_def)

lemma nth_dd_bits: "i < n \<Longrightarrow> dd_bits n x ! i = bit x (n - Suc i)"
  by (simp add: dd_bits_def rev_nth)

lemma rev_upt_split: "a \<le> b \<Longrightarrow> b \<le> c \<Longrightarrow> rev [a..<c] = rev [b..<c] @ rev [a..<b]"
proof -
  assume "a \<le> b" "b \<le> c"
  then have "[a..<c] = [a..<b] @ [b..<c]" by (metis le_Suc_ex upt_add_eq_append)
  then show ?thesis by simp
qed

lemma upt_shift: "[a..<a + n] = map (\<lambda>i. i + a) [0..<n]"
  by (simp add: map_add_upt add.commute)

lemma dd_bits_split: "r \<le> n \<Longrightarrow> dd_bits n x = map (bit x) (rev [n - r..<n]) @ dd_bits (n - r) x"
  using rev_upt_split [of 0 "n - r" n] by (simp add: dd_bits_def)

lemma dd_bits_inj:
  assumes "dd_bits n x = dd_bits n y" and "take_bit n x = x" and "take_bit n y = y"
  shows "x = y"
proof (rule bit_word_eqI)
  fix i :: nat
  show "bit x i = bit y i"
  proof (cases "i < n")
    case True
    then have "dd_bits n x ! (n - Suc i) = dd_bits n y ! (n - Suc i)" using assms(1) by simp
    then show ?thesis using True by (simp add: nth_dd_bits)
  next
    case False
    then have "\<not> bit (take_bit n x) i" "\<not> bit (take_bit n y) i" by (simp_all add: bit_simps)
    then show ?thesis using assms(2,3) by simp
  qed
qed

text \<open>Moving the \<open>n\<close> lowest bits of \<open>x\<close> to the position below bit \<open>r\<close>.\<close>

definition place :: "nat \<Rightarrow> nat \<Rightarrow> 64 word \<Rightarrow> 64 word" where
  "place r n x = drop_bit (64 - r) (push_bit (64 - n) x)"

lemma bit_place:
  "r \<le> 64 \<Longrightarrow> n \<le> 64 \<Longrightarrow> bit (place r n x) j \<longleftrightarrow> j < r \<and> r \<le> j + n \<and> bit x (j + n - r)"
proof -
  assume rn: "r \<le> 64" "n \<le> 64"
  then have "64 - n \<le> 64 - r + j \<longleftrightarrow> r \<le> j + n" "64 - r + j < 64 \<longleftrightarrow> j < r"
    and "r \<le> j + n \<Longrightarrow> 64 - r + j - (64 - n) = j + n - r" by auto
  then show ?thesis by (auto simp: place_def bit_simps)
qed

lemma high_bits_place:
  assumes "n \<le> r" and "r \<le> 64" and "\<forall>i < r. \<not> bit c i"
  shows "high_bits (r - n) (or c (place r n x)) = high_bits r c @ dd_bits n x"
    and "\<forall>i < r - n. \<not> bit (or c (place r n x)) i"
proof -
  have b: "bit (or c (place r n x)) j \<longleftrightarrow> (if r \<le> j then bit c j else r - n \<le> j \<and> bit x (j + n - r))" for j
    using assms bit_place [of r n x j] by (auto simp: bit_simps)
  show "\<forall>i < r - n. \<not> bit (or c (place r n x)) i" using b by auto
  have "map (bit (or c (place r n x))) (rev [r..<64]) = high_bits r c"
    using b by (auto simp: high_bits_def)
  moreover have "map (bit (or c (place r n x))) (rev [r - n..<r]) = dd_bits n x"
  proof -
    have "[r - n..<r] = map (\<lambda>i. i + (r - n)) [0..<n]" using upt_shift [of "r - n" n] assms(1) by simp
    then have "map (bit (or c (place r n x))) [r - n..<r] = map (\<lambda>i. bit (or c (place r n x)) (i + (r - n))) [0..<n]"
      by (simp add: comp_def)
    also have "\<dots> = map (bit x) [0..<n]" using b assms(1) by auto
    finally show ?thesis by (simp add: dd_bits_def flip: rev_map)
  qed
  ultimately show "high_bits (r - n) (or c (place r n x)) = high_bits r c @ dd_bits n x"
    using rev_upt_split [of "r - n" r 64] assms(2) by (simp add: high_bits_def)
qed

lemma high_bits_place_over:
  assumes "r \<le> n" and "n \<le> 64" and "\<forall>i < r. \<not> bit c i"
  shows "dd_bits 64 (or c (place r n x)) = high_bits r c @ map (bit x) (rev [n - r..<n])"
proof -
  have b: "bit (or c (place r n x)) j \<longleftrightarrow> (if r \<le> j then bit c j else bit x (j + n - r))" for j
    using assms bit_place [of r n x j] by (auto simp: bit_simps)
  have "map (bit (or c (place r n x))) (rev [r..<64]) = high_bits r c"
    using b by (auto simp: high_bits_def)
  moreover have "map (bit (or c (place r n x))) (rev [0..<r]) = map (bit x) (rev [n - r..<n])"
  proof -
    have "[n - r..<n] = map (\<lambda>i. i + (n - r)) [0..<r]" using upt_shift [of "n - r" r] assms(1) by simp
    then have "map (bit x) [n - r..<n] = map (\<lambda>i. bit x (i + (n - r))) [0..<r]" by (simp add: comp_def)
    also have "\<dots> = map (bit (or c (place r n x))) [0..<r]" using b assms(1) by auto
    finally show ?thesis by (simp flip: rev_map)
  qed
  ultimately show ?thesis
    using rev_upt_split [of 0 r 64] assms(1,2) by (simp add: dd_bits_def high_bits_def)
qed

lemma shift64_nat:
  assumes "0 < n" and "n \<le> 64"
  shows "shl64 x (64 - int n) = Inr (push_bit (64 - n) x)" "shr64 x (64 - int n) = Inr (drop_bit (64 - n) x)"
proof -
  have "nat (64 - int n) = 64 - n" by simp
  then show "shl64 x (64 - int n) = Inr (push_bit (64 - n) x)" "shr64 x (64 - int n) = Inr (drop_bit (64 - n) x)"
    using assms by (simp_all add: shl64_def shr64_def)
qed

section \<open>Writing bits\<close>

text \<open>
  The writer has produced the bits \<open>B\<close> after the bytes \<open>base\<close>: whole chunks in the buffer, the
  rest in the chunk, of which the \<open>r\<close> lowest bits are free.
\<close>

definition wstate :: "byte list \<Rightarrow> bool list \<Rightarrow> 64 word list \<Rightarrow> 64 word \<times> int \<times> buffer \<Rightarrow> bool" where
  "wstate base B ws st \<longleftrightarrow> (case st of (c, b, out) \<Rightarrow>
     \<exists>r. b = int r - 1 \<and> 0 < r \<and> r \<le> 64 \<and> (\<forall>i < r. \<not> bit c i) \<and> buffer_sink out
       \<and> buffer_bytes out = base @ concat (map (le_bytes 8) ws)
       \<and> B = concat (map (dd_bits 64) ws) @ high_bits r c)"

lemma flush_chunk:
  assumes "buffer_sink out" and "buffer_room al out (8 + m)"
    and "buffer_bytes out = base @ concat (map (le_bytes 8) ws)"
  shows "\<exists>out'. buffer_write al (le_bytes 8 (c :: 64 word)) out = Inr out' \<and> buffer_sink out'
           \<and> buffer_room al out' m \<and> buffer_bytes out' = base @ concat (map (le_bytes 8) (ws @ [c]))"
  using bsink.put_ok [OF assms(1), of al "le_bytes 8 c" m] assms(2,3) by auto

lemma dd_write_loop_fit:
  assumes "0 < n" and "n < r" and "r \<le> 64"
  shows "dd_write_loop al x (int n) (min (int r) (int n)) (int n - 1) c (int r - 1) out
       = Inr (or c (place r n x), int (r - n) - 1, out)"
proof -
  have "min (int r) (int n) = int n" "\<not> int r - 1 - int n < 0" "int (r - n) = int r - int n"
    using assms by auto
  then show ?thesis using assms
    by (subst dd_write_loop.simps) (simp add: dd_write_loop.simps shift64_nat place_def)
qed

lemma dd_write_loop_over:
  assumes "0 < r" and "r \<le> n" and "n \<le> 64"
  shows "dd_write_loop al x (int n) (min (int r) (int n)) (int n - 1) c (int r - 1) out
       = bindR (buffer_write al (le_bytes 8 (or c (place r n x))) out)
           (\<lambda>out'. dd_write_loop al x (int (n - r)) (min (int 64) (int (n - r))) (int (n - r) - 1) 0 (int 64 - 1) out')"
proof -
  have "min (int r) (int n) = int r" "int (n - r) = int n - int r"
    using assms by auto
  then show ?thesis using assms
    by (subst dd_write_loop.simps) (simp add: algebra_simps shift64_nat place_def)
qed

lemma dd_write_loop_spec:
  assumes "0 < n" and "n \<le> 63" and "0 < r" and "r \<le> 64" and "\<forall>i < r. \<not> bit c i" and "buffer_sink out"
    and "buffer_room al out (if n < r then m else 8 + m)"
    and "buffer_bytes out = base @ concat (map (le_bytes 8) ws)"
  shows "\<exists>st ws'. dd_write_loop al x (int n) (min (int r) (int n)) (int n - 1) c (int r - 1) out = Inr st
           \<and> wstate base (concat (map (dd_bits 64) ws) @ high_bits r c @ dd_bits n x) ws' st
           \<and> buffer_room al (snd (snd st)) m"
proof (cases "n < r")
  case True
  have "wstate base (concat (map (dd_bits 64) ws) @ high_bits r c @ dd_bits n x) ws
      (or c (place r n x), int (r - n) - 1, out)"
    using high_bits_place [of n r c x] assms True
    by (auto simp: wstate_def intro!: exI [of _ "r - n"])
  then show ?thesis using dd_write_loop_fit [of n r al x c out] True assms by auto
next
  case False
  let ?c = "or c (place r n x)"
  have room: "buffer_room al out (8 + m)" using assms(7) False by simp
  obtain o1 where o1: "buffer_write al (le_bytes 8 ?c) out = Inr o1" "buffer_sink o1" "buffer_room al o1 m"
    "buffer_bytes o1 = base @ concat (map (le_bytes 8) (ws @ [?c]))"
    using flush_chunk [OF assms(6) room assms(8)] by blast
  have bits: "dd_bits 64 ?c @ dd_bits (n - r) x = high_bits r c @ dd_bits n x"
    using high_bits_place_over [of r n c x] dd_bits_split [of r n x] False assms by simp
  show ?thesis
  proof (cases "n = r")
    case True
    then have "dd_write_loop al x (int n) (min (int r) (int n)) (int n - 1) c (int r - 1) out = Inr (0, 63, o1)"
      using dd_write_loop_over [of r n al x c out] assms o1(1) by (simp add: dd_write_loop.simps)
    moreover have "wstate base (concat (map (dd_bits 64) ws) @ high_bits r c @ dd_bits n x) (ws @ [?c]) (0, 63, o1)"
      using o1 bits True by (auto simp: wstate_def dd_bits_def intro!: exI [of _ 64])
    ultimately show ?thesis using o1(3) True by auto
  next
    case ne: False
    then have lt: "0 < n - r" "n - r < 64" using False assms by simp_all
    let ?c2 = "or 0 (place 64 (n - r) x)"
    have "dd_write_loop al x (int n) (min (int r) (int n)) (int n - 1) c (int r - 1) out
        = Inr (?c2, int (64 - (n - r)) - 1, o1)"
      using dd_write_loop_over [of r n al x c out] dd_write_loop_fit [OF lt, of al x 0 o1] False assms o1(1)
      by simp
    moreover have "wstate base (concat (map (dd_bits 64) ws) @ high_bits r c @ dd_bits n x) (ws @ [?c])
        (?c2, int (64 - (n - r)) - 1, o1)"
      using high_bits_place [of "n - r" 64 0 x] lt o1 bits
      by (auto simp: wstate_def intro!: exI [of _ "64 - (n - r)"])
    ultimately show ?thesis using o1(3) False by auto
  qed
qed


lemma sign_place:
  assumes "0 < r" and "r \<le> 64"
  shows "shl64 (if s then 1 else 0) (int r - 1) = Inr (place r 1 (if s then 1 else 0))"
proof -
  have "push_bit (r - 1) (if s then 1 else 0 :: 64 word) = place r 1 (if s then 1 else 0)"
  proof (rule bit_word_eqI)
    fix n :: nat
    assume "n < LENGTH(64)"
    then show "bit (push_bit (r - 1) (if s then 1 else 0 :: 64 word)) n = bit (place r 1 (if s then 1 else 0)) n"
      using bit_place [of r 1 "if s then 1 else 0" n] assms
      by (auto simp: bit_simps)
  qed
  moreover have "nat (int r - 1) = r - 1" using assms(1) by (simp add: nat_diff_distrib)
  ultimately show ?thesis using assms by (simp add: shl64_def)
qed

lemma dd_bits_sign: "dd_bits 1 (if s then 1 else 0) = [s]"
  by (simp add: dd_bits_def)

definition dd_code :: "nat \<Rightarrow> 64 word \<Rightarrow> bool list" where
  "dd_code n dd = (sint dd < 0) # dd_bits n (abs64 dd)"

lemma write_double_delta_spec:
  assumes "wstate base B ws st" and "0 < n" and "n \<le> 63" and "buffer_room al (snd (snd st)) (8 + m)"
  shows "\<exists>st' ws'. write_double_delta al dd n st = Inr st' \<and> wstate base (B @ dd_code n dd) ws' st'
           \<and> buffer_room al (snd (snd st')) m"
proof -
  obtain c b out where st: "st = (c, b, out)" by (cases st)
  from assms(1) obtain r where r: "b = int r - 1" "0 < r" "r \<le> 64" "\<forall>i < r. \<not> bit c i" "buffer_sink out"
    "buffer_bytes out = base @ concat (map (le_bytes 8) ws)"
    "B = concat (map (dd_bits 64) ws) @ high_bits r c"
    by (auto simp: wstate_def st)
  define s where "s = (sint dd < 0)"
  let ?p = "place r 1 (if s then 1 else 0)"
  have room: "buffer_room al out (8 + m)" using assms(4) st by simp
  have hb: "high_bits (r - 1) (or c ?p) = high_bits r c @ [s]" "\<forall>i < r - 1. \<not> bit (or c ?p) i"
    using high_bits_place [of 1 r c "if s then 1 else 0"] r(2-4) dd_bits_sign by simp_all
  note sgn = sign_place [OF r(2,3), of s]
  show ?thesis
  proof (cases "r = 1")
    case True
    obtain o1 where o1: "buffer_write al (le_bytes 8 (or c ?p)) out = Inr o1" "buffer_sink o1"
      "buffer_room al o1 m" "buffer_bytes o1 = base @ concat (map (le_bytes 8) (ws @ [or c ?p]))"
      using flush_chunk [OF r(5) room r(6)] by blast
    have "buffer_room al o1 (if n < 64 then m else 8 + m)" using o1(3) assms(3) by simp
    from dd_write_loop_spec [OF assms(2,3) _ _ _ o1(2) this o1(4), of 0 "abs64 dd"] obtain st' ws' where
      "dd_write_loop al (abs64 dd) (int n) (min (int 64) (int n)) (int n - 1) 0 (int 64 - 1) o1 = Inr st'"
      "wstate base (concat (map (dd_bits 64) (ws @ [or c ?p])) @ high_bits 64 0 @ dd_bits n (abs64 dd)) ws' st'"
      "buffer_room al (snd (snd st')) m" by auto
    then show ?thesis using sgn o1(1) hb(1) True r(1,7) st
      by (auto simp: write_double_delta_def dd_code_def s_def)
  next
    case False
    have "buffer_room al out (if n < r - 1 then m else 8 + m)"
      using room bsink.room_less [of al out m 8] by (simp add: add.commute)
    moreover have "0 < r - 1" "r - 1 \<le> 64" using False r(2,3) by simp_all
    ultimately obtain st' ws' where
      "dd_write_loop al (abs64 dd) (int n) (min (int (r - 1)) (int n)) (int n - 1) (or c ?p) (int (r - 1) - 1) out = Inr st'"
      "wstate base (concat (map (dd_bits 64) ws) @ high_bits (r - 1) (or c ?p) @ dd_bits n (abs64 dd)) ws' st'"
      "buffer_room al (snd (snd st')) m"
      using dd_write_loop_spec [OF assms(2,3) _ _ hb(2) r(5) _ r(6)] by blast
    moreover have "int (r - 1) = int r - 1" using r(2) by simp
    ultimately show ?thesis using sgn hb(1) False r(1,2,7) st
      by (auto simp: write_double_delta_def dd_code_def s_def)
  qed
qed

fun dd_list :: "bool \<Rightarrow> 'a::len word \<Rightarrow> 64 word \<Rightarrow> 'a word list \<Rightarrow> 64 word list" where
  "dd_list sig prev pd [] = []"
| "dd_list sig prev pd (x # xs) =
     (to_i64 sig x - to_i64 sig prev - pd) # dd_list sig x (to_i64 sig x - to_i64 sig prev) xs"

lemma length_dd_list [simp]: "length (dd_list sig prev pd xs) = length xs"
  by (induction xs arbitrary: prev pd) simp_all

lemma dd_write_all_spec:
  assumes "wstate base B ws st" and "0 < n" and "n \<le> 63" and "buffer_room al (snd (snd st)) (8 * length xs + m)"
  shows "\<exists>st' ws'. dd_write_all al sig n prev pd st xs = Inr st'
           \<and> wstate base (B @ concat (map (dd_code n) (dd_list sig prev pd xs))) ws' st'
           \<and> buffer_room al (snd (snd st')) m"
  using assms(1,4)
proof (induction xs arbitrary: prev pd st B ws)
  case (Cons x xs)
  have "buffer_room al (snd (snd st)) (8 + (8 * length xs + m))" using Cons.prems(2) by (simp add: add.assoc)
  from write_double_delta_spec [OF Cons.prems(1) assms(2,3) this, of "to_i64 sig x - to_i64 sig prev - pd"]
  obtain st1 ws1 where st1: "write_double_delta al (to_i64 sig x - to_i64 sig prev - pd) n st = Inr st1"
    "wstate base (B @ dd_code n (to_i64 sig x - to_i64 sig prev - pd)) ws1 st1"
    "buffer_room al (snd (snd st1)) (8 * length xs + m)" by blast
  from Cons.IH [OF st1(2,3), of x "to_i64 sig x - to_i64 sig prev"] st1(1) show ?case by (simp add: Let_def)
qed auto

section \<open>Reading bits\<close>

definition rstate :: "bool list \<Rightarrow> 64 word \<times> int \<times> const_buffer \<Rightarrow> bool" where
  "rstate R st \<longleftrightarrow> (case st of (c, b, buf) \<Rightarrow>
     \<exists>r ws. b = int r - 1 \<and> r \<le> 64 \<and> cb_inv buf \<and> cb_rest buf = concat (map (le_bytes 8) ws)
       \<and> R = dd_bits r c @ concat (map (dd_bits 64) ws) \<and> (r = 0 \<longrightarrow> ws = []))"

lemma cb_at_end:
  "cb_inv buf \<Longrightarrow> cb_rest buf = concat (map (le_bytes 8) ws) \<Longrightarrow> coffset buf = csize buf \<longleftrightarrow> ws = []"
proof -
  assume "cb_inv buf" and rest: "cb_rest buf = concat (map (le_bytes 8) ws)"
  then have "csize buf - coffset buf = length (concat (map (le_bytes 8) ws :: byte list list))" "coffset buf \<le> csize buf"
    using length_cb_bytes [of buf] by (simp_all add: cb_rest_def cb_inv_def flip: rest)
  moreover have "length (concat (map (le_bytes 8) ws :: byte list list)) = 8 * length ws"
    by (induction ws) simp_all
  ultimately show ?thesis by auto
qed

lemma read_chunk:
  assumes "cb_inv buf" and "cb_rest buf = concat (map (le_bytes 8) (w # ws))"
  shows "\<exists>buf'. cb_read 8 buf = Inr (le_bytes 8 w, buf') \<and> cb_inv buf'
                \<and> cb_rest buf' = concat (map (le_bytes 8) ws) \<and> of_le (le_bytes 8 w) = (w :: 64 word)"
  using csource.get_front [OF assms(1), of "le_bytes 8 w" "concat (map (le_bytes 8) ws)" 8] assms(2)
  by (simp add: of_le_le_bytes)

lemma place_read:
  assumes "dd_bits r c @ rest = dd_bits n x @ R'" and "n \<le> r" and "r \<le> 64" and "take_bit n x = x"
  shows "place n r c = x" and "R' = dd_bits (r - n) c @ rest"
proof -
  have len: "length (map (bit c) (rev [r - n..<r])) = n" using assms(2) by simp
  have split: "dd_bits r c = map (bit c) (rev [r - n..<r]) @ dd_bits (r - n) c"
    by (rule dd_bits_split [OF assms(2)])
  then have eq: "map (bit c) (rev [r - n..<r]) = dd_bits n x" "dd_bits (r - n) c @ rest = R'"
    using assms(1) len by simp_all
  then show "R' = dd_bits (r - n) c @ rest" by simp
  show "place n r c = x"
  proof (rule bit_word_eqI)
    fix j :: nat
    show "bit (place n r c) j = bit x j"
    proof (cases "j < n")
      case True
      have "dd_bits n x ! (n - Suc j) = bit c (j + r - n)"
        using True assms(2) by (simp flip: eq(1) add: rev_nth add.commute)
      then show ?thesis using True assms(2,3) by (simp add: nth_dd_bits bit_place)
    next
      case False
      then have "\<not> bit (take_bit n x) j" by (simp add: bit_simps)
      then show ?thesis using False assms by (simp add: bit_place)
    qed
  qed
qed

lemma place_read_over:
  assumes "dd_bits r c @ rest = dd_bits n x @ R'" and "r < n" and "n \<le> 64" and "take_bit n x = x"
  shows "or (place n r c) (take_bit (n - r) x) = x" and "rest = dd_bits (n - r) x @ R'"
proof -
  have split: "dd_bits n x = map (bit x) (rev [n - r..<n]) @ dd_bits (n - r) x"
    by (rule dd_bits_split) (use assms(2) in simp)
  moreover have "length (map (bit x) (rev [n - r..<n])) = r" using assms(2) by simp
  ultimately have eq: "dd_bits r c = map (bit x) (rev [n - r..<n])" "rest = dd_bits (n - r) x @ R'"
    using assms(1) by (simp_all add: append_eq_append_conv)
  then show "rest = dd_bits (n - r) x @ R'" by simp
  show "or (place n r c) (take_bit (n - r) x) = x"
  proof (rule bit_word_eqI)
    fix j :: nat
    show "bit (or (place n r c) (take_bit (n - r) x)) j = bit x j"
    proof (cases "n - r \<le> j \<and> j < n")
      case True
      then have "n - Suc j < r" using assms(2) by linarith
      then have "dd_bits r c ! (n - Suc j) = bit x j"
        using True assms(2) by (simp add: eq(1) rev_nth)
      moreover have "r - Suc (n - Suc j) = j + r - n" using True assms(2) by arith
      then have "dd_bits r c ! (n - Suc j) = bit c (j + r - n)"
        using \<open>n - Suc j < r\<close> by (simp only: nth_dd_bits)
      ultimately have "bit x j = bit c (j + r - n)" by simp
      moreover have "n \<le> j + r" using True assms(2) by arith
      ultimately show ?thesis using True assms(2,3) bit_place [of n r c j] by (simp add: bit_simps)
    next
      case False
      moreover have "\<not> bit x j" if "n \<le> j"
        using that assms(4) by (metis bit_take_bit_iff not_le)
      ultimately show ?thesis using assms(2,3) by (auto simp: bit_simps bit_place)
    qed
  qed
qed

lemma dd_read_loop_fit:
  assumes "0 < n" and "n < r" and "r \<le> 64"
  shows "dd_read_loop (int n) (min (int r) (int n)) (int n - 1) dd c (int r - 1) buf
       = Inr (or dd (place n r c), c, int (r - n) - 1, buf)"
proof -
  have "min (int r) (int n) = int n" "\<not> int r - 1 - int n < 0" "int (r - n) = int r - int n"
    using assms by auto
  then show ?thesis using assms
    by (subst dd_read_loop.simps) (simp add: dd_read_loop.simps shift64_nat place_def)
qed

lemma dd_read_loop_over:
  assumes "0 < r" and "r \<le> n" and "n \<le> 64" and "cb_read 8 buf = Inr (bs, buf')"
    and "coffset buf \<noteq> csize buf"
  shows "dd_read_loop (int n) (min (int r) (int n)) (int n - 1) dd c (int r - 1) buf
       = dd_read_loop (int (n - r)) (min (int 64) (int (n - r))) (int (n - r) - 1)
           (or dd (place n r c)) (of_le bs) (int 64 - 1) buf'"
proof -
  have "min (int r) (int n) = int r" "int (n - r) = int n - int r"
    using assms by auto
  then show ?thesis using assms
    by (subst dd_read_loop.simps) (simp add: algebra_simps shift64_nat place_def)
qed

lemma dd_read_loop_last:
  assumes "0 < r" and "r \<le> 64" and "coffset buf = csize buf"
  shows "dd_read_loop (int r) (min (int r) (int r)) (int r - 1) dd c (int r - 1) buf
       = Inr (or dd (place r r c), c, - 1, buf)"
  using assms by (subst dd_read_loop.simps) (simp add: dd_read_loop.simps shift64_nat place_def)


lemma dd_read_loop_spec:
  assumes "0 < n" and "n \<le> 63" and "0 < r" and "r \<le> 64" and "cb_inv buf"
    and "cb_rest buf = concat (map (le_bytes 8) ws)"
    and "dd_bits r c @ concat (map (dd_bits 64) ws) = dd_bits n x @ R'" and "take_bit n x = x"
  shows "\<exists>st'. dd_read_loop (int n) (min (int r) (int n)) (int n - 1) 0 c (int r - 1) buf = Inr (x, st')
              \<and> rstate R' st'"
proof -
  consider (fit) "n < r" | (last) "n = r" "ws = []" | (over) w ws' where "r \<le> n" "ws = w # ws'"
    | (short) "r < n" "ws = []"
    using less_linear [of n r] by (cases ws) (auto intro: less_imp_le)
  then show ?thesis
  proof cases
    case fit
    note pr = place_read [OF assms(7) less_imp_le [OF fit] assms(4,8)]
    have "rstate R' (c, int (r - n) - 1, buf)"
      using pr(2) assms(4,5,6) fit by (auto simp: rstate_def intro!: exI [of _ "r - n"] exI [of _ ws])
    then show ?thesis using dd_read_loop_fit [OF assms(1) fit assms(4), of 0 c buf] pr(1) by simp
  next
    case last
    have rn: "n \<le> r" using last by simp
    note pr = place_read [OF assms(7) rn assms(4,8)]
    have "coffset buf = csize buf" using cb_at_end [OF assms(5,6)] last by simp
    moreover have "rstate R' (c, - 1, buf)"
      using pr(2) assms(5,6) last by (auto simp: rstate_def dd_bits_def intro!: exI [of _ 0])
    ultimately show ?thesis
      using dd_read_loop_last [OF assms(3,4), of buf 0 c] pr(1) last by simp
  next
    case over
    obtain buf' where buf': "cb_read 8 buf = Inr (le_bytes 8 w, buf')" "cb_inv buf'"
      "cb_rest buf' = concat (map (le_bytes 8) ws')" "of_le (le_bytes 8 w) = w"
      using read_chunk [OF assms(5), of w ws'] assms(6) over(2) by blast
    have "coffset buf \<noteq> csize buf" using cb_at_end [OF assms(5,6)] over(2) by simp
    note step = dd_read_loop_over [OF assms(3) over(1) _ buf'(1) this, of 0 c]
    show ?thesis
    proof (cases "n = r")
      case True
      have rn: "n \<le> r" using True by simp
      note pr = place_read [OF assms(7) rn assms(4,8)]
      have "rstate R' (w, 63, buf')"
        using pr(2) buf' True over(2) by (auto simp: rstate_def dd_bits_def intro!: exI [of _ 64] exI [of _ ws'])
      then show ?thesis using step pr(1) buf'(4) True assms(2) by (simp add: dd_read_loop.simps)
    next
      case False
      then have lt: "r < n" "0 < n - r" "n - r < 64" using over(1) assms(2,3) by simp_all
      have n64: "n \<le> 64" using assms(2) by simp
      note pr = place_read_over [OF assms(7) lt(1) n64 assms(8)]
      have "dd_bits 64 w @ concat (map (dd_bits 64) ws') = dd_bits (n - r) (take_bit (n - r) x) @ R'"
      proof -
        have "dd_bits (n - r) (take_bit (n - r) x) = dd_bits (n - r) x"
          by (auto simp: dd_bits_def bit_simps)
        then show ?thesis using pr(2) over(2) by simp
      qed
      note pr2 = place_read [OF this less_imp_le [OF lt(3)]]
      have "rstate R' (w, int (64 - (n - r)) - 1, buf')"
        using pr2(2) buf' lt by (auto simp: rstate_def intro!: exI [of _ "64 - (n - r)"] exI [of _ ws'])
      moreover have "dd_read_loop (int n) (min (int r) (int n)) (int n - 1) 0 c (int r - 1) buf
          = Inr (x, w, int (64 - (n - r)) - 1, buf')"
        using step dd_read_loop_fit [OF lt(2,3), of "place n r c" w buf'] pr(1) pr2(1) buf'(4) n64 by simp
      ultimately show ?thesis by blast
    qed
  next
    case short
    then have "length (dd_bits r c) = length (dd_bits n x @ R')" using assms(7) by (metis append_Nil2 concat.simps(1) list.map(1))
    then show ?thesis using short by simp
  qed
qed

lemma and_bit_test: "(and c (push_bit k 1) \<noteq> 0) = bit (c :: 64 word) k"
  by (simp add: push_bit_of_1 and_exp_eq_0_iff_not_bit)

lemma and_bit_test_0: "(and c 1 \<noteq> 0) = bit (c :: 64 word) 0"
  using and_bit_test [of c 0] by simp

lemma dd_bits_Suc: "dd_bits (Suc n) c = bit c n # dd_bits n c"
  by (simp add: dd_bits_def)

lemma read_double_delta_spec:
  assumes "rstate (s # dd_bits n x @ R') st" and "0 < n" and "n \<le> 63" and "take_bit n x = x"
  shows "\<exists>st'. read_double_delta n st = Inr (if s then - x else x, st') \<and> rstate R' st'"
proof -
  obtain c b buf where st: "st = (c, b, buf)" by (cases st)
  from assms(1) obtain r ws where r: "b = int r - 1" "r \<le> 64" "cb_inv buf"
    "cb_rest buf = concat (map (le_bytes 8) ws)"
    "s # dd_bits n x @ R' = dd_bits r c @ concat (map (dd_bits 64) ws)" "r = 0 \<longrightarrow> ws = []"
    by (auto simp: rstate_def st)
  have "r \<noteq> 0"
  proof
    assume "r = 0"
    then show False using r(5,6) by (simp add: dd_bits_def)
  qed
  then obtain k where k: "r = Suc k" by (cases r) simp_all
  have bits: "s = bit c k" "dd_bits n x @ R' = dd_bits k c @ concat (map (dd_bits 64) ws)"
    using r(5) by (simp_all add: k dd_bits_Suc)
  have shl: "shl64 1 (int r - 1) = Inr (push_bit k 1)" using r(2) by (simp add: shl64_def k)
  show ?thesis
  proof (cases "k = 0")
    case True
    have "ws \<noteq> []"
    proof
      assume "ws = []"
      then have "length (dd_bits n x @ R') = 0" using bits(2) True by (simp add: dd_bits_def)
      then show False using assms(2) by simp
    qed
    then obtain w ws' where ws: "ws = w # ws'" by (cases ws) auto
    obtain buf' where buf': "cb_read 8 buf = Inr (le_bytes 8 w, buf')" "cb_inv buf'"
      "cb_rest buf' = concat (map (le_bytes 8) ws')" "of_le (le_bytes 8 w) = w"
      using read_chunk [OF r(3), of w ws'] r(4) ws by blast
    have "dd_bits 64 w @ concat (map (dd_bits 64) ws') = dd_bits n x @ R'"
      using bits(2) ws True by (simp add: dd_bits_def)
    from dd_read_loop_spec [OF assms(2,3) _ _ buf'(2,3) this assms(4)] obtain st' where
      "dd_read_loop (int n) (min (int 64) (int n)) (int n - 1) 0 w (int 64 - 1) buf' = Inr (x, st')"
      "rstate R' st'" by auto
    then show ?thesis using st r(1) shl buf' True k bits(1)
      by (auto simp: read_double_delta_def and_bit_test_0 Let_def)
  next
    case False
    from dd_read_loop_spec [OF assms(2,3) _ _ r(3,4) bits(2) [symmetric] assms(4)] False r(2) k
    obtain st' where
      "dd_read_loop (int n) (min (int k) (int n)) (int n - 1) 0 c (int k - 1) buf = Inr (x, st')"
      "rstate R' st'" by auto
    then show ?thesis using st r(1) shl False k bits(1)
      by (auto simp: read_double_delta_def and_exp_eq_0_iff_not_bit Let_def)
  qed
qed


section \<open>The bit width\<close>

lemma sint_nonneg_uint: "0 \<le> sint (w :: 64 word) \<Longrightarrow> uint w = sint w"
proof -
  assume "0 \<le> sint w"
  moreover have "sint w < 2 ^ 63" using sint_lt [of w] by simp
  ultimately show ?thesis unfolding uint_sint by (simp add: take_bit_int_eq_self)
qed

lemma unat_le_sint: "0 \<le> sint v \<Longrightarrow> sint v \<le> sint w \<Longrightarrow> unat (v :: 64 word) \<le> unat (w :: 64 word)"
  using sint_nonneg_uint [of v] sint_nonneg_uint [of w] by (simp add: nat_mono flip: nat_uint_eq)

lemma num_bits_bound: "m < 2 ^ num_bits m"
proof (induction m rule: num_bits.induct)
  case (1 m)
  show ?case
  proof (cases "m div 2 = 0")
    case True
    then have "m < 2" by simp
    then show ?thesis using True by (subst num_bits.simps) simp
  next
    case False
    from 1 [OF False] have "m div 2 < 2 ^ num_bits (m div 2)" .
    then have "m < 2 * 2 ^ num_bits (m div 2)" by linarith
    then show ?thesis using False by (subst num_bits.simps) simp
  qed
qed

lemma num_bits_pos: "0 < num_bits m"
  by (subst num_bits.simps) simp

lemma take_bit_small: "unat (w :: 64 word) < 2 ^ n \<Longrightarrow> take_bit n w = w"
proof -
  assume "unat w < 2 ^ n"
  then have "take_bit n (unat w) = unat w" by (simp add: take_bit_nat_eq_self)
  then have "take_bit n (of_nat (unat w) :: 64 word) = of_nat (unat w)"
    by (metis take_bit_of_nat)
  then show ?thesis by simp
qed

lemma dd_max_loop_spec:
  assumes "dd_max_loop sig prev pd mx oob xs = (m, out)"
  shows "sint mx \<le> sint m \<and> (\<forall>dd \<in> set (dd_list sig prev pd xs). sint (abs64 dd) \<le> sint m)"
  using assms
proof (induction xs arbitrary: prev pd mx oob)
  case (Cons x xs)
  from Cons.IH [OF Cons.prems [unfolded dd_max_loop.simps Let_def]] show ?case
    by (auto split: if_splits)
qed simp

text \<open>The one double delta whose absolute value no \<open>int64_t\<close> holds.\<close>

definition int64_min :: "64 word" where
  "int64_min = push_bit 63 1"

lemma abs64_nonneg:
  assumes "dd \<noteq> int64_min"
  shows "0 \<le> sint (abs64 dd)"
proof (cases "sint dd < 0")
  case True
  have "sint dd \<noteq> - (2 ^ 63)"
  proof
    assume min: "sint dd = - (2 ^ 63)"
    have "dd = of_int (sint dd)" by simp
    also have "\<dots> = int64_min" unfolding min int64_min_def by simp
    finally show False using assms by simp
  qed
  moreover have "- (2 ^ 63) \<le> sint dd" using sint_ge [of dd] by simp
  ultimately have "0 \<le> - sint dd" "- sint dd < 2 ^ 63" using True by simp_all
  then have "sint (- dd) = - sint dd"
    by (simp add: sint_word_minus signed_take_bit_int_eq_self)
  then show ?thesis using True by (simp add: abs64_def)
qed (simp add: abs64_def)

lemma abs64_sign: "(if sint dd < 0 then - abs64 dd else abs64 dd) = dd"
  by (simp add: abs64_def)

lemma compute_bitsize_pos: "compute_bitsize sig xs = Inr n \<Longrightarrow> 2 < length xs \<Longrightarrow> 0 < n"
  by (auto simp: compute_bitsize_def Let_def num_bits_pos split: if_splits prod.splits)

lemma compute_bitsize_spec:
  assumes "compute_bitsize sig xs = Inr n" and "2 < length xs"
    and "int64_min \<notin> set (dd_list sig (xs ! 1) (to_i64 sig (xs ! 1) - to_i64 sig (xs ! 0)) (drop 2 xs))"
  shows "\<forall>dd \<in> set (dd_list sig (xs ! 1) (to_i64 sig (xs ! 1) - to_i64 sig (xs ! 0)) (drop 2 xs)).
           take_bit n (abs64 dd) = abs64 dd"
proof -
  obtain mx oob where m: "dd_max_loop sig (xs ! 1) (to_i64 sig (xs ! 1) - to_i64 sig (xs ! 0)) 0 False (drop 2 xs)
      = (mx, oob)" by fastforce
  have n: "n = num_bits (unat mx)"
    using assms(1,2) m by (auto simp: compute_bitsize_def Let_def split: if_splits)
  show "\<forall>dd \<in> set (dd_list sig (xs ! 1) (to_i64 sig (xs ! 1) - to_i64 sig (xs ! 0)) (drop 2 xs)).
           take_bit n (abs64 dd) = abs64 dd"
  proof
    fix dd assume dd: "dd \<in> set (dd_list sig (xs ! 1) (to_i64 sig (xs ! 1) - to_i64 sig (xs ! 0)) (drop 2 xs))"
    then have "dd \<noteq> int64_min" using assms(3) by metis
    then have "unat (abs64 dd) \<le> unat mx"
      using unat_le_sint [OF abs64_nonneg] dd_max_loop_spec [OF m] dd by blast
    then have "unat (abs64 dd) < 2 ^ n" using num_bits_bound [of "unat mx"] n by simp
    then show "take_bit n (abs64 dd) = abs64 dd" by (rule take_bit_small)
  qed
qed


section \<open>Whole buffers\<close>

lemma cast_i64: "LENGTH('a::len) \<le> 64 \<Longrightarrow> ucast (to_i64 sig (w :: 'a word)) = w"
proof (rule bit_word_eqI)
  fix n assume "LENGTH('a) \<le> 64" "n < LENGTH('a)"
  then show "bit (ucast (to_i64 sig w) :: 'a word) n = bit w n"
    using le_less_Suc_eq [of "LENGTH('a) - 1" n]
    by (cases "n < LENGTH('a) - 1"; cases sig) (auto simp: to_i64_def bit_simps min_def)
qed

lemma pb_cells_at:
  assumes "byte_sized TYPE('a::len)" and "pb_inv p" and "pb_written p = pre @ enc_cells (ws :: 'a word list)"
    and "i < length ws"
  shows "cell_at (pdata p) (length pre) i = Inr (ws ! i)"
proof (rule cell_at_enc [OF assms(1) _ refl assms(4)])
  show "region (pdata p) = pre @ enc_cells ws @ drop (poffset p) (region (pdata p))"
    using assms(3) by (metis append.assoc append_take_drop_id pb_written_def)
qed

text \<open>The bits \<open>cs\<close> read as the double delta \<open>dd\<close>.\<close>

definition dd_reads :: "nat \<Rightarrow> 64 word \<Rightarrow> bool list \<Rightarrow> bool" where
  "dd_reads n dd cs \<longleftrightarrow>
     (\<exists>s x. cs = s # dd_bits n x \<and> take_bit n x = x \<and> dd = (if s then - x else x))"

lemma dd_code_reads: "take_bit n (abs64 dd) = abs64 dd \<Longrightarrow> dd_reads n dd (dd_code n dd)"
  unfolding dd_reads_def dd_code_def using abs64_sign [of dd] by metis

lemma dd_read_all_spec:
  assumes "byte_sized TYPE('a::len)" and "LENGTH('a) \<le> 64" and "0 < n" and "n \<le> 63"
    and "2 \<le> i" and "i \<le> length (xs :: 'a word list)"
    and "rstate (concat css @ pad) st"
    and "list_all2 (dd_reads n) (dd_list sig (xs ! (i - 1))
           (to_i64 sig (xs ! (i - 1)) - to_i64 sig (xs ! (i - 2))) (drop i xs)) css"
    and "pb_inv p" and "pb_written p = pre @ enc_cells (take i xs)"
    and "pb_room p ((length xs - i) * sizeof TYPE('a))"
  shows "\<exists>p'. dd_read_all TYPE('a) sig n (length pre) (length xs) i st p = Inr p' \<and> pb_inv p'
              \<and> pb_written p' = pre @ enc_cells xs"
  using assms(5-11)
proof (induction "length xs - i" arbitrary: i st p css)
  case 0
  then show ?case by (subst dd_read_all.simps) simp
next
  case (Suc k)
  then have i: "i < length xs" by simp
  let ?v = "\<lambda>j. to_i64 sig (xs ! j)"
  let ?dd = "?v i - ?v (i - 1) - (?v (i - 1) - ?v (i - 2))"
  have split: "drop i xs = xs ! i # drop (Suc i) xs" using i by (rule Cons_nth_drop_Suc [symmetric])
  obtain cs css' where css: "css = cs # css'" "dd_reads n ?dd cs"
    "list_all2 (dd_reads n) (dd_list sig (xs ! i) (?v i - ?v (i - 1)) (drop (Suc i) xs)) css'"
    using Suc.prems(4) unfolding split by (auto simp: list_all2_Cons1)
  then obtain s x where sx: "cs = s # dd_bits n x" "take_bit n x = x" "?dd = (if s then - x else x)"
    unfolding dd_reads_def by blast
  have rs: "rstate (s # dd_bits n x @ (concat css' @ pad)) st"
    using Suc.prems(3) css(1) sx(1) by simp
  from read_double_delta_spec [OF rs assms(3,4) sx(2)] obtain st' where st':
    "read_double_delta n st = Inr (?dd, st')" "rstate (concat css' @ pad) st'"
    unfolding sx(3) by blast
  have cells: "cell_at (pdata p) (length pre) (i - 1) = Inr (xs ! (i - 1))"
    "cell_at (pdata p) (length pre) (i - 2) = Inr (xs ! (i - 2))"
    using pb_cells_at [OF assms(1) Suc.prems(5,6)] Suc.prems(1) i by simp_all
  have val: "ucast (?dd + 2 * ?v (i - 1) - ?v (i - 2)) = xs ! i"
  proof -
    have "?dd + 2 * ?v (i - 1) - ?v (i - 2) = ?v i" by simp
    then show ?thesis using cast_i64 [OF assms(2)] by simp
  qed
  have "(length xs - i) * sizeof TYPE('a) = length (le_bytes (sizeof TYPE('a)) (xs ! i)) + (length xs - Suc i) * sizeof TYPE('a)"
    using i by (simp add: Suc_diff_Suc [symmetric])
  then have room: "pb_room p (length (le_bytes (sizeof TYPE('a)) (xs ! i)) + (length xs - Suc i) * sizeof TYPE('a))"
    using Suc.prems(7) by simp
  from psink.put_ok [OF Suc.prems(5) room] obtain p1 where p1:
    "pb_write (le_bytes (sizeof TYPE('a)) (xs ! i)) p = Inr p1" "pb_inv p1"
    "pb_written p1 = pb_written p @ le_bytes (sizeof TYPE('a)) (xs ! i)"
    "pb_room p1 ((length xs - Suc i) * sizeof TYPE('a))" by blast
  have w: "pb_written p1 = pre @ enc_cells (take (Suc i) xs)"
    using p1(3) Suc.prems(6) i by (simp add: take_Suc_conv_app_nth)
  have "k = length xs - Suc i" "2 \<le> Suc i" "Suc i \<le> length xs" using Suc.hyps(2) Suc.prems(1) i by simp_all
  note IH = Suc.hyps(1) [OF this]
  have idx: "Suc i - 1 = i" "Suc i - 2 = i - 1" by simp_all
  from IH [unfolded idx, OF st'(2) css(3) p1(2) w p1(4)] obtain p2 where
    "dd_read_all TYPE('a) sig n (length pre) (length xs) (Suc i) st' p1 = Inr p2" "pb_inv p2"
    "pb_written p2 = pre @ enc_cells xs" by blast
  then show ?case using i st'(1) cells val p1(1) by (subst dd_read_all.simps) simp
qed


definition dds :: "bool \<Rightarrow> 'a::len word list \<Rightarrow> 64 word list" where
  "dds sig xs = dd_list sig (xs ! 1) (to_i64 sig (xs ! 1) - to_i64 sig (xs ! 0)) (drop 2 xs)"

definition dd_header :: "nat \<Rightarrow> nat \<Rightarrow> byte list" where
  "dd_header n num = of_nat n # le_bytes 8 (of_nat num :: 64 word)"

text \<open>
  The compressed form of the values \<open>xs\<close> at bit width \<open>n\<close>, with the bits \<open>css\<close> of the double
  deltas.
\<close>

definition dd_stream :: "nat \<Rightarrow> 'a::len word list \<Rightarrow> bool list list \<Rightarrow> byte list \<Rightarrow> bool" where
  "dd_stream n xs css bs \<longleftrightarrow>
     (if sizeof TYPE('a) * 8 - 1 \<le> n \<or> length xs \<le> 2 then bs = dd_header n (length xs) @ enc_cells xs
      else \<exists>ws pad. length pad < 64
             \<and> bs = dd_header n (length xs) @ enc_cells (take 2 xs) @ concat (map (le_bytes 8) ws)
             \<and> concat (map (dd_bits 64) ws) = concat css @ pad)"

definition dd_image :: "bool \<Rightarrow> nat \<Rightarrow> 'a::len word list \<Rightarrow> byte list \<Rightarrow> bool" where
  "dd_image sig n xs bs \<longleftrightarrow> dd_stream n xs (map (dd_code n) (dds sig xs)) bs"

lemma dd_stream_image:
  assumes "wstate base B ws (c, b, out)" and "buffer_room al out 8"
  shows "\<exists>out' ws' pad. (if b < 63 then buffer_write al (le_bytes 8 c) out else Inr out) = Inr out'
           \<and> buffer_sink out' \<and> length pad < 64 \<and> buffer_bytes out' = base @ concat (map (le_bytes 8) ws')
           \<and> concat (map (dd_bits 64) ws') = B @ pad"
proof -
  from assms(1) obtain r where r: "b = int r - 1" "0 < r" "r \<le> 64" "\<forall>i < r. \<not> bit c i" "buffer_sink out"
    "buffer_bytes out = base @ concat (map (le_bytes 8) ws)"
    "B = concat (map (dd_bits 64) ws) @ high_bits r c"
    by (auto simp: wstate_def)
  show ?thesis
  proof (cases "r = 64")
    case True
    then show ?thesis using r by (intro exI [of _ out] exI [of _ ws] exI [of _ "[]"]) auto
  next
    case False
    have "buffer_room al out (8 + 0)" using assms(2) by simp
    from flush_chunk [OF r(5) this r(6), of c] obtain out' where out': "buffer_write al (le_bytes 8 c) out = Inr out'"
      "buffer_sink out'" "buffer_bytes out' = base @ concat (map (le_bytes 8) (ws @ [c]))" by blast
    have "dd_bits 64 c = high_bits r c @ dd_bits r c"
      using rev_upt_split [of 0 r 64] r(3) by (simp add: dd_bits_def high_bits_def)
    then show ?thesis using out' r(1,3,7) False
      by (intro exI [of _ out'] exI [of _ "ws @ [c]"] exI [of _ "dd_bits r c"]) auto
  qed
qed

lemma dd_write_tail:
  assumes "compute_bitsize sig xs = Inr n" and "2 < length xs" and "n \<le> 63"
    and "buffer_sink out" and "buffer_room al out (8 * length xs + 8)"
  shows "\<exists>c b o1 o2 ws pad.
       dd_write_all al sig n (xs ! 1) (to_i64 sig (xs ! 1) - to_i64 sig (xs ! 0)) (0, 63, out) (drop 2 xs) = Inr (c, b, o1)
     \<and> (if b < 63 then buffer_write al (le_bytes 8 c) o1 else Inr o1) = Inr o2
     \<and> buffer_sink o2 \<and> length pad < 64 \<and> buffer_bytes o2 = buffer_bytes out @ concat (map (le_bytes 8) ws)
     \<and> concat (map (dd_bits 64) ws) = concat (map (dd_code n) (dds sig xs)) @ pad"
proof -
  let ?st = "(0 :: 64 word, 63 :: int, out)"
  have n0: "0 < n" by (rule compute_bitsize_pos [OF assms(1,2)])
  have ws: "wstate (buffer_bytes out) [] [] ?st"
    using assms(4) by (auto simp: wstate_def intro!: exI [of _ 64])
  have room: "buffer_room al (snd (snd ?st)) (8 * length (drop 2 xs) + 8)"
    using assms(5) by (auto simp: buffer_room_def)
  from dd_write_all_spec [OF ws n0 assms(3) room, of sig "xs ! 1" "to_i64 sig (xs ! 1) - to_i64 sig (xs ! 0)"]
  obtain st ws where st:
    "dd_write_all al sig n (xs ! 1) (to_i64 sig (xs ! 1) - to_i64 sig (xs ! 0)) ?st (drop 2 xs) = Inr st"
    "wstate (buffer_bytes out) (concat (map (dd_code n) (dds sig xs))) ws st" "buffer_room al (snd (snd st)) 8"
    by (auto simp: dds_def)
  obtain c b o1 where ste: "st = (c, b, o1)" by (cases st)
  from dd_stream_image [of "buffer_bytes out" "concat (map (dd_code n) (dds sig xs))" ws c b o1 al] st ste
  show ?thesis by auto
qed

lemma dd_compress_spec:
  assumes "byte_sized TYPE('a::len)" and "LENGTH('a) \<le> 64" and "cb_inv cb"
    and "cb_bytes cb = enc_cells (xs :: 'a word list)" and "xs \<noteq> []" and "compute_bitsize sig xs = Inr n"
    and "buffer_sink out" and "buffer_room al out (40 + 10 * csize cb)"
  shows "\<exists>out' bs. dd_compress_t al TYPE('a) sig cb out = Inr out' \<and> buffer_sink out'
           \<and> buffer_bytes out' = buffer_bytes out @ bs \<and> dd_image sig n xs bs"
proof -
  let ?sz = "sizeof TYPE('a)"
  have sz: "0 < ?sz" "?sz \<le> 8" using sizeof_pos [OF assms(1)] sizeof_bits [OF assms(1)] assms(2) by simp_all
  have cs: "csize cb = length xs * ?sz"
    using length_cb_bytes [OF assms(3)] assms(4) by (simp add: length_enc_cells)
  have num: "csize cb div ?sz = length xs" "csize cb mod ?sz = 0" using cs sz by simp_all
  have rd: "mem_read (cdata cb) 0 (csize cb) = Inr (enc_cells xs)"
    using assms(3,4) by (simp add: mem_read_region cb_inv_def cb_bytes_def slice_def)
  have le: "length xs \<le> csize cb" using cs sz by simp
  from bsink.put_ok [OF assms(7), of al "[of_nat n]" "39 + 10 * csize cb"] assms(8) obtain o1 where o1:
    "buffer_write al [of_nat n] out = Inr o1" "buffer_sink o1" "buffer_bytes o1 = buffer_bytes out @ [of_nat n]"
    "buffer_room al o1 (39 + 10 * csize cb)" by auto
  from bsink.put_ok [OF o1(2), of al "le_bytes 8 (of_nat (length xs) :: 64 word)" "31 + 10 * csize cb"] o1(4)
  obtain o2 where o2: "buffer_write al (le_bytes 8 (of_nat (length xs) :: 64 word)) o1 = Inr o2" "buffer_sink o2"
    "buffer_bytes o2 = buffer_bytes out @ dd_header n (length xs)" "buffer_room al o2 (31 + 10 * csize cb)"
    using o1(3) by (auto simp: dd_header_def)
  note start = num rd assms(5,6) o1(1) o2(1) dec_enc_cells [OF assms(1), of xs]
  show ?thesis
  proof (cases "?sz * 8 - 1 \<le> n")
    case True
    have "buffer_room al o2 (length (enc_cells xs))" using o2(4) cs by (simp add: buffer_room_def length_enc_cells)
    from bsink.put_last [OF o2(2) this] obtain o3 where
      "buffer_write al (enc_cells xs) o2 = Inr o3" "buffer_sink o3" "buffer_bytes o3 = buffer_bytes o2 @ enc_cells xs"
      by blast
    then show ?thesis using True start o2(3) by (auto simp: dd_compress_t_def dd_image_def dd_stream_def Let_def)
  next
    case False
    have n63: "n \<le> 63" using False sz by simp
    have "buffer_room al o2 (length (le_bytes ?sz (xs ! 0)) + (?sz + (8 * length xs + 8)))"
      using o2(4) sz le by (simp add: buffer_room_def)
    from bsink.put_ok [OF o2(2) this] obtain o3 where o3:
      "buffer_write al (le_bytes ?sz (xs ! 0)) o2 = Inr o3" "buffer_sink o3"
      "buffer_bytes o3 = buffer_bytes o2 @ le_bytes ?sz (xs ! 0)" "buffer_room al o3 (?sz + (8 * length xs + 8))"
      by blast
    show ?thesis
    proof (cases "length xs = 1")
      case True
      then obtain x where "xs = [x]" by (cases xs) auto
      then show ?thesis using False start o2(3) o3 by (auto simp: dd_compress_t_def dd_image_def dd_stream_def Let_def)
    next
      case ne1: False
      from bsink.put_ok [OF o3(2), of al "le_bytes ?sz (xs ! 1)" "8 * length xs + 8"] o3(4) obtain o4 where o4:
        "buffer_write al (le_bytes ?sz (xs ! 1)) o3 = Inr o4" "buffer_sink o4"
        "buffer_bytes o4 = buffer_bytes o3 @ le_bytes ?sz (xs ! 1)" "buffer_room al o4 (8 * length xs + 8)"
        by auto
      obtain x0 zs where zs: "xs = x0 # zs" using assms(5) by (cases xs) auto
      then obtain x1 ys where xs: "xs = x0 # x1 # ys" using ne1 by (cases zs) auto
      then have b4: "buffer_bytes o4 = buffer_bytes out @ dd_header n (length xs) @ enc_cells (take 2 xs)"
        using o2(3) o3(3) o4(3) by simp
      show ?thesis
      proof (cases "length xs = 2")
        case True
        then show ?thesis using False ne1 start o3(1) o4 b4 xs by (auto simp: dd_compress_t_def dd_image_def dd_stream_def Let_def)
      next
        case ne2: False
        then have "2 < length xs" using xs by (cases ys) auto
        from dd_write_tail [OF assms(6) this n63 o4(2,4)] obtain c b o5 o6 ws' pad where o6:
          "dd_write_all al sig n (xs ! 1) (to_i64 sig (xs ! 1) - to_i64 sig (xs ! 0)) (0, 63, o4) (drop 2 xs) = Inr (c, b, o5)"
          "(if b < 63 then buffer_write al (le_bytes 8 c) o5 else Inr o5) = Inr o6"
          "buffer_sink o6" "length pad < 64" "buffer_bytes o6 = buffer_bytes o4 @ concat (map (le_bytes 8) ws')"
          "concat (map (dd_bits 64) ws') = concat (map (dd_code n) (dds sig xs)) @ pad" by blast
        have "dd_compress_t al TYPE('a) sig cb out = Inr o6"
          using False ne1 ne2 start o3(1) o4(1) o6(1,2) by (simp add: dd_compress_t_def Let_def)
        moreover have "dd_image sig n xs (dd_header n (length xs) @ enc_cells (take 2 xs) @ concat (map (le_bytes 8) ws'))"
          using False \<open>2 < length xs\<close> o6(4,6) by (auto simp: dd_image_def dd_stream_def)
        ultimately show ?thesis using o6(3,5) b4 by auto
      qed
    qed
  qed
qed


lemma cb_cur_read:
  assumes "cb_inv cb"
  shows "mem_read (cb_cur_data cb) 0 (cb_nbytes_left_to_read cb) = Inr (cb_rest cb)"
proof -
  have n: "cb_nbytes_left_to_read cb = csize cb - coffset cb"
    using assms by (simp add: cb_nbytes_left_to_read_def cb_inv_def sub64_exact)
  have "region (cb_cur_data cb) = drop (coffset cb) (region (cdata cb))"
    by (cases "cdata cb") (simp_all add: cb_cur_data_def)
  moreover from this have "csize cb - coffset cb \<le> cap (cb_cur_data cb)"
    using assms by (metis cb_inv_def diff_le_mono length_drop length_region)
  ultimately show ?thesis
    using n by (simp add: mem_read_region slice_def cb_rest_def cb_bytes_def drop_take)
qed

lemma length_pb_written: "pb_inv p \<Longrightarrow> length (pb_written p) = poffset p"
  by (simp add: pb_inv_def pb_written_def)

lemma dd_decompress_head:
  assumes "cb_inv cb" and "cb_rest cb = dd_header n num @ bs" and "n < 256" and "num < 2 ^ 64"
  shows "\<exists>b in1 nn in2. cb_read 1 cb = Inr (b, in1) \<and> unat (hd b) = n \<and> cb_read 8 in1 = Inr (nn, in2)
           \<and> unat (of_le nn :: 64 word) = num \<and> cb_inv in2 \<and> cb_rest in2 = bs"
proof -
  from csource.get_front [OF assms(1), of "[of_nat n]" "le_bytes 8 (of_nat num :: 64 word) @ bs" 1] assms(2)
  obtain in1 where in1: "cb_read 1 cb = Inr ([of_nat n], in1)" "cb_inv in1"
    "cb_rest in1 = le_bytes 8 (of_nat num :: 64 word) @ bs" by (auto simp: dd_header_def)
  from csource.get_front [OF in1(2,3), of 8] obtain in2 where in2:
    "cb_read 8 in1 = Inr (le_bytes 8 (of_nat num :: 64 word), in2)" "cb_inv in2" "cb_rest in2 = bs" by auto
  have "unat (of_nat n :: byte) = n" "unat (of_nat num :: 64 word) = num"
    using assms(3,4) by (simp_all add: unat_of_nat)
  then show ?thesis using in1 in2 by (auto simp: of_le_le_bytes)
qed

lemma dd_read_tail:
  assumes "byte_sized TYPE('a::len)" and "LENGTH('a) \<le> 64" and "n \<le> 63" and "2 < length (xs :: 'a word list)"
    and "cb_inv cb" and "cb_rest cb = concat (map (le_bytes 8) ws)"
    and "concat (map (dd_bits 64) ws) = concat css @ pad"
    and "0 < n \<and> list_all2 (dd_reads n) (dds sig xs) css"
    and "pb_inv p" and "pb_written p = pre @ enc_cells (take 2 xs)"
    and "pb_room p ((length xs - 2) * sizeof TYPE('a))"
  shows "\<exists>w cb' p'. cb_read 8 cb = Inr (le_bytes 8 w, cb') \<and> of_le (le_bytes 8 w) = w
           \<and> dd_read_all TYPE('a) sig n (length pre) (length xs) 2 (w, 63, cb') p = Inr p' \<and> pb_inv p'
           \<and> pb_written p' = pre @ enc_cells xs"
proof -
  have "length (dds sig xs) = length xs - 2" by (simp add: dds_def)
  then have "length css \<noteq> 0" using assms(4,8) by (auto dest: list_all2_lengthD)
  then have "ws \<noteq> []" using assms(7,8) by (cases css) (auto simp: list_all2_Cons2 dd_reads_def)
  then obtain w ws' where w: "ws = w # ws'" by (cases ws) auto
  obtain cb' where cb': "cb_read 8 cb = Inr (le_bytes 8 w, cb')" "cb_inv cb'"
    "cb_rest cb' = concat (map (le_bytes 8) ws')" "of_le (le_bytes 8 w) = w"
    using read_chunk [OF assms(5), of w ws'] assms(6) w by blast
  have "rstate (concat css @ pad) (w, 63, cb')"
    using cb' assms(7) w by (auto simp: rstate_def intro!: exI [of _ 64] exI [of _ ws'])
  then obtain p' where "dd_read_all TYPE('a) sig n (length pre) (length xs) 2 (w, 63, cb') p = Inr p'"
    "pb_inv p'" "pb_written p' = pre @ enc_cells xs"
    using dd_read_all_spec [OF assms(1,2) _ _ _ _ _ _ assms(9,10), of n css pad "(w, 63, cb')" sig] assms(3,4,8,11)
    by (auto simp: dds_def)
  then show ?thesis using cb' by blast
qed

lemma dd_decompress_spec:
  assumes "byte_sized TYPE('a::len)" and "LENGTH('a) \<le> 64" and "cb_inv cb" and "cb_rest cb = bs"
    and "dd_stream n (xs :: 'a word list) css bs" and "xs \<noteq> []" and "length xs < 2 ^ 64" and "n < 256"
    and "2 < length xs \<longrightarrow> 0 < n \<and> list_all2 (dd_reads n) (dds sig xs) css"
    and "pb_inv p" and "pb_room p (length xs * sizeof TYPE('a))"
  shows "\<exists>p'. dd_decompress_t TYPE('a) sig cb p = Inr p' \<and> pb_inv p'
              \<and> pb_written p' = pb_written p @ enc_cells xs"
proof -
  let ?sz = "sizeof TYPE('a)"
  have sz: "0 < ?sz" "?sz \<le> 8" using sizeof_pos [OF assms(1)] sizeof_bits [OF assms(1)] assms(2) by simp_all
  from assms(5) obtain tl where bs: "bs = dd_header n (length xs) @ tl"
    by (auto simp: dd_stream_def split: if_splits)
  obtain b in1 nn in2 where hd: "cb_read 1 cb = Inr (b, in1)" "unat (hd b) = n" "cb_read 8 in1 = Inr (nn, in2)"
    "unat (of_le nn :: 64 word) = length xs" "cb_inv in2" "cb_rest in2 = tl"
    using dd_decompress_head [OF assms(3) _ assms(8,7)] assms(4) bs by blast
  show ?thesis
  proof (cases "?sz * 8 - 1 \<le> n")
    case True
    then have "tl = enc_cells xs" using assms(5) bs by (simp add: dd_stream_def)
    moreover have "pb_room p (length (enc_cells xs))" using assms(11) by (simp add: length_enc_cells)
    ultimately show ?thesis
      using psink.put_last [OF assms(10), of tl] cb_cur_read [OF hd(5)] hd True by (simp add: dd_decompress_t_def)
  next
    case False
    obtain x0 ys where xs: "xs = x0 # ys" using assms(6) by (cases xs) auto
    obtain r0 where r0: "tl = le_bytes ?sz x0 @ r0"
      using assms(5) False bs xs by (auto simp: dd_stream_def split: if_splits)
    from csource.get_front [OF hd(5), of "le_bytes ?sz x0" r0 ?sz] hd(6) r0 obtain in3 where in3:
      "cb_read ?sz in2 = Inr (le_bytes ?sz x0, in3)" "cb_inv in3" "cb_rest in3 = r0" by auto
    from psink.put_ok [OF assms(10), of "le_bytes ?sz x0" "length ys * ?sz"] assms(11) xs obtain o1 where o1:
      "pb_write (le_bytes ?sz x0) p = Inr o1" "pb_inv o1" "pb_written o1 = pb_written p @ le_bytes ?sz x0"
      "pb_room o1 (length ys * ?sz)" by auto
    show ?thesis
    proof (cases ys)
      case Nil
      then show ?thesis using hd False in3(1) o1 xs by (simp add: dd_decompress_t_def)
    next
      case (Cons x1 zs)
      obtain r1 where r1: "r0 = le_bytes ?sz x1 @ r1"
        using assms(5) False bs xs r0 Cons by (auto simp: dd_stream_def split: if_splits)
      from csource.get_front [OF in3(2), of "le_bytes ?sz x1" r1 ?sz] in3(3) r1 obtain in4 where in4:
        "cb_read ?sz in3 = Inr (le_bytes ?sz x1, in4)" "cb_inv in4" "cb_rest in4 = r1" by auto
      from psink.put_ok [OF o1(2), of "le_bytes ?sz x1" "length zs * ?sz"] o1(4) Cons obtain o2 where o2:
        "pb_write (le_bytes ?sz x1) o1 = Inr o2" "pb_inv o2"
        "pb_written o2 = pb_written p @ enc_cells (take 2 xs)" "pb_room o2 (length zs * ?sz)"
        using o1(3) xs by auto
      note start = hd(1-4) False in3(1) o1(1) in4(1) o2(1)
      show ?thesis
      proof (cases "zs = []")
        case True
        then show ?thesis using start o2 xs Cons by (simp add: dd_decompress_t_def)
      next
        case ne: False
        then have long: "2 < length xs" using xs Cons by (cases zs) auto
        then obtain ws pad where ws: "r1 = concat (map (le_bytes 8) ws)"
          "concat (map (dd_bits 64) ws) = concat css @ pad"
          using assms(5) False bs xs r0 r1 Cons by (auto simp: dd_stream_def split: if_splits)
        have "n \<le> 63" using False sz by simp
        moreover have "pb_room o2 ((length xs - 2) * ?sz)" using o2(4) xs Cons by simp
        ultimately obtain w in5 p' where in5: "cb_read 8 in4 = Inr (le_bytes 8 w, in5)" "of_le (le_bytes 8 w) = w"
          "dd_read_all TYPE('a) sig n (length (pb_written p)) (length xs) 2 (w, 63, in5) o2 = Inr p'"
          "pb_inv p'" "pb_written p' = pb_written p @ enc_cells xs"
          using dd_read_tail [OF assms(1,2) _ long in4(2) _ ws(2) _ o2(2,3)] in4(3) ws(1) assms(9) long by blast
        then show ?thesis using start long xs length_pb_written [OF assms(10)]
          by (auto simp: dd_decompress_t_def)
      qed
    qed
  qed
qed


section \<open>Sizes\<close>

lemma length_dd_codes: "length (concat (map (dd_code n) ds)) = length ds * Suc n"
  by (induction ds) (simp_all add: dd_code_def)

lemma dd_image_size:
  assumes "byte_sized TYPE('a::len)" and "dd_image sig n (xs :: 'a word list) bs"
  shows "length bs \<le> length xs * sizeof TYPE('a) + dd_overhead"
proof (cases "sizeof TYPE('a) * 8 - 1 \<le> n \<or> length xs \<le> 2")
  case True
  then show ?thesis using assms(2) by (auto simp: dd_image_def dd_stream_def dd_header_def dd_overhead_def length_enc_cells)
next
  case False
  let ?sz = "sizeof TYPE('a)" and ?a = "length xs - 2"
  obtain ws pad where ws: "length pad < 64"
    "bs = dd_header n (length xs) @ enc_cells (take 2 xs) @ concat (map (le_bytes 8) ws)"
    "concat (map (dd_bits 64) ws) = concat (map (dd_code n) (dds sig xs)) @ pad"
    using assms(2) False by (auto simp: dd_image_def dd_stream_def)
  have len: "length (concat (map (dd_bits 64) ws)) = 64 * length ws"
    "length (concat (map (le_bytes 8) ws) :: byte list) = 8 * length ws"
    by (induction ws) simp_all
  have "64 * length ws = ?a * Suc n + length pad"
    using arg_cong [OF ws(3), of length] len(1) by (simp add: length_dd_codes) (simp add: dds_def)
  moreover have "?a * Suc n \<le> ?a * (8 * ?sz)" using False by (intro mult_le_mono2) auto
  ultimately have "8 * length ws < ?a * ?sz + 8" using ws(1) by (simp add: mult.assoc)
  moreover have "length bs = 9 + 2 * ?sz + 8 * length ws"
    using ws(2) len(2) False by (simp add: dd_header_def length_enc_cells)
  moreover have "length xs * ?sz = 2 * ?sz + ?a * ?sz"
    using False by (metis add_mult_distrib le_add_diff_inverse less_or_eq_imp_le not_le)
  ultimately show ?thesis by (simp add: dd_overhead_def)
qed

lemma num_bits_le: "m < 2 ^ k \<Longrightarrow> 0 < k \<Longrightarrow> num_bits m \<le> k"
proof (induction m arbitrary: k rule: num_bits.induct)
  case (1 m)
  show ?case
  proof (cases "m div 2 = 0")
    case True
    then show ?thesis using 1 by (subst num_bits.simps) simp
  next
    case False
    then obtain j where j: "k = Suc j" "0 < j" using 1 by (cases k; cases "k - 1") auto
    then have "m div 2 < 2 ^ j" using 1(2) by auto
    from 1(1) [OF False this j(2)] show ?thesis using False j by (subst num_bits.simps) simp
  qed
qed

lemma num_bits_word: "num_bits (unat (w :: 64 word)) \<le> 64"
proof (rule num_bits_le)
  show "unat w < 2 ^ 64" using unsigned_less [of w] by simp
qed simp

lemma compute_bitsize_le: "compute_bitsize sig xs = Inr n \<Longrightarrow> n \<le> 64"
  using num_bits_word by (auto simp: compute_bitsize_def Let_def split: if_splits prod.splits)


section \<open>Types of at most 32 bits\<close>

lemma sint_to_i64:
  assumes "LENGTH('a::len) \<le> 32"
  shows "- (2 ^ 31) \<le> sint (to_i64 sig (w :: 'a word)) \<and> sint (to_i64 sig w) < 2 ^ 32"
proof (cases sig)
  case True
  have "sint (scast w :: 64 word) = sint w" using assms by (intro sint_up_scast) (simp add: is_up)
  moreover have "(2::int) ^ (LENGTH('a) - 1) \<le> 2 ^ 31" using assms by (intro power_increasing) simp_all
  ultimately show ?thesis using sint_ge [of w] sint_lt [of w] True by (simp add: to_i64_def)
next
  case False
  have "(2::int) ^ LENGTH('a) \<le> 2 ^ 32" using assms by (intro power_increasing) simp_all
  then have lt: "uint w < 2 ^ 32" using uint_lt2p [of w] by linarith
  have "take_bit 64 (uint w) = uint w" using lt by (intro take_bit_int_eq_self) simp_all
  then have "uint (ucast w :: 64 word) = uint w" by (simp add: unsigned_ucast_eq)
  moreover have "signed_take_bit 63 (uint w) = uint w"
  proof (rule signed_take_bit_int_eq_self)
    show "- (2 ^ 63) \<le> uint w" by (rule order.trans [OF _ uint_ge_0]) simp
  qed (use lt in simp)
  ultimately have "sint (ucast w :: 64 word) = uint w" by (simp add: sint_uint)
  moreover have "- (2 ^ 31) \<le> uint w" by (rule order.trans [OF _ uint_ge_0]) simp
  ultimately show ?thesis using lt False by (simp add: to_i64_def)
qed

lemma sint_sub:
  "- (2 ^ 63) \<le> sint a - sint b \<Longrightarrow> sint a - sint b < 2 ^ 63 \<Longrightarrow> sint (a - b :: 64 word) = sint a - sint b"
  by (simp add: sint_word_diff signed_take_bit_int_eq_self)

lemma sint_int64_min: "sint int64_min = - (2 ^ 63)"
  by (simp add: int64_min_def)

lemma dd_narrow_loop:
  assumes "LENGTH('a::len) \<le> 32" and "- (2 ^ 33) \<le> sint pd" and "sint pd \<le> 2 ^ 33"
  shows "\<not> snd (dd_max_loop sig (prev :: 'a word) pd mx False xs) \<and> int64_min \<notin> set (dd_list sig prev pd xs)"
  using assms(2,3)
proof (induction xs arbitrary: prev pd mx)
  case (Cons x xs)
  let ?cd = "to_i64 sig x - to_i64 sig prev"
  note b = sint_to_i64 [OF assms(1), of sig x] sint_to_i64 [OF assms(1), of sig prev]
  have cd: "sint ?cd = sint (to_i64 sig x) - sint (to_i64 sig prev)"
    by (rule sint_sub) (use b in auto)
  then have cdb: "- (2 ^ 33) \<le> sint ?cd" "sint ?cd \<le> 2 ^ 33" using b by auto
  have dd: "sint (?cd - pd) = sint ?cd - sint pd"
    by (rule sint_sub) (use cdb Cons.prems in auto)
  then have "?cd - pd \<noteq> int64_min" using sint_int64_min cdb Cons.prems by auto
  moreover have oob: "(False \<or> (sint ?cd < 0 \<and> 0 < sint pd \<and> 0 < sint (?cd - pd))
      \<or> (0 < sint ?cd \<and> sint pd < 0 \<and> sint (?cd - pd) < 0)) = False" using dd by auto
  ultimately show ?case using Cons.IH [OF cdb]
    by (simp only: dd_max_loop.simps dd_list.simps Let_def oob) simp
qed simp

lemma dd_narrow:
  assumes "LENGTH('a::len) \<le> 32"
  shows "(\<exists>n. compute_bitsize sig (xs :: 'a word list) = Inr n) \<and> int64_min \<notin> set (dds sig xs)"
proof -
  note b = sint_to_i64 [OF assms, of sig "xs ! 1"] sint_to_i64 [OF assms, of sig "xs ! 0"]
  have pd: "sint (to_i64 sig (xs ! 1) - to_i64 sig (xs ! 0)) = sint (to_i64 sig (xs ! 1)) - sint (to_i64 sig (xs ! 0))"
    by (rule sint_sub) (use b in auto)
  then have "\<not> snd (dd_max_loop sig (xs ! 1) (to_i64 sig (xs ! 1) - to_i64 sig (xs ! 0)) 0 False (drop 2 xs))
      \<and> int64_min \<notin> set (dds sig xs)"
    unfolding dds_def by (intro dd_narrow_loop [OF assms]) (use b in auto)
  then show ?thesis by (auto simp: compute_bitsize_def Let_def split: prod.splits)
qed

lemma dd_round_trip_words:
  assumes "byte_sized TYPE('a::len)" and "LENGTH('a) \<le> 64" and "cb_inv cb"
    and "cb_bytes cb = enc_cells (xs :: 'a word list)" and "xs \<noteq> []" and "csize cb < 2 ^ 59" and "alloc_total al"
    and "compute_bitsize sig xs = Inr n" and "int64_min \<notin> set (dds sig xs)"
    and "pb_inv p" and "poffset p + csize cb \<le> psize p"
  shows "\<exists>out p'. dd_compress_t al TYPE('a) sig cb buffer_new = Inr out \<and> buffer_inv out
           \<and> bsize out \<le> csize cb + dd_overhead
           \<and> dd_decompress_t TYPE('a) sig (cb_of_buffer out) p = Inr p'
           \<and> pb_written p' = pb_written p @ cb_bytes cb"
proof -
  have cs: "csize cb = length xs * sizeof TYPE('a)"
    using length_cb_bytes [OF assms(3)] assms(4) by (simp add: length_enc_cells)
  have "length xs \<le> csize cb" using cs sizeof_pos [OF assms(1)] by simp
  then have len: "length xs < 2 ^ 64" using assms(6) by simp
  have new: "buffer_sink buffer_new" "buffer_room al buffer_new (40 + 10 * csize cb)" "buffer_bytes buffer_new = []"
    using assms(6,7)
    by (simp_all add: buffer_sink_def buffer_inv_def buffer_room_def buffer_new_def buffer_wrap_def buffer_bytes_def)
  from dd_compress_spec [OF assms(1-5,8) new(1,2)] obtain out where out:
    "dd_compress_t al TYPE('a) sig cb buffer_new = Inr out" "buffer_sink out"
    "dd_image sig n xs (buffer_bytes out)" using new(3) by auto
  have size: "bsize out \<le> csize cb + dd_overhead"
    using dd_image_size [OF assms(1) out(3)] length_buffer_bytes [of out] out(2) cs by (simp add: buffer_sink_def)
  have cb': "cb_inv (cb_of_buffer out)" "cb_rest (cb_of_buffer out) = buffer_bytes out"
    using out(2) size assms(6)
    by (simp_all add: cb_of_buffer_def cb_new_def cb_inv_def cb_bytes_def cb_rest_def buffer_sink_def
        buffer_inv_def buffer_bytes_def dd_overhead_def)
  have fit: "2 < length xs \<longrightarrow> 0 < n \<and> list_all2 (dd_reads n) (dds sig xs) (map (dd_code n) (dds sig xs))"
    using compute_bitsize_spec [OF assms(8)] compute_bitsize_pos [OF assms(8)] assms(9) dd_code_reads
    by (auto simp: dds_def list_all2_map2 list_all2_same)
  have "n < 256" using compute_bitsize_le [OF assms(8)] by simp
  moreover have "pb_room p (length xs * sizeof TYPE('a))" using assms(11) cs by (simp add: pb_room_def)
  ultimately obtain p' where "dd_decompress_t TYPE('a) sig (cb_of_buffer out) p = Inr p'"
    "pb_written p' = pb_written p @ enc_cells xs"
    using dd_decompress_spec [OF assms(1,2) cb' out(3) [unfolded dd_image_def] assms(5) len _ fit assms(10)] by blast
  then show ?thesis using out size assms(4) by (auto simp: buffer_sink_def)
qed


section \<open>Properties\<close>

lemma narrow_types [simp]:
  "byte_sized TYPE(8)" "byte_sized TYPE(16)" "byte_sized TYPE(32)" "byte_sized TYPE(64)"
  by (simp_all add: byte_sized_def)

text \<open>
  C4: double-delta coding of every type of at most 32 bits, signed or unsigned, loses nothing: for
  every non-empty array compression succeeds, takes at most the documented 17 bytes more than
  the input, and decompression appends exactly the input to the output buffer.
\<close>

theorem dd_round_trip_narrow:
  assumes "byte_sized TYPE('a::len)" and "LENGTH('a) \<le> 32" and "cb_inv cb"
    and "cb_bytes cb = enc_cells (xs :: 'a word list)" and "xs \<noteq> []" and "csize cb < 2 ^ 59" and "alloc_total al"
    and "pb_inv p" and "poffset p + csize cb \<le> psize p"
  shows "\<exists>out p'. dd_compress_t al TYPE('a) sig cb buffer_new = Inr out \<and> buffer_inv out
           \<and> bsize out \<le> csize cb + dd_overhead
           \<and> dd_decompress_t TYPE('a) sig (cb_of_buffer out) p = Inr p'
           \<and> pb_written p' = pb_written p @ cb_bytes cb"
proof -
  obtain n where n: "compute_bitsize sig xs = Inr n" "int64_min \<notin> set (dds sig xs)"
    using dd_narrow [OF assms(2), of sig xs] by blast
  have "LENGTH('a) \<le> 64" using assms(2) by simp
  from dd_round_trip_words [OF assms(1) this assms(3-7) n assms(8,9)] show ?thesis .
qed

theorem dd_round_trip_narrow_witness:
  "\<exists>out p'. dd_compress_t (\<lambda>n. Some []) TYPE(16) True (cb_new (Some [1, 0, 5, 0, 2, 0]) 6) buffer_new = Inr out
     \<and> buffer_inv out \<and> bsize out \<le> csize (cb_new (Some [1, 0, 5, 0, 2, 0]) 6) + dd_overhead
     \<and> dd_decompress_t TYPE(16) True (cb_of_buffer out) (pb_new (Some (replicate 6 0)) 6) = Inr p'
     \<and> pb_written p' = pb_written (pb_new (Some (replicate 6 0)) 6) @ cb_bytes (cb_new (Some [1, 0, 5, 0, 2, 0]) 6)"
proof -
  have bytes: "cb_bytes (cb_new (Some [1, 0, 5, 0, 2, 0]) 6) = enc_cells [1, 5, 2 :: 16 word]"
    by code_simp
  show ?thesis
    by (rule dd_round_trip_narrow [OF _ _ _ bytes])
      (simp_all add: cb_new_def cb_inv_def alloc_total_def pb_inv_def pb_new_def)
qed

text \<open>
  C16: double-delta coding of 64-bit types. Whenever compression does not refuse the input for an
  overflowing double delta, and no double delta is the least \<open>int64_t\<close>, the round trip restores
  the input within the same size bound.
\<close>

theorem dd_round_trip_wide:
  assumes "cb_inv cb" and "cb_bytes cb = enc_cells (xs :: 64 word list)" and "xs \<noteq> []" and "csize cb < 2 ^ 59"
    and "alloc_total al" and "compute_bitsize sig xs = Inr n" and "int64_min \<notin> set (dds sig xs)"
    and "pb_inv p" and "poffset p + csize cb \<le> psize p"
  shows "\<exists>out p'. dd_compress_t al TYPE(64) sig cb buffer_new = Inr out \<and> buffer_inv out
           \<and> bsize out \<le> csize cb + dd_overhead
           \<and> dd_decompress_t TYPE(64) sig (cb_of_buffer out) p = Inr p'
           \<and> pb_written p' = pb_written p @ cb_bytes cb"
  by (rule dd_round_trip_words [OF _ _ assms(1-7) assms(8,9)]) simp_all

theorem dd_round_trip_wide_witness:
  "\<exists>out p'. dd_compress_t (\<lambda>n. Some []) TYPE(64) False
       (cb_new (Some (enc_cells [7, 9, 4 :: 64 word])) 24) buffer_new = Inr out
     \<and> buffer_inv out \<and> bsize out \<le> csize (cb_new (Some (enc_cells [7, 9, 4 :: 64 word])) 24) + dd_overhead
     \<and> dd_decompress_t TYPE(64) False (cb_of_buffer out) (pb_new (Some (replicate 24 0)) 24) = Inr p'
     \<and> pb_written p' = pb_written (pb_new (Some (replicate 24 0)) 24)
         @ cb_bytes (cb_new (Some (enc_cells [7, 9, 4 :: 64 word])) 24)"
proof (rule dd_round_trip_wide)
  show "compute_bitsize False [7, 9, 4 :: 64 word] = Inr 3" by code_simp
  show "int64_min \<notin> set (dds False [7, 9, 4 :: 64 word])" by code_simp
qed (simp_all add: cb_new_def cb_inv_def cb_bytes_def alloc_total_def pb_inv_def pb_new_def sizeof_def)



text \<open>
  Which types the codec accepts. Floating-point types are refused in both directions; every
  other type is coded as an array of words of its cell size, except the strings of two- and
  four-byte characters, which are coded byte by byte.
\<close>

lemma dd_dispatch:
  "(datatype_is_real t \<longrightarrow>
        dd_compress al t cb out = Inl (Err SC_TileIO (''Cannot compress tile with DoubleDelta; Float ''
          @ ''datatypes are not supported''))
      \<and> dd_decompress t cb p = Inl (Err SC_TileIO (''Cannot decompress tile with DoubleDelta; Float ''
          @ ''datatypes are not supported'')))
   \<and> (t \<in> {INT64, UINT64} \<or> datatype_is_datetime t \<longrightarrow>
        dd_compress al t cb out = dd_compress_t al TYPE(64) (t \<noteq> UINT64) cb out
      \<and> dd_decompress t cb p = dd_decompress_t TYPE(64) (t \<noteq> UINT64) cb p)
   \<and> (datatype_is_string t \<longrightarrow>
        dd_compress al t cb out = dd_compress_t al TYPE(8) False cb out
      \<and> dd_decompress t cb p = dd_decompress_t TYPE(8) False cb p)"
  by (cases t) (simp_all add: dd_compress_def dd_decompress_def datatype_is_real_def
      datatype_is_datetime_def datatype_is_string_def)

end
