(* ===== verification/Part_Codecs.thy ===== *)
theory Part_Codecs
  imports Filter_Parts Rle_Compressor Dd_Compressor
begin

text \<open>
  What the compression filter relies on when it calls a compressor: a successful call appends a code to
  the output buffer, and the decompressor restores the input from it. The run-length codec and, for types of
  at most 32 bits, the double-delta codec satisfy this.
\<close>

section \<open>The contract\<close>

definition decodes :: "(const_buffer \<Rightarrow> prealloc_buffer \<Rightarrow> prealloc_buffer result) \<Rightarrow> byte list \<Rightarrow> byte list \<Rightarrow> bool" where
  "decodes dec e x \<longleftrightarrow> (\<forall>cb p. cb_inv cb \<longrightarrow> coffset cb = 0 \<longrightarrow> cb_bytes cb = e \<longrightarrow> pb_inv p \<longrightarrow> poffset p = 0 \<longrightarrow>
     psize p = length x \<longrightarrow> (\<exists>p'. dec cb p = Inr p' \<and> pb_inv p' \<and> pb_written p' = x))"

locale part_codec =
  fixes cmp :: "allocator \<Rightarrow> const_buffer \<Rightarrow> buffer \<Rightarrow> buffer result"
    and dec :: "const_buffer \<Rightarrow> prealloc_buffer \<Rightarrow> prealloc_buffer result"
  assumes coded: "cmp al cb out = Inr out' \<Longrightarrow> small_blocks al \<Longrightarrow> cb_inv cb \<Longrightarrow> coffset cb = 0 \<Longrightarrow> 0 < csize cb \<Longrightarrow>
      csize cb < 2 ^ 32 \<Longrightarrow> raw_sink False cp ws out \<Longrightarrow> cp < 2 ^ 28 \<Longrightarrow>
      \<exists>e cp'. e \<noteq> [] \<and> raw_sink False cp' (ws @ e) out' \<and> cp' < 2 ^ 28 \<and> decodes dec e (cb_bytes cb)"

section \<open>Growing buffers\<close>

text \<open>
  The specifications of the codecs are for an allocator that never fails. A run that succeeds does so with
  every allocator that gives the same blocks and more.
\<close>

definition total_of :: "allocator \<Rightarrow> allocator" where
  "total_of al n = (case al n of None \<Rightarrow> Some [] | Some d \<Rightarrow> Some d)"

definition small_buffer :: "buffer \<Rightarrow> bool" where
  "small_buffer b \<longleftrightarrow> alloced_size b < 2 ^ 28"

lemma total_of_total: "alloc_total (total_of al)"
  by (simp add: alloc_total_def total_of_def split: option.splits)

lemma malloc_total_of: "malloc al n = Some d \<Longrightarrow> malloc (total_of al) n = Some d"
  by (auto simp: malloc_def total_of_def)

lemma mem_realloc_total_of: "mem_realloc al d0 n = Some d \<Longrightarrow> mem_realloc (total_of al) d0 n = Some d"
  by (auto simp: mem_realloc_def dest: malloc_total_of)

lemma buffer_realloc_total_of:
  assumes "buffer_realloc al n b = Inr b'" and "small_blocks al" and "small_buffer b"
  shows "buffer_realloc (total_of al) n b = Inr b' \<and> small_buffer b'"
proof (cases "bdata b")
  case None
  then obtain d where "malloc al n = Some d" "b' = b\<lparr>bdata := Some d, alloced_size := n\<rparr>" "owns_data b"
    using assms(1) by (auto simp: buffer_realloc_def split: if_splits option.splits)
  then show ?thesis using None malloc_total_of malloc_small [OF assms(2)]
    by (simp add: buffer_realloc_def small_buffer_def)
next
  case (Some d0)
  show ?thesis
  proof (cases "alloced_size b < n")
    case True
    then obtain d where "mem_realloc al d0 n = Some d" "b' = b\<lparr>bdata := Some d, alloced_size := n\<rparr>" "owns_data b"
      using assms(1) Some by (auto simp: buffer_realloc_def split: if_splits option.splits)
    then show ?thesis using Some True mem_realloc_total_of mem_realloc_small [OF assms(2)]
      by (simp add: buffer_realloc_def small_buffer_def)
  next
    case False
    then show ?thesis using assms(1,3) Some by (auto simp: buffer_realloc_def split: if_splits)
  qed
qed

lemma buffer_write_total_of:
  assumes "buffer_write al bs b = Inr b'" and "small_blocks al" and "small_buffer b"
  shows "buffer_write (total_of al) bs b = Inr b' \<and> small_buffer b'"
proof -
  from assms(1) obtain b1 d where s: "owns_data b" "ensure_alloced_size al (add64 (boffset b) (length bs)) b = Inr b1"
    "mem_write (bdata b1) (boffset b1) bs = Inr d"
    "b' = b1\<lparr>bdata := d, boffset := add64 (boffset b1) (length bs), bsize := add64 (boffset b1) (length bs)\<rparr>"
    by (auto simp: buffer_write_def bindR_Inr Let_def split: if_splits)
  have "ensure_alloced_size (total_of al) (add64 (boffset b) (length bs)) b = Inr b1 \<and> small_buffer b1"
    using s(2) buffer_realloc_total_of [OF _ assms(2,3)] assms(3)
    by (auto simp: ensure_alloced_size_def split: if_splits option.splits)
  then show ?thesis using s by (simp add: buffer_write_def small_buffer_def Let_def)
qed

text \<open>The buffer behind the pointer, seen as a sink of the codecs.\<close>

lemma raw_sink_buffer:
  assumes "raw_sink False cp ws b"
  shows "buffer_sink b" and "buffer_bytes b = ws" and "alloced_size b = cp" and "boffset b = length ws" and "length ws \<le> cp"
  using assms raw_sink_cap [OF assms] by (auto simp: raw_sink_def buffer_sink_def buffer_bytes_def capacity_def)

lemma raw_sink_of_buffer:
  assumes "buffer_sink b" and "small_buffer b"
  shows "raw_sink False (alloced_size b) (buffer_bytes b) b"
  using assms by (auto simp: raw_sink_def buffer_sink_def buffer_bytes_def capacity_def buffer_inv_def small_buffer_def)

section \<open>Run-length coding\<close>

lemma rle_save_total_of:
  assumes "rle_save al prev n out = Inr out'" and "small_blocks al" and "small_buffer out"
  shows "rle_save (total_of al) prev n out = Inr out' \<and> small_buffer out'"
proof -
  from assms(1) obtain o1 o2 where s: "buffer_write al prev out = Inr o1" "buffer_write al [of_nat (n div 256)] o1 = Inr o2"
    "buffer_write al [of_nat (n mod 256)] o2 = Inr out'" by (auto simp: rle_save_def bindR_Inr)
  have 1: "buffer_write (total_of al) prev out = Inr o1" "small_buffer o1"
    using buffer_write_total_of [OF s(1) assms(2,3)] by simp_all
  have 2: "buffer_write (total_of al) [of_nat (n div 256)] o1 = Inr o2" "small_buffer o2"
    using buffer_write_total_of [OF s(2) assms(2) 1(2)] by simp_all
  show ?thesis using 1 2 buffer_write_total_of [OF s(3) assms(2) 2(2)] by (simp add: rle_save_def)
qed

lemma rle_make_runs_total_of:
  assumes "rle_make_runs al k d num i len out = Inr (n, out')" and "small_blocks al" and "small_buffer out"
  shows "rle_make_runs (total_of al) k d num i len out = Inr (n, out') \<and> small_buffer out'"
  using assms
proof (induction al k d num i len out rule: rle_make_runs.induct)
  case (1 al k d num i len out)
  show ?case
  proof (cases "i < num")
    case True
    from "1.prems"(1) True obtain cur prev where c: "mem_read d (i * k) k = Inr cur" "mem_read d ((i - 1) * k) k = Inr prev"
      by (subst (asm) rle_make_runs.simps) (auto simp: bindR_Inr)
    show ?thesis
    proof (cases "cur = prev \<and> len < 65535")
      case same: True
      have "rle_make_runs al k d num (Suc i) (Suc len) out = Inr (n, out')"
        using "1.prems"(1) True c same by (subst (asm) rle_make_runs.simps) simp
      from "1.IH"(1) [OF True c same this "1.prems"(2,3)] show ?thesis
        using True c same by (subst rle_make_runs.simps) simp
    next
      case new: False
      obtain o1 where o1: "rle_save al prev len out = Inr o1" "rle_make_runs al k d num (Suc i) 1 o1 = Inr (n, out')"
        using "1.prems"(1) True c new by (subst (asm) rle_make_runs.simps) (auto simp: bindR_Inr)
      note s = rle_save_total_of [OF o1(1) "1.prems"(2,3)]
      from "1.IH"(2) [OF True c new o1(1) o1(2) "1.prems"(2)] s show ?thesis
        using True c new by (subst rle_make_runs.simps) auto
    qed
  next
    case False
    then show ?thesis using "1.prems" by (subst (asm) rle_make_runs.simps, subst rle_make_runs.simps) auto
  qed
qed

lemma rle_compress_total_of:
  assumes "rle_compress al k cb out = Inr out'" and "small_blocks al" and "small_buffer out"
  shows "rle_compress (total_of al) k cb out = Inr out' \<and> small_buffer out'"
proof (cases "csize cb div k = 0")
  case True
  then show ?thesis using assms by (auto simp: rle_compress_def split: if_splits)
next
  case False
  then obtain len o1 prev where s: "rle_make_runs al k (cdata cb) (csize cb div k) 1 1 out = Inr (len, o1)"
    "mem_read (cdata cb) ((csize cb div k - 1) * k) k = Inr prev" "rle_save al prev len o1 = Inr out'"
    using assms(1) by (auto simp: rle_compress_def Let_def bindR_Inr split: if_splits)
  note 1 = rle_make_runs_total_of [OF s(1) assms(2,3)]
  note 2 = rle_save_total_of [OF s(3) assms(2)]
  show ?thesis using assms(1) False s(2) 1 2 by (auto simp: rle_compress_def Let_def split: if_splits)
qed

text \<open>
  The code of every input with at least one value can be undone. For a shorter input, a successful call
  writes nothing at all.
\<close>

lemma rle_coded:
  assumes "rle_compress al k cb out = Inr out'" and "small_blocks al" and "cb_inv cb" and "k \<le> csize cb"
    and "csize cb < 2 ^ 32" and "raw_sink False cp ws out" and "cp < 2 ^ 28"
  shows "\<exists>e cp'. e \<noteq> [] \<and> raw_sink False cp' (ws @ e) out' \<and> cp' < 2 ^ 28 \<and> decodes (rle_decompress k) e (cb_bytes cb)"
proof -
  note out = raw_sink_buffer [OF assms(6)]
  have "small_buffer out" using out(3) assms(7) by (simp add: small_buffer_def)
  note run = rle_compress_total_of [OF assms(1,2) this]
  have k: "0 < k" using assms(1) by (auto simp: rle_compress_def split: if_splits)
  have "csize cb div k \<noteq> 0" using assms(4) k by (simp add: div_eq_0_iff)
  then have "k dvd csize cb" using assms(1) by (auto simp: rle_compress_def dvd_eq_mod_eq_0 Let_def split: if_splits)
  define vs where "vs = chunks k (cb_bytes cb)"
  define rs where "rs = runs (hd vs) 1 (tl vs)"
  have len: "length (cb_bytes cb) = csize cb" by (rule length_cb_bytes [OF assms(3)])
  have vs: "\<forall>v \<in> set vs. length v = k" "concat vs = cb_bytes cb" "length vs = csize cb div k"
    using chunks_lengths concat_chunks [of k "cb_bytes cb"] k \<open>k dvd csize cb\<close> len by (auto simp: vs_def)
  have ne: "vs \<noteq> []" using vs(3) \<open>csize cb div k \<noteq> 0\<close> by auto
  have "length vs * k \<le> csize cb" using vs(3) by simp
  moreover have "length vs \<le> csize cb" using vs(3) div_le_dividend by simp
  ultimately have "length vs * (k + 2) \<le> 3 * csize cb" by (simp add: distrib_left)
  then have room: "buffer_room (total_of al) out (length vs * (k + 2))"
    using total_of_total assms(5,7) out(4,5) by (simp add: buffer_room_def)
  from rle_compress_spec [OF vs(1) k ne assms(3) vs(2) [symmetric] out(1) room] run have
    o: "buffer_sink out'" "buffer_bytes out' = ws @ concat (map enc_run rs)" "small_buffer out'"
    using out(2) by (auto simp: rs_def)
  have rsk: "rs_value_size rs k" unfolding rs_def by (rule runs_value_size [OF vs(1) ne])
  have ex: "expand rs = vs" using ne by (simp add: rs_def expand_runs)
  have rne: "rs \<noteq> []" using ex ne by auto
  have k63: "k < 2 ^ 63" using assms(4,5) by simp
  have "decodes (rle_decompress k) (concat (map enc_run rs)) (cb_bytes cb)"
    unfolding decodes_def
  proof (intro allI impI)
    fix cb' p
    assume "cb_inv cb'" and "cb_bytes cb' = concat (map enc_run rs)" and "pb_inv p" and p: "poffset p = 0" "psize p = length (cb_bytes cb)"
    moreover have "pb_room p (length (concat (expand rs)))" using ex vs(2) p by (simp add: pb_room_def)
    ultimately obtain p' where "rle_decompress k cb' p = Inr p'" "pb_inv p'" "pb_written p' = pb_written p @ concat (expand rs)"
      using rle_decompress_spec [OF rsk rne k63] by blast
    then show "\<exists>p'. rle_decompress k cb' p = Inr p' \<and> pb_inv p' \<and> pb_written p' = cb_bytes cb"
      using ex vs(2) p by (simp add: pb_written_def)
  qed
  moreover have "concat (map enc_run rs) \<noteq> []" using rne by (cases rs) (auto simp: enc_run_def)
  moreover have "raw_sink False (alloced_size out') (ws @ concat (map enc_run rs)) out'"
    using raw_sink_of_buffer [OF o(1,3)] o(2) by simp
  ultimately show ?thesis using o(3) unfolding small_buffer_def by blast
qed

interpretation rle_bytes: part_codec "\<lambda>al. rle_compress al 1" "rle_decompress 1"
  by unfold_locales (rule rle_coded; simp)

section \<open>Double-delta coding\<close>

lemma bindR_InrE: "bindR m f = Inr y \<Longrightarrow> (\<And>x. m = Inr x \<Longrightarrow> f x = Inr y \<Longrightarrow> P) \<Longrightarrow> P"
  by (auto simp: bindR_Inr)

lemma dd_write_loop_total_of:
  assumes "dd_write_loop al a left fill d chunk k out = Inr (c', b', out')" and "small_blocks al" and "small_buffer out"
  shows "dd_write_loop (total_of al) a left fill d chunk k out = Inr (c', b', out') \<and> small_buffer out'"
  using assms
proof (induction al a left fill d chunk k out rule: dd_write_loop.induct)
  case (1 al a left fill d chunk k out)
  show ?case
  proof (cases "0 < left")
    case True
    let ?s = "if 0 < fill
               then bindR (shl64 a (63 - d)) (\<lambda>t1.
                    bindR (shr64 t1 (63 - k)) (\<lambda>t2.
                      Inr (or chunk t2, k - fill, d - fill, left - fill)))
               else Inr (chunk, k, d, left)"
    have step: "dd_write_loop al' a left fill d chunk k out = bindR ?s (\<lambda>(chunk', b', d', left').
             if b' < 0
             then bindR (buffer_write al' (le_bytes 8 chunk') out) (\<lambda>buff'.
                    dd_write_loop al' a left' (min 64 left') d' 0 63 buff')
             else if 0 < fill then dd_write_loop al' a left' fill d' chunk' b' out
             else Inl Diverges)" for al'
      by (subst dd_write_loop.simps) (simp only: True if_True)
    obtain r where "?s = Inr r" using "1.prems"(1) [unfolded step] by (rule bindR_InrE)
    moreover obtain ch b dd l where "r = (ch, b, dd, l)" by (cases r)
    ultimately have s: "?s = Inr (ch, b, dd, l)" by simp
    show ?thesis
    proof (cases "b < 0")
      case neg: True
      from "1.prems"(1) [unfolded step s] neg obtain o1 where o1: "buffer_write al (le_bytes 8 ch) out = Inr o1"
        "dd_write_loop al a l (min 64 l) dd 0 63 o1 = Inr (c', b', out')" by (auto simp: bindR_Inr)
      note w = buffer_write_total_of [OF o1(1) "1.prems"(2,3)]
      have "dd_write_loop (total_of al) a l (min 64 l) dd 0 63 o1 = Inr (c', b', out') \<and> small_buffer out'"
        by (rule "1.IH"(1) [OF True s refl refl refl neg o1 "1.prems"(2)]) (use w in simp)
      then show ?thesis unfolding step s using neg w by simp
    next
      case nn: False
      from "1.prems"(1) [unfolded step s] nn have f: "0 < fill" "dd_write_loop al a l fill dd ch b out = Inr (c', b', out')"
        by (auto split: if_splits)
      from "1.IH"(2) [OF True s refl refl refl nn f "1.prems"(2,3)] show ?thesis
        unfolding step s using nn f(1) by simp
    qed
  next
    case False
    then have "dd_write_loop al' a left fill d chunk k out = Inr (chunk, k, out)" for al'
      by (subst dd_write_loop.simps) simp
    then show ?thesis using "1.prems" by simp
  qed
qed

lemma write_double_delta_total_of:
  assumes "write_double_delta al dd n (c, b, out) = Inr (c', b', out')" and "small_blocks al" and "small_buffer out"
  shows "write_double_delta (total_of al) dd n (c, b, out) = Inr (c', b', out') \<and> small_buffer out'"
proof -
  from assms(1) obtain t c1 b1 o1 where s: "shl64 (if sint dd < 0 then 1 else 0) b = Inr t"
    "(if b - 1 < 0 then bindR (buffer_write al (le_bytes 8 (or c t)) out) (\<lambda>buff'. Inr (0, 63, buff'))
      else Inr (or c t, b - 1, out)) = Inr (c1, b1, o1)"
    "dd_write_loop al (abs64 dd) (int n) (min (b1 + 1) (int n)) (int n - 1) c1 b1 o1 = Inr (c', b', out')"
    by (auto simp: write_double_delta_def bindR_Inr)
  have o1: "(if b - 1 < 0 then bindR (buffer_write (total_of al) (le_bytes 8 (or c t)) out) (\<lambda>buff'. Inr (0, 63, buff'))
      else Inr (or c t, b - 1, out)) = Inr (c1, b1, o1)" "small_buffer o1"
    using s(2) assms(3) buffer_write_total_of [OF _ assms(2,3)] by (auto simp: bindR_Inr split: if_splits)
  note l = dd_write_loop_total_of [OF s(3) assms(2) o1(2)]
  show ?thesis using s(1) o1(1) l by (simp only: write_double_delta_def prod.case bindR_simps)
qed

lemma dd_write_all_total_of:
  assumes "dd_write_all al sig n prev pd (c, b, out) xs = Inr (c', b', out')" and "small_blocks al" and "small_buffer out"
  shows "dd_write_all (total_of al) sig n prev pd (c, b, out) xs = Inr (c', b', out') \<and> small_buffer out'"
  using assms
proof (induction xs arbitrary: prev pd c b out)
  case (Cons x xs)
  let ?d = "to_i64 sig x - to_i64 sig prev"
  from Cons.prems(1) obtain c1 b1 o1 where s: "write_double_delta al (?d - pd) n (c, b, out) = Inr (c1, b1, o1)"
    "dd_write_all al sig n x ?d (c1, b1, o1) xs = Inr (c', b', out')" by (auto simp: Let_def bindR_Inr)
  note w = write_double_delta_total_of [OF s(1) Cons.prems(2,3)]
  show ?case using w Cons.IH [OF s(2) Cons.prems(2)] by (simp add: Let_def)
qed simp

lemma dd_compress_t_total_of:
  assumes "dd_compress_t al TYPE('a::len) sig cb out = Inr out'" and "small_blocks al" and "small_buffer out"
  shows "dd_compress_t (total_of al) TYPE('a) sig cb out = Inr out' \<and> small_buffer out'"
proof -
  let ?sz = "sizeof TYPE('a)" and ?num = "csize cb div sizeof TYPE('a)"
  let ?tail = "\<lambda>al bytes n o2. let xs = (dec_cells bytes :: 'a word list) in
     if ?sz * 8 - 1 \<le> n then buffer_write al bytes o2
     else bindR (buffer_write al (le_bytes ?sz (xs ! 0)) o2) (\<lambda>o3.
          if ?num = 1 then Inr o3
          else bindR (buffer_write al (le_bytes ?sz (xs ! 1)) o3) (\<lambda>o4.
               if ?num = 2 then Inr o4
               else bindR (dd_write_all al sig n (xs ! 1) (to_i64 sig (xs ! 1) - to_i64 sig (xs ! 0)) (0, 63, o4) (drop 2 xs))
                      (\<lambda>(chunk, bit_in_chunk, o5). if bit_in_chunk < 63 then buffer_write al (le_bytes 8 chunk) o5 else Inr o5)))"
  have unf: "dd_compress_t al' TYPE('a) sig cb out =
      (if \<not> (0 < ?num \<and> csize cb mod ?sz = 0) then Inl AssertFail
       else bindR (mem_read (cdata cb) 0 (csize cb)) (\<lambda>bytes.
            bindR (compute_bitsize sig (dec_cells bytes :: 'a word list)) (\<lambda>n.
            bindR (buffer_write al' [of_nat n] out) (\<lambda>o1.
            bindR (buffer_write al' (le_bytes 8 (of_nat ?num :: 64 word)) o1) (\<lambda>o2. ?tail al' bytes n o2)))))" for al'
    by (simp only: dd_compress_t_def Let_def)
  from assms(1) obtain bytes n o1 o2 where s: "0 < ?num" "csize cb mod ?sz = 0" "mem_read (cdata cb) 0 (csize cb) = Inr bytes"
    "compute_bitsize sig (dec_cells bytes :: 'a word list) = Inr n" "buffer_write al [of_nat n] out = Inr o1"
    "buffer_write al (le_bytes 8 (of_nat ?num :: 64 word)) o1 = Inr o2" "?tail al bytes n o2 = Inr out'"
    unfolding unf by (auto elim!: bindR_InrE split: if_splits simp del: One_nat_def)
  note 1 = buffer_write_total_of [OF s(5) assms(2,3)]
  note 2 = buffer_write_total_of [OF s(6) assms(2) conjunct2 [OF 1]]
  have "?tail (total_of al) bytes n o2 = Inr out' \<and> small_buffer out'"
  proof (cases "?sz * 8 - 1 \<le> n")
    case True
    then show ?thesis using s(7) buffer_write_total_of [OF _ assms(2)] 2 by (simp add: Let_def)
  next
    case False
    let ?xs = "dec_cells bytes :: 'a word list"
    from s(7) False obtain o3 where o3: "buffer_write al (le_bytes ?sz (?xs ! 0)) o2 = Inr o3" "(if ?num = 1 then Inr o3
          else bindR (buffer_write al (le_bytes ?sz (?xs ! 1)) o3) (\<lambda>o4.
               if ?num = 2 then Inr o4
               else bindR (dd_write_all al sig n (?xs ! 1) (to_i64 sig (?xs ! 1) - to_i64 sig (?xs ! 0)) (0, 63, o4) (drop 2 ?xs))
                      (\<lambda>(chunk, bit_in_chunk, o5). if bit_in_chunk < 63 then buffer_write al (le_bytes 8 chunk) o5 else Inr o5))) = Inr out'"
      by (auto simp only: Let_def if_False elim!: bindR_InrE)
    note 3 = buffer_write_total_of [OF o3(1) assms(2) conjunct2 [OF 2]]
    show ?thesis
    proof (cases "?num = 1")
      case True
      then show ?thesis using False o3 3 by (simp add: Let_def)
    next
      case n1: False
      from o3(2) n1 obtain o4 where o4: "buffer_write al (le_bytes ?sz (?xs ! 1)) o3 = Inr o4" "(if ?num = 2 then Inr o4
               else bindR (dd_write_all al sig n (?xs ! 1) (to_i64 sig (?xs ! 1) - to_i64 sig (?xs ! 0)) (0, 63, o4) (drop 2 ?xs))
                      (\<lambda>(chunk, bit_in_chunk, o5). if bit_in_chunk < 63 then buffer_write al (le_bytes 8 chunk) o5 else Inr o5)) = Inr out'"
        by (auto simp only: if_False elim!: bindR_InrE)
      note 4 = buffer_write_total_of [OF o4(1) assms(2) conjunct2 [OF 3]]
      show ?thesis
      proof (cases "?num = 2")
        case True
        then show ?thesis using False n1 o4 3 4 by (simp add: Let_def)
      next
        case n2: False
        from o4(2) n2 obtain c b o5 where
          o5: "dd_write_all al sig n (?xs ! 1) (to_i64 sig (?xs ! 1) - to_i64 sig (?xs ! 0)) (0, 63, o4) (drop 2 ?xs) = Inr (c, b, o5)"
            "(if b < 63 then buffer_write al (le_bytes 8 c) o5 else Inr o5) = Inr out'"
          by (auto simp only: if_False elim!: bindR_InrE)
        note 5 = dd_write_all_total_of [OF o5(1) assms(2) conjunct2 [OF 4]]
        have "(if b < 63 then buffer_write (total_of al) (le_bytes 8 c) o5 else Inr o5) = Inr out' \<and> small_buffer out'"
          using o5(2) 5 buffer_write_total_of [OF _ assms(2) conjunct2 [OF 5]] by (auto split: if_splits)
        then show ?thesis using False n1 n2 3 4 5 by (simp add: Let_def)
      qed
    qed
  qed
  then show ?thesis unfolding unf using s(1-4) 1 2 by simp
qed

lemma dd_coded:
  assumes T: "byte_sized TYPE('a::len)" "LENGTH('a) \<le> 32"
  shows "part_codec (\<lambda>al. dd_compress_t al TYPE('a) sig) (dd_decompress_t TYPE('a) sig)"
proof
  fix al cb out out' cp ws
  assume run: "dd_compress_t al TYPE('a) sig cb out = Inr out'" and al: "small_blocks al" and cb: "cb_inv cb" "csize cb < 2 ^ 32"
    and out: "raw_sink False cp ws out" "cp < 2 ^ 28"
  note b = raw_sink_buffer [OF out(1)]
  have "small_buffer out" using b(3) out(2) by (simp add: small_buffer_def)
  note run' = dd_compress_t_total_of [OF run al this]
  define xs where "xs = (dec_cells (cb_bytes cb) :: 'a word list)"
  have len: "length (cb_bytes cb) = csize cb" by (rule length_cb_bytes [OF cb(1)])
  have num: "0 < csize cb div sizeof TYPE('a)" "csize cb mod sizeof TYPE('a) = 0"
    using run by (auto simp: dd_compress_t_def Let_def split: if_splits)
  then have bytes: "cb_bytes cb = enc_cells xs" using enc_dec_cells [OF T(1), of "cb_bytes cb"] len by (simp add: xs_def mod_eq_0_iff_dvd)
  have ne: "xs \<noteq> []" using bytes num(1) len by (cases xs) auto
  obtain n where n: "compute_bitsize sig xs = Inr n" "int64_min \<notin> set (dds sig xs)"
    using dd_narrow [OF T(2), of sig xs] by blast
  have l64: "LENGTH('a) \<le> 64" using T(2) by simp
  have room: "buffer_room (total_of al) out (40 + 10 * csize cb)"
    using total_of_total cb(2) out(2) b(4,5) by (simp add: buffer_room_def)
  from dd_compress_spec [OF T(1) l64 cb(1) bytes ne n(1) b(1) room] run' obtain e where
    e: "buffer_sink out'" "buffer_bytes out' = ws @ e" "dd_image sig n xs e" "small_buffer out'" using b(2) by auto
  have "length xs \<le> csize cb" using arg_cong [OF bytes, of length] len sizeof_pos [OF T(1)] by (simp add: length_enc_cells)
  then have lx: "length xs < 2 ^ 64" using cb(2) by simp
  have fit: "2 < length xs \<longrightarrow> 0 < n \<and> list_all2 (dd_reads n) (dds sig xs) (map (dd_code n) (dds sig xs))"
    using compute_bitsize_spec [OF n(1)] compute_bitsize_pos [OF n(1)] n(2) dd_code_reads
    by (auto simp: dds_def list_all2_map2 list_all2_same)
  have n256: "n < 256" using compute_bitsize_le [OF n(1)] by simp
  have "decodes (dd_decompress_t TYPE('a) sig) e (cb_bytes cb)"
    unfolding decodes_def
  proof (intro allI impI)
    fix cb' p
    assume cb': "cb_inv cb'" "coffset cb' = 0" "cb_bytes cb' = e" and p: "pb_inv p" "poffset p = 0" "psize p = length (cb_bytes cb)"
    have "cb_rest cb' = e" using cb'(2,3) by (simp add: cb_rest_def)
    moreover have "pb_room p (length xs * sizeof TYPE('a))" using p(2,3) bytes by (simp add: pb_room_def length_enc_cells)
    ultimately obtain p' where "dd_decompress_t TYPE('a) sig cb' p = Inr p'" "pb_inv p'" "pb_written p' = pb_written p @ enc_cells xs"
      using dd_decompress_spec [OF T(1) l64 cb'(1) _ e(3) [unfolded dd_image_def] ne lx n256 fit p(1)] by blast
    then show "\<exists>p'. dd_decompress_t TYPE('a) sig cb' p = Inr p' \<and> pb_inv p' \<and> pb_written p' = cb_bytes cb"
      using bytes p(2) by (simp add: pb_written_def)
  qed
  moreover have "e \<noteq> []" using e(3) by (auto simp: dd_image_def dd_stream_def dd_header_def split: if_splits)
  moreover have "raw_sink False (alloced_size out') (ws @ e) out'" using raw_sink_of_buffer [OF e(1,4)] e(2) by simp
  ultimately show "\<exists>e cp'. e \<noteq> [] \<and> raw_sink False cp' (ws @ e) out' \<and> cp' < 2 ^ 28
      \<and> decodes (dd_decompress_t TYPE('a) sig) e (cb_bytes cb)"
    using e(4) unfolding small_buffer_def by blast
qed

text \<open>The types whose values have at most 32 bits; text is compressed as bytes.\<close>

definition narrow :: "Datatype \<Rightarrow> bool" where
  "narrow t \<longleftrightarrow> t \<notin> {INT64, UINT64, FLOAT32, FLOAT64} \<and> \<not> datatype_is_datetime t"

lemma dd_codec:
  assumes "narrow t"
  shows "part_codec (\<lambda>al. dd_compress al t) (dd_decompress t)"
proof -
  have "(\<lambda>al. dd_compress al t) = (\<lambda>al. dd_compress_t al TYPE(8) True) \<and> dd_decompress t = dd_decompress_t TYPE(8) True
    \<or> (\<lambda>al. dd_compress al t) = (\<lambda>al. dd_compress_t al TYPE(8) False) \<and> dd_decompress t = dd_decompress_t TYPE(8) False
    \<or> (\<lambda>al. dd_compress al t) = (\<lambda>al. dd_compress_t al TYPE(16) True) \<and> dd_decompress t = dd_decompress_t TYPE(16) True
    \<or> (\<lambda>al. dd_compress al t) = (\<lambda>al. dd_compress_t al TYPE(16) False) \<and> dd_decompress t = dd_decompress_t TYPE(16) False
    \<or> (\<lambda>al. dd_compress al t) = (\<lambda>al. dd_compress_t al TYPE(32) True) \<and> dd_decompress t = dd_decompress_t TYPE(32) True
    \<or> (\<lambda>al. dd_compress al t) = (\<lambda>al. dd_compress_t al TYPE(32) False) \<and> dd_decompress t = dd_decompress_t TYPE(32) False"
    using assms by (cases t) (simp_all add: narrow_def fun_eq_iff dd_compress_def dd_decompress_def)
  then show ?thesis using dd_coded [where 'a = 8] dd_coded [where 'a = 16] dd_coded [where 'a = 32] by auto
qed

end
