(* ===== verification/Lib_Codecs.thy ===== *)
theory Lib_Codecs
  imports Part_Codecs
begin

text \<open>
  The compressors that call a library: \<open>compressors/gzip_compressor.cc\<close> (zlib),
  \<open>compressors/zstd_compressor.cc\<close>, \<open>compressors/lz4_compressor.cc\<close> and \<open>compressors/bzip_compressor.cc\<close>.
  The library functions are the fields of a record: each gets the input bytes and the number of bytes that
  are free in the output, and gives its return code and the bytes it wrote.
\<close>

section \<open>The libraries\<close>

datatype z_ret = Z_OK | Z_STREAM_END | Z_STREAM_ERROR | Z_BUF_ERROR | Z_OTHER

datatype bz_ret = BZ_OK | BZ_CONFIG_ERROR | BZ_PARAM_ERROR | BZ_MEM_ERROR | BZ_OUTBUFF_FULL
  | BZ_DATA_ERROR | BZ_DATA_ERROR_MAGIC | BZ_UNEXPECTED_EOF | BZ_OTHER

record codec_libs =
  deflateInit :: "int \<Rightarrow> bool"
  deflate :: "int \<Rightarrow> byte list \<Rightarrow> nat \<Rightarrow> z_ret \<times> nat \<times> byte list"
  inflateInit :: bool
  inflate :: "byte list \<Rightarrow> nat \<Rightarrow> z_ret \<times> byte list"
  ZSTD_createCCtx :: bool
  ZSTD_compressCCtx :: "int \<Rightarrow> byte list \<Rightarrow> nat \<Rightarrow> string + byte list"
  ZSTD_createDCtx :: bool
  ZSTD_decompressDCtx :: "byte list \<Rightarrow> nat \<Rightarrow> string + byte list"
  ZSTD_compressBound :: "nat \<Rightarrow> nat"
  LZ4_compress_default :: "byte list \<Rightarrow> nat \<Rightarrow> int \<times> byte list"
  LZ4_decompress_safe :: "byte list \<Rightarrow> nat \<Rightarrow> int \<times> byte list"
  LZ4_compressBound :: "nat \<Rightarrow> nat"
  BZ2_bzBuffToBuffCompress :: "int \<Rightarrow> byte list \<Rightarrow> nat \<Rightarrow> bz_ret \<times> byte list"
  BZ2_bzBuffToBuffDecompress :: "byte list \<Rightarrow> nat \<Rightarrow> bz_ret \<times> byte list"

definition compression_error :: "string \<Rightarrow> error" where
  "compression_error msg = Err SC_Compression msg"

text \<open>The bytes that the library wrote at the position of the output, and the sizes set after it.\<close>

definition lib_append :: "byte list \<Rightarrow> nat \<Rightarrow> buffer \<Rightarrow> buffer result" where
  "lib_append bs n out =
     bindR (mem_write (bdata out) (boffset out) bs) (\<lambda>d.
     bindR (buffer_advance_size n (out\<lparr>bdata := d\<rparr>)) (\<lambda>b. Inr (buffer_advance_offset n b)))"

definition lib_fill :: "byte list \<Rightarrow> nat \<Rightarrow> prealloc_buffer \<Rightarrow> prealloc_buffer result" where
  "lib_fill bs n p =
     bindR (mem_write (pdata p) (poffset p) bs) (\<lambda>d. pb_advance_offset n (p\<lparr>pdata := d\<rparr>))"

section \<open>GZip\<close>

definition gzip_compress :: "codec_libs \<Rightarrow> int \<Rightarrow> const_buffer \<Rightarrow> buffer \<Rightarrow> buffer result" where
  "gzip_compress L level input out =
     (if cdata input = None \<or> bdata out = None
      then Inl (compression_error ''Failed compressing with GZip; invalid buffer format'')
      else let lv = (if level < 0 then - 1 else level) in
        if \<not> deflateInit L lv then Inl (Err SC_GZip ''Cannot compress with GZIP'')
        else bindR (buffer_free_space out) (\<lambda>free.
             bindR (mem_read (cdata input) 0 (u32 (csize input))) (\<lambda>src.
             case deflate L lv src (u32 free) of (ret, avail_in, bs) \<Rightarrow>
               if ret = Z_STREAM_ERROR \<or> avail_in \<noteq> 0 then Inl (Err SC_GZip ''Cannot compress with GZIP'')
               else lib_append bs (sub64 free (u32 free - length bs)) out)))"

definition gzip_decompress :: "codec_libs \<Rightarrow> const_buffer \<Rightarrow> prealloc_buffer \<Rightarrow> prealloc_buffer result" where
  "gzip_decompress L input out =
     (if cdata input = None \<or> pdata out = None
      then Inl (compression_error ''Failed decompressing with GZip; invalid buffer format'')
      else if \<not> inflateInit L then Inl (Err SC_GZip ''Cannot decompress with GZIP'')
      else bindR (mem_read (cdata input) 0 (u32 (csize input))) (\<lambda>src.
           case inflate L src (u32 (pb_free_space out)) of (ret, bs) \<Rightarrow>
             if ret \<noteq> Z_STREAM_END then Inl (Err SC_GZip ''Cannot decompress with GZIP, Stream Error'')
             else lib_fill bs (sub64 (pb_free_space out) (u32 (pb_free_space out) - length bs)) out))"

text \<open>\<open>ceil(n / 16834.0)\<close>: the quotient of the doubles has the same ceiling for all sizes below \<open>2\<^sup>5\<^sup>0\<close>.\<close>

definition gzip_overhead :: "nat \<Rightarrow> nat" where
  "gzip_overhead n = 6 + 5 * ((n + 16833) div 16834)"

section \<open>ZStd\<close>

definition zstd_compress :: "codec_libs \<Rightarrow> int \<Rightarrow> const_buffer \<Rightarrow> buffer \<Rightarrow> buffer result" where
  "zstd_compress L level input out =
     (if cdata input = None \<or> bdata out = None
      then Inl (compression_error ''Failed compressing with ZStd; invalid buffer format'')
      else if \<not> ZSTD_createCCtx L
      then Inl (compression_error ''ZStd compression failed; could not allocate context.'')
      else bindR (buffer_free_space out) (\<lambda>free.
           bindR (mem_read (cdata input) 0 (csize input)) (\<lambda>src.
           case ZSTD_compressCCtx L (if level < 0 then 5 else level) src free of
             Inl msg \<Rightarrow> Inl (compression_error (''ZStd compression failed: '' @ msg))
           | Inr bs \<Rightarrow> lib_append bs (length bs) out)))"

definition zstd_decompress :: "codec_libs \<Rightarrow> const_buffer \<Rightarrow> prealloc_buffer \<Rightarrow> prealloc_buffer result" where
  "zstd_decompress L input out =
     (if cdata input = None \<or> pdata out = None
      then Inl (compression_error ''Failed decompressing with ZStd; invalid buffer format'')
      else if \<not> ZSTD_createDCtx L
      then Inl (compression_error ''ZStd decompression failed; could not allocate context.'')
      else bindR (mem_read (cdata input) 0 (csize input)) (\<lambda>src.
           case ZSTD_decompressDCtx L src (pb_free_space out) of
             Inl msg \<Rightarrow> Inl (compression_error (''ZStd decompression failed: '' @ msg))
           | Inr bs \<Rightarrow> lib_fill bs (length bs) out))"

definition zstd_overhead :: "codec_libs \<Rightarrow> nat \<Rightarrow> nat" where
  "zstd_overhead L nbytes = sub64 (ZSTD_compressBound L nbytes) nbytes"

section \<open>LZ4\<close>

text \<open>The sizes are cast to \<open>int\<close>; the library gets numbers below \<open>2\<^sup>3\<^sup>1\<close>.\<close>

definition to_int :: "nat \<Rightarrow> int" where
  "to_int n = sint (of_nat n :: 32 word)"

definition lz4_compress :: "codec_libs \<Rightarrow> const_buffer \<Rightarrow> buffer \<Rightarrow> buffer result" where
  "lz4_compress L input out =
     (if cdata input = None \<or> bdata out = None
      then Inl (compression_error ''Failed compressing with LZ4; invalid buffer format'')
      else bindR (buffer_free_space out) (\<lambda>free.
           bindR (mem_read (cdata input) 0 (nat (to_int (csize input)))) (\<lambda>src.
           case LZ4_compress_default L src (nat (to_int free)) of (ret, bs) \<Rightarrow>
             if ret < 0 then Inl (compression_error ''LZ4 compression failed'')
             else lib_append bs (nat ret) out)))"

definition lz4_decompress :: "codec_libs \<Rightarrow> const_buffer \<Rightarrow> prealloc_buffer \<Rightarrow> prealloc_buffer result" where
  "lz4_decompress L input out =
     (if cdata input = None \<or> pdata out = None
      then Inl (compression_error ''Failed decompressing with LZ4; invalid buffer format'')
      else bindR (mem_read (cdata input) 0 (nat (to_int (csize input)))) (\<lambda>src.
           case LZ4_decompress_safe L src (nat (to_int (pb_free_space out))) of (ret, bs) \<Rightarrow>
             if ret < 0 then Inl (compression_error ''LZ4 decompression failed'')
             else lib_fill bs (nat ret) out))"

text \<open>The halved size fits in an \<open>int\<close> for every size below \<open>2\<^sup>3\<^sup>2 - 1\<close>.\<close>

definition lz4_overhead :: "codec_libs \<Rightarrow> nat \<Rightarrow> nat" where
  "lz4_overhead L nbytes =
     (let half_bound = LZ4_compressBound L ((nbytes + 1) div 2) in sub64 (mul64 2 half_bound) nbytes)"

section \<open>BZip2\<close>

definition quoted :: "string \<Rightarrow> string" where
  "quoted s = CHR 0x27 # s @ [CHR 0x27]"

definition bzip_error :: "string \<Rightarrow> bz_ret \<Rightarrow> error" where
  "bzip_error op rc = compression_error (''BZip '' @ op @ '' error: '' @
     (case rc of
        BZ_CONFIG_ERROR \<Rightarrow> ''library has been miscompiled''
      | BZ_PARAM_ERROR \<Rightarrow> quoted ''output_buffer'' @ '' or '' @ quoted ''output_buffer_size'' @ '' is NULL''
      | BZ_MEM_ERROR \<Rightarrow> ''insufficient memory''
      | BZ_OUTBUFF_FULL \<Rightarrow> if op = ''compression'' then ''compressed size exceeds limits for '' @ quoted ''output_buffer_size''
                          else ''unknown error code ''
      | BZ_DATA_ERROR \<Rightarrow> if op = ''compression'' then ''unknown error code'' else ''compressed data is corrupted''
      | BZ_DATA_ERROR_MAGIC \<Rightarrow> if op = ''compression'' then ''unknown error code'' else ''compressed data is corrupted''
      | BZ_UNEXPECTED_EOF \<Rightarrow> if op = ''compression'' then ''unknown error code'' else ''compressed data is corrupted''
      | _ \<Rightarrow> if op = ''compression'' then ''unknown error code'' else ''unknown error code ''))"

definition bzip_compress :: "codec_libs \<Rightarrow> int \<Rightarrow> const_buffer \<Rightarrow> buffer \<Rightarrow> buffer result" where
  "bzip_compress L level input out =
     (if cdata input = None \<or> bdata out = None
      then Inl (compression_error ''Failed compressing with BZip; invalid buffer format'')
      else bindR (buffer_free_space out) (\<lambda>free.
           bindR (mem_read (cdata input) 0 (u32 (csize input))) (\<lambda>src.
           case BZ2_bzBuffToBuffCompress L (if level < 1 then 1 else level) src (u32 free) of (rc, bs) \<Rightarrow>
             if rc \<noteq> BZ_OK then Inl (bzip_error ''compression'' rc)
             else lib_append bs (length bs) out)))"

definition bzip_decompress :: "codec_libs \<Rightarrow> const_buffer \<Rightarrow> prealloc_buffer \<Rightarrow> prealloc_buffer result" where
  "bzip_decompress L input out =
     (if cdata input = None \<or> pdata out = None
      then Inl (compression_error ''Failed decompressing with BZip; invalid buffer format'')
      else bindR (mem_read (cdata input) 0 (u32 (csize input))) (\<lambda>src.
           case BZ2_bzBuffToBuffDecompress L src (u32 (pb_free_space out)) of (rc, bs) \<Rightarrow>
             if rc \<noteq> BZ_OK then Inl (bzip_error ''decompression'' rc)
             else lib_fill bs (length bs) out))"

text \<open>\<open>ceil(nbytes * 0.01)\<close>: the product of the doubles has the same ceiling for all sizes below \<open>10\<^sup>1\<^sup>3\<close>.\<close>

definition bzip_overhead :: "nat \<Rightarrow> nat" where
  "bzip_overhead nbytes = (nbytes + 99) div 100 + 600"

section \<open>What the libraries document\<close>

text \<open>
  ZStd and BZip2: a compression that reports success wrote a non-empty code that fits, and decompressing
  that code into enough space gives the input.
\<close>

definition zstd_ok :: "codec_libs \<Rightarrow> bool" where
  "zstd_ok L \<longleftrightarrow> ZSTD_createDCtx L \<and> (\<forall>level src free e. ZSTD_compressCCtx L level src free = Inr e \<longrightarrow>
     e \<noteq> [] \<and> length e \<le> free \<and> ZSTD_decompressDCtx L e (length src) = Inr src)"

definition bzip_ok :: "codec_libs \<Rightarrow> bool" where
  "bzip_ok L \<longleftrightarrow> (\<forall>level src free e. BZ2_bzBuffToBuffCompress L level src free = (BZ_OK, e) \<longrightarrow>
     e \<noteq> [] \<and> length e \<le> free \<and> BZ2_bzBuffToBuffDecompress L e (length src) = (BZ_OK, src))"

lemma lib_append_sink:
  assumes "lib_append e (length e) out = Inr out'" and "raw_sink False cp ws out" and "length ws + length e \<le> cp"
  shows "raw_sink False cp (ws @ e) out'"
proof -
  note c = raw_sink_cap [OF assms(2)]
  from mem_write_region [of "boffset out" e "bdata out"] c assms(3) obtain d where
    d: "mem_write (bdata out) (boffset out) e = Inr d" "cap d = cap (bdata out)"
      "region d = overwrite (region (bdata out)) (length ws) e" by auto
  from raw_sink_advance [OF assms(2,3) d(2,3)] obtain b where
    b: "advance_output (length e) (out\<lparr>bdata := d\<rparr>) = Inr b" "raw_sink False cp (ws @ e) b" by blast
  have "owns_data out" using assms(2) by (simp add: raw_sink_def)
  then have "b = out'" using assms(1) d(1) b(1)
    by (auto simp: lib_append_def advance_output_def buffer_advance_size_def)
  then show ?thesis using b(2) by simp
qed

lemma lib_fill_written:
  assumes "pb_inv p" and "poffset p = 0" and "psize p = length x"
  shows "\<exists>p'. lib_fill x (length x) p = Inr p' \<and> pb_inv p' \<and> pb_written p' = x"
proof -
  have p: "length x \<le> cap (pdata p)" "length x \<le> 2 ^ 63" using assms by (auto simp: pb_inv_def)
  from mem_write_region [of 0 x "pdata p"] p(1) obtain d where
    d: "mem_write (pdata p) 0 x = Inr d" "cap d = cap (pdata p)" "region d = overwrite (region (pdata p)) 0 x" by auto
  have "add64 0 (length x) = length x" using p(2) by (simp add: add64_exact)
  then show ?thesis using assms d p
    by (auto simp: lib_fill_def pb_advance_offset_def pb_inv_def pb_written_def overwrite_def)
qed

lemma sink_free:
  assumes "raw_sink False cp ws out"
  shows "buffer_free_space out = Inr (cp - length ws)" and "length ws \<le> cp"
proof -
  have "bsize out = length ws" "alloced_size out = cp" "length ws \<le> cp" "cp < 2 ^ 63"
    using raw_sink_buffer [OF assms] assms by (auto simp: raw_sink_def)
  then show "buffer_free_space out = Inr (cp - length ws)" "length ws \<le> cp"
    by (simp_all add: buffer_free_space_def sub64_exact)
qed

text \<open>The pattern of both libraries.\<close>

lemma lib_codec_law:
  assumes "raw_sink False cp ws out" and "cp < 2 ^ 28" and "e \<noteq> []" and "length e \<le> cp - length ws"
    and "lib_append e (length e) out = Inr out'"
    and "\<And>cb p. cb_inv cb \<Longrightarrow> cb_bytes cb = e \<Longrightarrow> pdata p \<noteq> None \<Longrightarrow> pb_free_space p = length x \<Longrightarrow> 0 < length x \<Longrightarrow>
           dec cb p = lib_fill x (length x) p" and "x \<noteq> []"
  shows "\<exists>e cp'. e \<noteq> [] \<and> raw_sink False cp' (ws @ e) out' \<and> cp' < 2 ^ 28 \<and> decodes dec e x"
proof -
  have "decodes dec e x" unfolding decodes_def
  proof (intro allI impI)
    fix cb p
    assume a: "cb_inv cb" "cb_bytes cb = e" "pb_inv p" "poffset p = 0" "psize p = length x"
    have "pdata p \<noteq> None" using a(3,5) assms(7) by (cases "pdata p") (auto simp: pb_inv_def)
    moreover have "pb_free_space p = length x" using a(3-5) by (simp add: pb_free_space_def pb_inv_def sub64_exact)
    ultimately show "\<exists>p'. dec cb p = Inr p' \<and> pb_inv p' \<and> pb_written p' = x"
      using assms(6) [OF a(1,2)] assms(7) lib_fill_written [OF a(3-5)] by simp
  qed
  moreover have "raw_sink False cp (ws @ e) out'"
    by (rule lib_append_sink [OF assms(5,1)]) (use assms(4) sink_free(2) [OF assms(1)] in simp)
  ultimately show ?thesis using assms(2,3) by blast
qed

lemma cb_mem_read: "cb_inv cb \<Longrightarrow> mem_read (cdata cb) 0 (csize cb) = Inr (cb_bytes cb) \<and> length (cb_bytes cb) = csize cb"
  by (simp add: cb_inv_def mem_read_region cb_bytes_def slice_def)

lemma zstd_codec:
  assumes "zstd_ok L"
  shows "part_codec (\<lambda>al. zstd_compress L level) (zstd_decompress L)"
proof
  fix al :: allocator and cb out out' cp ws
  assume run: "zstd_compress L level cb out = Inr out'" and cb: "cb_inv cb" "0 < csize cb" "csize cb < 2 ^ 32"
    and out: "raw_sink False cp ws out" "cp < 2 ^ 28"
  note rd = cb_mem_read [OF cb(1)]
  from run rd sink_free(1) [OF out(1)] obtain e where
    e: "ZSTD_compressCCtx L (if level < 0 then 5 else level) (cb_bytes cb) (cp - length ws) = Inr e"
      "lib_append e (length e) out = Inr out'"
    by (auto simp: zstd_compress_def split: if_splits sum.splits)
  have lib: "e \<noteq> []" "length e \<le> cp - length ws" "ZSTD_decompressDCtx L e (length (cb_bytes cb)) = Inr (cb_bytes cb)" "ZSTD_createDCtx L"
    using assms e(1) unfolding zstd_ok_def by blast+
  show "\<exists>e cp'. e \<noteq> [] \<and> raw_sink False cp' (ws @ e) out' \<and> cp' < 2 ^ 28 \<and> decodes (zstd_decompress L) e (cb_bytes cb)"
  proof (rule lib_codec_law [OF out lib(1,2) e(2)])
    fix cb' p
    assume c: "cb_inv cb'" "cb_bytes cb' = e" and p: "pdata p \<noteq> None" "pb_free_space p = length (cb_bytes cb)"
    have "cdata cb' \<noteq> None" using c lib(1) by (cases "cdata cb'") (auto simp: cb_bytes_def)
    then show "zstd_decompress L cb' p = lib_fill (cb_bytes cb) (length (cb_bytes cb)) p"
      using cb_mem_read [OF c(1)] c(2) p lib(3,4) by (auto simp: zstd_decompress_def)
  qed (use rd cb(2) in auto)
qed

lemma bzip_codec:
  assumes "bzip_ok L"
  shows "part_codec (\<lambda>al. bzip_compress L level) (bzip_decompress L)"
proof
  fix al :: allocator and cb out out' cp ws
  assume run: "bzip_compress L level cb out = Inr out'" and cb: "cb_inv cb" "0 < csize cb" "csize cb < 2 ^ 32"
    and out: "raw_sink False cp ws out" "cp < 2 ^ 28"
  note rd = cb_mem_read [OF cb(1)]
  have u: "u32 (csize cb) = csize cb" "u32 (cp - length ws) = cp - length ws" using cb(3) out(2) by (simp_all add: u32_def)
  from run rd sink_free(1) [OF out(1)] u obtain e where
    e: "BZ2_bzBuffToBuffCompress L (if level < 1 then 1 else level) (cb_bytes cb) (cp - length ws) = (BZ_OK, e)"
      "lib_append e (length e) out = Inr out'"
    by (auto simp: bzip_compress_def split: if_splits prod.splits)
  have lib: "e \<noteq> []" "length e \<le> cp - length ws" "BZ2_bzBuffToBuffDecompress L e (length (cb_bytes cb)) = (BZ_OK, cb_bytes cb)"
    using assms e(1) unfolding bzip_ok_def by blast+
  show "\<exists>e cp'. e \<noteq> [] \<and> raw_sink False cp' (ws @ e) out' \<and> cp' < 2 ^ 28 \<and> decodes (bzip_decompress L) e (cb_bytes cb)"
  proof (rule lib_codec_law [OF out lib(1,2) e(2)])
    fix cb' p
    assume c: "cb_inv cb'" "cb_bytes cb' = e" and p: "pdata p \<noteq> None" "pb_free_space p = length (cb_bytes cb)"
    have "cdata cb' \<noteq> None" using c lib(1) by (cases "cdata cb'") (auto simp: cb_bytes_def)
    moreover have "u32 (csize cb') = csize cb'" "u32 (length (cb_bytes cb)) = length (cb_bytes cb)"
      using cb_mem_read [OF c(1)] c(2) rd cb(3) lib(2) out(2) by (auto simp: u32_def)
    ultimately show "bzip_decompress L cb' p = lib_fill (cb_bytes cb) (length (cb_bytes cb)) p"
      using cb_mem_read [OF c(1)] c(2) p lib(3) by (auto simp: bzip_decompress_def)
  qed (use rd cb(2) in auto)
qed

end
