(* ===== verification/Compression_Filter.thy ===== *)
theory Compression_Filter
  imports Lib_Codecs
begin

text \<open>
  The compression filter (\<open>filter/compression_filter.cc\<close>). It compresses every part of the metadata and
  of the data into its output, and its metadata has the sizes of each part before and after. The compressor,
  its level, the cell size and the type of the tile are arguments; the libraries are a record of functions.
\<close>

section \<open>The filter\<close>

definition compress_with ::
  "codec_libs \<Rightarrow> Compressor \<Rightarrow> int \<Rightarrow> nat \<Rightarrow> Datatype \<Rightarrow> allocator \<Rightarrow> const_buffer \<Rightarrow> buffer \<Rightarrow> buffer result" where
  "compress_with L compressor level cell_size type al input output =
     (case compressor of
        GZIP \<Rightarrow> gzip_compress L level input output
      | ZSTD \<Rightarrow> zstd_compress L level input output
      | LZ4 \<Rightarrow> lz4_compress L input output
      | RLE \<Rightarrow> rle_compress al cell_size input output
      | BZIP2 \<Rightarrow> bzip_compress L level input output
      | DOUBLE_DELTA \<Rightarrow> dd_compress al type input output
      | NO_COMPRESSION \<Rightarrow> Inl AssertFail)"

definition decompress_with ::
  "codec_libs \<Rightarrow> Compressor \<Rightarrow> nat \<Rightarrow> Datatype \<Rightarrow> const_buffer \<Rightarrow> prealloc_buffer \<Rightarrow> prealloc_buffer result" where
  "decompress_with L compressor cell_size type input output =
     (case compressor of
        NO_COMPRESSION \<Rightarrow> Inl AssertFail
      | GZIP \<Rightarrow> gzip_decompress L input output
      | ZSTD \<Rightarrow> zstd_decompress L input output
      | LZ4 \<Rightarrow> lz4_decompress L input output
      | RLE \<Rightarrow> rle_decompress cell_size input output
      | BZIP2 \<Rightarrow> bzip_decompress L input output
      | DOUBLE_DELTA \<Rightarrow> dd_decompress type input output)"

definition overhead :: "codec_libs \<Rightarrow> Compressor \<Rightarrow> nat \<Rightarrow> nat \<Rightarrow> nat result" where
  "overhead L compressor cell_size nbytes =
     (case compressor of
        GZIP \<Rightarrow> Inr (gzip_overhead nbytes)
      | ZSTD \<Rightarrow> Inr (zstd_overhead L nbytes)
      | LZ4 \<Rightarrow> Inr (lz4_overhead L nbytes)
      | RLE \<Rightarrow> rle_overhead nbytes cell_size
      | BZIP2 \<Rightarrow> Inr (bzip_overhead nbytes)
      | DOUBLE_DELTA \<Rightarrow> Inr dd_overhead
      | NO_COMPRESSION \<Rightarrow> Inr 0)"

type_synonym compress_fun = "allocator \<Rightarrow> const_buffer \<Rightarrow> buffer \<Rightarrow> buffer result"
type_synonym decompress_fun = "const_buffer \<Rightarrow> prealloc_buffer \<Rightarrow> prealloc_buffer result"

definition compress_part :: "compress_fun \<Rightarrow> allocator \<Rightarrow> buffer \<times> filter_buffer \<Rightarrow> const_buffer \<Rightarrow> (buffer \<times> filter_buffer) result" where
  "compress_part cmp al s part =
     (case s of (output, output_metadata) \<Rightarrow>
        let input_buffer = cb_new (cdata part) (csize part); orig_size = u32 (bsize output) in
        bindR (cmp al input_buffer output) (\<lambda>out1.
          if bsize out1 > 4294967295 then Inl (filter_error ''Compressed output exceeds uint32 max.'')
          else let input_size = u32 (csize part); compressed_size = sub32 (u32 (bsize out1)) orig_size in
            bindR (fb_write (le_bytes 4 (of_nat input_size :: 32 word)) output_metadata) (\<lambda>md1.
            bindR (fb_write (le_bytes 4 (of_nat compressed_size :: 32 word)) md1) (\<lambda>md2. Inr (out1, md2)))))"

definition size_bound :: "(nat \<Rightarrow> nat result) \<Rightarrow> nat \<Rightarrow> const_buffer list \<Rightarrow> nat result" where
  "size_bound ov n parts =
     foldR (\<lambda>ub part. bindR (ov (csize part)) (\<lambda>h. Inr (add64 ub (add64 (csize part) h)))) n parts"

definition compress_forward :: "compress_fun \<Rightarrow> (nat \<Rightarrow> nat result) \<Rightarrow> filter_run" where
  "compress_forward cmp ov al gb input_metadata input output_metadata output =
     (if fb_size input > 4294967295 then Inl (filter_error ''Input is too large to be compressed.'')
      else let data_parts = fb_buffers input; metadata_parts = fb_buffers input_metadata;
               num_data_parts = u32 (length data_parts); num_metadata_parts = u32 (length metadata_parts);
               total_num_parts = u32 (num_data_parts + num_metadata_parts) in
        bindR (size_bound ov 0 metadata_parts) (\<lambda>n1.
        bindR (size_bound ov n1 data_parts) (\<lambda>output_size_ub.
        bindR (fb_prepend_buffer al (gb 0) output_size_ub output) (\<lambda>out1.
        bindR (fb_buffer_ptr 0 out1) (\<lambda>p. case p of None \<Rightarrow> Inl AssertFail | Some buffer_ptr \<Rightarrow>
        bindR (fb_prepend_buffer al (gb 1) (2 * 4 + total_num_parts * 2 * 4) output_metadata) (\<lambda>md1.
        bindR (fb_write (le_bytes 4 (of_nat num_metadata_parts :: 32 word)) md1) (\<lambda>md2.
        bindR (fb_write (le_bytes 4 (of_nat num_data_parts :: 32 word)) md2) (\<lambda>md3.
        bindR (foldR (compress_part cmp al) (buffer_reset_offset buffer_ptr, md3) metadata_parts) (\<lambda>s.
        bindR (foldR (compress_part cmp al) s data_parts) (\<lambda>(b, md4).
          Inr (input_metadata, input, md4, fb_put_back 0 b out1)))))))))))"

text \<open>The memory that a \<open>PreallocatedBuffer\<close> on the current position of the output covers.\<close>

definition output_window :: "nat \<Rightarrow> nat \<Rightarrow> byte list option \<Rightarrow> byte list option result" where
  "output_window off n d = (if off + n \<le> cap d then Inr (map_option (\<lambda>xs. slice xs off n) d) else Inl UB)"

definition decompress_part :: "decompress_fun \<Rightarrow> allocator \<Rightarrow> filter_buffer \<times> buffer \<times> filter_buffer \<Rightarrow> nat
    \<Rightarrow> (filter_buffer \<times> buffer \<times> filter_buffer) result" where
  "decompress_part dec al s i =
     (case s of (input, output, input_metadata) \<Rightarrow>
        bindR (fb_read 4 input_metadata) (\<lambda>(bu, md1).
        bindR (fb_read 4 md1) (\<lambda>(bc, md2).
        let uncompressed_size = unat (of_le bu :: 32 word); compressed_size = unat (of_le bc :: 32 word) in
        bindR (if owns_data output then buffer_realloc al (add64 (alloced_size output) uncompressed_size) output
               else if add64 (boffset output) uncompressed_size > bsize output
               then Inl (filter_error ''CompressionFilter error; output buffer too small.'')
               else Inr output) (\<lambda>out1.
        bindR (fb_get_const_buffer compressed_size input) (\<lambda>input_buffer.
        bindR (output_window (boffset out1) uncompressed_size (bdata out1)) (\<lambda>w.
        bindR (dec input_buffer (pb_new w uncompressed_size)) (\<lambda>p.
        bindR (mem_write (bdata out1) (boffset out1) (take uncompressed_size (region (pdata p)))) (\<lambda>d.
        bindR (advance_output uncompressed_size (out1\<lparr>bdata := d\<rparr>)) (\<lambda>out2.
        bindR (fb_advance_offset compressed_size input) (\<lambda>inp. Inr (inp, out2, md2)))))))))))"

definition decompress_reverse :: "decompress_fun \<Rightarrow> filter_run" where
  "decompress_reverse dec al gb input_metadata input output_metadata output =
     bindR (fb_read 4 input_metadata) (\<lambda>(bm, md1).
     bindR (fb_read 4 md1) (\<lambda>(bd, md2).
     bindR (fb_prepend_buffer al (gb 0) 0 output) (\<lambda>out1.
     bindR (fb_buffer_ptr 0 out1) (\<lambda>p. case p of None \<Rightarrow> Inl AssertFail | Some data_buffer \<Rightarrow>
     bindR (fb_prepend_buffer al (gb 1) 0 output_metadata) (\<lambda>om1.
     bindR (fb_buffer_ptr 0 om1) (\<lambda>q. case q of None \<Rightarrow> Inl AssertFail | Some metadata_buffer \<Rightarrow>
     bindR (foldR (decompress_part dec al) (input, metadata_buffer, md2) [0..<unat (of_le bm :: 32 word)]) (\<lambda>(inp1, mb, md3).
     bindR (foldR (decompress_part dec al) (inp1, data_buffer, md3) [0..<unat (of_le bd :: 32 word)]) (\<lambda>(inp2, b, md4).
       Inr (md4, inp2, fb_put_back 0 mb om1, fb_put_back 0 b out1)))))))))"

definition compression_run_forward :: "codec_libs \<Rightarrow> Compressor \<Rightarrow> int \<Rightarrow> nat \<Rightarrow> Datatype \<Rightarrow> filter_run" where
  "compression_run_forward L compressor level cell_size type al gb input_metadata input output_metadata output =
     (if compressor = NO_COMPRESSION then noop_run al gb input_metadata input output_metadata output
      else compress_forward (compress_with L compressor level cell_size type) (overhead L compressor cell_size)
             al gb input_metadata input output_metadata output)"

definition compression_run_reverse :: "codec_libs \<Rightarrow> Compressor \<Rightarrow> nat \<Rightarrow> Datatype \<Rightarrow> filter_run" where
  "compression_run_reverse L compressor cell_size type al gb input_metadata input output_metadata output =
     (if compressor = NO_COMPRESSION then noop_run al gb input_metadata input output_metadata output
      else decompress_reverse (decompress_with L compressor cell_size type)
             al gb input_metadata input output_metadata output)"

section \<open>The parts in the output and the metadata\<close>

definition code_sizes :: "(byte list \<times> byte list) list \<Rightarrow> byte list" where
  "code_sizes xes = concat (map (\<lambda>(x, e). le_bytes 4 (of_nat (length x) :: 32 word) @ le_bytes 4 (of_nat (length e) :: 32 word)) xes)"

lemma code_sizes_simps [simp]: "code_sizes [] = []"
  "code_sizes ((x, e) # xes) = le_bytes 4 (of_nat (length x) :: 32 word) @ le_bytes 4 (of_nat (length e) :: 32 word) @ code_sizes xes"
  "code_sizes (xes @ yes) = code_sizes xes @ code_sizes yes"
  by (simp_all add: code_sizes_def)

definition whole_parts :: "const_buffer list \<Rightarrow> bool" where
  "whole_parts ps \<longleftrightarrow> list_all (\<lambda>p. 0 < csize p \<and> csize p \<le> cap (cdata p) \<and> csize p < 2 ^ 32) ps"

definition codes :: "decompress_fun \<Rightarrow> (byte list \<times> byte list) list \<Rightarrow> bool" where
  "codes dec xes \<longleftrightarrow> list_all (\<lambda>(x, e). decodes dec e x \<and> e \<noteq> [] \<and> x \<noteq> [] \<and> length x < 2 ^ 32 \<and> length e < 2 ^ 28) xes"

lemma buffer_reset_raw: "raw_sink False cp [] b \<Longrightarrow> raw_sink False cp [] (buffer_reset_offset b)"
  using raw_sink_cap [of False cp "[]" b] by (cases b) (simp add: buffer_reset_offset_def)

lemma raw_sink_grow:
  assumes "raw_sink False cp ws b" and "alloc_total al" and "0 < n" and "cp + n < 2 ^ 63"
  shows "\<exists>b'. buffer_realloc al (add64 (alloced_size b) n) b = Inr b' \<and> raw_sink False (cp + n) ws b'"
proof -
  have b: "buffer_inv b" "owns_data b" "alloced_size b = cp" "bsize b = length ws" "boffset b = length ws" "length ws \<le> cp"
    "take (length ws) (region (bdata b)) = ws" "cap (bdata b) = cp"
    using assms(1) raw_sink_cap [OF assms(1)] by (auto simp: raw_sink_def capacity_def buffer_inv_def)
  have add: "add64 (alloced_size b) n = cp + n" using assms(4) b(3) by (simp add: add64_exact)
  show ?thesis
  proof (cases "bdata b")
    case None
    obtain d where "malloc al (cp + n) = Some d" "length d = cp + n" using alloc_total_malloc [OF assms(2)] by blast
    then show ?thesis using None b add assms(4)
      by (auto simp: buffer_realloc_def raw_sink_def buffer_inv_def capacity_def)
  next
    case (Some d0)
    have "length d0 \<le> cp + n" using b(8) Some by simp
    from alloc_total_realloc [OF assms(2) this] obtain d where d: "mem_realloc al d0 (cp + n) = Some d" "length d = cp + n" by blast
    have "take (length d0) d = d0" by (rule take_mem_realloc [OF d(1)]) (use b(8) Some in simp)
    then have "take (length ws) d = ws" using b(6,7,8) Some by (metis cap_simps(2) min.absorb1 region_simps(2) take_take)
    then show ?thesis using Some b add d assms(3,4)
      by (auto simp: buffer_realloc_def raw_sink_def buffer_inv_def capacity_def)
  qed
qed

text \<open>One part: the code is decoded into the memory behind the position of the output.\<close>

lemma decode_to_window:
  assumes "decodes dec e x" and "raw_sink fx cp ws b" and "length ws + length x \<le> cp" and "csize part = length e"
    and "coffset part = 0" and "cb_bytes part = e" and "length e \<le> cap (cdata part)" and "length e < 2 ^ 28" and "length x < 2 ^ 32"
  shows "\<exists>w p d b'. output_window (boffset b) (length x) (bdata b) = Inr w \<and> dec part (pb_new w (length x)) = Inr p
       \<and> mem_write (bdata b) (boffset b) (take (length x) (region (pdata p))) = Inr d
       \<and> advance_output (length x) (b\<lparr>bdata := d\<rparr>) = Inr b' \<and> raw_sink fx cp (ws @ x) b'"
proof -
  note c = raw_sink_cap [OF assms(2)]
  let ?w = "map_option (\<lambda>xs. slice xs (boffset b) (length x)) (bdata b)"
  have fit: "boffset b + length x \<le> cap (bdata b)" using c assms(3) by simp
  have w: "output_window (boffset b) (length x) (bdata b) = Inr ?w" using fit by (simp add: output_window_def)
  have "cap ?w = length x" using fit by (cases "bdata b") (auto simp: length_slice)
  then have "pb_inv (pb_new ?w (length x))" "poffset (pb_new ?w (length x)) = 0" "psize (pb_new ?w (length x)) = length x"
    using assms(9) by (simp_all add: pb_inv_def pb_new_def)
  moreover have "cb_inv part" using assms(4,5,7,8) by (simp add: cb_inv_def)
  ultimately obtain p where p: "dec part (pb_new ?w (length x)) = Inr p" "pb_inv p" "pb_written p = x"
    using assms(1) [unfolded decodes_def, rule_format, of part "pb_new ?w (length x)"] assms(5,6) by blast
  have "poffset p = length x" using p(2,3) by (auto simp: pb_inv_def pb_written_def)
  then have x: "take (length x) (region (pdata p)) = x" using p(3) by (simp add: pb_written_def)
  from mem_write_region [OF fit] obtain d where d: "mem_write (bdata b) (boffset b) x = Inr d" "cap d = cap (bdata b)"
    "region d = overwrite (region (bdata b)) (length ws) x" using c by auto
  from raw_sink_advance [OF assms(2,3) d(2,3)] obtain b' where "advance_output (length x) (b\<lparr>bdata := d\<rparr>) = Inr b'"
    "raw_sink fx cp (ws @ x) b'" by blast
  then show ?thesis using w p(1) x d(1) by (intro exI [of _ ?w] exI [of _ p] exI [of _ d] exI [of _ b']) simp
qed

text \<open>The output of a reverse run has room for the parts that are left, or can grow.\<close>

definition can_take :: "bool \<Rightarrow> nat \<Rightarrow> byte list \<Rightarrow> nat \<Rightarrow> bool" where
  "can_take fx cp ws n \<longleftrightarrow> (if fx then length ws + n \<le> cp else cp + n < 2 ^ 63)"

lemma decompress_part_ok:
  assumes "decodes dec e x" and "e \<noteq> []" and "x \<noteq> []" and "length e < 2 ^ 28" and "length x < 2 ^ 32" and "alloc_total al"
    and "raw_sink fx cp ws b" and "can_take fx cp ws (length x + n)"
    and "fb_source md" and "fb_rest md = code_sizes ((x, e) # xes) @ zs"
    and "fb_source inp" and "length (fbuffers inp) \<le> 1" and "fb_rest inp = e @ ys"
  shows "\<exists>inp' b' md' cp'. decompress_part dec al (inp, b, md) i = Inr (inp', b', md') \<and> raw_sink fx cp' (ws @ x) b'
      \<and> can_take fx cp' (ws @ x) n \<and> (fx \<longrightarrow> cp' = cp) \<and> fb_source md' \<and> fb_rest md' = code_sizes xes @ zs
      \<and> fb_source inp' \<and> fb_rest inp' = ys \<and> fbuffers inp' = fbuffers inp"
proof -
  let ?h1 = "le_bytes 4 (of_nat (length x) :: 32 word)" and ?h2 = "le_bytes 4 (of_nat (length e) :: 32 word)"
  have u: "unat (of_le ?h1 :: 32 word) = length x" "unat (of_le ?h2 :: 32 word) = length e"
    using assms(4,5) by (simp_all add: of_le_u32)
  have "fb_rest md = ?h1 @ (?h2 @ code_sizes xes @ zs)" using assms(10) by simp
  from fsource.get_front [OF assms(9) this, of 4] obtain md1 where md1: "fb_read 4 md = Inr (?h1, md1)" "fb_source md1"
    "fb_rest md1 = ?h2 @ (code_sizes xes @ zs)" by auto
  from fsource.get_front [OF md1(2,3), of 4] obtain md2 where md2: "fb_read 4 md1 = Inr (?h2, md2)" "fb_source md2"
    "fb_rest md2 = code_sizes xes @ zs" by auto
  have "\<exists>b1 cp1. (if owns_data b then buffer_realloc al (add64 (alloced_size b) (length x)) b
               else if add64 (boffset b) (length x) > bsize b
               then Inl (filter_error ''CompressionFilter error; output buffer too small.'')
               else Inr b) = Inr b1 \<and> raw_sink fx cp1 ws b1 \<and> length ws + length x \<le> cp1
        \<and> can_take fx cp1 (ws @ x) n \<and> (fx \<longrightarrow> cp1 = cp)"
  proof (cases fx)
    case True
    then have "\<not> owns_data b" "boffset b = length ws" "bsize b = cp" "cp < 2 ^ 63"
      using assms(7) raw_sink_cap [OF assms(7)] by (auto simp: raw_sink_def capacity_def)
    then show ?thesis using True assms(7,8) by (simp add: can_take_def add64_exact)
  next
    case False
    have "0 < length x" "cp + length x < 2 ^ 63" using assms(3,8) False by (auto simp: can_take_def)
    from raw_sink_grow [OF _ assms(6) this] assms(7) False obtain b1 where
      "buffer_realloc al (add64 (alloced_size b) (length x)) b = Inr b1" "raw_sink False (cp + length x) ws b1" by auto
    moreover have "owns_data b" "length ws \<le> cp" using assms(7) False raw_sink_buffer(5) by (auto simp: raw_sink_def)
    ultimately show ?thesis using False assms(8) by (auto simp: can_take_def)
  qed
  then obtain b1 cp1 where b1: "(if owns_data b then buffer_realloc al (add64 (alloced_size b) (length x)) b
               else if add64 (boffset b) (length x) > bsize b
               then Inl (filter_error ''CompressionFilter error; output buffer too small.'')
               else Inr b) = Inr b1" "raw_sink fx cp1 ws b1" "length ws + length x \<le> cp1" "can_take fx cp1 (ws @ x) n" "fx \<longrightarrow> cp1 = cp"
    by blast
  have ne: "fb_rest inp \<noteq> []" using assms(2,13) by simp
  from fb_get_part [OF assms(11-13) ne] obtain part where part: "fb_get_const_buffer (length e) inp = Inr part"
    "csize part = length e" "coffset part = 0" "cb_bytes part = e" "length e \<le> cap (cdata part)" by blast
  from decode_to_window [OF assms(1) b1(2,3) part(2-5) assms(4,5)] obtain w p d b2 where
    w: "output_window (boffset b1) (length x) (bdata b1) = Inr w" "dec part (pb_new w (length x)) = Inr p"
      "mem_write (bdata b1) (boffset b1) (take (length x) (region (pdata p))) = Inr d"
      "advance_output (length x) (b1\<lparr>bdata := d\<rparr>) = Inr b2" "raw_sink fx cp1 (ws @ x) b2" by blast
  from fb_advance_skip [OF assms(11-13,2)] obtain inp' where inp': "fb_advance_offset (length e) inp = Inr inp'"
    "fb_source inp'" "fb_rest inp' = ys" "fbuffers inp' = fbuffers inp" by blast
  have "decompress_part dec al (inp, b, md) i = Inr (inp', b2, md2)"
    unfolding decompress_part_def using md1(1) md2(1) u b1(1) part(1) w(1-4) inp'(1)
    by (simp only: prod.case bindR_simps Let_def)
  then show ?thesis using w(5) b1(4,5) md2(2,3) inp'(2-4)
    by (intro exI [of _ inp'] exI [of _ b2] exI [of _ md2] exI [of _ cp1]) simp
qed

lemma decompress_parts:
  assumes "codes dec xes" and "alloc_total al" and "length js = length xes"
    and "raw_sink fx cp ws b" and "can_take fx cp ws (length (concat (map fst xes)))"
    and "fb_source md" and "fb_rest md = code_sizes xes @ zs"
    and "fb_source inp" and "length (fbuffers inp) \<le> 1" and "fb_rest inp = concat (map snd xes) @ ys"
  shows "\<exists>inp' b' md' cp'. foldR (decompress_part dec al) (inp, b, md) js = Inr (inp', b', md')
      \<and> raw_sink fx cp' (ws @ concat (map fst xes)) b' \<and> (fx \<longrightarrow> cp' = cp) \<and> fb_source md' \<and> fb_rest md' = zs
      \<and> fb_source inp' \<and> fb_rest inp' = ys \<and> length (fbuffers inp') \<le> 1"
  using assms(1,3-)
proof (induction xes arbitrary: js md inp b ws cp)
  case Nil
  then show ?case by (intro exI [of _ inp] exI [of _ b] exI [of _ md] exI [of _ cp]) simp
next
  case (Cons xe xes)
  obtain x e where xe: "xe = (x, e)" by (cases xe)
  from Cons.prems(2) obtain j js' where js: "js = j # js'" "length js' = length xes" by (cases js) auto
  have c: "decodes dec e x" "e \<noteq> []" "x \<noteq> []" "length e < 2 ^ 28" "length x < 2 ^ 32" "codes dec xes"
    using Cons.prems(1) xe by (simp_all add: codes_def)
  have take: "can_take fx cp ws (length x + length (concat (map fst xes)))" using Cons.prems(4) xe by simp
  have rest: "fb_rest md = code_sizes ((x, e) # xes) @ zs" "fb_rest inp = e @ (concat (map snd xes) @ ys)"
    using Cons.prems(6,9) xe by simp_all
  from decompress_part_ok [OF c(1-5) assms(2) Cons.prems(3) take Cons.prems(5) rest(1) Cons.prems(7,8) rest(2), of j]
  obtain inp1 b1 md1 cp1 where s: "decompress_part dec al (inp, b, md) j = Inr (inp1, b1, md1)" "raw_sink fx cp1 (ws @ x) b1"
    "can_take fx cp1 (ws @ x) (length (concat (map fst xes)))" "fx \<longrightarrow> cp1 = cp" "fb_source md1" "fb_rest md1 = code_sizes xes @ zs"
    "fb_source inp1" "fb_rest inp1 = concat (map snd xes) @ ys" "fbuffers inp1 = fbuffers inp" by blast
  have "length (fbuffers inp1) \<le> 1" using Cons.prems(8) s(9) by simp
  from Cons.IH [OF c(6) js(2) s(2,3,5,6,7) this s(8)] obtain inp' b' md' cp' where
    "foldR (decompress_part dec al) (inp1, b1, md1) js' = Inr (inp', b', md')"
    "raw_sink fx cp' ((ws @ x) @ concat (map fst xes)) b'" "fx \<longrightarrow> cp' = cp1" "fb_source md'" "fb_rest md' = zs"
    "fb_source inp'" "fb_rest inp' = ys" "length (fbuffers inp') \<le> 1" by blast
  then show ?case using js(1) s(1,4) xe by (intro exI [of _ inp'] exI [of _ b'] exI [of _ md'] exI [of _ cp']) simp
qed

lemma whole_parts_of:
  assumes "bovs_ok (fbuffers fb)" and "list_all solid (fbuffers fb)" and "length (fb_bytes fb) < 2 ^ 32"
  shows "whole_parts (fb_buffers fb)"
proof -
  have "0 < csize p \<and> csize p \<le> cap (cdata p) \<and> csize p < 2 ^ 32" if "p \<in> set (fb_buffers fb)" for p
  proof -
    have c: "csize p \<le> cap (cdata p)" "cb_bytes p \<noteq> []"
      using md_parts(2,4) [OF assms(1)] assms(2) that by (simp_all add: list_all_iff)
    then have n: "length (cb_bytes p) = csize p" by (simp add: cb_bytes_def)
    have "length (cb_bytes p) \<le> length (concat (map cb_bytes (fb_buffers fb)))" by (rule part_length) (use that in simp)
    then show ?thesis using c n md_parts(1) [OF assms(1)] assms(3) by (simp flip: length_greater_0_conv)
  qed
  then show ?thesis by (simp add: whole_parts_def list_all_iff)
qed

lemma md_done_alone:
  assumes "fb_sink False cp [] om" and "cp < 2 ^ 28" and "fb_written om \<noteq> []"
  shows "md_done im om"
proof -
  have "md_done fb_new om" by (rule md_done_sink [OF assms]) (simp_all add: fb_new_def fb_bytes_def bovs_ok_def)
  then show ?thesis by (simp add: md_done_def fb_new_def fb_bytes_def)
qed

lemma codes_append: "codes dec (xes @ yes) \<longleftrightarrow> codes dec xes \<and> codes dec yes"
  by (simp add: codes_def)

lemma decompress_reverse_spec:
  assumes xes: "codes dec mes" "codes dec des" "length mes < 2 ^ 20" "length des < 2 ^ 20"
    "length (concat (map fst mes)) < 2 ^ 32" "length (concat (map fst des)) < 2 ^ 28"
    and im: "fb_rest im = le_bytes 4 (of_nat (length mes) :: 32 word) @ le_bytes 4 (of_nat (length des) :: 32 word) @
               code_sizes mes @ code_sizes des" "fb_start im"
    and inp: "flat (concat (map snd mes) @ concat (map snd des)) inp" "fb_start inp"
    and tgt: "fb_target (length (concat (map fst des))) tgt" and mem: "alloc_total al" "small_pool gb"
  shows "\<exists>im2 inp2 om out. decompress_reverse dec al gb im inp fb_new tgt = Inr (im2, inp2, om, out)
       \<and> flat (concat (map fst mes)) om \<and> \<not> read_only om \<and> flat (concat (map fst des)) out \<and> \<not> read_only out"
proof -
  let ?hm = "le_bytes 4 (of_nat (length mes) :: 32 word)" and ?hd = "le_bytes 4 (of_nat (length des) :: 32 word)"
  let ?m = "length (concat (map fst mes))" and ?d = "length (concat (map fst des))"
  from fsource.get_front [OF fb_start_source [OF im(2)] im(1), of 4] obtain md1 where
    md1: "fb_read 4 im = Inr (?hm, md1)" "fb_source md1" "fb_rest md1 = ?hd @ (code_sizes mes @ code_sizes des)" by auto
  from fsource.get_front [OF md1(2,3), of 4] obtain md2 where
    md2: "fb_read 4 md1 = Inr (?hd, md2)" "fb_source md2" "fb_rest md2 = code_sizes mes @ code_sizes des" by auto
  have "?d < 2 ^ 62" using xes(6) by simp
  from fb_prepend_target [OF tgt _ this small_poolD(1) [OF mem(2)] mem(1), of 0 0]
  obtain out1 fx cp where out1: "fb_prepend_buffer al (gb 0) 0 tgt = Inr out1" "fb_sink fx cp [] out1"
    "fb_written out1 = []" "cp < 2 ^ 62" "fx \<longrightarrow> cp = ?d" by auto
  from raw_sink_start [OF out1(2,3)] obtain b where b: "fb_buffer_ptr 0 out1 = Inr (Some b)" "raw_sink fx cp [] b" by blast
  from fb_prepend_new [of fb_new "gb 1" al 0] small_poolD(1) [OF mem(2)] mem(1)
  obtain om1 cm where om1: "fb_prepend_buffer al (gb 1) 0 fb_new = Inr om1" "fb_sink False cm [] om1"
    "fb_written om1 = []" "cm < 2 ^ 62" by (auto simp: fb_new_def)
  from raw_sink_start [OF om1(2,3)] obtain q where q: "fb_buffer_ptr 0 om1 = Inr (Some q)" "raw_sink False cm [] q" by blast
  have n: "unat (of_le ?hm :: 32 word) = length mes" "unat (of_le ?hd :: 32 word) = length des"
    using xes(3,4) by (simp_all add: of_le_u32)
  have take: "can_take False cm [] ?m" "can_take fx cp [] ?d" using om1(4) out1(4,5) xes(5,6) by (simp_all add: can_take_def)
  have i: "fb_source inp" "length (fbuffers inp) \<le> 1" "fb_rest inp = concat (map snd mes) @ concat (map snd des)"
    using inp fb_start_source [OF inp(2)] fb_start_rest [OF inp(2)] by (simp_all add: flat_def)
  from decompress_parts [OF xes(1) mem(1) _ q(2) take(1) md2(2,3) i, of "[0..<length mes]"] obtain inp1 q' md3 cm' where
    m: "foldR (decompress_part dec al) (inp, q, md2) [0..<length mes] = Inr (inp1, q', md3)"
      "raw_sink False cm' (concat (map fst mes)) q'" "fb_source md3" "fb_rest md3 = code_sizes des"
      "fb_source inp1" "fb_rest inp1 = concat (map snd des)" "length (fbuffers inp1) \<le> 1" by auto
  have r: "fb_rest md3 = code_sizes des @ []" "fb_rest inp1 = concat (map snd des) @ []" using m(4,6) by simp_all
  from decompress_parts [OF xes(2) mem(1) _ b(2) take(2) m(3) r(1) m(5,7) r(2), of "[0..<length des]"]
  obtain inp2 b' md4 cp' where
    d: "foldR (decompress_part dec al) (inp1, b, md3) [0..<length des] = Inr (inp2, b', md4)"
      "raw_sink fx cp' (concat (map fst des)) b'" "fx \<longrightarrow> cp' = cp" by auto
  have "decompress_reverse dec al gb im inp fb_new tgt = Inr (md4, inp2, fb_put_back 0 q' om1, fb_put_back 0 b' out1)"
    using md1(1) md2(1) n out1(1) b(1) om1(1) q(1) m(1) d(1) by (simp add: decompress_reverse_def)
  moreover have full: "fx \<Longrightarrow> ?d = cp'" using d(3) out1(5) by simp
  ultimately show ?thesis using raw_flat [OF m(2) _ om1(2)] raw_flat [OF d(2) full out1(2)] by simp
qed

context part_codec
begin

lemma compress_parts:
  assumes "foldR (compress_part cmp al) (b, md) ps = Inr (b', md')" and "small_blocks al" and "whole_parts ps"
    and "raw_sink False cp ws b" and "cp < 2 ^ 28" and "fb_sink False cm vs md" and "fb_room cm md (8 * length ps + m)"
  shows "\<exists>xes cp'. map fst xes = map cb_bytes ps \<and> codes dec xes \<and> raw_sink False cp' (ws @ concat (map snd xes)) b' \<and> cp' < 2 ^ 28
       \<and> fb_sink False cm vs md' \<and> fb_written md' = fb_written md @ code_sizes xes \<and> fb_room cm md' m"
  using assms(1,3-)
proof (induction ps arbitrary: b md ws cp)
  case Nil
  then show ?case by (intro exI [of _ "[]"] exI [of _ cp]) (simp add: codes_def)
next
  case (Cons p ps)
  let ?cb = "cb_new (cdata p) (csize p)"
  have p: "0 < csize p" "csize p \<le> cap (cdata p)" "csize p < 2 ^ 32" "whole_parts ps"
    using Cons.prems(2) by (simp_all add: whole_parts_def)
  then have cb: "cb_inv ?cb" "coffset ?cb = 0" "csize ?cb = csize p" "cb_bytes ?cb = cb_bytes p" "length (cb_bytes p) = csize p"
    by (simp_all add: cb_inv_def cb_new_def cb_bytes_def)
  from Cons.prems(1) obtain o1 md1 md2 where s: "cmp al ?cb b = Inr o1"
    "fb_write (le_bytes 4 (of_nat (u32 (csize p)) :: 32 word)) md = Inr md1"
    "fb_write (le_bytes 4 (of_nat (sub32 (u32 (bsize o1)) (u32 (bsize b))) :: 32 word)) md1 = Inr md2"
    "foldR (compress_part cmp al) (o1, md2) ps = Inr (b', md')"
    by (auto simp: compress_part_def [of _ _ _ p] Let_def bindR_Inr split: if_splits)
  have "0 < csize ?cb" "csize ?cb < 2 ^ 32" using cb(3) p(1,3) by simp_all
  from coded [OF s(1) assms(2) cb(1,2) this Cons.prems(3,4), unfolded cb(4)] obtain e cp1 where
    e: "e \<noteq> []" "raw_sink False cp1 (ws @ e) o1" "cp1 < 2 ^ 28" "decodes dec e (cb_bytes p)" by blast
  have len: "bsize b = length ws" "bsize o1 = length ws + length e" "length ws + length e \<le> cp1"
    using raw_sink_buffer [OF Cons.prems(3)] raw_sink_buffer [OF e(2)] Cons.prems(3) e(2) by (auto simp: raw_sink_def)
  then have sz: "u32 (csize p) = csize p" "sub32 (u32 (bsize o1)) (u32 (bsize b)) = length e"
    using p(3) e(3) by (simp_all add: u32_def sub32_def)
  let ?h1 = "le_bytes 4 (of_nat (csize p) :: 32 word)" and ?h2 = "le_bytes 4 (of_nat (length e) :: 32 word)"
  have "fb_room cm md (length ?h1 + (length ?h2 + (8 * length ps + m)))" using Cons.prems(6) by (simp add: algebra_simps)
  from fsink.put_ok [OF Cons.prems(5) this] s(2) sz(1) have md1: "fb_sink False cm vs md1" "fb_written md1 = fb_written md @ ?h1"
    "fb_room cm md1 (length ?h2 + (8 * length ps + m))" by auto
  from fsink.put_ok [OF md1(1,3)] s(3) sz(2) have md2: "fb_sink False cm vs md2" "fb_written md2 = fb_written md1 @ ?h2"
    "fb_room cm md2 (8 * length ps + m)" by auto
  from Cons.IH [OF s(4) p(4) e(2,3) md2(1,3)] obtain xes cp' where
    r: "map fst xes = map cb_bytes ps" "codes dec xes" "raw_sink False cp' ((ws @ e) @ concat (map snd xes)) b'" "cp' < 2 ^ 28"
      "fb_sink False cm vs md'" "fb_written md' = fb_written md2 @ code_sizes xes" "fb_room cm md' m" by blast
  have "codes dec ((cb_bytes p, e) # xes)" using r(2) e(1,3,4) cb(5) p(1,3) len(3) by (auto simp: codes_def)
  then show ?case using r md1(2) md2(2) cb(5) by (intro exI [of _ "(cb_bytes p, e) # xes"] exI [of _ cp']) simp
qed

lemma compress_forward_spec:
  assumes run: "compress_forward cmp ov al gb im inp fb_new fb_new = Inr (im1, inp1, om, out)"
    and mem: "small_blocks al" "small_pool gb" and im: "md_ok im" and inp: "data_ok inp"
  shows "\<exists>mes des. map fst mes = map cb_bytes (fb_buffers im) \<and> map fst des = map cb_bytes (fb_buffers inp)
       \<and> codes dec mes \<and> codes dec des \<and> fb_bytes out = concat (map snd mes) @ concat (map snd des)
       \<and> fb_bytes om = le_bytes 4 (of_nat (length mes) :: 32 word) @ le_bytes 4 (of_nat (length des) :: 32 word) @
            code_sizes mes @ code_sizes des
       \<and> md_done im om \<and> data_done out"
proof -
  let ?ms = "fb_buffers im" and ?ds = "fb_buffers inp"
  let ?hm = "le_bytes 4 (of_nat (length ?ms) :: 32 word)" and ?hd = "le_bytes 4 (of_nat (length ?ds) :: 32 word)"
  have w: "whole_parts ?ms" "whole_parts ?ds" "length ?ms < 2 ^ 20" "length ?ds < 2 ^ 20"
    using im inp whole_parts_of [of im] whole_parts_of [of inp] by (auto simp: md_ok_def data_ok_def fb_start_def fb_buffers_def)
  then have u: "u32 (length ?ms) = length ?ms" "u32 (length ?ds) = length ?ds" "u32 (length ?ds + length ?ms) = length ?ds + length ?ms"
    by (simp_all add: u32_def)
  let ?n = "2 * 4 + (length ?ds + length ?ms) * 2 * 4"
  from run obtain n2 out1 b md1 md2 md3 s b' where
    out1: "fb_prepend_buffer al (gb 0) n2 fb_new = Inr out1" and b: "fb_buffer_ptr 0 out1 = Inr (Some b)"
    and md1: "fb_prepend_buffer al (gb 1) ?n fb_new = Inr md1"
    and md2: "fb_write ?hm md1 = Inr md2" and md3: "fb_write ?hd md2 = Inr md3"
    and ms: "foldR (compress_part cmp al) (buffer_reset_offset b, md3) ?ms = Inr s"
    and ds: "foldR (compress_part cmp al) s ?ds = Inr (b', om)" and out: "out = fb_put_back 0 b' out1"
    by (auto simp: compress_forward_def Let_def bindR_Inr u split: option.splits if_splits)
  obtain b1 md4 where s: "s = (b1, md4)" by (cases s)
  from fb_prepend_small [OF out1 mem] obtain cp where cp: "fb_sink False cp [] out1" "fb_written out1 = []" "cp < 2 ^ 28"
    by (auto simp: fb_new_def)
  have raw: "raw_sink False cp [] (buffer_reset_offset b)" using raw_sink_start [OF cp(1,2)] b by (auto intro: buffer_reset_raw)
  from fb_prepend_small [OF md1 mem] obtain cm where cm: "fb_sink False cm [] md1" "fb_written md1 = []"
    "?n \<le> cm" "cm < 2 ^ 28" by (auto simp: fb_new_def)
  let ?r2 = "8 * length ?ds + 0" let ?r1 = "8 * length ?ms + ?r2"
  have "fb_room cm md1 (length ?hm + (length ?hd + ?r1))"
    using cm(3) fb_written_length(1) [OF cm(1)] cm(2) by (simp add: fb_room_def)
  from fsink.put_ok [OF cm(1) this] md2 cm(2) have md2': "fb_sink False cm [] md2" "fb_written md2 = ?hm"
    "fb_room cm md2 (length ?hd + ?r1)" by auto
  from fsink.put_ok [OF md2'(1,3)] md3 md2'(2) have md3': "fb_sink False cm [] md3" "fb_written md3 = ?hm @ ?hd"
    "fb_room cm md3 ?r1" by auto
  from compress_parts [OF ms [unfolded s] mem(1) w(1) raw cp(3) md3'(1,3)] obtain mes cp1 where
    m: "map fst mes = map cb_bytes ?ms" "codes dec mes" "raw_sink False cp1 ([] @ concat (map snd mes)) b1" "cp1 < 2 ^ 28"
      "fb_sink False cm [] md4" "fb_written md4 = fb_written md3 @ code_sizes mes" "fb_room cm md4 ?r2" by blast
  from compress_parts [OF ds [unfolded s] mem(1) w(2) m(3,4,5,7)] obtain des cp2 where
    d: "map fst des = map cb_bytes ?ds" "codes dec des"
      "raw_sink False cp2 (([] @ concat (map snd mes)) @ concat (map snd des)) b'" "cp2 < 2 ^ 28"
      "fb_sink False cm [] om" "fb_written om = fb_written md4 @ code_sizes des" by blast
  have len: "length mes = length ?ms" "length des = length ?ds" using arg_cong [OF m(1), of length] arg_cong [OF d(1), of length] by simp_all
  have "des \<noteq> []" using len(2) parts_of_data(5) [OF inp] by auto
  then have ne: "([] @ concat (map snd mes)) @ concat (map snd des) \<noteq> []" using d(2) by (cases des) (auto simp: codes_def)
  have "fb_written om = ?hm @ ?hd @ code_sizes mes @ code_sizes des" using d(6) m(6) md3'(2) by simp
  moreover from this have "md_done im om" using le_bytes_ne [of 4 "of_nat (length ?ms) :: 32 word"] by (intro md_done_alone [OF d(5) cm(4)]) simp
  ultimately show ?thesis using m(1,2) d(1,2) len raw_data_done [OF d(3) cp(1) d(4) ne] fb_sink_bytes [OF d(5)] out
    by (intro exI [of _ mes] exI [of _ des]) simp
qed

lemma compress_undone: "chunk_filter (compress_forward cmp ov) (decompress_reverse dec)"
proof unfold_locales
  fix al gb im inp im1 inp1 om out
  assume run: "compress_forward cmp ov al gb im inp fb_new fb_new = Inr (im1, inp1, om, out)"
    and mem: "small_blocks al" "small_pool gb" and im: "md_ok im" and inp: "data_ok inp"
  from compress_forward_spec [OF run mem im inp] obtain mes des where
    f: "map fst mes = map cb_bytes (fb_buffers im)" "map fst des = map cb_bytes (fb_buffers inp)" "codes dec mes" "codes dec des"
      "fb_bytes out = concat (map snd mes) @ concat (map snd des)"
      "fb_bytes om = le_bytes 4 (of_nat (length mes) :: 32 word) @ le_bytes 4 (of_nat (length des) :: 32 word) @
            code_sizes mes @ code_sizes des" "md_done im om" "data_done out" by blast
  show "md_done im om \<and> data_done out" using f(7,8) ..
  have bytes: "concat (map fst mes) = fb_bytes im" "concat (map fst des) = fb_bytes inp"
    using f(1,2) md_parts(1) im inp by (simp_all add: md_ok_def data_ok_def fb_start_def)
  have len: "length mes < 2 ^ 20" "length des < 2 ^ 20"
    using arg_cong [OF f(1), of length] arg_cong [OF f(2), of length] im inp
    by (simp_all add: fb_buffers_def md_ok_def data_ok_def)
  have sz: "length (concat (map fst mes)) < 2 ^ 32" "length (concat (map fst des)) < 2 ^ 28"
    using bytes im inp by (simp_all add: md_ok_def data_ok_def)
  fix im' inp' tgt al' gb'
  assume a: "flat (fb_bytes om) im'" "fb_start im'" "flat (fb_bytes out) inp'" "fb_start inp'"
    "fb_target (length (fb_bytes inp)) tgt" "alloc_total al'" "small_pool gb'"
  have rest: "fb_rest im' = le_bytes 4 (of_nat (length mes) :: 32 word) @ le_bytes 4 (of_nat (length des) :: 32 word) @
      code_sizes mes @ code_sizes des" using a(1) fb_start_rest [OF a(2)] f(6) by (simp add: flat_def)
  show "\<exists>im2 inp2 om' out'. decompress_reverse dec al' gb' im' inp' fb_new tgt = Inr (im2, inp2, om', out')
       \<and> flat (fb_bytes im) om' \<and> \<not> read_only om' \<and> flat (fb_bytes inp) out' \<and> \<not> read_only out'"
    using decompress_reverse_spec [OF f(3,4) len sz rest a(2) a(3) [unfolded f(5)] a(4) _ a(6,7), of tgt] a(5) bytes by simp
qed

end

section \<open>Which compressors the filter can undo\<close>

text \<open>
  RLE drops a part that is shorter than a cell, and the parts of the metadata have any size: cells of one
  byte. Double deltas of wide types may not fit in their width and floats are refused. ZStd and BZip2 as their
  libraries document. LZ4 reports a failure as a result of zero bytes, and GZip takes output that is cut off.
\<close>

definition lossless_compressor :: "codec_libs \<Rightarrow> Compressor \<Rightarrow> nat \<Rightarrow> Datatype \<Rightarrow> bool" where
  "lossless_compressor L compressor cell_size type =
     (case compressor of
        NO_COMPRESSION \<Rightarrow> True
      | RLE \<Rightarrow> cell_size = 1
      | DOUBLE_DELTA \<Rightarrow> narrow type
      | ZSTD \<Rightarrow> zstd_ok L
      | BZIP2 \<Rightarrow> bzip_ok L
      | _ \<Rightarrow> False)"

lemma compressor_codec:
  assumes "lossless_compressor L compressor cell_size type" and "compressor \<noteq> NO_COMPRESSION"
  shows "part_codec (compress_with L compressor level cell_size type) (decompress_with L compressor cell_size type)"
proof -
  consider "compressor = RLE" "cell_size = 1" | "compressor = DOUBLE_DELTA" "narrow type"
    | "compressor = ZSTD" "zstd_ok L" | "compressor = BZIP2" "bzip_ok L"
    using assms by (auto simp: lossless_compressor_def split: Compressor.splits)
  then show ?thesis
  proof cases
    case 1
    then show ?thesis using rle_bytes.part_codec_axioms by (simp add: compress_with_def [abs_def] decompress_with_def [abs_def])
  next
    case 2
    then show ?thesis using dd_codec [of type] by (simp add: compress_with_def [abs_def] decompress_with_def [abs_def])
  next
    case 3
    then show ?thesis using zstd_codec [of L level] by (simp add: compress_with_def [abs_def] decompress_with_def [abs_def])
  next
    case 4
    then show ?thesis using bzip_codec [of L level] by (simp add: compress_with_def [abs_def] decompress_with_def [abs_def])
  qed
qed

lemma compression_filter:
  assumes "lossless_compressor L compressor cell_size type"
  shows "chunk_filter (compression_run_forward L compressor level cell_size type) (compression_run_reverse L compressor cell_size type)"
proof (cases "compressor = NO_COMPRESSION")
  case True
  then have "compression_run_forward L compressor level cell_size type = noop_run"
    "compression_run_reverse L compressor cell_size type = noop_run"
    by (simp_all add: fun_eq_iff compression_run_forward_def compression_run_reverse_def)
  then show ?thesis using noop.chunk_filter_axioms by simp
next
  case False
  then have "compression_run_forward L compressor level cell_size type =
      compress_forward (compress_with L compressor level cell_size type) (overhead L compressor cell_size)"
    "compression_run_reverse L compressor cell_size type = decompress_reverse (decompress_with L compressor cell_size type)"
    by (simp_all add: fun_eq_iff compression_run_forward_def compression_run_reverse_def)
  then show ?thesis using part_codec.compress_undone [OF compressor_codec [OF assms False]] by simp
qed

end
