(* ===== verification/Tile_Filtering.thy ===== *)
theory Tile_Filtering
  imports Pipeline_Skips Filter_Objects Byteshuffle Checksum_Filter Compression_Filter
begin

text \<open>
  The filters of a pipeline on a tile: the calls of \<open>run_forward\<close> and \<open>run_reverse\<close> of
  \<open>filter/filter_pipeline.cc\<close> go to the class of each filter, with its parameters and the type and the
  cell size of the tile. With the contracts of the single filters, the pipeline restores every tile.
\<close>

section \<open>The filters of a pipeline\<close>

text \<open>What the filters use besides the tile: the libraries and the configuration of the read.\<close>

record filter_env =
  env_libs :: codec_libs
  env_md5 :: digest
  env_sha256 :: digest
  env_skip_checksum :: "bool result"

definition compressors :: "Compressor list" where
  "compressors = [NO_COMPRESSION, GZIP, ZSTD, LZ4, RLE, BZIP2, DOUBLE_DELTA]"

definition compressor_of :: "byte \<Rightarrow> Compressor option" where
  "compressor_of c = find (\<lambda>x. compressor_code x = c) compressors"

text \<open>
  The two functions that a filter runs; nothing for a compression filter whose compressor was read as a
  byte that is none of the enumeration, and for the filters whose runs are not modelled.
\<close>

definition filter_runs :: "filter_env \<Rightarrow> Datatype \<Rightarrow> nat \<Rightarrow> filter_obj \<Rightarrow> runs option" where
  "filter_runs e type csz f =
     (case f of
        NoopFilter \<Rightarrow> Some (noop_run, noop_run)
      | CompressionFilter ft c level \<Rightarrow>
          map_option (\<lambda>compressor. (compression_run_forward (env_libs e) compressor (sint level) csz type,
                              compression_run_reverse (env_libs e) compressor csz type)) (compressor_of c)
      | ByteshuffleFilter \<Rightarrow> Some (byteshuffle_run_forward type, byteshuffle_run_reverse type)
      | PositiveDeltaFilter window \<Rightarrow> Some (pd_run_forward (unat window) type, pd_run_reverse type)
      | ChecksumMD5Filter \<Rightarrow> Some (md5_run_forward (env_md5 e), md5_run_reverse (env_md5 e) (env_skip_checksum e))
      | ChecksumSHA256Filter \<Rightarrow> Some (sha256_run_forward (env_sha256 e), sha256_run_reverse (env_sha256 e) (env_skip_checksum e))
      | _ \<Rightarrow> None)"

definition tile_runs :: "filter_env \<Rightarrow> tile \<Rightarrow> filter_obj list \<Rightarrow> runs list option" where
  "tile_runs e t fs = those (map (filter_runs e (tile_type t) (cell_size t)) fs)"

text \<open>\<open>run_reverse\<close> looks for a compression filter.\<close>

definition using_compression :: "filter_obj list \<Rightarrow> bool" where
  "using_compression fs = list_ex (\<lambda>f. case f of CompressionFilter ft c level \<Rightarrow> True | _ \<Rightarrow> False) fs"

section \<open>Which filters restore the data\<close>

definition lossless :: "filter_env \<Rightarrow> Datatype \<Rightarrow> nat \<Rightarrow> filter_obj \<Rightarrow> bool" where
  "lossless e type csz f =
     (case f of
        CompressionFilter ft c level \<Rightarrow>
          (case compressor_of c of None \<Rightarrow> False | Some compressor \<Rightarrow> lossless_compressor (env_libs e) compressor csz type)
      | ChecksumMD5Filter \<Rightarrow> digest_ok 16 (env_md5 e)
      | ChecksumSHA256Filter \<Rightarrow> digest_ok 32 (env_sha256 e)
      | _ \<Rightarrow> True)"

definition env_ok :: "filter_env \<Rightarrow> bool" where
  "env_ok e = (\<not> isl (env_skip_checksum e))"

lemma filter_runs_contract:
  assumes "filter_runs e type csz f = Some r" and "lossless e type csz f" and "env_ok e"
  shows "chunk_filter (fst r) (snd r)"
proof -
  obtain skip where skip: "env_skip_checksum e = Inr skip" using assms(3) by (cases "env_skip_checksum e") (auto simp: env_ok_def)
  show ?thesis
  proof (cases f)
    case NoopFilter
    then show ?thesis using assms(1) noop.chunk_filter_axioms by (auto simp: filter_runs_def)
  next
    case (CompressionFilter ft c level)
    then show ?thesis using assms(1,2) compression_filter
      by (auto simp: filter_runs_def lossless_def split: option.splits)
  next
    case ByteshuffleFilter
    then show ?thesis using assms(1) byteshuffle_filter by (auto simp: filter_runs_def)
  next
    case (PositiveDeltaFilter w)
    then show ?thesis using assms(1) pdelta.chunk_filter_axioms by (auto simp: filter_runs_def)
  next
    case ChecksumMD5Filter
    then show ?thesis using assms(1,2) skip checksum_filter [of 16 "env_md5 e" "''md5''" skip]
      by (auto simp: filter_runs_def lossless_def md5_run_forward_def md5_run_reverse_def)
  next
    case ChecksumSHA256Filter
    then show ?thesis using assms(1,2) skip checksum_filter [of 32 "env_sha256 e" "''sha256''" skip]
      by (auto simp: filter_runs_def lossless_def sha256_run_forward_def sha256_run_reverse_def)
  qed (use assms(1) in \<open>simp_all add: filter_runs_def\<close>)
qed

lemma those_all:
  "those (map g xs) = Some ys \<Longrightarrow> \<forall>x \<in> set xs. \<forall>y. g x = Some y \<longrightarrow> P y \<Longrightarrow> list_all P ys \<and> length ys = length xs"
  by (induction xs arbitrary: ys) (auto split: option.splits)

lemma tile_runs_filters:
  assumes "tile_runs e t fs = Some rs" and "list_all (lossless e (tile_type t) (cell_size t)) fs" and "env_ok e"
  shows "all_filters rs" and "length rs = length fs"
proof -
  have "\<forall>f \<in> set fs. \<forall>r. filter_runs e (tile_type t) (cell_size t) f = Some r \<longrightarrow> chunk_filter (fst r) (snd r)"
    using filter_runs_contract assms(2,3) by (auto simp only: list_all_iff)
  from those_all [OF assms(1) [unfolded tile_runs_def] this] show "all_filters rs" and "length rs = length fs" by simp_all
qed

section \<open>A tile to evaluate\<close>

text \<open>Four two-byte cells in two chunks, and what the byte shuffle makes of each chunk.\<close>

definition sample_libs :: codec_libs where
  "sample_libs = \<lparr>deflateInit = \<lambda>_. False, deflate = \<lambda>_ _ _. (Z_OTHER, 0, []), inflateInit = False, inflate = \<lambda>_ _. (Z_OTHER, []),
     ZSTD_createCCtx = True, ZSTD_compressCCtx = \<lambda>_ bs n. if length bs < n then Inr (0 # bs) else Inl ''full'',
     ZSTD_createDCtx = True, ZSTD_decompressDCtx = \<lambda>bs n. if length bs \<le> Suc n then Inr (tl bs) else Inl ''full'',
     ZSTD_compressBound = \<lambda>n. Suc n, LZ4_compress_default = \<lambda>_ _. (0, []), LZ4_decompress_safe = \<lambda>_ _. (0, []),
     LZ4_compressBound = \<lambda>n. n, BZ2_bzBuffToBuffCompress = \<lambda>_ _ _. (BZ_OTHER, []),
     BZ2_bzBuffToBuffDecompress = \<lambda>_ _. (BZ_OTHER, [])\<rparr>"

definition sample_env :: filter_env where
  "sample_env = \<lparr>env_libs = sample_libs, env_md5 = \<lambda>bs. replicate 16 (fold (+) bs 0),
     env_sha256 = \<lambda>bs. replicate 32 (fold (+) bs 0), env_skip_checksum = Inr False\<rparr>"

definition sample_chunks :: chunked_buffer where
  "sample_chunks = \<lparr>addressing = CONTIGUOUS, cchunks = [None, None], cbase = Some [1, 0, 2, 0, 3, 0, 4, 0], chunk_size = 4,
     last_chunk_size = 4, var_chunk_sizes = [], ccapacity = 8, cbsize = 8\<rparr>"

definition sample_tile :: tile where
  "sample_tile = \<lparr>tchunked = Some sample_chunks, toffset = 8, cell_size = 2, dim_num = 0, tformat_version = 5,
     owns_chunked_buffer = True, pre_filtered_size = 0, tile_type = INT16, filtered_buffer = buffer_new\<rparr>"

definition small_alloc :: allocator where
  "small_alloc n = (if n < 200 then Some [] else None)"

abbreviation sample_pool :: "nat \<Rightarrow> nat \<Rightarrow> nat \<Rightarrow> buffer" where
  "sample_pool \<equiv> \<lambda>_ _ _. buffer_new"

abbreviation sample_runs :: "runs list" where
  "sample_runs \<equiv> [(byteshuffle_run_forward INT16, byteshuffle_run_reverse INT16)]"

definition shuffled_io :: "byte list \<Rightarrow> filter_buffer \<times> filter_buffer" where
  "shuffled_io d =
     (fb_new\<lparr>fbuffers := [bov_new \<lparr>alloced_size = 8, bdata = Some [1, 0, 0, 0, 4, 0, 0, 0], boffset = 0, owns_data = True, bsize = 8\<rparr>],
             current_buffer := None, foffset := 8\<rparr>,
      fb_new\<lparr>fbuffers := [bov_new \<lparr>alloced_size = 4, bdata = Some d, boffset = 4, owns_data = True, bsize = 4\<rparr>]\<rparr>)"

lemma sample_values:
  "shuffle_generic 2 [1, 0, 2, 0] [0, 0, 0, 0] = [1, 2, 0, 0]" "shuffle_generic 2 [3, 0, 4, 0] [0, 0, 0, 0] = [3, 4, 0, 0]"
  "replicate 4 (0 :: byte) = [0, 0, 0, 0]" "replicate 8 (0 :: byte) = [0, 0, 0, 0, 0, 0, 0, 0]"
  "le_bytes 4 (4 :: 32 word) = [4, 0, 0, 0]" "le_bytes 4 (1 :: 32 word) = [1, 0, 0, 0]"
  by code_simp+

lemmas chunk_eval = checksum_eval filter_chunk_forward_def chk_internal_buffer_def chk_internal_buffer_size_def get_chunk_size_def
  leading_capacity_def get_chunk_capacity_def fixed_chunk_sizes_def fb_init_def stage_forward_def fb_clear_def stage_input_def
  fb_set_read_only_def swap_into_def fb_swap_def swapped_buffer_def byteshuffle_run_forward_def code_forward_def code_part_def
  shuffle_part_def transform_part_def advance_output_def fb_buffer_ptr_def fb_put_back_def buffer_advance_size_def
  buffer_advance_offset_def small_alloc_def

lemma sample_chunk:
  "filter_chunk_forward sample_runs small_alloc (\<lambda>_ _. buffer_new) sample_chunks 0 = Inr (shuffled_io [1, 2, 0, 0])"
  "filter_chunk_forward sample_runs small_alloc (\<lambda>_ _. buffer_new) sample_chunks (Suc 0) = Inr (shuffled_io [3, 4, 0, 0])"
  by (simp_all add: chunk_eval sample_chunks_def sample_values shuffled_io_def)

lemma sample_filtered: "\<exists>t1. pipeline_run_forward sample_runs small_alloc sample_pool sample_tile = Inr t1"
proof -
  have n: "populated_nchunks sample_chunks = Inr 2" by (simp add: populated_nchunks_def chk_nchunks_def sample_chunks_def)
  have u: "[0..<2] = [0, 1 :: nat]" by (simp add: upt_rec)
  have sz: "chk_internal_buffer_size i sample_chunks = Inr 4" if "i < 2" for i
    using that by (cases i) (simp_all add: chunk_eval sample_chunks_def)
  have m: "mapR (\<lambda>i. filter_chunk_forward sample_runs small_alloc (\<lambda>_ _. buffer_new) sample_chunks i) [0, 1]
    = Inr [shuffled_io [1, 2, 0, 0], shuffled_io [3, 4, 0, 0]]" by (simp add: sample_chunk)
  have "\<exists>b. filter_chunks_forward sample_runs small_alloc sample_pool sample_chunks buffer_new = Inr b"
    unfolding filter_chunks_forward_def n bindR_simps u m
    by (simp add: checksum_eval shuffled_io_def chunk_space_def small_alloc_def buffer_write_def ensure_alloced_size_def write_chunk_def
        put32_def fb_copy_to_def sz buffer_advance_size_def buffer_advance_offset_def)
  then show ?thesis by (auto simp: pipeline_run_forward_def assert_unfiltered_def tile_filtered_def with_chunked_def sample_tile_def buffer_new_def buffer_wrap_def)
qed

lemma sample_ok:
  "tile_runs sample_env sample_tile [ByteshuffleFilter] = Some sample_runs"
  "list_all (lossless sample_env (tile_type sample_tile) (cell_size sample_tile)) [ByteshuffleFilter]" "env_ok sample_env"
  "length [ByteshuffleFilter] \<le> 14" "tile_to_filter sample_tile" "small_blocks small_alloc" "pools_ok sample_pool"
  "alloc_total (\<lambda>_. Some [])"
  by (simp_all add: tile_runs_def filter_runs_def sample_tile_def lossless_def env_ok_def sample_env_def tile_to_filter_def
      chunk_source_def sample_chunks_def chk_inv_def chunk_caps_def fixed_chunk_sizes_def chk_filled_def fresh_buffer_def buffer_new_def
      buffer_wrap_def buffer_inv_def small_blocks_def small_alloc_def pools_ok_def small_pool_def pool_buffer_def alloc_total_def)

lemma sample_bytes: "tile_bytes sample_tile = [1, 0, 2, 0, 3, 0, 4, 0]" "cell_size sample_tile = 2"
  by (simp_all add: tile_bytes_def sample_tile_def sample_chunks_def chk_bytes_def chk_memory_def)

section \<open>Tiles are restored\<close>

text \<open>
  C1: Filtering a tile through a pipeline and unfiltering the result restores the bytes of the tile, whatever
  lossless filters the pipeline has, in any order: no-op, byte shuffle, positive delta, checksums, and
  compression without a compressor, by RLE of one-byte cells, by double deltas of types of at most 32
  bits, or by ZStd and BZip2 as documented. Filtering and unfiltering may use different memory. There are at most 14
  filters, the blocks of memory are below \<open>2 ^ 28\<close> bytes, and unfiltering does not run out of memory.
\<close>

theorem tile_filter_round_trip:
  assumes "tile_runs e t fs = Some rs" and "list_all (lossless e (tile_type t) (cell_size t)) fs" and "env_ok e"
    and "length fs \<le> 14" and "tile_to_filter t" and "small_blocks al" and "pools_ok gbs" and "alloc_total al'" and "pools_ok gbs'"
    and "pipeline_run_forward rs al gbs t = Inr t1"
  shows "\<exists>t2. pipeline_run_reverse rs al' gbs' (using_compression fs) None t1 = Inr t2
           \<and> tile_bytes t2 = tile_bytes t \<and> tile_filtered t2 = Inr False"
  using pipeline_restores [OF assms(10,5) tile_runs_filters(1) [OF assms(1-3)] _ assms(6-9)]
    tile_runs_filters(2) [OF assms(1-3)] assms(4) by simp

theorem tile_filter_round_trip_witness:
  "\<exists>t1 t2. pipeline_run_forward sample_runs small_alloc sample_pool sample_tile = Inr t1
     \<and> pipeline_run_reverse sample_runs (\<lambda>_. Some []) sample_pool False None t1 = Inr t2 \<and> tile_bytes t2 = [1, 0, 2, 0, 3, 0, 4, 0]"
proof -
  obtain t1 where t1: "pipeline_run_forward sample_runs small_alloc sample_pool sample_tile = Inr t1" using sample_filtered by blast
  from tile_filter_round_trip [OF sample_ok sample_ok(7) t1] show ?thesis using t1 by (auto simp: sample_bytes using_compression_def)
qed

text \<open>
  C2: When only the cells of some ranges are asked for, every cell that was asked for can be read and has its bytes,
  and exactly the chunks without such a cell are skipped, which means that they have no memory in the tile; without
  filters no chunk is skipped. The ranges are in order and do not overlap, and the chunks hold whole cells; the filters are
  lossless, at most 14 and with blocks of memory below \<open>2 ^ 28\<close> bytes, and unfiltering does not run out of memory.
\<close>

theorem tile_filter_ranges:
  assumes "tile_runs e t fs = Some rs" and "list_all (lossless e (tile_type t) (cell_size t)) fs" and "env_ok e"
    and "length fs \<le> 14" and "tile_to_filter t" and "small_blocks al" and "pools_ok gbs" and "alloc_total al'" and "pools_ok gbs'"
    and "pipeline_run_forward rs al gbs t = Inr t1"
    and "whole_cells (cell_size t) (map length (tile_chunks t))" and "ranges_ok ranges"
  shows "\<exists>t2. pipeline_run_reverse rs al' gbs' (using_compression fs) (Some ranges) t1 = Inr t2 \<and>
           (\<forall>c. meets c (Suc c) ranges \<longrightarrow> Suc c * cell_size t \<le> length (tile_bytes t) \<longrightarrow>
              tile_read_at (cell_size t) (c * cell_size t) t2 = Inr (slice (tile_bytes t) (c * cell_size t) (cell_size t))) \<and>
           (\<forall>i < length (tile_chunks t). with_chunked (chk_internal_buffer i) t2 = Inr None \<longleftrightarrow> rs \<noteq> [] \<and>
              \<not> meets (cell_start (cell_size t) (map length (tile_chunks t)) i)
                      (cell_start (cell_size t) (map length (tile_chunks t)) (Suc i)) ranges)"
  using pipeline_restores_ranges [OF assms(10,5) tile_runs_filters(1) [OF assms(1-3)] _ assms(6-9,11,12)]
    tile_runs_filters(2) [OF assms(1-3)] assms(4) by simp

theorem tile_filter_ranges_witness:
  "\<exists>t1 t2. pipeline_run_forward sample_runs small_alloc sample_pool sample_tile = Inr t1
     \<and> pipeline_run_reverse sample_runs (\<lambda>_. Some []) sample_pool False (Some [(3, 4)]) t1 = Inr t2 \<and> tile_read_at 2 6 t2 = Inr [4, 0]
     \<and> with_chunked (chk_internal_buffer 0) t2 = Inr None"
proof -
  obtain t1 where t1: "pipeline_run_forward sample_runs small_alloc sample_pool sample_tile = Inr t1" using sample_filtered by blast
  have ch: "tile_chunks sample_tile = [[1, 0, 2, 0], [3, 0, 4, 0]]"
    by (simp add: tile_chunks_def sample_tile_def sample_chunks_def chunk_data_def chunk_caps_def
        fixed_chunk_sizes_def chunk_fill_def chk_bytes_def chk_memory_def slice_def)
  then have "whole_cells (cell_size sample_tile) (map length (tile_chunks sample_tile))"
    by (simp add: whole_cells_def sample_bytes)
  from tile_filter_ranges [OF sample_ok sample_ok(7) t1 this, of "[(3, 4)]"] obtain t2 where
    t2: "pipeline_run_reverse sample_runs (\<lambda>_. Some []) sample_pool False (Some [(3, 4)]) t1 = Inr t2"
      "\<forall>c. meets c (Suc c) [(3, 4)] \<longrightarrow> Suc c * 2 \<le> 8 \<longrightarrow> tile_read_at 2 (c * 2) t2 = Inr (slice [1, 0, 2, 0, 3, 0, 4, 0] (c * 2) 2)"
      "\<forall>i < length (tile_chunks sample_tile). with_chunked (chk_internal_buffer i) t2 = Inr None \<longleftrightarrow>
         \<not> meets (cell_start 2 (map length (tile_chunks sample_tile)) i) (cell_start 2 (map length (tile_chunks sample_tile)) (Suc i)) [(3, 4)]"
    by (auto simp: sample_bytes using_compression_def ranges_ok_def)
  then have "tile_read_at 2 (3 * 2) t2 = Inr (slice [1, 0, 2, 0, 3, 0, 4, 0] (3 * 2) 2)"
    using t2(2) [rule_format, of 3] by (simp add: meets_def)
  moreover have "with_chunked (chk_internal_buffer 0) t2 = Inr None"
    using t2(3) [rule_format, of 0] by (simp add: meets_def cell_start_def ch)
  ultimately show ?thesis using t1 t2(1) by (auto simp: slice_def)
qed

text \<open>
  C3: The same for cells of variable size, whose offsets are in a tile of their own: every byte of a
  cell that was asked for can be read. The filters and the memory are as before, the ranges are in order and do not
  overlap, and the offsets start with 0, ascend and are below \<open>2 ^ 63\<close>.
\<close>

theorem tile_filter_var_ranges:
  assumes "tile_runs e t fs = Some rs" and "list_all (lossless e (tile_type t) (cell_size t)) fs" and "env_ok e"
    and "length fs \<le> 14" and "tile_to_filter t" and "small_blocks al" and "pools_ok gbs" and "alloc_total al'" and "pools_ok gbs'"
    and "pipeline_run_forward rs al gbs t = Inr t1"
    and "offsets_tile d toff" and "offsets_ok d" and "ranges_ok ranges"
  shows "\<exists>t2. pipeline_run_reverse_var rs al' gbs' (using_compression fs) (Some ranges) toff t1 = Inr t2 \<and>
           (\<forall>k b. meets k (Suc k) ranges \<longrightarrow> in_cell d k b \<longrightarrow> b < length (tile_bytes t) \<longrightarrow>
              tile_read_at 1 b t2 = Inr [tile_bytes t ! b])"
  using pipeline_restores_var_ranges [OF assms(10,5) tile_runs_filters(1) [OF assms(1-3)] _ assms(6-9,11-13)]
    tile_runs_filters(2) [OF assms(1-3)] assms(4) by simp

definition sample_offsets :: tile where
  "sample_offsets = \<lparr>tchunked = Some \<lparr>addressing = CONTIGUOUS, cchunks = [None], cbase = Some (le64 0 @ le64 6), chunk_size = 16,
       last_chunk_size = 16, var_chunk_sizes = [], ccapacity = 16, cbsize = 16\<rparr>, toffset = 16, cell_size = 8, dim_num = 0,
     tformat_version = 5, owns_chunked_buffer = True, pre_filtered_size = 0, tile_type = UINT64, filtered_buffer = buffer_new\<rparr>"

theorem tile_filter_var_ranges_witness:
  "\<exists>t1 t2. pipeline_run_forward sample_runs small_alloc sample_pool sample_tile = Inr t1
     \<and> pipeline_run_reverse_var sample_runs (\<lambda>_. Some []) sample_pool False (Some [(1, 2)]) sample_offsets t1 = Inr t2
     \<and> tile_read_at 1 6 t2 = Inr [4]"
proof -
  obtain t1 where t1: "pipeline_run_forward sample_runs small_alloc sample_pool sample_tile = Inr t1" using sample_filtered by blast
  have off: "offsets_tile [0, 6] sample_offsets" "offsets_ok [0, 6]" "ranges_ok [(1, 2)]"
    by (simp_all add: offsets_tile_def sample_offsets_def chk_inv_def chunk_caps_def fixed_chunk_sizes_def chk_filled_def tile_bytes_def
        chk_bytes_def chk_memory_def buffer_new_def buffer_wrap_def offsets_ok_def ranges_ok_def)
  from tile_filter_var_ranges [OF sample_ok sample_ok(7) t1 off] obtain t2 where
    t2: "pipeline_run_reverse_var sample_runs (\<lambda>_. Some []) sample_pool False (Some [(1, 2)]) sample_offsets t1 = Inr t2"
      "\<forall>k b. meets k (Suc k) [(1, 2)] \<longrightarrow> in_cell [0, 6] k b \<longrightarrow> b < 8 \<longrightarrow> tile_read_at 1 b t2 = Inr [[1, 0, 2, 0, 3, 0, 4, 0] ! b]"
    by (auto simp: sample_bytes using_compression_def)
  have "meets 1 (Suc 1) [(1, 2)]" "in_cell [0, 6] 1 6" by (simp_all add: meets_def in_cell_def)
  then have "tile_read_at 1 6 t2 = Inr [[1, 0, 2, 0, 3, 0, 4, 0] ! 6]" using t2(2) [rule_format, of 1 6] by simp
  then show ?thesis using t1 t2(1) by auto
qed

end
