(* ===== verification/Lru_Cache.thy ===== *)
theory Lru_Cache
  imports Tdb_Buffer Tdb_Uri "HOL-Library.Multiset"
begin

text \<open>
  The least-recently-used cache of \<open>cache/lru_cache.cc\<close>. A node of the linked list
  \<open>item_ll_\<close> is a pair of its identity and its item; \<open>item_map_\<close> holds node identities, so a
  stale iterator is an identity that the list no longer has, and using it is undefined
  behaviour. The items handed to the eviction callback (or freed, when there is none) are
  recorded in \<open>released\<close>, in order.
\<close>

section \<open>State and operations\<close>

record lru_item =
  item_key :: string
  item_object :: "byte list option"
  item_size :: nat

record lru_cache =
  item_ll :: "(nat \<times> lru_item) list"
  item_map :: "string \<Rightarrow> nat option"
  max_size :: nat
  cache_size :: nat
  next_node :: nat
  released :: "lru_item list"

definition lru_new :: "nat \<Rightarrow> lru_cache" where
  "lru_new mx = \<lparr>item_ll = [], item_map = Map.empty, max_size = mx, cache_size = 0,
                 next_node = 0, released = []\<rparr>"

definition lru_clear :: "lru_cache \<Rightarrow> lru_cache" where
  "lru_clear c = c\<lparr>released := released c @ map snd (item_ll c), item_ll := []\<rparr>"

definition lru_evict :: "lru_cache \<Rightarrow> lru_cache result" where
  "lru_evict c =
     (case item_ll c of
        [] \<Rightarrow> Inl AssertFail
      | (n, item) # rest \<Rightarrow>
          Inr (c\<lparr>released := released c @ [item],
                 item_map := (item_map c)(item_key item := None),
                 cache_size := sub64 (cache_size c) (item_size item),
                 item_ll := rest\<rparr>))"

function lru_evict_loop :: "nat \<Rightarrow> lru_cache \<Rightarrow> lru_cache result" where
  "lru_evict_loop sz c =
     (if max_size c < add64 (cache_size c) sz then bindR (lru_evict c) (lru_evict_loop sz)
      else Inr c)"
  by pat_completeness auto
termination
  by (relation "measure (\<lambda>(_, c). length (item_ll c))")
     (auto simp: lru_evict_def split: list.splits)

declare lru_evict_loop.simps [simp del]

text \<open>\<open>splice\<close> of one node to the end or to the beginning of the list.\<close>

definition splice_end :: "nat \<Rightarrow> (nat \<times> lru_item) list \<Rightarrow> (nat \<times> lru_item) list" where
  "splice_end n ll = filter (\<lambda>p. fst p \<noteq> n) ll @ filter (\<lambda>p. fst p = n) ll"

definition splice_begin :: "nat \<Rightarrow> (nat \<times> lru_item) list \<Rightarrow> (nat \<times> lru_item) list" where
  "splice_begin n ll = filter (\<lambda>p. fst p = n) ll @ filter (\<lambda>p. fst p \<noteq> n) ll"

definition lru_replace ::
  "nat \<Rightarrow> byte list option \<Rightarrow> nat \<Rightarrow> lru_cache \<Rightarrow> lru_cache result" where
  "lru_replace n object sz c =
     (case map_of (item_ll c) n of
        None \<Rightarrow> Inl UB
      | Some item \<Rightarrow>
          Inr (c\<lparr>released := released c @ [item],
                 item_ll := splice_end n
                   (map (\<lambda>(i, it). (i, if i = n then it\<lparr>item_object := object, item_size := sz\<rparr>
                                        else it)) (item_ll c))\<rparr>))"

definition lru_append :: "string \<Rightarrow> byte list option \<Rightarrow> nat \<Rightarrow> lru_cache \<Rightarrow> lru_cache" where
  "lru_append key object sz c =
     c\<lparr>item_ll := item_ll c @
          [(next_node c, \<lparr>item_key = key, item_object = object, item_size = sz\<rparr>)],
       item_map := (item_map c)(key \<mapsto> next_node c),
       next_node := Suc (next_node c)\<rparr>"

definition lru_insert ::
  "string \<Rightarrow> byte list option \<Rightarrow> nat \<Rightarrow> bool \<Rightarrow> lru_cache \<Rightarrow> lru_cache result" where
  "lru_insert key object sz ovw c =
     (if max_size c < sz then Inr c
      else if object = None
      then Inl (Err SC_LRUCache ''Cannot insert into cache; Object cannot be null'')
      else let exists = (item_map c key \<noteq> None) in
        if exists \<and> \<not> ovw
        then Inr (c\<lparr>released := released c @
                   [\<lparr>item_key = key, item_object = object, item_size = sz\<rparr>]\<rparr>)
        else bindR (lru_evict_loop sz c) (\<lambda>c1.
             bindR (if exists then
                      (case item_map c1 key of
                         None \<Rightarrow> Inl UB
                       | Some n \<Rightarrow> lru_replace n object sz c1)
                    else Inr (lru_append key object sz c1)) (\<lambda>c2.
               Inr (c2\<lparr>cache_size := add64 (cache_size c2) sz\<rparr>))))"

definition lru_invalidate :: "string \<Rightarrow> lru_cache \<Rightarrow> (bool \<times> lru_cache) result" where
  "lru_invalidate key c =
     (case item_map c key of
        None \<Rightarrow> Inr (False, c)
      | Some n \<Rightarrow>
          if map_of (item_ll c) n = None then Inl UB
          else bindR (lru_evict (c\<lparr>item_ll := splice_begin n (item_ll c)\<rparr>)) (\<lambda>c'.
                 Inr (True, c')))"

text \<open>The whole-object \<open>read\<close> drops the status of \<open>Buffer::write\<close>.\<close>

definition lru_read ::
  "allocator \<Rightarrow> string \<Rightarrow> buffer \<Rightarrow> lru_cache \<Rightarrow> (bool \<times> buffer \<times> lru_cache) result" where
  "lru_read al key b c =
     (case item_map c key of
        None \<Rightarrow> Inr (False, b, c)
      | Some n \<Rightarrow>
          (case map_of (item_ll c) n of
             None \<Rightarrow> Inl UB
           | Some item \<Rightarrow>
               bindR (mem_read (item_object item) 0 (item_size item)) (\<lambda>bs.
               bindR (case buffer_write al bs b of Inl (Err _ _) \<Rightarrow> Inr b | r \<Rightarrow> r) (\<lambda>b'.
                 Inr (True, b', c\<lparr>item_ll := splice_end n (item_ll c)\<rparr>)))))"

definition lru_read_range ::
  "allocator \<Rightarrow> string \<Rightarrow> nat \<Rightarrow> nat \<Rightarrow> buffer \<Rightarrow> lru_cache
     \<Rightarrow> (bool \<times> buffer \<times> lru_cache) result" where
  "lru_read_range al key off nbytes b c =
     (case item_map c key of
        None \<Rightarrow> Inr (False, b, c)
      | Some n \<Rightarrow>
          (case map_of (item_ll c) n of
             None \<Rightarrow> Inl UB
           | Some item \<Rightarrow>
               if item_size item < add64 off nbytes
               then Inl (Err SC_LRUCache ''Failed to read item; Byte range out of bounds'')
               else bindR (mem_read (item_object item) off nbytes) (\<lambda>bs.
                    bindR (buffer_write al bs b) (\<lambda>b'.
                      Inr (True, b', c\<lparr>item_ll := splice_end n (item_ll c)\<rparr>)))))"

section \<open>The tile cache of the storage manager\<close>

definition tile_key :: "string \<Rightarrow> nat \<Rightarrow> string" where
  "tile_key uri off = uri @ ''+'' @ nat_str off"

definition read_from_cache ::
  "allocator \<Rightarrow> string \<Rightarrow> nat \<Rightarrow> buffer \<Rightarrow> nat \<Rightarrow> lru_cache \<Rightarrow> (bool \<times> buffer \<times> lru_cache) result" where
  "read_from_cache al uri off b nbytes c =
     bindR (lru_read_range al (tile_key uri off) 0 nbytes b c) (\<lambda>(in_cache, b', c').
       Inr (in_cache, buffer_reset_offset (buffer_set_size nbytes b'), c'))"

definition write_to_cache ::
  "allocator \<Rightarrow> string \<Rightarrow> nat \<Rightarrow> buffer \<Rightarrow> lru_cache \<Rightarrow> lru_cache result" where
  "write_to_cache al uri off b c =
     (let object_size = bsize b; filename = last_path_part uri in
      if max_size c < object_size then Inr c
      else if filename = ''__fragment_metadata.tdb'' \<or> filename = ''__array_schema.tdb'' then Inr c
      else case malloc al object_size of
        None \<Rightarrow> Inl (Err SC_StorageManager
                  ''Cannot write to cache; Object memory allocation failed'')
      | Some object \<Rightarrow>
          bindR (mem_read (bdata b) 0 object_size) (\<lambda>bs.
            lru_insert (tile_key uri off) (Some bs) object_size False c))"

section \<open>Invariant and abstraction\<close>

definition items_size :: "(nat \<times> lru_item) list \<Rightarrow> nat" where
  "items_size ll = sum_list (map (item_size \<circ> snd) ll)"

definition item_ok :: "lru_item \<Rightarrow> bool" where
  "item_ok it \<longleftrightarrow> item_object it \<noteq> None \<and> item_size it \<le> cap (item_object it)"

definition lru_inv :: "lru_cache \<Rightarrow> bool" where
  "lru_inv c \<longleftrightarrow>
     distinct (map fst (item_ll c)) \<and> (\<forall>p \<in> set (item_ll c). fst p < next_node c)
     \<and> distinct (map (item_key \<circ> snd) (item_ll c))
     \<and> item_map c = map_of (map (\<lambda>(n, it). (item_key it, n)) (item_ll c))
     \<and> cache_size c = items_size (item_ll c)
     \<and> cache_size c \<le> max_size c \<and> max_size c < 2 ^ 63
     \<and> (\<forall>p \<in> set (item_ll c). item_ok (snd p))"

text \<open>What a client sees: the cached objects from the least to the most recently used.\<close>

type_synonym cache_view = "(string \<times> byte list) list"

definition item_view :: "lru_item \<Rightarrow> string \<times> byte list" where
  "item_view it = (item_key it, take (item_size it) (region (item_object it)))"

definition lru_view :: "lru_cache \<Rightarrow> cache_view" where
  "lru_view c = map (item_view \<circ> snd) (item_ll c)"

definition view_size :: "cache_view \<Rightarrow> nat" where
  "view_size xs = sum_list (map (length \<circ> snd) xs)"

fun view_evict :: "nat \<Rightarrow> nat \<Rightarrow> cache_view \<Rightarrow> cache_view" where
  "view_evict mx n [] = []"
| "view_evict mx n (x # xs) =
     (if mx < view_size (x # xs) + n then view_evict mx n xs else x # xs)"

definition view_insert :: "nat \<Rightarrow> string \<Rightarrow> byte list \<Rightarrow> cache_view \<Rightarrow> cache_view" where
  "view_insert mx k v xs =
     (if mx < length v \<or> k \<in> fst ` set xs then xs else view_evict mx (length v) xs @ [(k, v)])"

definition view_remove :: "string \<Rightarrow> cache_view \<Rightarrow> cache_view" where
  "view_remove k xs = filter (\<lambda>p. fst p \<noteq> k) xs"

definition view_touch :: "string \<Rightarrow> cache_view \<Rightarrow> cache_view" where
  "view_touch k xs = view_remove k xs @ filter (\<lambda>p. fst p = k) xs"

section \<open>Lemmas\<close>

lemma map_of_keys_id:
  assumes "distinct (map (item_key \<circ> snd) ll)" and "(n, it) \<in> set ll"
  shows "map_of (map (\<lambda>(n, it). (item_key it, n)) ll) (item_key it) = Some n"
proof (rule map_of_is_SomeI)
  show "distinct (map fst (map (\<lambda>(n, it). (item_key it, n)) ll))"
    using assms(1) by (simp add: comp_def case_prod_unfold)
qed (use assms(2) in force)

lemma lru_lookup:
  assumes "lru_inv c" and "item_map c key = Some n"
  obtains it where "map_of (item_ll c) n = Some it" and "(n, it) \<in> set (item_ll c)"
    and "item_key it = key" and "item_ok it"
proof -
  from assms have "map_of (map (\<lambda>(n, it). (item_key it, n)) (item_ll c)) key = Some n"
    by (simp add: lru_inv_def)
  from map_of_SomeD [OF this] obtain it where it: "(n, it) \<in> set (item_ll c)" "item_key it = key"
    by auto
  moreover have "map_of (item_ll c) n = Some it"
    using assms(1) it(1) by (simp add: lru_inv_def)
  moreover have "item_ok it" using assms(1) it(1) by (force simp: lru_inv_def)
  ultimately show thesis using that by blast
qed

lemma view_keys: "fst ` set (lru_view c) = (item_key \<circ> snd) ` set (item_ll c)"
  by (force simp: lru_view_def item_view_def)

lemma item_map_None:
  "lru_inv c \<Longrightarrow> item_map c key = None \<longleftrightarrow> key \<notin> fst ` set (lru_view c)"
  by (force simp: lru_inv_def map_of_eq_None_iff view_keys image_iff)

lemma items_size_simps [simp]:
  "items_size [] = 0" "items_size (p # ll) = item_size (snd p) + items_size ll"
  "items_size (xs @ ys) = items_size xs + items_size ys"
  by (simp_all add: items_size_def)

lemma items_size_view:
  "\<forall>p \<in> set (item_ll c). item_ok (snd p) \<Longrightarrow> view_size (lru_view c) = items_size (item_ll c)"
proof -
  assume ok: "\<forall>p \<in> set (item_ll c). item_ok (snd p)"
  have "map (length \<circ> snd) (lru_view c) = map (item_size \<circ> snd) (item_ll c)"
    using ok by (auto simp: lru_view_def item_view_def item_ok_def)
  then show ?thesis by (simp add: view_size_def items_size_def)
qed

lemma lru_evict_spec:
  assumes "lru_inv c" and "item_ll c = (n, it) # ll"
  shows "\<exists>c'. lru_evict c = Inr c' \<and> lru_inv c' \<and> item_ll c' = ll \<and> max_size c' = max_size c
              \<and> released c' = released c @ [it]"
proof -
  let ?c = "c\<lparr>released := released c @ [it], item_map := (item_map c)(item_key it := None),
              cache_size := sub64 (cache_size c) (item_size it), item_ll := ll\<rparr>"
  have ids: "distinct (n # map fst ll)" and ks: "item_key it \<notin> (item_key \<circ> snd) ` set ll"
    "distinct (map (item_key \<circ> snd) ll)" and sz: "cache_size c = item_size it + items_size ll"
    and mx: "cache_size c \<le> max_size c" "max_size c < 2 ^ 63"
    using assms by (simp_all add: lru_inv_def)
  have "item_map c = map_of ((item_key it, n) # map (\<lambda>(n, it). (item_key it, n)) ll)"
    using assms by (simp add: lru_inv_def)
  moreover have "map_of (map (\<lambda>(n, it). (item_key it, n)) ll) (item_key it) = None"
    using ks(1) by (force simp: map_of_eq_None_iff)
  ultimately have m: "(item_map c)(item_key it := None) = map_of (map (\<lambda>(n, it). (item_key it, n)) ll)"
    by (auto simp: fun_eq_iff)
  have s: "sub64 (cache_size c) (item_size it) = items_size ll"
    using sz mx by (simp add: sub64_exact)
  have "lru_inv ?c"
    using assms m s ids ks mx sz by (auto simp: lru_inv_def)
  then show ?thesis using assms(2) by (auto simp: lru_evict_def)
qed

lemma lru_evict_loop_spec:
  assumes "lru_inv c" and "sz \<le> max_size c"
  shows "\<exists>c'. lru_evict_loop sz c = Inr c' \<and> lru_inv c' \<and> max_size c' = max_size c
              \<and> cache_size c' + sz \<le> max_size c
              \<and> lru_view c' = view_evict (max_size c) sz (lru_view c)
              \<and> item_view ` set (released c') = item_view ` set (released c)
                  \<union> set (take (length (lru_view c) - length (lru_view c')) (lru_view c))"
  using assms
proof (induction "length (item_ll c)" arbitrary: c)
  case 0
  then have "cache_size c = 0" "lru_view c = []" by (simp_all add: lru_inv_def lru_view_def)
  moreover from this have "lru_evict_loop sz c = Inr c"
    using 0 by (subst lru_evict_loop.simps) (simp add: lru_inv_def)
  ultimately show ?case using 0 by simp
next
  case (Suc k)
  then obtain n it ll where ll: "item_ll c = (n, it) # ll" by (cases "item_ll c") auto
  have size: "view_size (lru_view c) = cache_size c"
    using Suc.prems(1) items_size_view [of c] by (simp add: lru_inv_def)
  have add: "add64 (cache_size c) sz = cache_size c + sz"
    using Suc.prems by (simp add: lru_inv_def add64_exact)
  show ?case
  proof (cases "max_size c < cache_size c + sz")
    case False
    then show ?thesis using Suc.prems add size ll
      by (subst lru_evict_loop.simps) (auto simp: lru_view_def)
  next
    case True
    obtain c1 where c1: "lru_evict c = Inr c1" "lru_inv c1" "item_ll c1 = ll"
      "max_size c1 = max_size c" "released c1 = released c @ [it]"
      using lru_evict_spec [OF Suc.prems(1) ll] by blast
    have "k = length (item_ll c1)" "sz \<le> max_size c1" using Suc.hyps(2) Suc.prems ll c1 by simp_all
    then obtain c' where c': "lru_evict_loop sz c1 = Inr c'" "lru_inv c'" "max_size c' = max_size c"
      "cache_size c' + sz \<le> max_size c" "lru_view c' = view_evict (max_size c) sz (lru_view c1)"
      "item_view ` set (released c') = item_view ` set (released c1)
         \<union> set (take (length (lru_view c1) - length (lru_view c')) (lru_view c1))"
      using Suc.hyps(1) [of c1] c1(2,4) by auto
    have v: "lru_view c = item_view it # lru_view c1" using ll c1(3) by (simp add: lru_view_def)
    have len: "length (view_evict mx s xs) \<le> length xs" for mx s xs
      by (induction xs) auto
    have "length (lru_view c) - length (lru_view c') =
          Suc (length (lru_view c1) - length (lru_view c'))"
      using v len [of "max_size c" sz "lru_view c1"] c'(5) by simp
    then show ?thesis
      using True add size v c' c1 by (subst lru_evict_loop.simps) auto
  qed
qed

lemma lru_append_inv:
  assumes "lru_inv c" and "item_map c key = None" and "cache_size c + sz \<le> max_size c"
    and "sz \<le> length bs"
  shows "lru_inv ((lru_append key (Some bs) sz c)\<lparr>cache_size := add64 (cache_size c) sz\<rparr>)"
proof -
  have "add64 (cache_size c) sz = cache_size c + sz"
    using assms by (simp add: lru_inv_def add64_exact)
  moreover have "key \<notin> (item_key \<circ> snd) ` set (item_ll c)"
    using item_map_None [OF assms(1)] assms(2) by (simp add: view_keys)
  moreover have "(item_map c)(key \<mapsto> n) = map_of (map (\<lambda>(n, it). (item_key it, n)) (item_ll c)
      @ [(key, n)])" for n
    using assms(1,2) by (auto simp: fun_eq_iff lru_inv_def map_add_def split: option.splits)
  ultimately show ?thesis
    using assms by (auto simp: lru_inv_def lru_append_def item_ok_def)
qed


lemma lru_insert_spec:
  assumes "lru_inv c" and "sz \<le> length bs" and "sz < 2 ^ 63"
    and "item_map c key = None \<or> \<not> ovw"
  shows "\<exists>c'. lru_insert key (Some bs) sz ovw c = Inr c' \<and> lru_inv c' \<and> max_size c' = max_size c
              \<and> lru_view c' = view_insert (max_size c) key (take sz bs) (lru_view c)"
proof -
  have len: "length (take sz bs) = sz" using assms(2) by simp
  consider (big) "max_size c < sz" | (old) "sz \<le> max_size c" "item_map c key \<noteq> None" "\<not> ovw"
    | (fresh) "sz \<le> max_size c" "item_map c key = None"
    using assms(4) by fastforce
  then show ?thesis
  proof cases
    case big
    then show ?thesis using assms(1) len by (simp add: lru_insert_def view_insert_def)
  next
    case old
    then show ?thesis using assms(1) item_map_None [OF assms(1), of key]
      by (auto simp: lru_insert_def view_insert_def lru_inv_def lru_view_def)
  next
    case fresh
    obtain c1 where c1: "lru_evict_loop sz c = Inr c1" "lru_inv c1" "max_size c1 = max_size c"
      "cache_size c1 + sz \<le> max_size c" "lru_view c1 = view_evict (max_size c) sz (lru_view c)"
      using lru_evict_loop_spec [OF assms(1) fresh(1)] by blast
    have sub: "set (view_evict mx n xs) \<subseteq> set xs" for mx n xs by (induction xs) auto
    have "key \<notin> fst ` set (lru_view c)" using item_map_None [OF assms(1)] fresh(2) by simp
    then have "key \<notin> fst ` set (lru_view c1)" using sub c1(5) by force
    then have "item_map c1 key = None" using item_map_None [OF c1(2)] by simp
    then have "lru_inv ((lru_append key (Some bs) sz c1)\<lparr>cache_size := add64 (cache_size c1) sz\<rparr>)"
      by (rule lru_append_inv [OF c1(2)]) (use c1 assms(2) in simp_all)
    moreover have "lru_insert key (Some bs) sz ovw c =
        Inr ((lru_append key (Some bs) sz c1)\<lparr>cache_size := add64 (cache_size c1) sz\<rparr>)"
      using fresh c1(1) by (simp add: lru_insert_def lru_append_def)
    moreover have "lru_view (lru_append key (Some bs) sz c1) = lru_view c1 @ [(key, take sz bs)]"
      by (simp add: lru_view_def lru_append_def item_view_def)
    ultimately show ?thesis
      using c1 fresh len \<open>key \<notin> fst ` set (lru_view c)\<close>
      by (simp add: view_insert_def lru_append_def lru_view_def)
  qed
qed

lemma items_size_mset: "items_size ll = sum_mset (image_mset (item_size \<circ> snd) (mset ll))"
  by (simp add: items_size_def flip: sum_mset_sum_list)

text \<open>Reordering the list keeps the invariant.\<close>

lemma lru_reorder:
  assumes "lru_inv c" and "mset ll = mset (item_ll c)"
  shows "lru_inv (c\<lparr>item_ll := ll\<rparr>)"
proof -
  have s: "set ll = set (item_ll c)" using assms(2) by (rule mset_eq_setD)
  have "distinct (map f ll) = distinct (map f (item_ll c))" for f :: "nat \<times> lru_item \<Rightarrow> 'b"
    by (rule mset_eq_imp_distinct_iff) (simp add: assms(2))
  note d = this [of fst] this [of "item_key \<circ> snd"]
  have "items_size ll = items_size (item_ll c)"
    using assms(2) by (simp only: items_size_mset)
  moreover have "map_of (map (\<lambda>(n, it). (item_key it, n)) (item_ll c))
               = map_of (map (\<lambda>(n, it). (item_key it, n)) ll)"
    using assms(1) d s
    by (subst map_of_inject_set) (simp_all add: lru_inv_def comp_def case_prod_unfold)
  ultimately show ?thesis using assms(1) d s by (simp add: lru_inv_def)
qed

lemma mset_splice [simp]:
  "mset (splice_end n ll) = mset ll" "mset (splice_begin n ll) = mset ll"
proof -
  have "mset (filter (\<lambda>p. fst p = n) ll) + mset (filter (\<lambda>p. fst p \<noteq> n) ll) = mset ll"
    by (simp flip: multiset_partition)
  then show "mset (splice_end n ll) = mset ll" "mset (splice_begin n ll) = mset ll"
    by (simp_all add: splice_end_def splice_begin_def add.commute)
qed

lemma id_iff_key:
  assumes "lru_inv c" and "(n, it) \<in> set (item_ll c)" and "p \<in> set (item_ll c)"
  shows "fst p = n \<longleftrightarrow> item_key (snd p) = item_key it"
proof -
  have "inj_on fst (set (item_ll c))" "inj_on (item_key \<circ> snd) (set (item_ll c))"
    using assms(1) by (simp_all add: lru_inv_def distinct_map)
  then have "fst p = n \<longleftrightarrow> p = (n, it)" "(item_key \<circ> snd) p = item_key it \<longleftrightarrow> p = (n, it)"
    using assms(2,3) inj_on_eq_iff [of fst "set (item_ll c)" p "(n, it)"]
      inj_on_eq_iff [of "item_key \<circ> snd" "set (item_ll c)" p "(n, it)"] by auto
  then show ?thesis by simp
qed

lemma filter_view:
  assumes "lru_inv c" and "(n, it) \<in> set (item_ll c)"
  shows "map (item_view \<circ> snd) (filter (\<lambda>p. fst p = n) (item_ll c))
           = filter (\<lambda>q. fst q = item_key it) (lru_view c)"
    and "map (item_view \<circ> snd) (filter (\<lambda>p. fst p \<noteq> n) (item_ll c)) = view_remove (item_key it) (lru_view c)"
  using id_iff_key [OF assms]
  by (auto simp: lru_view_def view_remove_def filter_map item_view_def comp_def
      intro!: arg_cong [where f = "map _"] filter_cong)

lemma filter_id:
  "distinct (map fst ll) \<Longrightarrow> (n, it) \<in> set ll \<Longrightarrow> filter (\<lambda>p. fst p = n) ll = [(n, it)]"
proof (induction ll)
  case (Cons p ll)
  show ?case
  proof (cases "p = (n, it)")
    case True
    then have "filter (\<lambda>p. fst p = n) ll = []"
      using Cons.prems(1) by (force simp: filter_empty_conv)
    then show ?thesis using True by simp
  next
    case False
    then show ?thesis using Cons by (force simp: image_iff)
  qed
qed simp

lemma lru_invalidate_spec:
  assumes "lru_inv c"
  shows "\<exists>c'. lru_invalidate key c = Inr (key \<in> fst ` set (lru_view c), c') \<and> lru_inv c'
              \<and> max_size c' = max_size c \<and> lru_view c' = view_remove key (lru_view c)"
proof (cases "item_map c key")
  case None
  then have "key \<notin> fst ` set (lru_view c)" using item_map_None [OF assms] by simp
  moreover from this have "view_remove key (lru_view c) = lru_view c"
    by (force simp: view_remove_def filter_id_conv)
  ultimately show ?thesis using None assms by (simp add: lru_invalidate_def)
next
  case (Some n)
  obtain it where it: "map_of (item_ll c) n = Some it" "(n, it) \<in> set (item_ll c)"
    "item_key it = key"
    using lru_lookup [OF assms Some] by blast
  let ?c = "c\<lparr>item_ll := splice_begin n (item_ll c)\<rparr>"
  have inv: "lru_inv ?c" by (rule lru_reorder [OF assms]) simp
  have "filter (\<lambda>p. fst p = n) (item_ll c) = [(n, it)]"
    by (rule filter_id) (use assms it in \<open>simp_all add: lru_inv_def\<close>)
  then have "item_ll ?c = (n, it) # filter (\<lambda>p. fst p \<noteq> n) (item_ll c)"
    by (simp add: splice_begin_def)
  from lru_evict_spec [OF inv this] obtain c' where c': "lru_evict ?c = Inr c'" "lru_inv c'"
    "item_ll c' = filter (\<lambda>p. fst p \<noteq> n) (item_ll c)" "max_size c' = max_size c"
    by auto
  moreover have "lru_view c' = view_remove key (lru_view c)"
    using filter_view(2) [OF assms it(2)] it(3) c'(3) by (simp add: lru_view_def)
  moreover have "key \<in> fst ` set (lru_view c)" using item_map_None [OF assms, of key] Some by simp
  ultimately show ?thesis using Some it(1) by (simp add: lru_invalidate_def)
qed

lemma lru_touch:
  assumes "lru_inv c" and "(n, it) \<in> set (item_ll c)"
  shows "lru_inv (c\<lparr>item_ll := splice_end n (item_ll c)\<rparr>)"
    and "lru_view (c\<lparr>item_ll := splice_end n (item_ll c)\<rparr>) = view_touch (item_key it) (lru_view c)"
proof -
  show "lru_inv (c\<lparr>item_ll := splice_end n (item_ll c)\<rparr>)" by (rule lru_reorder [OF assms(1)]) simp
  show "lru_view (c\<lparr>item_ll := splice_end n (item_ll c)\<rparr>) = view_touch (item_key it) (lru_view c)"
    using filter_view [OF assms] by (simp add: view_touch_def lru_view_def splice_end_def)
qed

lemma view_lookup:
  assumes "lru_inv c" and "(n, it) \<in> set (item_ll c)"
  shows "map_of (lru_view c) (item_key it) = Some (take (item_size it) (region (item_object it)))"
proof (rule map_of_is_SomeI)
  show "distinct (map fst (lru_view c))"
    using assms(1) by (simp add: lru_inv_def lru_view_def item_view_def comp_def)
  show "(item_key it, take (item_size it) (region (item_object it))) \<in> set (lru_view c)"
    using assms(2) by (force simp: lru_view_def item_view_def)
qed

lemma lru_read_range_found:
  assumes "lru_inv c" and "map_of (lru_view c) key = Some v" and "off + n \<le> length v"
  shows "\<exists>c'. lru_read_range al key off n b c =
                bindR (buffer_write al (slice v off n) b) (\<lambda>b'. Inr (True, b', c'))
              \<and> lru_inv c' \<and> max_size c' = max_size c \<and> lru_view c' = view_touch key (lru_view c)"
proof -
  have "key \<in> fst ` set (lru_view c)" using map_of_SomeD [OF assms(2)] by force
  then obtain m where m: "item_map c key = Some m" using item_map_None [OF assms(1), of key] by auto
  obtain it where it: "map_of (item_ll c) m = Some it" "(m, it) \<in> set (item_ll c)"
    "item_key it = key" "item_ok it"
    using lru_lookup [OF assms(1) m] by blast
  have v: "v = take (item_size it) (region (item_object it))"
    using view_lookup [OF assms(1) it(2)] it(3) assms(2) by simp
  have len: "length v = item_size it" using it(4) v by (simp add: item_ok_def)
  have "item_size it \<le> cache_size c"
    using assms(1) it(2) member_le_sum_list [of "item_size it" "map (item_size \<circ> snd) (item_ll c)"]
    by (force simp: lru_inv_def items_size_def)
  then have add: "add64 off n = off + n"
    using assms(1,3) len by (simp add: add64_exact lru_inv_def)
  have "mem_read (item_object it) off n = Inr (slice v off n)"
    using it(4) assms(3) len v by (simp add: mem_read_region item_ok_def slice_take)
  then show ?thesis
    using m it add assms(3) len lru_touch [OF assms(1) it(2)]
    by (intro exI [of _ "c\<lparr>item_ll := splice_end m (item_ll c)\<rparr>"]) (simp add: lru_read_range_def)
qed

lemma lru_read_range_miss:
  "lru_inv c \<Longrightarrow> map_of (lru_view c) key = None \<Longrightarrow> lru_read_range al key off n b c = Inr (False, b, c)"
  using item_map_None [of c key] by (simp add: lru_read_range_def map_of_eq_None_iff)


lemma lru_read_found:
  assumes "lru_inv c" and "map_of (lru_view c) key = Some v"
  shows "\<exists>c'. lru_read al key b c =
                bindR (case buffer_write al v b of Inl (Err _ _) \<Rightarrow> Inr b | r \<Rightarrow> r)
                  (\<lambda>b'. Inr (True, b', c'))
              \<and> lru_inv c' \<and> max_size c' = max_size c \<and> lru_view c' = view_touch key (lru_view c)"
proof -
  have "key \<in> fst ` set (lru_view c)" using map_of_SomeD [OF assms(2)] by force
  then obtain m where m: "item_map c key = Some m" using item_map_None [OF assms(1), of key] by auto
  obtain it where it: "map_of (item_ll c) m = Some it" "(m, it) \<in> set (item_ll c)"
    "item_key it = key" "item_ok it"
    using lru_lookup [OF assms(1) m] by blast
  have v: "v = take (item_size it) (region (item_object it))"
    using view_lookup [OF assms(1) it(2)] it(3) assms(2) by simp
  have "mem_read (item_object it) 0 (item_size it) = Inr v"
    using it(4) v by (simp add: mem_read_region item_ok_def slice_def)
  then show ?thesis
    using m it lru_touch [OF assms(1) it(2)]
    by (intro exI [of _ "c\<lparr>item_ll := splice_end m (item_ll c)\<rparr>"]) (simp add: lru_read_def)
qed

lemma lru_read_miss:
  "lru_inv c \<Longrightarrow> map_of (lru_view c) key = None \<Longrightarrow> lru_read al key b c = Inr (False, b, c)"
  using item_map_None [of c key] by (simp add: lru_read_def map_of_eq_None_iff)

lemma view_value_size:
  assumes "lru_inv c" and "map_of (lru_view c) key = Some v"
  shows "length v \<le> max_size c"
proof -
  have "length v \<in> set (map (length \<circ> snd) (lru_view c))"
    using map_of_SomeD [OF assms(2)] by force
  then have "length v \<le> view_size (lru_view c)"
    unfolding view_size_def by (rule member_le_sum_list) simp
  then show ?thesis using assms(1) items_size_view [of c] by (simp add: lru_inv_def)
qed

section \<open>Sequences of operations\<close>

text \<open>
  The states a cache reaches when no insertion overwrites an entry (the storage manager never
  asks for that). A failing call leaves the state as it was.
\<close>

inductive lru_reach :: "allocator \<Rightarrow> nat \<Rightarrow> lru_cache \<Rightarrow> bool" for al mx where
  start: "lru_reach al mx (lru_new mx)"
| insert: "lru_reach al mx c \<Longrightarrow> sz \<le> length bs \<Longrightarrow> sz < 2 ^ 63
     \<Longrightarrow> ovw \<longrightarrow> item_map c key = None
     \<Longrightarrow> lru_insert key (Some bs) sz ovw c = Inr c' \<Longrightarrow> lru_reach al mx c'"
| invalidate: "lru_reach al mx c \<Longrightarrow> lru_invalidate key c = Inr (ok, c') \<Longrightarrow> lru_reach al mx c'"
| read: "lru_reach al mx c \<Longrightarrow> lru_read al key b c = Inr (ok, b', c') \<Longrightarrow> lru_reach al mx c'"
| read_range: "lru_reach al mx c \<Longrightarrow> lru_read_range al key off n b c = Inr (ok, b', c')
     \<Longrightarrow> off + n < 2 ^ 64 \<Longrightarrow> lru_reach al mx c'"

lemma lru_new_inv: "mx < 2 ^ 63 \<Longrightarrow> lru_inv (lru_new mx)"
  by (simp add: lru_new_def lru_inv_def)

lemma lru_read_inv:
  assumes "lru_inv c" and "lru_read al key b c = Inr (ok, b', c')"
  shows "lru_inv c' \<and> max_size c' = max_size c"
proof (cases "map_of (lru_view c) key")
  case None
  then show ?thesis using lru_read_miss [OF assms(1) None, of al b] assms by simp
next
  case (Some v)
  from lru_read_found [OF assms(1) Some, of al b] assms show ?thesis by (auto simp: res_simps)
qed

lemma lru_read_range_found_bad:
  assumes "lru_inv c" and "map_of (lru_view c) key = Some v" and "length v < off + n"
    and "off + n < 2 ^ 64"
  shows "lru_read_range al key off n b c =
         Inl (Err SC_LRUCache ''Failed to read item; Byte range out of bounds'')"
proof -
  have "key \<in> fst ` set (lru_view c)" using map_of_SomeD [OF assms(2)] by force
  then obtain m where m: "item_map c key = Some m" using item_map_None [OF assms(1), of key] by auto
  obtain it where it: "map_of (item_ll c) m = Some it" "(m, it) \<in> set (item_ll c)"
    "item_key it = key" "item_ok it"
    using lru_lookup [OF assms(1) m] by blast
  have "length v = item_size it"
    using view_lookup [OF assms(1) it(2)] it(3,4) assms(2) by (auto simp: item_ok_def)
  then show ?thesis using m it assms(3,4) by (simp add: lru_read_range_def add64_exact)
qed

lemma lru_read_range_inv:
  assumes "lru_inv c" and "lru_read_range al key off n b c = Inr (ok, b', c')" and "off + n < 2 ^ 64"
  shows "lru_inv c' \<and> max_size c' = max_size c"
proof (cases "map_of (lru_view c) key")
  case None
  then show ?thesis using lru_read_range_miss [OF assms(1) None, of al off n b] assms by simp
next
  case (Some v)
  then have "off + n \<le> length v"
    using lru_read_range_found_bad [OF assms(1) Some _ assms(3), of al b] assms(2)
    by (cases "off + n \<le> length v") auto
  from lru_read_range_found [OF assms(1) Some this, of al b] assms show ?thesis
    by (auto simp: res_simps)
qed

lemma lru_reach_inv: "lru_reach al mx c \<Longrightarrow> mx < 2 ^ 63 \<Longrightarrow> lru_inv c \<and> max_size c = mx"
proof (induction rule: lru_reach.induct)
  case start
  then show ?case by (simp add: lru_new_inv) (simp add: lru_new_def)
next
  case (insert c sz bs ovw key c')
  then have "item_map c key = None \<or> \<not> ovw" by blast
  with insert show ?case using lru_insert_spec [of c sz bs key ovw] by auto
next
  case (invalidate c key ok c')
  then show ?case using lru_invalidate_spec [of c key] by auto
next
  case (read c key b ok b' c')
  then show ?case using lru_read_inv by auto
next
  case (read_range c key off n b ok b' c')
  then show ?case using lru_read_range_inv by auto
qed

lemma lru_read_cases:
  assumes "lru_inv c" and "buffer_inv b" and "boffset b + max_size c \<le> 2 ^ 63"
  shows "\<exists>ok b' c'. lru_read al key b c = Inr (ok, b', c')"
proof (cases "map_of (lru_view c) key")
  case None
  then show ?thesis using lru_read_miss [OF assms(1)] by blast
next
  case (Some v)
  have "boffset b + length v \<le> 2 ^ 63" using view_value_size [OF assms(1) Some] assms(3) by simp
  from buffer_write_cases [OF assms(2) this, of al] lru_read_found [OF assms(1) Some, of al b]
  show ?thesis by (auto simp: bindR_def)
qed

lemma lru_read_range_cases:
  assumes "lru_inv c" and "buffer_inv b" and "boffset b + max_size c \<le> 2 ^ 63" and "off + n < 2 ^ 64"
  shows "(\<exists>ok b' c'. lru_read_range al key off n b c = Inr (ok, b', c'))
       \<or> (\<exists>code m. lru_read_range al key off n b c = Inl (Err code m))"
proof (cases "map_of (lru_view c) key")
  case None
  then show ?thesis using lru_read_range_miss [OF assms(1)] by blast
next
  case (Some v)
  show ?thesis
  proof (cases "off + n \<le> length v")
    case True
    then have "boffset b + length (slice v off n) \<le> 2 ^ 63"
      using view_value_size [OF assms(1) Some] assms(3) by (simp add: slice_def)
    from buffer_write_cases [OF assms(2) this, of al] lru_read_range_found [OF assms(1) Some True, of al b]
    show ?thesis by (auto simp: bindR_def)
  next
    case False
    then show ?thesis using lru_read_range_found_bad [OF assms(1) Some _ assms(4)] by auto
  qed
qed

lemma tile_key_inj: "tile_key u n = tile_key v m \<longleftrightarrow> u = v \<and> n = m"
proof
  assume eq: "tile_key u n = tile_key v m"
  have "after_last (CHR ''+'') (tile_key u n) = nat_str n" for u n by (simp add: tile_key_def)
  then have "nat_str n = nat_str m" using eq by metis
  then show "u = v \<and> n = m" using eq by (simp add: tile_key_def)
qed simp


lemma lru_replace_size:
  assumes "lru_inv c" and "map_of (item_ll c) n = Some it"
  shows "\<exists>c'. lru_replace n (Some bs) sz c = Inr c' \<and> cache_size c' = cache_size c
              \<and> items_size (item_ll c') + item_size it = items_size (item_ll c) + sz"
proof -
  let ?f = "\<lambda>(i, it). (i, if i = n then it\<lparr>item_object := Some bs, item_size := sz\<rparr> else it)"
  have it: "(n, it) \<in> set (item_ll c)" "distinct (map fst (item_ll c))"
    using assms by (auto simp: lru_inv_def dest: map_of_SomeD)
  have "filter (\<lambda>p. fst p \<noteq> n) (map ?f ll) = filter (\<lambda>p. fst p \<noteq> n) ll"
    for ll :: "(nat \<times> lru_item) list"
    by (induction ll) (auto split: prod.splits)
  moreover have "filter (\<lambda>p. fst p = n) (map ?f ll) = map ?f (filter (\<lambda>p. fst p = n) ll)"
    for ll :: "(nat \<times> lru_item) list"
    by (induction ll) (auto split: prod.splits)
  ultimately have "splice_end n (map ?f (item_ll c)) =
      filter (\<lambda>p. fst p \<noteq> n) (item_ll c) @ [(n, it\<lparr>item_object := Some bs, item_size := sz\<rparr>)]"
    using filter_id [OF it(2,1)] by (simp add: splice_end_def)
  moreover have "items_size (item_ll c) = items_size (filter (\<lambda>p. fst p \<noteq> n) (item_ll c)) + item_size it"
  proof -
    have "mset (item_ll c) = mset (filter (\<lambda>p. fst p \<noteq> n) (item_ll c) @ [(n, it)])"
      using mset_splice(1) [of n "item_ll c"] filter_id [OF it(2,1)] by (simp add: splice_end_def)
    then have "items_size (item_ll c) = items_size (filter (\<lambda>p. fst p \<noteq> n) (item_ll c) @ [(n, it)])"
      by (simp only: items_size_mset)
    then show ?thesis by simp
  qed
  ultimately show ?thesis using assms(2) by (simp add: lru_replace_def)
qed

section \<open>Properties\<close>

text \<open>
  C5: The cache implements a list ordered by recency. An insertion that replaces no cached entry, because the
  key is new or overwriting is off, evicts the least recently used entries, and only as many as needed, and
  appends the object; with overwriting off a cached key keeps its entry. Overwriting a cached entry is not
  covered, because it breaks the accounting of the cache. Invalidating removes the entry and reports whether there was one; a hit returns exactly the
  requested bytes, or the whole object, and makes the entry the most recent one; a range outside the
  object is refused; a miss changes nothing. The size given with an object is at most the length of the object and below \<open>2 ^ 63\<close>, and the
  end of a range does not wrap around. All of these calls keep the invariant, so the size stays within the maximum.
\<close>

theorem lru_cache_refines:
  assumes "lru_inv c" and "sz \<le> length bs" and "sz < 2 ^ 63" and "off + n < 2 ^ 64"
  shows "(item_map c key = None \<or> \<not> ovw \<longrightarrow>
            (\<exists>c'. lru_insert key (Some bs) sz ovw c = Inr c' \<and> lru_inv c'
               \<and> lru_view c' = view_insert (max_size c) key (take sz bs) (lru_view c)))
       \<and> (\<exists>c'. lru_invalidate key c = Inr (key \<in> fst ` set (lru_view c), c') \<and> lru_inv c'
            \<and> lru_view c' = view_remove key (lru_view c))
       \<and> (case map_of (lru_view c) key of
            None \<Rightarrow> lru_read_range al key off n b c = Inr (False, b, c) \<and> lru_read al key b c = Inr (False, b, c)
          | Some v \<Rightarrow>
              (if off + n \<le> length v
               then \<exists>c'. lru_read_range al key off n b c =
                          bindR (buffer_write al (slice v off n) b) (\<lambda>b'. Inr (True, b', c'))
                        \<and> lru_inv c' \<and> lru_view c' = view_touch key (lru_view c)
               else lru_read_range al key off n b c =
                      Inl (Err SC_LRUCache ''Failed to read item; Byte range out of bounds''))
            \<and> (\<exists>c'. lru_read al key b c =
                      bindR (case buffer_write al v b of Inl (Err _ _) \<Rightarrow> Inr b | r \<Rightarrow> r) (\<lambda>b'. Inr (True, b', c'))
                    \<and> lru_inv c' \<and> lru_view c' = view_touch key (lru_view c)))"
proof (intro conjI impI)
  assume "item_map c key = None \<or> \<not> ovw"
  then show "\<exists>c'. lru_insert key (Some bs) sz ovw c = Inr c' \<and> lru_inv c'
            \<and> lru_view c' = view_insert (max_size c) key (take sz bs) (lru_view c)"
    using lru_insert_spec [OF assms(1-3)] by blast
next
  show "\<exists>c'. lru_invalidate key c = Inr (key \<in> fst ` set (lru_view c), c') \<and> lru_inv c'
            \<and> lru_view c' = view_remove key (lru_view c)"
    using lru_invalidate_spec [OF assms(1)] by blast
next
  show "case map_of (lru_view c) key of
            None \<Rightarrow> lru_read_range al key off n b c = Inr (False, b, c) \<and> lru_read al key b c = Inr (False, b, c)
          | Some v \<Rightarrow>
              (if off + n \<le> length v
               then \<exists>c'. lru_read_range al key off n b c =
                          bindR (buffer_write al (slice v off n) b) (\<lambda>b'. Inr (True, b', c'))
                        \<and> lru_inv c' \<and> lru_view c' = view_touch key (lru_view c)
               else lru_read_range al key off n b c =
                      Inl (Err SC_LRUCache ''Failed to read item; Byte range out of bounds''))
            \<and> (\<exists>c'. lru_read al key b c =
                      bindR (case buffer_write al v b of Inl (Err _ _) \<Rightarrow> Inr b | r \<Rightarrow> r) (\<lambda>b'. Inr (True, b', c'))
                    \<and> lru_inv c' \<and> lru_view c' = view_touch key (lru_view c))"
  proof (cases "map_of (lru_view c) key")
    case None
    then show ?thesis using lru_read_range_miss [OF assms(1) None] lru_read_miss [OF assms(1) None] by simp
  next
    case (Some v)
    have "if off + n \<le> length v
        then \<exists>c'. lru_read_range al key off n b c = bindR (buffer_write al (slice v off n) b) (\<lambda>b'. Inr (True, b', c'))
               \<and> lru_inv c' \<and> lru_view c' = view_touch key (lru_view c)
        else lru_read_range al key off n b c = Inl (Err SC_LRUCache ''Failed to read item; Byte range out of bounds'')"
      using lru_read_range_found [OF assms(1) Some, of off n al b] lru_read_range_found_bad [OF assms(1) Some _ assms(4), of al b]
      by (cases "off + n \<le> length v") auto
    with lru_read_found [OF assms(1) Some, of al b] show ?thesis unfolding Some option.case by blast
  qed
qed

theorem lru_cache_refines_witness:
  "\<exists>c'. lru_insert ''k'' (Some [1, 2]) 2 False (lru_new 10) = Inr c' \<and> lru_inv c'
        \<and> lru_view c' = view_insert (max_size (lru_new 10)) ''k'' (take 2 [1, 2]) (lru_view (lru_new 10))"
proof -
  have "lru_inv (lru_new 10)" "(2::nat) \<le> length [1, 2 :: byte]" "(2::nat) < 2 ^ 63" "(0::nat) + 0 < 2 ^ 64"
    by (simp_all add: lru_new_inv)
  from lru_cache_refines [OF this, of "''k''" False] show ?thesis by blast
qed



text \<open>
  C29: overwriting an entry corrupts the accounting. When no eviction is needed, the recorded size
  afterwards exceeds the bytes that are really cached by the size of the replaced object; three
  insertions of a 4-byte object under one key into a cache of 10 bytes end in the use of a stale
  iterator.
\<close>

theorem lru_overwrite_drifts:
  assumes "lru_inv c" and "item_map c key = Some n" and "map_of (item_ll c) n = Some it"
    and "cache_size c + sz \<le> max_size c"
  shows "(\<exists>c'. lru_insert key (Some bs) sz True c = Inr c'
            \<and> cache_size c' = items_size (item_ll c') + item_size it)
       \<and> bindR (lru_insert ''k'' (Some [1, 2, 3, 4]) 4 True (lru_new 10)) (\<lambda>c1.
         bindR (lru_insert ''k'' (Some [1, 2, 3, 4]) 4 True c1)
           (lru_insert ''k'' (Some [1, 2, 3, 4]) 4 True)) = Inl UB"
proof
  have add: "add64 (cache_size c) sz = cache_size c + sz" and "sz \<le> max_size c"
    using assms(1,4) by (simp_all add: lru_inv_def add64_exact)
  then have loop: "lru_evict_loop sz c = Inr c" using assms(4) by (subst lru_evict_loop.simps) simp
  obtain c' where c': "lru_replace n (Some bs) sz c = Inr c'" "cache_size c' = cache_size c"
    "items_size (item_ll c') + item_size it = items_size (item_ll c) + sz"
    using lru_replace_size [OF assms(1,3)] by blast
  have "cache_size c = items_size (item_ll c)" using assms(1) by (simp add: lru_inv_def)
  then show "\<exists>c'. lru_insert key (Some bs) sz True c = Inr c'
            \<and> cache_size c' = items_size (item_ll c') + item_size it"
    using c' loop add assms(2) \<open>sz \<le> max_size c\<close> by (simp add: lru_insert_def)
  show "bindR (lru_insert ''k'' (Some [1, 2, 3, 4]) 4 True (lru_new 10)) (\<lambda>c1.
         bindR (lru_insert ''k'' (Some [1, 2, 3, 4]) 4 True c1)
           (lru_insert ''k'' (Some [1, 2, 3, 4]) 4 True)) = Inl UB"
    by (simp add: lru_insert_def lru_new_def lru_evict_loop.simps add64_def sub64_def lru_append_def
        lru_replace_def lru_evict_def splice_end_def)
qed

theorem lru_overwrite_drifts_witness:
  "\<exists>c c'. lru_inv c \<and> lru_insert ''k'' (Some [7]) 1 True c = Inr c'
          \<and> cache_size c' = items_size (item_ll c') + 2"
proof -
  define it where "it = \<lparr>item_key = ''k'', item_object = Some [1 :: byte, 2], item_size = 2\<rparr>"
  define c where "c = \<lparr>item_ll = [(0, it)], item_map = [''k'' \<mapsto> 0], max_size = 10,
    cache_size = 2, next_node = 1, released = []\<rparr>"
  have "lru_inv c" by (simp add: c_def it_def lru_inv_def items_size_def item_ok_def)
  moreover from this have "\<exists>c'. lru_insert ''k'' (Some [7]) 1 True c = Inr c'
            \<and> cache_size c' = items_size (item_ll c') + item_size it"
    using lru_overwrite_drifts [of c "''k''" 0 it 1 "[7]"] by (simp add: c_def)
  ultimately show ?thesis by (auto simp: it_def)
qed

text \<open>
  C30: \<open>clear\<close> empties the list but neither the map nor the recorded size. Afterwards reading or
  invalidating a key that was cached uses a freed node. Inserting an object under that key is lost with
  overwriting off, and otherwise uses a freed node or, when the object does not fit beside the stale size, evicts from
  the empty list. An object under a new key that does not fit beside the stale size also makes the cache evict from the empty list.
\<close>

theorem lru_clear_dangles:
  assumes "lru_inv c" and "item_map c key \<noteq> None" and "sz \<le> max_size c"
  shows "lru_read al key b (lru_clear c) = Inl UB
       \<and> lru_read_range al key off n b (lru_clear c) = Inl UB
       \<and> lru_invalidate key (lru_clear c) = Inl UB
       \<and> lru_insert key (Some bs) sz True (lru_clear c) = Inl (if cache_size c + sz \<le> max_size c then UB else AssertFail)
       \<and> (\<exists>c'. lru_insert key (Some bs) sz False (lru_clear c) = Inr c' \<and> lru_view c' = [])
       \<and> (item_map c key' = None \<and> max_size c < cache_size c + sz \<longrightarrow>
            lru_insert key' (Some bs) sz ovw (lru_clear c) = Inl AssertFail)"
proof -
  have add: "add64 (cache_size c) sz = cache_size c + sz" using assms(1,3) by (simp add: lru_inv_def add64_exact)
  have keep: "item_map (lru_clear c) = item_map c" "max_size (lru_clear c) = max_size c" "cache_size (lru_clear c) = cache_size c"
    "item_ll (lru_clear c) = []" by (simp_all add: lru_clear_def)
  have loop: "lru_evict_loop sz (lru_clear c) = (if cache_size c + sz \<le> max_size c then Inr (lru_clear c) else Inl AssertFail)"
    by (subst lru_evict_loop.simps) (simp add: keep add lru_evict_def)
  from assms(2) obtain m where m: "item_map c key = Some m" by blast
  have "lru_insert key (Some bs) sz True (lru_clear c) = Inl (if cache_size c + sz \<le> max_size c then UB else AssertFail)"
    using assms(3) by (simp add: lru_insert_def keep m loop lru_replace_def)
  moreover have "\<exists>c'. lru_insert key (Some bs) sz False (lru_clear c) = Inr c' \<and> lru_view c' = []"
    using assms(3) by (simp add: lru_insert_def keep m lru_view_def)
  moreover have "lru_insert key' (Some bs) sz ovw (lru_clear c) = Inl AssertFail"
    if "item_map c key' = None \<and> max_size c < cache_size c + sz"
    using that assms(3) by (simp add: lru_insert_def keep loop)
  ultimately show ?thesis by (simp add: lru_read_def lru_read_range_def lru_invalidate_def keep m)
qed

theorem lru_clear_dangles_witness:
  "\<exists>c. lru_inv c \<and> lru_read (\<lambda>n. None) ''k'' buffer_new (lru_clear c) = Inl UB
       \<and> lru_insert ''new'' (Some [1, 2, 3]) 10 True (lru_clear c) = Inl AssertFail"
proof -
  define c where "c = \<lparr>item_ll = [(0, \<lparr>item_key = ''k'', item_object = Some [1], item_size = 1\<rparr>)],
    item_map = [''k'' \<mapsto> 0], max_size = 10, cache_size = 1, next_node = 1, released = []\<rparr>"
  have "lru_inv c" by (simp add: c_def lru_inv_def items_size_def item_ok_def)
  moreover have "item_map c ''k'' \<noteq> None" "10 \<le> max_size c" "item_map c ''new'' = None" "max_size c < cache_size c + 10"
    by (simp_all add: c_def)
  ultimately show ?thesis
    using lru_clear_dangles [of c "''k''" 10 "\<lambda>n. None" buffer_new 0 0 "[1, 2, 3]" "''new''" True] by auto
qed

text \<open>
  C18: what \<open>StorageManager::write_to_cache\<close> puts into the tile cache, \<open>read_from_cache\<close> returns:
  a tile that is not a metadata file, fits into the cache and is not cached yet is read back
  byte for byte, into a fresh buffer positioned at its start. The keys of different tiles differ.
\<close>

theorem tile_cache_round_trip:
  assumes "lru_inv c" and "buffer_inv b" and "alloc_total al" and "bsize b \<le> max_size c"
    and "last_path_part uri \<noteq> ''__fragment_metadata.tdb''"
    and "last_path_part uri \<noteq> ''__array_schema.tdb''"
    and "item_map c (tile_key uri off) = None"
  shows "(\<exists>c' b' c''. write_to_cache al uri off b c = Inr c'
            \<and> read_from_cache al uri off buffer_new (bsize b) c' = Inr (True, b', c'')
            \<and> buffer_bytes b' = buffer_bytes b \<and> boffset b' = 0 \<and> lru_inv c'')
       \<and> (tile_key u n = tile_key v m \<longleftrightarrow> u = v \<and> n = m)"
proof
  let ?k = "tile_key uri off" and ?v = "buffer_bytes b"
  have len: "length ?v = bsize b" by (rule length_buffer_bytes [OF assms(2)])
  have lt: "bsize b < 2 ^ 63" using assms(1,4) by (simp add: lru_inv_def)
  obtain d where d: "malloc al (bsize b) = Some d" using alloc_total_malloc [OF assms(3)] by blast
  have rd: "mem_read (bdata b) 0 (bsize b) = Inr ?v"
    using assms(2) by (simp add: buffer_inv_def mem_read_region buffer_bytes_def slice_def)
  have "bsize b \<le> length ?v" using len by simp
  from lru_insert_spec [OF assms(1) this lt, of ?k False] obtain c' where c':
    "lru_insert ?k (Some ?v) (bsize b) False c = Inr c'" "lru_inv c'" "max_size c' = max_size c"
    "lru_view c' = view_insert (max_size c) ?k (take (bsize b) ?v) (lru_view c)" by blast
  have "?k \<notin> fst ` set (lru_view c)" using item_map_None [OF assms(1)] assms(7) by simp
  then have "lru_view c' = view_evict (max_size c) (bsize b) (lru_view c) @ [(?k, ?v)]"
    using c'(4) assms(4) len by (simp add: view_insert_def)
  then have "(?k, ?v) \<in> set (lru_view c')" by simp
  moreover have "distinct (map fst (lru_view c'))"
    using c'(2) by (simp add: lru_inv_def lru_view_def item_view_def comp_def)
  ultimately have "map_of (lru_view c') ?k = Some ?v" by simp
  from lru_read_range_found [OF c'(2) this, of 0 "bsize b" al buffer_new] obtain c'' where c'':
    "lru_read_range al ?k 0 (bsize b) buffer_new c' =
       bindR (buffer_write al ?v buffer_new) (\<lambda>b'. Inr (True, b', c''))" "lru_inv c''"
    using len by (auto simp: slice_def)
  have "buffer_sink buffer_new" "buffer_room al buffer_new (length ?v + 0)"
    using assms(3) lt len
    by (simp_all add: buffer_sink_def buffer_room_def buffer_inv_def buffer_new_def buffer_wrap_def)
  from buffer_write_append [OF this] obtain b1 where b1: "buffer_write al ?v buffer_new = Inr b1"
    "buffer_sink b1" "buffer_bytes b1 = buffer_bytes buffer_new @ ?v" by blast
  have "buffer_bytes b1 = ?v" using b1(3) by (simp add: buffer_bytes_def buffer_new_def buffer_wrap_def)
  moreover from this have "bsize b1 = bsize b"
    using len b1(2) length_buffer_bytes [of b1] by (simp add: buffer_sink_def)
  ultimately have "buffer_bytes (buffer_reset_offset (buffer_set_size (bsize b) b1)) = ?v"
    by (simp add: buffer_reset_offset_def buffer_set_size_def buffer_bytes_def)
  moreover have "write_to_cache al uri off b c = Inr c'"
    using assms(4-6) d rd c'(1) by (simp add: write_to_cache_def Let_def)
  ultimately show "\<exists>c' b' c''. write_to_cache al uri off b c = Inr c'
            \<and> read_from_cache al uri off buffer_new (bsize b) c' = Inr (True, b', c'')
            \<and> buffer_bytes b' = buffer_bytes b \<and> boffset b' = 0 \<and> lru_inv c''"
    using c'' b1(1) by (simp add: read_from_cache_def buffer_reset_offset_def)
qed (rule tile_key_inj)

theorem tile_cache_round_trip_witness:
  "\<exists>c' b' c''. write_to_cache (\<lambda>n. Some []) ''file:///a/x.tdb'' 64 (buffer_wrap (Some [5, 6]) 2) (lru_new 100)
       = Inr c'
     \<and> read_from_cache (\<lambda>n. Some []) ''file:///a/x.tdb'' 64 buffer_new
         (bsize (buffer_wrap (Some [5, 6]) 2)) c' = Inr (True, b', c'')
     \<and> buffer_bytes b' = buffer_bytes (buffer_wrap (Some [5, 6]) 2) \<and> boffset b' = 0 \<and> lru_inv c''"
proof -
  have "lru_inv (lru_new 100)" "buffer_inv (buffer_wrap (Some [5, 6]) 2)" "alloc_total (\<lambda>n. Some [])"
    "bsize (buffer_wrap (Some [5, 6]) 2) \<le> max_size (lru_new 100)"
    "last_path_part ''file:///a/x.tdb'' \<noteq> ''__fragment_metadata.tdb''"
    "last_path_part ''file:///a/x.tdb'' \<noteq> ''__array_schema.tdb''"
    "item_map (lru_new 100) (tile_key ''file:///a/x.tdb'' 64) = None"
    by (simp_all add: lru_new_inv buffer_inv_def buffer_wrap_def alloc_total_def last_path_part_def
        after_last_def) (simp_all add: lru_new_def)
  from tile_cache_round_trip [OF this] show ?thesis by blast
qed

end
