(* ===== verification/Spec2Isabelle.thy ===== *)
theory Spec2Isabelle
  imports Dimension_Ops Tile_Filtering Tdb_Tile Chunked_Buffer Positive_Delta Dd_Compressor Rle_Compressor Lru_Cache Tdb_Uri Tdb_Buffer Tdb_Enums
begin

text \<open>
  A verification of the storage engine of TileDB (\<open>src/tiledb/sm\<close>): the path of the bytes of a tile from memory
  through the filters and back, the containers it goes through, the cache of tiles, the names of fragments, and the
  ranges of dimensions. All file names below are relative to \<open>src/tiledb/sm\<close>.

  \<^bold>\<open>How the program works.\<close> The cells of an array are stored in tiles. A tile (\<open>tile/tile.cc\<close>) keeps its bytes in a
  chunked buffer (\<open>tile/chunked_buffer.cc\<close>) and, once it has been filtered, in a single buffer. A filter pipeline
  (\<open>filter/filter_pipeline.cc\<close>) runs every chunk of the tile through a list of filters. A filter reads the metadata and the data of the
  filters before it from filter buffers (\<open>filter/filter_buffer.cc\<close>) and writes its own; filters that compress call the
  codecs of \<open>compressors/\<close>. When a tile is read, the filters run in reverse, and a query that needs only some ranges of
  cells lets the pipeline skip the chunks that have none of them. Filtered tiles are cached by their file name and offset
  (\<open>cache/lru_cache.cc\<close>). The fragments of an array are directories whose names have a range of timestamps
  (\<open>misc/uri.cc\<close>, \<open>misc/utils.cc\<close>). Dimensions (\<open>array_schema/dimension.cc\<close>) have a domain and a tile extent and provide the operations
  on ranges that queries are made of.

  \<^bold>\<open>How it is modelled.\<close> Every class is a record and every method a function from the state to a result with the state
  after the call. The type of results is \<open>error + 'a\<close>; an error is a status with its code and message, a failed assertion, an exception, a
  write to memory that is shared, a loop that does not end, or undefined behaviour, so every early return of the code is a branch of the
  model and theorems of success exclude all of these. Memory is a list of bytes, or none for a null pointer, and every access checks its bounds. Sizes are
  natural numbers below \<open>2 ^ 64\<close> with the wrap-around of \<open>uint64_t\<close> and \<open>uint32_t\<close> written out (\<open>add64\<close>, \<open>sub64\<close>, \<open>u32\<close>);
  values of cells are words of their width. A template over integral types is one definition over a word type (codecs and
  filters) or over a description of the type with the usual promotions (dimensions). Loops are recursive functions with
  a termination proof. The growing of an allocation, which may not end, is a partial function, and the loops over the bits of a
  double delta have a branch for the state in which they would go on without progress.

  \<^bold>\<open>Theories\<close>, in the order in which they build on each other:

  \<^item> \<open>Tdb_Prelude\<close>: sizes, memory, little-endian integers, results, loops over lists that may fail.
  \<^item> \<open>Tdb_Status\<close> (\<open>misc/status.{h,cc}\<close>): codes and the packed array of a status; what the constructor does on every
    code and length of message.
  \<^item> \<open>Tdb_Enums\<close> (\<open>enums/*.h\<close>): the fourteen enumerations. The locale \<open>str_enum\<close> is their contract, that parsing is the
    inverse of printing; it is interpreted for each of them.
  \<^item> \<open>Tdb_Buffer\<close> (\<open>buffer/*.{h,cc}\<close>): \<open>Buffer\<close>, \<open>ConstBuffer\<close>, \<open>PreallocatedBuffer\<close> and \<open>BufferList\<close>. The locales \<open>byte_sink\<close> and
    \<open>byte_source\<close> say what every container that is written at its end, or read from its front, promises; they are interpreted for the
    buffers here and for filter buffers and tiles later. The lemmas show that writes are safe, that what was written
    is read back, and for which sizes an allocation grows.
  \<^item> \<open>Tdb_Serial\<close>: serialization on top of the buffers. \<open>Tdb_Cells\<close>: memory as an array of cells.
  \<^item> \<open>Tdb_Uri\<close> (\<open>misc/utils.cc\<close>, \<open>misc/uri.cc\<close>, \<open>misc/uuid.cc\<close>, and parts of \<open>filesystem/posix.cc\<close>, \<open>query/writer.cc\<close>,
    \<open>storage_manager/consolidator.cc\<close>): parsing numbers, paths, URIs, and making and reading the names of fragments.
  \<^item> \<open>Lru_Cache\<close> (\<open>cache/lru_cache.{h,cc}\<close> and the tile cache of \<open>storage_manager/storage_manager.cc\<close>): nodes have identities, so
    that stale iterators show. The cache refines a list in the order of use; the reachable states without overwriting are
    safe, and overwriting and \<open>clear\<close> are shown to break the cache.
  \<^item> \<open>Rle_Compressor\<close>, \<open>Dd_Compressor\<close> (\<open>compressors/\<close>): run-length and double-delta coding, with round trips, bounds on the size, and the
    one double delta that is lost.
  \<^item> \<open>Filter_Buffer\<close> (\<open>filter/filter_buffer.{h,cc}\<close>): the list of buffers and views that filters work on.
    \<open>Filter_Interface\<close> (\<open>filter/filter.h\<close>, \<open>filter/noop_filter.cc\<close>) has the locale \<open>chunk_filter\<close>: after a successful forward run, the reverse run
    on the bytes that it wrote restores the chunk and the metadata of the filters before it.
    \<open>Filter_Parts\<close> has what filters that work part by part share, with the locale \<open>part_coder\<close>, a sublocale of \<open>chunk_filter\<close>.
  \<^item> \<open>Positive_Delta\<close>, \<open>Byteshuffle\<close>, \<open>Checksum_Filter\<close>, \<open>Compression_Filter\<close> (\<open>filter/*_filter.cc\<close>): each filter, and that it is a \<open>chunk_filter\<close>.
    \<open>Part_Codecs\<close> has the contract \<open>part_codec\<close> of the codecs that the compression filter calls, \<open>Lib_Codecs\<close> the codecs that
    call a library (\<open>gzip\<close>, \<open>zstd\<close>, \<open>lz4\<close>, \<open>bzip\<close>). For the positive delta it is also shown when the forward run
    succeeds, and for checksums exactly which data is accepted.
  \<^item> \<open>Chunked_Buffer\<close>, \<open>Tdb_Tile\<close> (\<open>tile/*.{h,cc}\<close>): chunks of fixed or varying size in separate blocks or one. The locale
    \<open>byte_store\<close> says that a store behaves as a list of bytes under writes at any position. Both ways of addressing refine it and
    therefore agree.
  \<^item> \<open>Filter_Objects\<close> (\<open>filter/filter.cc\<close>, the constructors, options and serialization of all filters, and of the pipeline).
  \<^item> \<open>Filter_Pipeline\<close> (\<open>filter/filter_pipeline.{h,cc}\<close>): filtering and unfiltering of tiles and the skipping of chunks.
    \<open>Pipeline_Round_Trip\<close>, \<open>Pipeline_Tiles\<close> and \<open>Pipeline_Skips\<close> prove, for every list of filters that satisfy \<open>chunk_filter\<close>, that the
    format of the filtered buffer is read back, that the tile is restored, and that skipping chunks loses no cell that was asked for.
    \<open>Tile_Filtering\<close> puts the filters of the code in and has the resulting properties of tiles.
  \<^item> \<open>Tdb_Range\<close> (\<open>misc/types.h\<close>), \<open>Tdb_Double\<close> (the arithmetic of \<open>double\<close> in overlap ratios), \<open>Dimension_Ops\<close> (\<open>array_schema/dimension.{h,cc}\<close>): domains, tile
    extents and the operations on ranges, with the partition of a range by splitting and the alignment of ranges to tiles.

  \<^bold>\<open>Parameters and what is assumed of them.\<close>

  \<^item> The allocator decides for every size whether it succeeds and what the memory has. Theorems that promise success
    assume that it does not fail (\<open>alloc_total\<close>); safety theorems assume nothing.
  \<^item> zlib, Zstandard, LZ4, bzip2 (\<open>codec_libs\<close>): the documented inverse of decompression for Zstandard and bzip2 is a
    hypothesis (\<open>zstd_ok\<close>, \<open>bzip_ok\<close>). GZip and LZ4 are modelled, but the code's handling of their results does not allow a round trip in
    general, so pipelines with them are not among the lossless ones.
  \<^item> OpenSSL's digests: only their fixed length is assumed (\<open>digest_ok\<close>).
  \<^item> The configuration parameter that switches off the validation of checksums, the clock, random bytes, the current and the home
    directory, the order of the buffers of a pool, and the instances of the dimension templates for \<open>float\<close> and \<open>double\<close>.

  \<^bold>\<open>Bounds.\<close> The pipeline adds 32-bit sizes of data and metadata. The theorems on tiles bound each block of memory by \<open>2 ^ 28\<close>
  bytes and the number of filters by 14, so that the metadata, which grows by at most one block per filter, stays below \<open>2 ^ 32\<close>; chunks of
  the code are at most 64 KiB by default. Compressed buffers are bounded by \<open>2 ^ 59\<close> bytes in the theorems on codecs. Ratios of ranges are
  exact up to \<open>2 ^ 53\<close> values. No definition has fuel.

  \<^bold>\<open>Where the machine decides.\<close> C++ leaves the overflow of signed integers undefined. Dimensions treat it as undefined behaviour. Double deltas of 64-bit
  values and the differences of the positive-delta filter wrap around instead, because the code is written for that; double deltas of types of at
  most 32 bits do not overflow. The byte shuffle has variants for SSE2 and AVX2 instructions, which are intrinsics and not modelled; the
  portable variant is. The code is read for a little-endian machine.

  \<^bold>\<open>What is not modelled.\<close> Input and output (the file systems, the REST client, logging), the C and C++ interfaces, encryption and the bit shuffle, which call
  external code; the run functions of the bit-width-reduction filter; sharing of memory by shallow copies; threads, since the
  cache takes its lock for every operation and the chunks of a tile are independent of each other; and the parts of the engine above tiles
  (array schema, fragment metadata, R-tree, subarrays, queries, consolidation), of which only the ranges of dimensions and the names of fragments are.
\<close>

end
